(* ===== verification/Prelude.thy ===== *)
theory Prelude
  imports Main "HOL-Library.Word"
begin

text \<open>
  Shared vocabulary of the development: the machine types the Rust code uses, its
  \<open>Result\<close> as a sum with the error on the left, the fact collections the component
  theories fill, and generic lemmas on lists, words and maps.
\<close>

unbundle bit_operations_syntax

section \<open>Machine types\<close>

type_synonym u8 = "8 word"
type_synonym u16 = "16 word"
type_synonym u32 = "32 word"
type_synonym u64 = "64 word"

text \<open>An \<open>i32\<close> or \<open>i64\<close> is its two's complement word, read with \<open>sint\<close>.\<close>

type_synonym i32 = "32 word"
type_synonym i64 = "64 word"

text \<open>An \<open>f64\<close> is its IEEE-754 bit pattern, which is what \<open>to_bits\<close> and \<open>from_bits\<close> exchange.\<close>

type_synonym f64 = "64 word"

section \<open>Fact collections\<close>

named_theorems codec \<open>encode/decode round trips and field projections of packed words\<close>
named_theorems bounds \<open>sizes, widths and index bounds\<close>
named_theorems wf_simps \<open>preservation of well-formedness invariants\<close>

section \<open>Results\<close>

text \<open>
  Rust's \<open>Result<T, E>\<close> is \<open>'e + 't\<close>: \<open>Inl\<close> is \<open>Err\<close>, \<open>Inr\<close> is \<open>Ok\<close>.
  \<open>rbind\<close> is the \<open>?\<close> operator.
\<close>

definition rbind :: "'e + 'a \<Rightarrow> ('a \<Rightarrow> 'e + 'b) \<Rightarrow> 'e + 'b" where
  "rbind r f = (case r of Inl e \<Rightarrow> Inl e | Inr x \<Rightarrow> f x)"

lemma rbind_simps [simp]:
  "rbind (Inl e) f = Inl e"
  "rbind (Inr x) f = f x"
  by (simp_all add: rbind_def)

lemma rbind_eq_Inr [simp]: "rbind r f = Inr y \<longleftrightarrow> (\<exists>x. r = Inr x \<and> f x = Inr y)"
  by (cases r) auto

lemma rbind_eq_Inl: "rbind r f = Inl e \<longleftrightarrow> r = Inl e \<or> (\<exists>x. r = Inr x \<and> f x = Inl e)"
  by (cases r) auto

text \<open>\<open>ok_or\<close>: an option with the error used when it is \<open>None\<close>.\<close>

definition ok_or :: "'a option \<Rightarrow> 'e \<Rightarrow> 'e + 'a" where
  "ok_or x e = (case x of None \<Rightarrow> Inl e | Some v \<Rightarrow> Inr v)"

lemma ok_or_simps [simp]: "ok_or None e = Inl e" "ok_or (Some v) e = Inr v"
  by (simp_all add: ok_or_def)

lemma ok_or_eq_Inr [simp]: "ok_or x e = Inr v \<longleftrightarrow> x = Some v"
  by (cases x) auto

section \<open>Lists\<close>

text \<open>\<open>slice.get(i)\<close>: reading past the end is \<open>None\<close>.\<close>

definition list_get :: "'a list \<Rightarrow> nat \<Rightarrow> 'a option" where
  "list_get xs i = (if i < length xs then Some (xs ! i) else None)"

lemma list_get_eq_Some [simp]: "list_get xs i = Some x \<longleftrightarrow> i < length xs \<and> xs ! i = x"
  by (auto simp: list_get_def)

lemma list_get_eq_None [simp]: "list_get xs i = None \<longleftrightarrow> length xs \<le> i"
  by (auto simp: list_get_def)

lemma list_get_append: "i < length xs \<Longrightarrow> list_get (xs @ ys) i = list_get xs i"
  by (simp add: list_get_def nth_append)

lemma list_get_code [simp]:
  "list_get [] i = None"
  "list_get (x # xs) 0 = Some x"
  "list_get (x # xs) (Suc i) = list_get xs i"
  by (auto simp: list_get_def)

text \<open>A table filled by writing each element at its own index.\<close>

lemma fold_update_length [simp]:
  "length (fold (\<lambda>x t. t[f x := g x]) xs t) = length t"
  by (induction xs arbitrary: t) simp_all

lemma fold_update_other:
  "i \<notin> f ` set xs \<Longrightarrow> fold (\<lambda>x t. t[f x := g x]) xs t ! i = t ! i"
  by (induction xs arbitrary: t) auto

lemma fold_update_hit:
  assumes "distinct (map f xs)" "x \<in> set xs" "f x < length t"
  shows "fold (\<lambda>x t. t[f x := g x]) xs t ! f x = g x"
  using assms
proof (induction xs arbitrary: t)
  case (Cons y ys)
  show ?case
  proof (cases "x = y")
    case True
    with Cons.prems have "f x \<notin> f ` set ys" by simp
    with True Cons.prems show ?thesis by (simp add: fold_update_other)
  next
    case False
    with Cons show ?thesis by simp
  qed
qed simp

section \<open>Words\<close>

lemma bit_word_lt [dest]: "bit (w :: 'a::len word) n \<Longrightarrow> n < LENGTH('a)"
  by (rule bit_imp_le_length)

lemma unat_ucast_up [simp]:
  "LENGTH('a::len) \<le> LENGTH('b::len) \<Longrightarrow> unat (ucast (w :: 'a word) :: 'b word) = unat w"
  by (simp add: unsigned_ucast_eq take_bit_nat_eq_self order_less_le_trans [OF unsigned_less])

lemma unat_of_nat_small: "n < 2 ^ LENGTH('a) \<Longrightarrow> unat (word_of_nat n :: 'a::len word) = n"
  by (simp add: unsigned_of_nat take_bit_nat_eq_self)

lemma unat_eq_iff [simp]: "unat (v :: 'a::len word) = unat w \<longleftrightarrow> v = w"
  by (simp add: word_unat_eq_iff)

lemma unat_u8_lt [bounds]: "unat (b :: u8) < 256"
  using unsigned_less [of b, where ?'a = nat] by simp

lemma unat_u16_lt [bounds]: "unat (b :: u16) < 65536"
  using unsigned_less [of b, where ?'a = nat] by simp

lemma unat_u32_lt [bounds]: "unat (b :: u32) < 4294967296"
  using unsigned_less [of b, where ?'a = nat] by simp

lemma and_mask_eq_self: "unat (w :: 'a::len word) < 2 ^ n \<Longrightarrow> w AND mask n = w"
  by (simp add: word_unat_eq_iff unsigned_take_bit_eq take_bit_nat_eq_self flip: take_bit_eq_mask)

end
