(* ===== verification/Opcodes.thy ===== *)
theory Opcodes
  imports Prelude
begin

text \<open>
  The core instruction encoding of \<open>v12-bytecode/src/opcode.rs\<close>: the \<open>Opcode\<close>
  enum with its frozen discriminant bytes, the byte decoder obtained by inverting
  \<open>ALL_OPCODES\<close> into a 256-entry table, and the 32-bit \<open>Instr\<close> word with its
  packing constructors, field accessors and in-place patching of immediates.
\<close>

section \<open>Opcodes and their bytes\<close>

datatype (plugins only: code) opcode =
    Op_Move | Op_LoadConst | Op_LoadInt | Op_Wide
  | Op_Add | Op_Sub | Op_Mul | Op_Div
  | Op_Mod | Op_Pow | Op_Neg | Op_BitAnd
  | Op_BitOr | Op_BitXor | Op_Shl | Op_Shr
  | Op_UShr | Op_BitNot | Op_Eq | Op_Ne
  | Op_Lt | Op_Le | Op_Gt | Op_Ge
  | Op_StrictEq | Op_StrictNe | Op_Not | Op_TypeOf
  | Op_Jump | Op_JumpIfFalse | Op_JumpIfTrue | Op_LoopHeader
  | Op_Call | Op_Return | Op_Throw | Op_GetProperty
  | Op_SetProperty | Op_DeleteProperty | Op_NewObject | Op_NewArray
  | Op_Closure | Op_NewEnvironment | Op_GetEnvSlot | Op_SetEnvSlot
  | Op_CreateGenerator | Op_SuspendYield | Op_Await | Op_In
  | Op_InstanceOf | Op_CopyArrayRest | Op_CheckIsArray | Op_CallApply
  | Op_CopyObjectRest | Op_ArrayAppend | Op_GetGlobal | Op_SetGlobal
  | Op_Construct | Op_GetNewTarget | Op_ToNumber | Op_MergeObject
  | Op_DefineAccessor | Op_JumpIfNullish | Op_SetPrototype | Op_GetIterator
  | Op_IteratorNext | Op_IteratorClose | Op_DefineMethod | Op_GetGlobalLenient
  | Op_GenResumeMode | Op_ToPropertyKey | Op_GetAsyncIterator | Op_GetPrototype
  | Op_PopEnvironment | Op_DefineAccessorEnumerable | Op_SuperConstruct | Op_SuperConstructApply
  | Op_CheckThis | Op_CheckThisUnbound | Op_DerivedResult | Op_CheckHeritage
  | Op_DefineField

text \<open>The discriminant, \<open>op as u8\<close>.\<close>

primrec opcode_byte :: "opcode \<Rightarrow> u8" where
  "opcode_byte Op_Move = 1"
| "opcode_byte Op_LoadConst = 2"
| "opcode_byte Op_LoadInt = 3"
| "opcode_byte Op_Wide = 4"
| "opcode_byte Op_Add = 10"
| "opcode_byte Op_Sub = 11"
| "opcode_byte Op_Mul = 12"
| "opcode_byte Op_Div = 13"
| "opcode_byte Op_Mod = 14"
| "opcode_byte Op_Pow = 15"
| "opcode_byte Op_Neg = 16"
| "opcode_byte Op_BitAnd = 17"
| "opcode_byte Op_BitOr = 18"
| "opcode_byte Op_BitXor = 19"
| "opcode_byte Op_Shl = 20"
| "opcode_byte Op_Shr = 21"
| "opcode_byte Op_UShr = 22"
| "opcode_byte Op_BitNot = 23"
| "opcode_byte Op_Eq = 24"
| "opcode_byte Op_Ne = 25"
| "opcode_byte Op_Lt = 26"
| "opcode_byte Op_Le = 27"
| "opcode_byte Op_Gt = 28"
| "opcode_byte Op_Ge = 29"
| "opcode_byte Op_StrictEq = 30"
| "opcode_byte Op_StrictNe = 31"
| "opcode_byte Op_Not = 32"
| "opcode_byte Op_TypeOf = 33"
| "opcode_byte Op_Jump = 34"
| "opcode_byte Op_JumpIfFalse = 35"
| "opcode_byte Op_JumpIfTrue = 36"
| "opcode_byte Op_LoopHeader = 37"
| "opcode_byte Op_Call = 38"
| "opcode_byte Op_Return = 39"
| "opcode_byte Op_Throw = 40"
| "opcode_byte Op_GetProperty = 41"
| "opcode_byte Op_SetProperty = 42"
| "opcode_byte Op_DeleteProperty = 43"
| "opcode_byte Op_NewObject = 44"
| "opcode_byte Op_NewArray = 45"
| "opcode_byte Op_Closure = 46"
| "opcode_byte Op_NewEnvironment = 47"
| "opcode_byte Op_GetEnvSlot = 48"
| "opcode_byte Op_SetEnvSlot = 49"
| "opcode_byte Op_CreateGenerator = 50"
| "opcode_byte Op_SuspendYield = 51"
| "opcode_byte Op_Await = 52"
| "opcode_byte Op_In = 53"
| "opcode_byte Op_InstanceOf = 54"
| "opcode_byte Op_CopyArrayRest = 55"
| "opcode_byte Op_CheckIsArray = 56"
| "opcode_byte Op_CallApply = 57"
| "opcode_byte Op_CopyObjectRest = 58"
| "opcode_byte Op_ArrayAppend = 59"
| "opcode_byte Op_GetGlobal = 60"
| "opcode_byte Op_SetGlobal = 61"
| "opcode_byte Op_Construct = 62"
| "opcode_byte Op_GetNewTarget = 63"
| "opcode_byte Op_ToNumber = 64"
| "opcode_byte Op_MergeObject = 65"
| "opcode_byte Op_DefineAccessor = 66"
| "opcode_byte Op_JumpIfNullish = 67"
| "opcode_byte Op_SetPrototype = 68"
| "opcode_byte Op_GetIterator = 69"
| "opcode_byte Op_IteratorNext = 70"
| "opcode_byte Op_IteratorClose = 71"
| "opcode_byte Op_DefineMethod = 72"
| "opcode_byte Op_GetGlobalLenient = 73"
| "opcode_byte Op_GenResumeMode = 74"
| "opcode_byte Op_ToPropertyKey = 75"
| "opcode_byte Op_GetAsyncIterator = 76"
| "opcode_byte Op_GetPrototype = 77"
| "opcode_byte Op_PopEnvironment = 78"
| "opcode_byte Op_DefineAccessorEnumerable = 79"
| "opcode_byte Op_SuperConstruct = 80"
| "opcode_byte Op_SuperConstructApply = 81"
| "opcode_byte Op_CheckThis = 82"
| "opcode_byte Op_CheckThisUnbound = 83"
| "opcode_byte Op_DerivedResult = 84"
| "opcode_byte Op_CheckHeritage = 85"
| "opcode_byte Op_DefineField = 86"

definition ALL_OPCODES :: "opcode list" where
  "ALL_OPCODES = [
    Op_Move, Op_LoadConst, Op_LoadInt, Op_Wide,
    Op_Add, Op_Sub, Op_Mul, Op_Div,
    Op_Mod, Op_Pow, Op_Neg, Op_BitAnd,
    Op_BitOr, Op_BitXor, Op_Shl, Op_Shr,
    Op_UShr, Op_BitNot, Op_Eq, Op_Ne,
    Op_Lt, Op_Le, Op_Gt, Op_Ge,
    Op_StrictEq, Op_StrictNe, Op_Not, Op_TypeOf,
    Op_Jump, Op_JumpIfFalse, Op_JumpIfTrue, Op_LoopHeader,
    Op_Call, Op_Return, Op_Throw, Op_GetProperty,
    Op_SetProperty, Op_DeleteProperty, Op_NewObject, Op_NewArray,
    Op_Closure, Op_NewEnvironment, Op_GetEnvSlot, Op_SetEnvSlot,
    Op_CreateGenerator, Op_SuspendYield, Op_Await, Op_In,
    Op_InstanceOf, Op_CopyArrayRest, Op_CheckIsArray, Op_CallApply,
    Op_CopyObjectRest, Op_ArrayAppend, Op_GetGlobal, Op_SetGlobal,
    Op_Construct, Op_GetNewTarget, Op_ToNumber, Op_MergeObject,
    Op_DefineAccessor, Op_JumpIfNullish, Op_SetPrototype, Op_GetIterator,
    Op_IteratorNext, Op_IteratorClose, Op_DefineMethod, Op_GetGlobalLenient,
    Op_GenResumeMode, Op_ToPropertyKey, Op_GetAsyncIterator, Op_GetPrototype,
    Op_PopEnvironment, Op_DefineAccessorEnumerable, Op_SuperConstruct, Op_SuperConstructApply,
    Op_CheckThis, Op_CheckThisUnbound, Op_DerivedResult, Op_CheckHeritage,
    Op_DefineField]"

definition OPCODE_COUNT :: nat where
  "OPCODE_COUNT = length ALL_OPCODES"

text \<open>The byte-indexed table, filled in the order of the list, and the decoder reading it.\<close>

definition invert_all_opcodes :: "opcode option list" where
  "invert_all_opcodes =
     fold (\<lambda>op table. table[unat (opcode_byte op) := Some op]) ALL_OPCODES (replicate 256 None)"

definition from_byte :: "u8 \<Rightarrow> opcode option" where
  "from_byte byte = invert_all_opcodes ! unat byte"

definition opcode_try_from :: "u8 \<Rightarrow> u8 + opcode" where
  "opcode_try_from byte = ok_or (from_byte byte) byte"

lemma opcode_byte_distinct: "distinct (map opcode_byte ALL_OPCODES)"
  by (simp add: ALL_OPCODES_def)

lemma ALL_OPCODES_complete [simp]: "op \<in> set ALL_OPCODES"
  by (cases op) (simp_all add: ALL_OPCODES_def)

lemma OPCODE_COUNT_eq: "OPCODE_COUNT = 81"
  by (simp add: OPCODE_COUNT_def ALL_OPCODES_def)

lemma opcode_byte_inj [simp]: "opcode_byte op = opcode_byte op' \<longleftrightarrow> op = op'"
  using opcode_byte_distinct by (auto simp: distinct_map inj_on_def)

lemma from_byte_opcode_byte [simp, codec]: "from_byte (opcode_byte op) = Some op"
proof -
  have "distinct (map (\<lambda>op. unat (opcode_byte op)) ALL_OPCODES)"
    using opcode_byte_distinct by (simp add: distinct_map inj_on_def)
  then show ?thesis
    unfolding from_byte_def invert_all_opcodes_def
    by (intro fold_update_hit) (simp_all add: unat_u8_lt)
qed

lemma from_byte_unassigned: "b \<notin> range opcode_byte \<Longrightarrow> from_byte b = None"
  unfolding from_byte_def invert_all_opcodes_def
  by (subst fold_update_other) (auto simp: unat_u8_lt)

lemma from_byte_eq_Some: "from_byte b = Some op \<longleftrightarrow> b = opcode_byte op"
  by (cases "b \<in> range opcode_byte") (auto simp: from_byte_unassigned)

text \<open>
  The byte decoder is the exact inverse of the discriminants: a byte decodes to an
  opcode if and only if it is that opcode's discriminant, an unassigned byte is returned
  as the error, and exactly \<open>OPCODE_COUNT\<close> = 81 of the 256 bytes are assigned.
\<close>

theorem opcode_decode_exact:
  "(opcode_try_from b = Inr op \<longleftrightarrow> opcode_byte op = b)
   \<and> (opcode_try_from b = Inl b' \<longleftrightarrow> b \<notin> range opcode_byte \<and> b' = b)
   \<and> card {b. \<exists>op. from_byte b = Some op} = OPCODE_COUNT"
proof (intro conjI)
  show "opcode_try_from b = Inr op \<longleftrightarrow> opcode_byte op = b"
    by (auto simp: opcode_try_from_def from_byte_eq_Some)
  show "opcode_try_from b = Inl b' \<longleftrightarrow> b \<notin> range opcode_byte \<and> b' = b"
    by (cases "from_byte b") (auto simp: opcode_try_from_def from_byte_eq_Some from_byte_unassigned)
  have "{b. \<exists>op. from_byte b = Some op} = set (map opcode_byte ALL_OPCODES)"
    by (auto simp: from_byte_eq_Some)
  then show "card {b. \<exists>op. from_byte b = Some op} = OPCODE_COUNT"
    using distinct_card [OF opcode_byte_distinct] by (simp add: OPCODE_COUNT_def)
qed

section \<open>Instruction words\<close>

text \<open>\<open>Instr(u32)\<close>: bits 31..24 opcode, 23..16 \<open>a\<close>, 15..8 \<open>b\<close>, 7..0 \<open>c\<close>.\<close>

type_synonym instr = u32

definition MAX_IMM24 :: u32 where "MAX_IMM24 = 0x00FFFFFF"
definition OPCODE_MASK :: u32 where "OPCODE_MASK = 0xFF000000"
definition LOW_16_MASK :: u32 where "LOW_16_MASK = 0x0000FFFF"

definition instr_new :: "opcode \<Rightarrow> u8 \<Rightarrow> u8 \<Rightarrow> u8 \<Rightarrow> instr" where
  "instr_new op a b c =
     push_bit 24 (ucast (opcode_byte op)) OR push_bit 16 (ucast a) OR push_bit 8 (ucast b) OR ucast c"

definition instr_new_imm16 :: "opcode \<Rightarrow> u8 \<Rightarrow> u16 \<Rightarrow> instr" where
  "instr_new_imm16 op a imm16 = instr_new op a (ucast (drop_bit 8 imm16)) (ucast imm16)"

text \<open>The release build masks an oversized immediate; the debug build asserts it fits.\<close>

definition instr_new_imm24 :: "opcode \<Rightarrow> u32 \<Rightarrow> instr" where
  "instr_new_imm24 op imm24 = push_bit 24 (ucast (opcode_byte op)) OR (imm24 AND MAX_IMM24)"

definition instr_opbyte :: "instr \<Rightarrow> u8" where
  "instr_opbyte i = ucast (drop_bit 24 i)"

definition instr_op :: "instr \<Rightarrow> opcode option" where
  "instr_op i = from_byte (instr_opbyte i)"

definition instr_a :: "instr \<Rightarrow> u8" where "instr_a i = ucast (drop_bit 16 i)"
definition instr_b :: "instr \<Rightarrow> u8" where "instr_b i = ucast (drop_bit 8 i)"
definition instr_c :: "instr \<Rightarrow> u8" where "instr_c i = ucast i"

definition instr_imm16 :: "instr \<Rightarrow> u16" where
  "instr_imm16 i = push_bit 8 (ucast (instr_b i)) OR ucast (instr_c i)"

definition instr_imm24 :: "instr \<Rightarrow> u32" where
  "instr_imm24 i = i AND MAX_IMM24"

definition set_imm16 :: "instr \<Rightarrow> u16 \<Rightarrow> instr" where
  "set_imm16 i imm16 = (i AND NOT LOW_16_MASK) OR ucast imm16"

definition set_imm24 :: "instr \<Rightarrow> u32 \<Rightarrow> instr" where
  "set_imm24 i imm24 = (i AND OPCODE_MASK) OR (imm24 AND MAX_IMM24)"

subsection \<open>Masks as bit ranges\<close>

lemma MAX_IMM24_mask: "MAX_IMM24 = mask 24"
  by (simp add: MAX_IMM24_def mask_eq_exp_minus_1)

lemma LOW_16_MASK_mask: "LOW_16_MASK = mask 16"
  by (simp add: LOW_16_MASK_def mask_eq_exp_minus_1)

lemma OPCODE_MASK_mask: "OPCODE_MASK = NOT (mask 24)"
  by (simp add: OPCODE_MASK_def mask_eq_exp_minus_1 not_eq_complement)

lemmas mask_defs = MAX_IMM24_mask LOW_16_MASK_mask OPCODE_MASK_mask

lemmas field_defs = instr_opbyte_def instr_a_def instr_b_def instr_c_def instr_imm16_def
  instr_imm24_def mask_defs

subsection \<open>Projections of packed words\<close>

lemma instr_new_fields [simp, codec]:
  "instr_opbyte (instr_new op a b c) = opcode_byte op"
  "instr_a (instr_new op a b c) = a"
  "instr_b (instr_new op a b c) = b"
  "instr_c (instr_new op a b c) = c"
  by (rule bit_word_eqI, auto simp: field_defs instr_new_def bit_simps)+

lemma instr_op_new [simp, codec]: "instr_op (instr_new op a b c) = Some op"
  by (simp add: instr_op_def)

lemma instr_imm16_new [simp, codec]: "instr_imm16 (instr_new_imm16 op a k) = k"
  unfolding instr_new_imm16_def instr_imm16_def instr_new_fields
  by (rule bit_word_eqI) (auto simp: bit_simps not_less)

lemma instr_new_imm16_fields [simp, codec]:
  "instr_op (instr_new_imm16 op a k) = Some op"
  "instr_a (instr_new_imm16 op a k) = a"
  by (simp_all add: instr_new_imm16_def)

lemma instr_new_imm24_fields [codec]:
  "instr_op (instr_new_imm24 op k) = Some op"
  "instr_imm24 (instr_new_imm24 op k) = k AND MAX_IMM24"
proof -
  have "instr_opbyte (instr_new_imm24 op k) = opcode_byte op"
    by (rule bit_word_eqI) (auto simp: field_defs instr_new_imm24_def bit_simps)
  then show "instr_op (instr_new_imm24 op k) = Some op" by (simp add: instr_op_def)
  show "instr_imm24 (instr_new_imm24 op k) = k AND MAX_IMM24"
    by (rule bit_word_eqI) (auto simp: field_defs instr_new_imm24_def bit_simps)
qed

text \<open>Every word is its opcode byte and its three slots: nothing else is stored.\<close>

lemma instr_decompose:
  "i = push_bit 24 (ucast (instr_opbyte i)) OR push_bit 16 (ucast (instr_a i))
         OR push_bit 8 (ucast (instr_b i)) OR ucast (instr_c i)"
proof (rule bit_word_eqI)
  fix n assume "n < LENGTH(32)"
  then show "bit i n \<longleftrightarrow> bit (push_bit 24 (ucast (instr_opbyte i)) OR push_bit 16 (ucast (instr_a i))
         OR push_bit 8 (ucast (instr_b i)) OR ucast (instr_c i) :: instr) n"
    by (cases "n < 8"; cases "n < 16"; cases "n < 24") (auto simp: field_defs bit_simps not_less)
qed

lemma instr_new_unique: "instr_op i = Some op \<Longrightarrow> instr_new op (instr_a i) (instr_b i) (instr_c i) = i"
  using instr_decompose [of i] by (simp add: instr_op_def from_byte_eq_Some instr_new_def)

text \<open>
  Packing and unpacking an instruction word are mutually inverse: the accessors read
  back exactly the opcode and the three operand bytes that were packed, and every word
  whose opcode byte is assigned is the packing of what its accessors read.
\<close>

theorem instr_pack_unpack:
  "(instr_op i = Some op \<and> instr_a i = a \<and> instr_b i = b \<and> instr_c i = c)
     \<longleftrightarrow> i = instr_new op a b c"
  by (auto simp: instr_new_unique)

subsection \<open>Patching immediates\<close>

lemma set_imm16_fields [simp, codec]:
  "instr_opbyte (set_imm16 i k) = instr_opbyte i"
  "instr_a (set_imm16 i k) = instr_a i"
  "instr_imm16 (set_imm16 i k) = k"
proof -
  show "instr_opbyte (set_imm16 i k) = instr_opbyte i" "instr_a (set_imm16 i k) = instr_a i"
    by (rule bit_word_eqI, auto simp: field_defs set_imm16_def bit_simps)+
  show "instr_imm16 (set_imm16 i k) = k"
  proof (rule bit_word_eqI)
    fix n assume "n < LENGTH(16)"
    then show "bit (instr_imm16 (set_imm16 i k)) n \<longleftrightarrow> bit k n"
      by (cases "n < 8") (auto simp: field_defs set_imm16_def bit_simps not_less)
  qed
qed

lemma set_imm24_fields [simp, codec]:
  "instr_opbyte (set_imm24 i k) = instr_opbyte i"
  "instr_imm24 (set_imm24 i k) = k AND MAX_IMM24"
  by (rule bit_word_eqI, auto simp: field_defs set_imm24_def bit_simps)+

lemma instr_op_set_imm [simp, codec]:
  "instr_op (set_imm16 i k) = instr_op i"
  "instr_op (set_imm24 i t) = instr_op i"
  by (simp_all add: instr_op_def)

lemma and_MAX_IMM24: "t \<le> MAX_IMM24 \<Longrightarrow> t AND MAX_IMM24 = t"
  unfolding MAX_IMM24_mask
  by (rule and_mask_eq_self) (simp add: word_le_nat_alt mask_eq_exp_minus_1)

text \<open>
  Backpatching rewrites only the immediate: after \<open>set_imm16\<close> the opcode and the
  condition register survive and the 16-bit immediate is the new one; after \<open>set_imm24\<close>
  the opcode survives and the 24-bit immediate is the new one when it fits.
\<close>

theorem set_imm_patches_only_immediate:
  "instr_op (set_imm16 i k) = instr_op i \<and> instr_a (set_imm16 i k) = instr_a i
     \<and> instr_imm16 (set_imm16 i k) = k
   \<and> instr_op (set_imm24 i t) = instr_op i
   \<and> (instr_imm24 (set_imm24 i t) = (if t \<le> MAX_IMM24 then t else t AND MAX_IMM24))"
  by (simp add: and_MAX_IMM24)

end
