(* ===== verification/BytecodeErrors.thy ===== *)
theory BytecodeErrors
  imports Opcodes
begin

text \<open>
  The structured error type of \<open>v12-bytecode/src/error.rs\<close>. The free-text reason of
  \<open>InvalidFunction\<close> is one of the four messages \<open>FunctionBytecode::validate\<close>
  formats, modelled by the message and the numbers it prints, or one of the two of
  \<open>decode_parked_call\<close> in the interpreter. The rendered operand
  of \<open>RegisterOutOfRange\<close> is the string the code builds.
\<close>

datatype invalid_reason =
    HandlerRangeEmpty u32 u32
  | HandlerNotSorted u32
  | HandlerPartialOverlap u32 u32 u32 u32
  | HandlerDepthNotIncreasing u32 u32 u32 u32
  | PrefixWithoutNarrow
  | ParkedOnMalformedWide

text \<open>
  Fields in source order: \<open>TruncatedWide word\<close>, \<open>UnknownWideDiscriminant discriminant\<close>,
  \<open>HandlerTargetOutOfBounds target instrs\<close>, \<open>UnassignedOpcode pc byte\<close>,
  \<open>RegisterOutOfRange pc op operand reg max_regs\<close>,
  \<open>EnvSlotOutOfRange pc op depth slot env_slots\<close>, \<open>ConstIdOutOfRange pc op id pool\<close>,
  \<open>BranchTargetOutOfRange pc op target instrs\<close>, \<open>FlagNotBoolean pc op value\<close>.
  \<open>usize\<close> fields are \<open>nat\<close>.
\<close>

datatype (plugins only: code) bytecode_error =
    TruncatedWide nat
  | WideHeaderNotWide
  | UnknownWideDiscriminant u32
  | ConstantPoolFull
  | InvalidFunction invalid_reason
  | ZeroMaxRegs
  | HandlerTargetOutOfBounds u32 nat
  | UnassignedOpcode u32 u8
  | RegisterOutOfRange u32 opcode string u32 u32
  | EnvSlotOutOfRange u32 opcode u32 u32 u32
  | ConstIdOutOfRange u32 opcode u32 nat
  | BranchTargetOutOfRange u32 opcode u32 nat
  | FlagNotBoolean u32 opcode u8

end
