(* ===== verification/ConstPool.thy ===== *)
theory ConstPool
  imports BytecodeErrors
begin

text \<open>
  The interning constant pool of \<open>v12-bytecode/src/lib.rs\<close>: constants, their
  deduplication keys and the pool with its key index, together with the contract an
  interner owes its clients, stated as a locale and interpreted by the pool.
\<close>

section \<open>Constants and keys\<close>

datatype const_val =
    C_F64 f64
  | C_Str32 u32
  | C_BigIntId u32
  | C_BigU64 u64
  | C_Null

text \<open>Discriminant tag and payload bits: \<open>-0.0\<close> and \<open>0.0\<close> differ, equal NaN payloads coincide.\<close>

fun const_key :: "const_val \<Rightarrow> u8 \<times> u64" where
  "const_key (C_F64 v) = (0, v)"
| "const_key (C_Str32 ident) = (1, ucast ident)"
| "const_key (C_BigIntId ident) = (2, ucast ident)"
| "const_key (C_BigU64 v) = (3, v)"
| "const_key C_Null = (4, 0)"

lemma ucast_u64_inj: "(ucast (x :: u32) :: u64) = ucast y \<longleftrightarrow> x = y"
proof
  assume "(ucast x :: u64) = ucast y"
  then have "unat (ucast x :: u64) = unat (ucast y :: u64)" by simp
  then show "x = y" by (simp del: unat_eq_iff add: word_unat_eq_iff)
qed simp

lemma const_key_inj: "const_key c = const_key c' \<longleftrightarrow> c = c'"
  by (cases c; cases c') (simp_all add: ucast_u64_inj)

section \<open>The pool\<close>

definition MAX_CONSTANTS :: nat where "MAX_CONSTANTS = 65535"

record const_pool =
  pool_consts :: "const_val list"
  pool_index :: "(u8 \<times> u64) \<rightharpoonup> u16"

definition pool_new :: const_pool where
  "pool_new = \<lparr>pool_consts = [], pool_index = Map.empty\<rparr>"

definition pool_insert :: "const_pool \<Rightarrow> const_val \<Rightarrow> bytecode_error + u16 \<times> const_pool" where
  "pool_insert p c =
     (case pool_index p (const_key c) of
        Some existing \<Rightarrow> Inr (existing, p)
      | None \<Rightarrow>
          if MAX_CONSTANTS \<le> length (pool_consts p) then Inl ConstantPoolFull
          else let idx = word_of_nat (length (pool_consts p))
               in Inr (idx, p\<lparr>pool_consts := pool_consts p @ [c],
                              pool_index := (pool_index p)(const_key c \<mapsto> idx)\<rparr>))"

definition pool_get :: "const_pool \<Rightarrow> u16 \<Rightarrow> const_val option" where
  "pool_get p idx = list_get (pool_consts p) (unat idx)"

definition pool_len :: "const_pool \<Rightarrow> nat" where
  "pool_len p = length (pool_consts p)"

text \<open>The index agrees with the list: it names the position of every constant and nothing else.\<close>

definition pool_wf :: "const_pool \<Rightarrow> bool" where
  "pool_wf p \<longleftrightarrow>
     length (pool_consts p) \<le> MAX_CONSTANTS
   \<and> (\<forall>k i. pool_index p k = Some i \<longleftrightarrow>
        (unat i < length (pool_consts p) \<and> const_key (pool_consts p ! unat i) = k))"

lemma pool_wf_new [wf_simps]: "pool_wf pool_new"
  by (simp add: pool_wf_def pool_new_def)

lemma pool_index_wf:
  "pool_wf p \<Longrightarrow> pool_index p k = Some i \<longleftrightarrow>
     (unat i < length (pool_consts p) \<and> const_key (pool_consts p ! unat i) = k)"
  unfolding pool_wf_def by blast

lemma pool_wf_length: "pool_wf p \<Longrightarrow> length (pool_consts p) \<le> MAX_CONSTANTS"
  by (simp add: pool_wf_def)

lemma unat_idx: "n < MAX_CONSTANTS \<Longrightarrow> unat (word_of_nat n :: u16) = n"
  by (simp add: MAX_CONSTANTS_def unat_of_nat)

lemma pool_wf_insert [wf_simps]:
  assumes wf: "pool_wf p" and ins: "pool_insert p c = Inr (i, p')"
  shows "pool_wf p'"
proof (cases "pool_index p (const_key c)")
  case (Some e)
  with wf ins show ?thesis by (simp add: pool_insert_def)
next
  case None
  let ?n = "length (pool_consts p)"
  from None ins have lt: "?n < MAX_CONSTANTS"
    by (auto simp: pool_insert_def split: if_splits)
  with None ins have p': "p' = p\<lparr>pool_consts := pool_consts p @ [c],
      pool_index := (pool_index p)(const_key c \<mapsto> word_of_nat ?n)\<rparr>"
    by (auto simp: pool_insert_def Let_def)
  have absent: "const_key (pool_consts p ! j) \<noteq> const_key c" if "j < ?n" for j
  proof
    assume eq: "const_key (pool_consts p ! j) = const_key c"
    from that lt have "unat (word_of_nat j :: u16) = j" by (simp add: unat_idx)
    with that eq have "pool_index p (const_key c) = Some (word_of_nat j)"
      by (simp add: pool_index_wf [OF wf])
    with None show False by simp
  qed
  show ?thesis
    unfolding pool_wf_def
  proof (intro conjI allI)
    show "length (pool_consts p') \<le> MAX_CONSTANTS" using lt by (simp add: p')
    fix k i
    show "pool_index p' k = Some i \<longleftrightarrow>
        (unat i < length (pool_consts p') \<and> const_key (pool_consts p' ! unat i) = k)"
    proof (cases "k = const_key c")
      case True
      have "unat i = ?n \<longleftrightarrow> i = word_of_nat ?n"
        by (metis lt unat_idx unat_eq_iff)
      with True absent show ?thesis
        by (auto simp: p' nth_append less_Suc_eq unat_idx [OF lt])
    next
      case False
      then show ?thesis by (auto simp: p' pool_index_wf [OF wf] nth_append less_Suc_eq)
    qed
  qed
qed

lemma pool_insert_gets:
  assumes wf: "pool_wf p" and ins: "pool_insert p c = Inr (i, p')"
  shows "pool_get p' i = Some c"
proof (cases "pool_index p (const_key c)")
  case (Some e)
  with ins pool_index_wf [OF wf, of "const_key c" e] show ?thesis
    by (auto simp: pool_insert_def pool_get_def const_key_inj)
next
  case None
  with ins show ?thesis
    by (auto simp: pool_insert_def pool_get_def Let_def unat_idx split: if_splits)
qed

lemma pool_insert_keeps:
  assumes "pool_insert p c = Inr (i, p')" "pool_get p j = Some d"
  shows "pool_get p' j = Some d"
  using assms
  by (auto simp: pool_insert_def pool_get_def Let_def nth_append split: option.splits if_splits)

lemma pool_insert_again:
  assumes wf: "pool_wf p" and ins: "pool_insert p c = Inr (i, p')"
  shows "pool_insert p' c = Inr (i, p')"
proof -
  have "pool_index p' (const_key c) = Some i"
    using ins by (auto simp: pool_insert_def Let_def split: option.splits if_splits)
  then show ?thesis by (simp add: pool_insert_def)
qed

lemma pool_get_inj:
  assumes "pool_wf p" "pool_get p i = Some c" "pool_get p j = Some c"
  shows "i = j"
proof -
  from assms have "pool_index p (const_key c) = Some i" "pool_index p (const_key c) = Some j"
    by (auto simp: pool_index_wf pool_get_def)
  then show ?thesis by simp
qed

section \<open>The contract of an interner\<close>

text \<open>
  What code that stores interned indices in instructions relies on: an index stays valid
  and keeps naming its value however many values are interned later.
\<close>

locale interner =
  fixes ins :: "'p \<Rightarrow> 'v \<Rightarrow> 'e + 'i \<times> 'p"
    and get :: "'p \<Rightarrow> 'i \<Rightarrow> 'v option"
    and invar :: "'p \<Rightarrow> bool"
  assumes ins_invar: "invar p \<Longrightarrow> ins p v = Inr (i, p') \<Longrightarrow> invar p'"
    and ins_get: "invar p \<Longrightarrow> ins p v = Inr (i, p') \<Longrightarrow> get p' i = Some v"
    and ins_keeps: "invar p \<Longrightarrow> ins p v = Inr (i, p') \<Longrightarrow> get p j = Some w \<Longrightarrow> get p' j = Some w"
    and ins_again: "invar p \<Longrightarrow> ins p v = Inr (i, p') \<Longrightarrow> ins p' v = Inr (i, p')"
    and get_inj: "invar p \<Longrightarrow> get p i = Some v \<Longrightarrow> get p j = Some v \<Longrightarrow> i = j"
begin

text \<open>Interning a list of values left to right, with the indices handed out.\<close>

fun ins_all :: "'p \<Rightarrow> 'v list \<Rightarrow> 'e + 'i list \<times> 'p" where
  "ins_all p [] = Inr ([], p)"
| "ins_all p (v # vs) =
     rbind (ins p v) (\<lambda>(i, p1). rbind (ins_all p1 vs) (\<lambda>(is, p2). Inr (i # is, p2)))"

lemma ins_all_invar: "invar p \<Longrightarrow> ins_all p vs = Inr (is, p') \<Longrightarrow> invar p'"
  by (induction vs arbitrary: p "is") (auto intro: ins_invar)

lemma ins_all_keeps:
  "invar p \<Longrightarrow> ins_all p vs = Inr (is, p') \<Longrightarrow> get p j = Some w \<Longrightarrow> get p' j = Some w"
  by (induction vs arbitrary: p "is") (auto intro: ins_invar ins_keeps)

lemma ins_all_get:
  "invar p \<Longrightarrow> ins_all p vs = Inr (is, p') \<Longrightarrow> map (get p') is = map Some vs"
proof (induction vs arbitrary: p "is")
  case (Cons v vs)
  then obtain i p1 is' where step: "ins p v = Inr (i, p1)" and rest: "ins_all p1 vs = Inr (is', p')"
    and "is = i # is'" by auto
  from Cons.prems(1) step have inv: "invar p1" by (rule ins_invar)
  from Cons.prems(1) step have "get p1 i = Some v" by (rule ins_get)
  with inv rest have "get p' i = Some v" by (rule ins_all_keeps)
  with Cons.IH [OF inv rest] show ?case by (simp add: \<open>is = i # is'\<close>)
qed simp

lemma ins_all_length: "ins_all p vs = Inr (is, p') \<Longrightarrow> length is = length vs"
  by (induction vs arbitrary: p "is") auto

lemma ins_all_same_iff:
  assumes "invar p" "ins_all p vs = Inr (is, p')" "m < length vs" "n < length vs"
  shows "is ! m = is ! n \<longleftrightarrow> vs ! m = vs ! n"
proof -
  have gets: "get p' (is ! k) = Some (vs ! k)" if "k < length vs" for k
    using ins_all_get [OF assms(1,2)] ins_all_length [OF assms(2)] that
    by (metis nth_map)
  have "invar p'" using assms(1,2) by (rule ins_all_invar)
  with gets assms(3,4) show ?thesis by (metis get_inj option.inject)
qed

end

interpretation pool: interner pool_insert pool_get pool_wf
  by unfold_locales
    (auto intro: pool_wf_insert pool_insert_gets pool_insert_keeps pool_insert_again pool_get_inj)

text \<open>A sequence of insertions, with the indices it hands out.\<close>

fun pool_insert_all :: "const_pool \<Rightarrow> const_val list \<Rightarrow> bytecode_error + u16 list \<times> const_pool" where
  "pool_insert_all p [] = Inr ([], p)"
| "pool_insert_all p (c # cs) =
     rbind (pool_insert p c) (\<lambda>(i, p1). rbind (pool_insert_all p1 cs) (\<lambda>(is, p2). Inr (i # is, p2)))"

lemma pool_insert_all_eq: "pool_insert_all p cs = pool.ins_all p cs"
  by (induction cs arbitrary: p) simp_all

text \<open>
  The constant pool interns: starting from an empty pool, after any sequence of
  insertions that fit, every index handed out still names exactly the constant it was
  handed out for (bit for bit), and two insertions received the same index if and only if
  their constants are the same, so \<open>-0.0\<close> and \<open>0.0\<close> stay apart and a NaN is shared.
\<close>

theorem pool_interns:
  assumes "pool_insert_all pool_new cs = Inr (is, p)" "m < length cs" "n < length cs"
  shows "pool_get p (is ! m) = Some (cs ! m) \<and> (is ! m = is ! n \<longleftrightarrow> cs ! m = cs ! n)"
proof
  from assms(1) have run: "pool.ins_all pool_new cs = Inr (is, p)" by (simp add: pool_insert_all_eq)
  from pool.ins_all_get [OF pool_wf_new run] pool.ins_all_length [OF run] assms(2)
  show "pool_get p (is ! m) = Some (cs ! m)" by (metis nth_map)
  show "is ! m = is ! n \<longleftrightarrow> cs ! m = cs ! n"
    by (rule pool.ins_all_same_iff [OF pool_wf_new run assms(2,3)])
qed

theorem pool_interns_witness:
  "\<exists>is p. pool_insert_all pool_new [C_F64 0, C_F64 0x8000000000000000, C_F64 0] = Inr (is, p)
     \<and> pool_get p (is ! 2) = Some (C_F64 0) \<and> (is ! 2 = is ! 1) = False"
proof -
  obtain "is" p where run:
    "pool_insert_all pool_new [C_F64 0, C_F64 0x8000000000000000, C_F64 0] = Inr (is, p)"
    by (simp add: pool_insert_def pool_new_def MAX_CONSTANTS_def Let_def)
  from pool_interns [OF run, of 2 1] have
    "pool_get p (is ! 2) = Some (C_F64 0) \<and> (is ! 2 = is ! 1) = False" by simp
  with run show ?thesis by blast
qed

text \<open>The pool refuses a new constant exactly at its capacity, and never a known one.\<close>

lemma pool_insert_full:
  "pool_insert p c = Inl e \<longleftrightarrow>
     e = ConstantPoolFull \<and> pool_index p (const_key c) = None \<and> MAX_CONSTANTS \<le> pool_len p"
  by (auto simp: pool_insert_def pool_len_def Let_def split: option.splits)

end
