(* ===== verification/WideOps.thy ===== *)
theory WideOps
  imports BytecodeErrors
begin

text \<open>
  Wide operations (\<open>v12-bytecode/src/wide.rs\<close>): instructions whose operands do not fit
  the three byte slots travel as an \<open>Opcode::Wide\<close> header followed by raw payload
  words. \<open>wide_encode\<close> and \<open>try_decode\<close> are the serializer and the parser;
  \<open>wide_registers\<close> lists the fields that are register indices.
\<close>

section \<open>The operations\<close>

text \<open>
  Fields in source order: \<open>LoadConstW dst const_id\<close>, \<open>LoadIntW dst value\<close>,
  \<open>GetEnvSlotW dst depth slot\<close>, \<open>SetEnvSlotW src depth slot\<close>, \<open>CallW dst func argc\<close>,
  \<open>ConstructW dst func argc\<close>, \<open>CopyObjectRestW dst src excl_base excl_count\<close>,
  \<open>CopyArrayRestW dst src start\<close>, \<open>RegExt mask a_hi b_hi c_hi\<close>,
  \<open>ClosureW dst function_index\<close>, \<open>NewEnvironmentW depth slots\<close>,
  \<open>NewPrivateNameW dst kind description\<close>, \<open>SetPrivateMethodW name value slot\<close>,
  \<open>DefinePrivateW obj name value\<close>, \<open>HasPrivateW dst obj name\<close>,
  \<open>SetPropertyR base key value receiver\<close>, \<open>GetSuperW dst base key receiver\<close>.
\<close>

datatype wide_op =
    LoadConstW u16 u32
  | LoadIntW u16 i64
  | GetEnvSlotW u16 u16 u16
  | SetEnvSlotW u16 u16 u16
  | CallW u16 u16 u16
  | ConstructW u16 u16 u16
  | CopyObjectRestW u16 u16 u16 u16
  | CopyArrayRestW u16 u16 u16
  | RegExt u8 u8 u8 u8
  | ClosureW u16 u16
  | NewEnvironmentW u16 u16
  | NewPrivateNameW u16 u16 u32
  | SetPrivateMethodW u16 u16 u16
  | DefinePrivateW u16 u16 u16
  | HasPrivateW u16 u16 u16
  | SetPropertyR u16 u16 u16 u16
  | GetSuperW u16 u16 u16 u16

definition pack_hi_lo :: "u16 \<Rightarrow> u16 \<Rightarrow> u32" where
  "pack_hi_lo hi lo = push_bit 16 (ucast hi) OR ucast lo"

definition unpack_hi_lo :: "u32 \<Rightarrow> u16 \<times> u16" where
  "unpack_hi_lo w = (ucast (drop_bit 16 w), ucast w)"

text \<open>The \<open>RegExt\<close> payload word: three bytes, \<open>a_hi\<close> highest.\<close>

definition pack_ext :: "u8 \<Rightarrow> u8 \<Rightarrow> u8 \<Rightarrow> u32" where
  "pack_ext a_hi b_hi c_hi = push_bit 16 (ucast a_hi) OR push_bit 8 (ucast b_hi) OR ucast c_hi"

lemma unpack_pack [simp, codec]: "unpack_hi_lo (pack_hi_lo hi lo) = (hi, lo)"
  unfolding unpack_hi_lo_def pack_hi_lo_def prod.inject
  by (intro conjI bit_word_eqI) (auto simp: bit_simps)

text \<open>The discriminants of the header's low immediate byte.\<close>

abbreviation DISC_LOAD_CONST_W :: u32 where "DISC_LOAD_CONST_W \<equiv> 0"
abbreviation DISC_LOAD_INT_W :: u32 where "DISC_LOAD_INT_W \<equiv> 1"
abbreviation DISC_GET_ENV_SLOT_W :: u32 where "DISC_GET_ENV_SLOT_W \<equiv> 2"
abbreviation DISC_SET_ENV_SLOT_W :: u32 where "DISC_SET_ENV_SLOT_W \<equiv> 3"
abbreviation DISC_CALL_W :: u32 where "DISC_CALL_W \<equiv> 4"
abbreviation DISC_COPY_OBJECT_REST_W :: u32 where "DISC_COPY_OBJECT_REST_W \<equiv> 5"
abbreviation DISC_COPY_ARRAY_REST_W :: u32 where "DISC_COPY_ARRAY_REST_W \<equiv> 6"
abbreviation DISC_REG_EXT :: u32 where "DISC_REG_EXT \<equiv> 7"
abbreviation DISC_CLOSURE_W :: u32 where "DISC_CLOSURE_W \<equiv> 8"
abbreviation DISC_NEW_ENVIRONMENT_W :: u32 where "DISC_NEW_ENVIRONMENT_W \<equiv> 9"
abbreviation DISC_CONSTRUCT_W :: u32 where "DISC_CONSTRUCT_W \<equiv> 10"
abbreviation DISC_NEW_PRIVATE_NAME_W :: u32 where "DISC_NEW_PRIVATE_NAME_W \<equiv> 11"
abbreviation DISC_SET_PRIVATE_METHOD_W :: u32 where "DISC_SET_PRIVATE_METHOD_W \<equiv> 12"
abbreviation DISC_DEFINE_PRIVATE_W :: u32 where "DISC_DEFINE_PRIVATE_W \<equiv> 13"
abbreviation DISC_HAS_PRIVATE_W :: u32 where "DISC_HAS_PRIVATE_W \<equiv> 14"
abbreviation DISC_SET_PROPERTY_R :: u32 where "DISC_SET_PROPERTY_R \<equiv> 15"
abbreviation DISC_GET_SUPER_W :: u32 where "DISC_GET_SUPER_W \<equiv> 16"

section \<open>Encoding\<close>

definition wide_hdr :: "u8 \<Rightarrow> u32 \<Rightarrow> instr" where
  "wide_hdr a disc = instr_new Op_Wide a (ucast (drop_bit 8 disc)) (ucast disc)"

fun wide_encode :: "wide_op \<Rightarrow> instr list" where
  "wide_encode (LoadConstW dst const_id) =
     [wide_hdr 0 DISC_LOAD_CONST_W, pack_hi_lo dst (ucast (drop_bit 16 const_id)),
      const_id AND 0xFFFF]"
| "wide_encode (LoadIntW dst value) =
     [wide_hdr 0 DISC_LOAD_INT_W, ucast value, ucast (drop_bit 32 value), ucast dst]"
| "wide_encode (GetEnvSlotW dst depth slot) =
     [wide_hdr 0 DISC_GET_ENV_SLOT_W, pack_hi_lo dst depth, ucast slot]"
| "wide_encode (SetEnvSlotW src depth slot) =
     [wide_hdr 0 DISC_SET_ENV_SLOT_W, pack_hi_lo src depth, ucast slot]"
| "wide_encode (CallW dst func argc) =
     [wide_hdr 0 DISC_CALL_W, pack_hi_lo dst func, ucast argc]"
| "wide_encode (ConstructW dst func argc) =
     [wide_hdr 0 DISC_CONSTRUCT_W, pack_hi_lo dst func, ucast argc]"
| "wide_encode (CopyObjectRestW dst src excl_base excl_count) =
     [wide_hdr 0 DISC_COPY_OBJECT_REST_W, pack_hi_lo dst src, pack_hi_lo excl_base excl_count]"
| "wide_encode (CopyArrayRestW dst src start) =
     [wide_hdr 0 DISC_COPY_ARRAY_REST_W, pack_hi_lo dst src, ucast start]"
| "wide_encode (RegExt msk a_hi b_hi c_hi) =
     [wide_hdr msk DISC_REG_EXT, pack_ext a_hi b_hi c_hi]"
| "wide_encode (ClosureW dst function_index) =
     [wide_hdr 0 DISC_CLOSURE_W, pack_hi_lo dst function_index]"
| "wide_encode (NewEnvironmentW depth slots) =
     [wide_hdr 0 DISC_NEW_ENVIRONMENT_W, pack_hi_lo depth slots]"
| "wide_encode (NewPrivateNameW dst kind description) =
     [wide_hdr 0 DISC_NEW_PRIVATE_NAME_W, pack_hi_lo dst kind, description]"
| "wide_encode (SetPrivateMethodW name value slot) =
     [wide_hdr 0 DISC_SET_PRIVATE_METHOD_W, pack_hi_lo name value, pack_hi_lo slot 0]"
| "wide_encode (DefinePrivateW obj name value) =
     [wide_hdr 0 DISC_DEFINE_PRIVATE_W, pack_hi_lo obj value, pack_hi_lo name 0]"
| "wide_encode (HasPrivateW dst obj name) =
     [wide_hdr 0 DISC_HAS_PRIVATE_W, pack_hi_lo dst obj, pack_hi_lo name 0]"
| "wide_encode (SetPropertyR base key value receiver) =
     [wide_hdr 0 DISC_SET_PROPERTY_R, pack_hi_lo base key, pack_hi_lo value receiver]"
| "wide_encode (GetSuperW dst base key receiver) =
     [wide_hdr 0 DISC_GET_SUPER_W, pack_hi_lo dst base, pack_hi_lo key receiver]"

section \<open>Decoding\<close>

text \<open>\<open>payload(i)\<close> of the decoder: the word, or the truncation error naming its index.\<close>

definition wide_payload :: "instr list \<Rightarrow> nat \<Rightarrow> bytecode_error + u32" where
  "wide_payload ws i = ok_or (list_get ws i) (TruncatedWide i)"

text \<open>The common shape: read payload words 1 and 2, or payload word 1 alone.\<close>

definition with_payload1 :: "instr list \<Rightarrow> (u32 \<Rightarrow> wide_op) \<Rightarrow> bytecode_error + wide_op \<times> nat" where
  "with_payload1 ws k = rbind (wide_payload ws 1) (\<lambda>w1. Inr (k w1, 2))"

definition with_payload2 ::
  "instr list \<Rightarrow> (u32 \<Rightarrow> u32 \<Rightarrow> wide_op) \<Rightarrow> bytecode_error + wide_op \<times> nat" where
  "with_payload2 ws k =
     rbind (wide_payload ws 1) (\<lambda>w1. rbind (wide_payload ws 2) (\<lambda>w2. Inr (k w1 w2, 3)))"

definition with_payload3 ::
  "instr list \<Rightarrow> (u32 \<Rightarrow> u32 \<Rightarrow> u32 \<Rightarrow> wide_op) \<Rightarrow> bytecode_error + wide_op \<times> nat" where
  "with_payload3 ws k =
     rbind (wide_payload ws 1) (\<lambda>w1. rbind (wide_payload ws 2) (\<lambda>w2.
       rbind (wide_payload ws 3) (\<lambda>w3. Inr (k w1 w2 w3, 4))))"

definition decode_disc :: "u32 \<Rightarrow> u8 \<Rightarrow> instr list \<Rightarrow> bytecode_error + wide_op \<times> nat" where
  "decode_disc d msk ws =
    (if d = DISC_LOAD_CONST_W then with_payload2 ws (\<lambda>w1 const_lo.
       let (dst, const_hi) = unpack_hi_lo w1
       in LoadConstW dst (push_bit 16 (ucast const_hi) OR const_lo))
     else if d = DISC_LOAD_INT_W then with_payload3 ws (\<lambda>lo hi dst.
       LoadIntW (ucast dst) (push_bit 32 (ucast hi) OR ucast lo))
     else if d = DISC_GET_ENV_SLOT_W then with_payload2 ws (\<lambda>w1 w2.
       let (dst, depth) = unpack_hi_lo w1 in GetEnvSlotW dst depth (ucast w2))
     else if d = DISC_SET_ENV_SLOT_W then with_payload2 ws (\<lambda>w1 w2.
       let (src, depth) = unpack_hi_lo w1 in SetEnvSlotW src depth (ucast w2))
     else if d = DISC_CALL_W \<or> d = DISC_CONSTRUCT_W then with_payload2 ws (\<lambda>w1 w2.
       let (dst, func) = unpack_hi_lo w1
       in if d = DISC_CALL_W then CallW dst func (ucast w2) else ConstructW dst func (ucast w2))
     else if d = DISC_COPY_OBJECT_REST_W then with_payload2 ws (\<lambda>w1 w2.
       let (dst, src) = unpack_hi_lo w1; (excl_base, excl_count) = unpack_hi_lo w2
       in CopyObjectRestW dst src excl_base excl_count)
     else if d = DISC_COPY_ARRAY_REST_W then with_payload2 ws (\<lambda>w1 w2.
       let (dst, src) = unpack_hi_lo w1 in CopyArrayRestW dst src (ucast w2))
     else if d = DISC_REG_EXT then with_payload1 ws (\<lambda>ext.
       RegExt msk (ucast (drop_bit 16 ext)) (ucast (drop_bit 8 ext)) (ucast ext))
     else if d = DISC_CLOSURE_W then with_payload1 ws (\<lambda>w1.
       let (dst, function_index) = unpack_hi_lo w1 in ClosureW dst function_index)
     else if d = DISC_NEW_ENVIRONMENT_W then with_payload1 ws (\<lambda>w1.
       let (depth, slots) = unpack_hi_lo w1 in NewEnvironmentW depth slots)
     else if d = DISC_NEW_PRIVATE_NAME_W then with_payload2 ws (\<lambda>w1 description.
       let (dst, kind) = unpack_hi_lo w1 in NewPrivateNameW dst kind description)
     else if d = DISC_SET_PRIVATE_METHOD_W then with_payload2 ws (\<lambda>w1 w2.
       let (name, value) = unpack_hi_lo w1; (slot, _) = unpack_hi_lo w2
       in SetPrivateMethodW name value slot)
     else if d = DISC_DEFINE_PRIVATE_W then with_payload2 ws (\<lambda>w1 w2.
       let (obj, value) = unpack_hi_lo w1; (name, _) = unpack_hi_lo w2
       in DefinePrivateW obj name value)
     else if d = DISC_HAS_PRIVATE_W then with_payload2 ws (\<lambda>w1 w2.
       let (dst, obj) = unpack_hi_lo w1; (name, _) = unpack_hi_lo w2
       in HasPrivateW dst obj name)
     else if d = DISC_SET_PROPERTY_R then with_payload2 ws (\<lambda>w1 w2.
       let (base, key) = unpack_hi_lo w1; (value, receiver) = unpack_hi_lo w2
       in SetPropertyR base key value receiver)
     else if d = DISC_GET_SUPER_W then with_payload2 ws (\<lambda>w1 w2.
       let (dst, base) = unpack_hi_lo w1; (key, receiver) = unpack_hi_lo w2
       in GetSuperW dst base key receiver)
     else Inl (UnknownWideDiscriminant d))"

definition try_decode :: "instr list \<Rightarrow> bytecode_error + wide_op \<times> nat" where
  "try_decode ws =
     (case list_get ws 0 of
        None \<Rightarrow> Inl (TruncatedWide 0)
      | Some header \<Rightarrow>
          if instr_op header \<noteq> Some Op_Wide then Inl WideHeaderNotWide
          else decode_disc (ucast (instr_c header)) (instr_a header) ws)"

subsection \<open>Round trip\<close>

lemma wide_hdr_fields [simp, codec]:
  "instr_op (wide_hdr a d) = Some Op_Wide"
  "instr_a (wide_hdr a d) = a"
  "instr_c (wide_hdr a d) = ucast d"
  by (simp_all add: wide_hdr_def)

lemma wide_payload_eq: "wide_payload ws i = (if i < length ws then Inr (ws ! i) else Inl (TruncatedWide i))"
  by (simp add: wide_payload_def list_get_def)

lemma split_const_id:
  "push_bit 16 (ucast (ucast (drop_bit 16 k) :: u16)) OR (k AND 0xFFFF) = (k :: u32)"
proof -
  have m: "(0xFFFF :: u32) = mask 16" by (simp add: mask_eq_exp_minus_1)
  show ?thesis unfolding m
  proof (rule bit_word_eqI)
    fix n assume "n < LENGTH(32)"
    then show "bit (push_bit 16 (ucast (ucast (drop_bit 16 k) :: u16)) OR (k AND mask 16) :: u32) n = bit k n"
      by (cases "n < 16") (auto simp: bit_simps not_less)
  qed
qed

lemma split_i64:
  "push_bit 32 (ucast (ucast (drop_bit 32 v) :: u32)) OR ucast (ucast v :: u32) = (v :: i64)"
proof (rule bit_word_eqI)
  fix n assume "n < LENGTH(64)"
  then show "bit (push_bit 32 (ucast (ucast (drop_bit 32 v) :: u32)) OR ucast (ucast v :: u32) :: i64) n = bit v n"
    by (cases "n < 32") (auto simp: bit_simps not_less)
qed

lemma ucast_down_up [simp, codec]: "(ucast (ucast (x :: u16) :: u32) :: u16) = x"
  by (rule bit_word_eqI) (auto simp: bit_simps)

lemma pack_ext_bytes [simp, codec]:
  "ucast (drop_bit 16 (pack_ext a b c)) = a"
  "ucast (drop_bit 8 (pack_ext a b c)) = b"
  "ucast (pack_ext a b c) = c"
  unfolding pack_ext_def by (rule bit_word_eqI, auto simp: bit_simps)+

lemmas with_payload_defs = with_payload1_def with_payload2_def with_payload3_def

lemma try_decode_encode:
  "try_decode (wide_encode w @ rest) = Inr (w, length (wide_encode w))"
  by (cases w) (simp_all add: try_decode_def decode_disc_def with_payload_defs wide_payload_eq
      list_get_def split_const_id split_i64)

text \<open>
  C35. Decoding inverts encoding for every wide operation, whatever words follow it in the
  stream, and reports exactly the number of words the encoder wrote.
\<close>

theorem wide_decode_encode:
  "try_decode (wide_encode w @ rest) = Inr (w, length (wide_encode w))"
  by (rule try_decode_encode)

corollary wide_encode_inj: "wide_encode w = wide_encode w' \<Longrightarrow> w = w'"
  using try_decode_encode [of w "[]"] try_decode_encode [of w' "[]"] by simp

subsection \<open>What a decoder result says about the words\<close>

text \<open>A decoded operation read its words, and a truncation names the first missing word.\<close>

definition decode_ok :: "instr list \<Rightarrow> bytecode_error + wide_op \<times> nat \<Rightarrow> bool" where
  "decode_ok ws r \<longleftrightarrow>
     (case r of
        Inr (w, n) \<Rightarrow> n = length (wide_encode w) \<and> 2 \<le> n \<and> n \<le> 4 \<and> n \<le> length ws
      | Inl e \<Rightarrow> e = TruncatedWide (length ws) \<and> length ws < 4)"

lemma decode_ok_payload1:
  "ws \<noteq> [] \<Longrightarrow> (\<And>w1. length (wide_encode (k w1)) = 2) \<Longrightarrow> decode_ok ws (with_payload1 ws k)"
  by (cases ws) (auto simp: decode_ok_def with_payload1_def wide_payload_eq Suc_le_eq)

lemma decode_ok_payload2:
  "ws \<noteq> [] \<Longrightarrow> (\<And>w1 w2. length (wide_encode (k w1 w2)) = 3) \<Longrightarrow> decode_ok ws (with_payload2 ws k)"
  by (cases ws; cases "tl ws") (auto simp: decode_ok_def with_payload2_def wide_payload_eq Suc_le_eq)

lemma decode_ok_payload3:
  "ws \<noteq> [] \<Longrightarrow> (\<And>w1 w2 w3. length (wide_encode (k w1 w2 w3)) = 4) \<Longrightarrow> decode_ok ws (with_payload3 ws k)"
  by (cases ws; cases "tl ws"; cases "tl (tl ws)")
    (auto simp: decode_ok_def with_payload3_def wide_payload_eq Suc_le_eq)

lemmas decode_ok_payloads = decode_ok_payload1 decode_ok_payload2 decode_ok_payload3

lemma decode_disc_ok:
  assumes "ws \<noteq> []" "d \<le> DISC_GET_SUPER_W"
  shows "decode_ok ws (decode_disc d m ws)"
proof -
  have "d \<in> {0, 1, 2, 3, 4, 5, 6, 7, 8, 9, 10, 11, 12, 13, 14, 15, 16}"
  proof -
    from assms(2) have "unat d \<le> 16" by (simp add: word_le_nat_alt)
    then have "unat d \<in> set [0..<17]" by simp
    then have "(word_of_nat (unat d) :: u32) \<in> word_of_nat ` set [0..<17]" by (rule imageI)
    then show ?thesis by (simp add: upt_rec)
  qed
  then show ?thesis
    by (elim insertE emptyE; simp only:)
      (simp_all add: decode_disc_def; rule decode_ok_payloads; simp add: assms split_def Let_def)+
qed

lemma decode_disc_unknown: "DISC_GET_SUPER_W < d \<Longrightarrow> decode_disc d m ws = Inl (UnknownWideDiscriminant d)"
  by (auto simp: decode_disc_def)

lemma try_decode_accounts:
  "case try_decode ws of
     Inr (w, n) \<Rightarrow> n = length (wide_encode w) \<and> 2 \<le> n \<and> n \<le> 4 \<and> n \<le> length ws
       \<and> instr_op (hd ws) = Some Op_Wide
   | Inl (TruncatedWide i) \<Rightarrow> i = length ws \<and> i < 4
   | Inl WideHeaderNotWide \<Rightarrow> ws \<noteq> [] \<and> instr_op (hd ws) \<noteq> Some Op_Wide
   | Inl (UnknownWideDiscriminant d) \<Rightarrow> ws \<noteq> [] \<and> d = ucast (instr_c (hd ws)) \<and> DISC_GET_SUPER_W < d
   | Inl _ \<Rightarrow> False"
proof (cases "ws = [] \<or> instr_op (hd ws) \<noteq> Some Op_Wide")
  case True
  then show ?thesis by (cases ws) (auto simp: try_decode_def)
next
  case False
  then have ne: "ws \<noteq> []" and op: "instr_op (hd ws) = Some Op_Wide" by auto
  define d :: u32 where "d = ucast (instr_c (hd ws))"
  have eq: "try_decode ws = decode_disc d (instr_a (hd ws)) ws"
    using ne op by (cases ws) (simp_all add: try_decode_def d_def)
  show ?thesis
  proof (cases "DISC_GET_SUPER_W < d")
    case True
    with ne show ?thesis by (simp add: eq decode_disc_unknown d_def)
  next
    case False
    then have "decode_ok ws (decode_disc d (instr_a (hd ws)) ws)"
      using ne by (intro decode_disc_ok) simp_all
    then show ?thesis using op by (auto simp: eq decode_ok_def split: sum.splits)
  qed
qed

text \<open>
  What the decoder returns is accounted for by the words it was given: a decoded
  operation consumed between two and four words, all present, as many as its encoding has;
  a truncation error names the first word that is missing and only arises on fewer than
  four words; the other errors are raised exactly for a header that is not \<open>Wide\<close> and
  for a discriminant byte that is not assigned.
\<close>

theorem wide_decode_accounts:
  "case try_decode ws of
     Inr (w, n) \<Rightarrow> n = length (wide_encode w) \<and> 2 \<le> n \<and> n \<le> 4 \<and> n \<le> length ws
       \<and> instr_op (hd ws) = Some Op_Wide
   | Inl (TruncatedWide i) \<Rightarrow> i = length ws \<and> i < 4
   | Inl WideHeaderNotWide \<Rightarrow> ws \<noteq> [] \<and> instr_op (hd ws) \<noteq> Some Op_Wide
   | Inl (UnknownWideDiscriminant d) \<Rightarrow> ws \<noteq> [] \<and> d = ucast (instr_c (hd ws)) \<and> DISC_GET_SUPER_W < d
   | Inl _ \<Rightarrow> False"
  by (rule try_decode_accounts)

lemma try_decode_width:
  "try_decode ws = Inr (w, n) \<Longrightarrow> n = length (wide_encode w) \<and> 2 \<le> n \<and> n \<le> 4 \<and> n \<le> length ws"
  using try_decode_accounts [of ws] by simp

lemma try_decode_errors:
  "try_decode ws = Inl e \<Longrightarrow>
     (\<exists>i. e = TruncatedWide i) \<or> e = WideHeaderNotWide \<or> (\<exists>d. e = UnknownWideDiscriminant d)"
  using try_decode_accounts [of ws] by (auto split: bytecode_error.splits)

section \<open>Register fields, environments\<close>

text \<open>The \<open>(name, value)\<close> calls \<open>each_register\<close> makes, in order.\<close>

fun wide_registers :: "wide_op \<Rightarrow> (string \<times> u16) list" where
  "wide_registers (LoadConstW dst _) = [(''dst'', dst)]"
| "wide_registers (LoadIntW dst _) = [(''dst'', dst)]"
| "wide_registers (GetEnvSlotW dst _ _) = [(''dst'', dst)]"
| "wide_registers (SetEnvSlotW src _ _) = [(''src'', src)]"
| "wide_registers (CallW dst func _) = [(''dst'', dst), (''callee'', func)]"
| "wide_registers (ConstructW dst func _) = [(''dst'', dst), (''callee'', func)]"
| "wide_registers (CopyObjectRestW dst src excl_base _) =
     [(''dst'', dst), (''src'', src), (''excl base'', excl_base)]"
| "wide_registers (CopyArrayRestW dst src _) = [(''dst'', dst), (''src'', src)]"
| "wide_registers (RegExt _ _ _ _) = []"
| "wide_registers (NewEnvironmentW _ _) = []"
| "wide_registers (ClosureW dst _) = [(''dst'', dst)]"
| "wide_registers (NewPrivateNameW dst _ _) = [(''dst'', dst)]"
| "wide_registers (SetPrivateMethodW name value _) = [(''name'', name), (''value'', value)]"
| "wide_registers (DefinePrivateW obj name value) =
     [(''obj'', obj), (''name'', name), (''value'', value)]"
| "wide_registers (HasPrivateW dst obj name) = [(''dst'', dst), (''obj'', obj), (''name'', name)]"
| "wide_registers (SetPropertyR base key value receiver) =
     [(''base'', base), (''key'', key), (''value'', value), (''receiver'', receiver)]"
| "wide_registers (GetSuperW dst base key receiver) =
     [(''dst'', dst), (''base'', base), (''key'', key), (''receiver'', receiver)]"

fun env_allocation :: "wide_op \<Rightarrow> u32 option" where
  "env_allocation (NewEnvironmentW _ slots) = Some (ucast slots)"
| "env_allocation _ = None"

fun env_access :: "wide_op \<Rightarrow> (u32 \<times> u32) option" where
  "env_access (GetEnvSlotW _ depth slot) = Some (ucast depth, ucast slot)"
| "env_access (SetEnvSlotW _ depth slot) = Some (ucast depth, ucast slot)"
| "env_access _ = None"

end
