(* ===== verification/OpSpecs.thy ===== *)
theory OpSpecs
  imports WideOps
begin

text \<open>
  The operand contract table of \<open>v12-bytecode/src/opspec.rs\<close>: what each of the three
  operand slots of every opcode holds, how many words an instruction occupies, and which
  slots are registers (and so may be widened by a \<open>RegExt\<close> prefix). The table is built
  as the code builds it, one assignment per opcode at its discriminant.
\<close>

section \<open>Roles, slots and specifications\<close>

datatype role =
    Role_Unused | Role_Dst | Role_Src | Role_InOut | Role_Cond
  | Role_Obj | Role_Key | Role_Val | Role_Callee | Role_Count
  | Role_ArgsArr | Role_ElemBase | Role_Excl | Role_Pair | Role_Depth
  | Role_Slot | Role_FnIndex | Role_Start | Role_Flag | Role_ConstId
  | Role_NameId | Role_Imm8 | Role_Imm16 | Role_Imm24 | Role_Mask
  | Role_Disc

primrec role_name :: "role \<Rightarrow> string" where
  "role_name Role_Unused = ''unused''"
| "role_name Role_Dst = ''dst''"
| "role_name Role_Src = ''src''"
| "role_name Role_InOut = ''in/out''"
| "role_name Role_Cond = ''condition''"
| "role_name Role_Obj = ''object''"
| "role_name Role_Key = ''key''"
| "role_name Role_Val = ''value''"
| "role_name Role_Callee = ''callee''"
| "role_name Role_Count = ''count''"
| "role_name Role_ArgsArr = ''argument array''"
| "role_name Role_ElemBase = ''element base''"
| "role_name Role_Excl = ''excluded key''"
| "role_name Role_Pair = ''accessor pair base''"
| "role_name Role_Depth = ''environment depth''"
| "role_name Role_Slot = ''environment slot''"
| "role_name Role_FnIndex = ''function index''"
| "role_name Role_Start = ''start index''"
| "role_name Role_Flag = ''flag''"
| "role_name Role_ConstId = ''constant id''"
| "role_name Role_NameId = ''name id''"
| "role_name Role_Imm8 = ''immediate''"
| "role_name Role_Imm16 = ''jump target (high)''"
| "role_name Role_Imm24 = ''jump target''"
| "role_name Role_Mask = ''register-extension mask''"
| "role_name Role_Disc = ''wide discriminant''"

datatype width = Width_One | WidePayload

datatype slot = Slot_A | Slot_B | Slot_C

primrec slot_index :: "slot \<Rightarrow> nat" where
  "slot_index Slot_A = 0"
| "slot_index Slot_B = 1"
| "slot_index Slot_C = 2"

record op_spec =
  spec_a :: role
  spec_b :: role
  spec_c :: role
  spec_width :: width

definition opspec_new :: "role \<Rightarrow> role \<Rightarrow> role \<Rightarrow> op_spec" where
  "opspec_new a b c = \<lparr>spec_a = a, spec_b = b, spec_c = c, spec_width = Width_One\<rparr>"

definition opspec_wide :: "role \<Rightarrow> role \<Rightarrow> role \<Rightarrow> op_spec" where
  "opspec_wide a b c = \<lparr>spec_a = a, spec_b = b, spec_c = c, spec_width = WidePayload\<rparr>"

fun role_at :: "op_spec \<Rightarrow> slot \<Rightarrow> role" where
  "role_at s Slot_A = spec_a s"
| "role_at s Slot_B = spec_b s"
| "role_at s Slot_C = spec_c s"

definition used_slots :: "op_spec \<Rightarrow> bool list" where
  "used_slots s = [spec_a s \<noteq> Role_Unused, spec_b s \<noteq> Role_Unused, spec_c s \<noteq> Role_Unused]"

definition slot_is_register :: "op_spec \<Rightarrow> slot \<Rightarrow> bool" where
  "slot_is_register s slot \<longleftrightarrow>
     role_at s slot \<in> {Role_Dst, Role_Src, Role_InOut, Role_Cond, Role_Obj, Role_Key, Role_Val,
       Role_Callee, Role_ElemBase, Role_ArgsArr, Role_Excl, Role_Pair}"

text \<open>Byte index to slot: \<open>0\<close> and \<open>1\<close> are \<open>a\<close> and \<open>b\<close>, anything else is \<open>c\<close>.\<close>

definition slot_of_index :: "nat \<Rightarrow> slot" where
  "slot_of_index i = (if i = 0 then Slot_A else if i = 1 then Slot_B else Slot_C)"

definition index_is_register :: "op_spec \<Rightarrow> nat \<Rightarrow> bool" where
  "index_is_register s i = slot_is_register s (slot_of_index i)"

definition role_at_index :: "op_spec \<Rightarrow> nat \<Rightarrow> role" where
  "role_at_index s i = role_at s (slot_of_index i)"

definition logical_width :: "op_spec \<Rightarrow> instr list \<Rightarrow> nat" where
  "logical_width s ws =
     (case spec_width s of
        Width_One \<Rightarrow> 1
      | WidePayload \<Rightarrow> (case try_decode ws of Inl _ \<Rightarrow> 1 | Inr (_, w) \<Rightarrow> w))"

section \<open>The table\<close>

text \<open>The assignments of \<open>build_specs\<close>, section by section.\<close>

definition spec_data_movement_constants :: "(opcode \<times> op_spec) list" where
  "spec_data_movement_constants = [
    (Op_Move, opspec_new Role_Dst Role_Src Role_Unused),
    (Op_LoadConst, opspec_new Role_Dst Role_ConstId Role_ConstId),
    (Op_LoadInt, opspec_new Role_Dst Role_Unused Role_Imm8),
    (Op_Wide, opspec_wide Role_Mask Role_Unused Role_Disc)]"

definition spec_arithmetic_comparison :: "(opcode \<times> op_spec) list" where
  "spec_arithmetic_comparison = [
    (Op_Add, opspec_new Role_Dst Role_Src Role_Src),
    (Op_Sub, opspec_new Role_Dst Role_Src Role_Src),
    (Op_Mul, opspec_new Role_Dst Role_Src Role_Src),
    (Op_Div, opspec_new Role_Dst Role_Src Role_Src),
    (Op_Mod, opspec_new Role_Dst Role_Src Role_Src),
    (Op_Pow, opspec_new Role_Dst Role_Src Role_Src),
    (Op_BitAnd, opspec_new Role_Dst Role_Src Role_Src),
    (Op_BitOr, opspec_new Role_Dst Role_Src Role_Src),
    (Op_BitXor, opspec_new Role_Dst Role_Src Role_Src),
    (Op_Shl, opspec_new Role_Dst Role_Src Role_Src),
    (Op_Shr, opspec_new Role_Dst Role_Src Role_Src),
    (Op_UShr, opspec_new Role_Dst Role_Src Role_Src),
    (Op_Eq, opspec_new Role_Dst Role_Src Role_Src),
    (Op_Ne, opspec_new Role_Dst Role_Src Role_Src),
    (Op_Lt, opspec_new Role_Dst Role_Src Role_Src),
    (Op_Le, opspec_new Role_Dst Role_Src Role_Src),
    (Op_Gt, opspec_new Role_Dst Role_Src Role_Src),
    (Op_Ge, opspec_new Role_Dst Role_Src Role_Src),
    (Op_StrictEq, opspec_new Role_Dst Role_Src Role_Src),
    (Op_StrictNe, opspec_new Role_Dst Role_Src Role_Src)]"

definition spec_unary :: "(opcode \<times> op_spec) list" where
  "spec_unary = [
    (Op_Neg, opspec_new Role_Dst Role_Src Role_Unused),
    (Op_BitNot, opspec_new Role_Dst Role_Src Role_Unused),
    (Op_Not, opspec_new Role_Dst Role_Src Role_Unused),
    (Op_TypeOf, opspec_new Role_Dst Role_Src Role_Unused),
    (Op_ToNumber, opspec_new Role_Dst Role_Src Role_Unused),
    (Op_ToPropertyKey, opspec_new Role_Dst Role_Src Role_Unused)]"

definition spec_control_flow :: "(opcode \<times> op_spec) list" where
  "spec_control_flow = [
    (Op_Jump, opspec_new Role_Imm24 Role_Imm24 Role_Imm24),
    (Op_JumpIfFalse, opspec_new Role_Cond Role_Imm16 Role_Imm16),
    (Op_JumpIfTrue, opspec_new Role_Cond Role_Imm16 Role_Imm16),
    (Op_JumpIfNullish, opspec_new Role_Cond Role_Imm16 Role_Imm16),
    (Op_LoopHeader, opspec_new Role_Unused Role_Unused Role_Unused)]"

definition spec_calls_returns_throws :: "(opcode \<times> op_spec) list" where
  "spec_calls_returns_throws = [
    (Op_Call, opspec_new Role_Dst Role_Callee Role_Count),
    (Op_Construct, opspec_new Role_Dst Role_Callee Role_Count),
    (Op_Return, opspec_new Role_Src Role_Unused Role_Unused),
    (Op_Throw, opspec_new Role_Src Role_Unused Role_Unused)]"

definition spec_property_access :: "(opcode \<times> op_spec) list" where
  "spec_property_access = [
    (Op_GetProperty, opspec_new Role_Dst Role_Obj Role_Key),
    (Op_SetProperty, opspec_new Role_Obj Role_Key Role_Val),
    (Op_DeleteProperty, opspec_new Role_Dst Role_Obj Role_Key),
    (Op_DefineMethod, opspec_new Role_Obj Role_Key Role_Val),
    (Op_DefineAccessor, opspec_new Role_Obj Role_Key Role_Pair),
    (Op_DefineAccessorEnumerable, opspec_new Role_Obj Role_Key Role_Pair),
    (Op_SetPrototype, opspec_new Role_Unused Role_Obj Role_Src),
    (Op_GetPrototype, opspec_new Role_Dst Role_Src Role_Unused),
    (Op_SuperConstruct, opspec_new Role_Dst Role_Callee Role_Count),
    (Op_SuperConstructApply, opspec_new Role_Dst Role_Callee Role_ArgsArr),
    (Op_CheckThis, opspec_new Role_Src Role_Unused Role_Unused),
    (Op_CheckThisUnbound, opspec_new Role_Src Role_Unused Role_Unused),
    (Op_DerivedResult, opspec_new Role_Dst Role_Src Role_Src),
    (Op_CheckHeritage, opspec_new Role_Dst Role_Src Role_Unused),
    (Op_DefineField, opspec_new Role_Obj Role_Key Role_Val)]"

definition spec_allocation_environments :: "(opcode \<times> op_spec) list" where
  "spec_allocation_environments = [
    (Op_NewObject, opspec_new Role_Dst Role_Unused Role_Unused),
    (Op_NewArray, opspec_new Role_Dst Role_ElemBase Role_Count),
    (Op_Closure, opspec_new Role_Dst Role_FnIndex Role_Unused),
    (Op_NewEnvironment, opspec_new Role_Unused Role_Slot Role_Unused),
    (Op_PopEnvironment, opspec_new Role_Unused Role_Unused Role_Unused),
    (Op_GetEnvSlot, opspec_new Role_Dst Role_Depth Role_Slot),
    (Op_SetEnvSlot, opspec_new Role_Depth Role_Slot Role_Src)]"

definition spec_generators_async :: "(opcode \<times> op_spec) list" where
  "spec_generators_async = [
    (Op_CreateGenerator, opspec_new Role_Dst Role_FnIndex Role_Unused),
    (Op_SuspendYield, opspec_new Role_InOut Role_Unused Role_Unused),
    (Op_Await, opspec_new Role_Dst Role_Src Role_Flag),
    (Op_GenResumeMode, opspec_new Role_Dst Role_InOut Role_Unused)]"

definition spec_membership :: "(opcode \<times> op_spec) list" where
  "spec_membership = [
    (Op_In, opspec_new Role_Dst Role_Key Role_Obj),
    (Op_InstanceOf, opspec_new Role_Dst Role_Src Role_Src)]"

definition spec_destructuring_spread_iteration :: "(opcode \<times> op_spec) list" where
  "spec_destructuring_spread_iteration = [
    (Op_CopyArrayRest, opspec_new Role_Dst Role_Src Role_Start),
    (Op_CheckIsArray, opspec_new Role_Src Role_Unused Role_Unused),
    (Op_CallApply, opspec_new Role_Dst Role_Callee Role_ArgsArr),
    (Op_CopyObjectRest, opspec_new Role_Dst Role_Src Role_Excl),
    (Op_ArrayAppend, opspec_new Role_Dst Role_Src Role_Unused),
    (Op_MergeObject, opspec_new Role_Unused Role_Dst Role_Src),
    (Op_GetIterator, opspec_new Role_Dst Role_Src Role_Unused),
    (Op_GetAsyncIterator, opspec_new Role_Dst Role_Src Role_Unused),
    (Op_IteratorNext, opspec_new Role_Dst Role_Src Role_Unused),
    (Op_IteratorClose, opspec_new Role_Src Role_Flag Role_Unused)]"

definition spec_globals_misc :: "(opcode \<times> op_spec) list" where
  "spec_globals_misc = [
    (Op_GetGlobal, opspec_new Role_Dst Role_NameId Role_NameId),
    (Op_GetGlobalLenient, opspec_new Role_Dst Role_NameId Role_NameId),
    (Op_SetGlobal, opspec_new Role_Src Role_NameId Role_NameId),
    (Op_GetNewTarget, opspec_new Role_Dst Role_Unused Role_Unused)]"

definition spec_assignments :: "(opcode \<times> op_spec) list" where
  "spec_assignments =
     spec_data_movement_constants @ spec_arithmetic_comparison @ spec_unary @ spec_control_flow @
     spec_calls_returns_throws @ spec_property_access @ spec_allocation_environments @ spec_generators_async @
     spec_membership @ spec_destructuring_spread_iteration @ spec_globals_misc"

lemmas spec_section_defs = spec_data_movement_constants_def spec_arithmetic_comparison_def spec_unary_def spec_control_flow_def spec_calls_returns_throws_def spec_property_access_def spec_allocation_environments_def spec_generators_async_def spec_membership_def spec_destructuring_spread_iteration_def spec_globals_misc_def

text \<open>The opcodes in the order the table assigns them.\<close>

definition spec_op_order :: "opcode list" where
  "spec_op_order = [
    Op_Move, Op_LoadConst, Op_LoadInt, Op_Wide, Op_Add,
    Op_Sub, Op_Mul, Op_Div, Op_Mod, Op_Pow,
    Op_BitAnd, Op_BitOr, Op_BitXor, Op_Shl, Op_Shr,
    Op_UShr, Op_Eq, Op_Ne, Op_Lt, Op_Le,
    Op_Gt, Op_Ge, Op_StrictEq, Op_StrictNe, Op_Neg,
    Op_BitNot, Op_Not, Op_TypeOf, Op_ToNumber, Op_ToPropertyKey,
    Op_Jump, Op_JumpIfFalse, Op_JumpIfTrue, Op_JumpIfNullish, Op_LoopHeader,
    Op_Call, Op_Construct, Op_Return, Op_Throw, Op_GetProperty,
    Op_SetProperty, Op_DeleteProperty, Op_DefineMethod, Op_DefineAccessor, Op_DefineAccessorEnumerable,
    Op_SetPrototype, Op_GetPrototype, Op_SuperConstruct, Op_SuperConstructApply, Op_CheckThis,
    Op_CheckThisUnbound, Op_DerivedResult, Op_CheckHeritage, Op_DefineField, Op_NewObject,
    Op_NewArray, Op_Closure, Op_NewEnvironment, Op_PopEnvironment, Op_GetEnvSlot,
    Op_SetEnvSlot, Op_CreateGenerator, Op_SuspendYield, Op_Await, Op_GenResumeMode,
    Op_In, Op_InstanceOf, Op_CopyArrayRest, Op_CheckIsArray, Op_CallApply,
    Op_CopyObjectRest, Op_ArrayAppend, Op_MergeObject, Op_GetIterator, Op_GetAsyncIterator,
    Op_IteratorNext, Op_IteratorClose, Op_GetGlobal, Op_GetGlobalLenient, Op_SetGlobal,
    Op_GetNewTarget]"

definition build_specs :: "op_spec option list" where
  "build_specs =
     fold (\<lambda>(op, s) table. table[unat (opcode_byte op) := Some s]) spec_assignments (replicate 256 None)"

definition spec :: "opcode \<Rightarrow> op_spec option" where
  "spec op = build_specs ! unat (opcode_byte op)"

definition spec_at_byte :: "u8 \<Rightarrow> op_spec option" where
  "spec_at_byte byte = build_specs ! unat byte"

lemma spec_ops: "map fst spec_assignments = spec_op_order"
  by (simp add: spec_assignments_def spec_section_defs spec_op_order_def)

lemma spec_op_order_distinct: "distinct spec_op_order"
  by (simp add: spec_op_order_def)

lemma spec_op_order_total: "op \<in> set spec_op_order"
  by (cases op) (simp_all only: spec_op_order_def list.set insert_iff simp_thms)

lemma spec_assignments_distinct: "distinct (map fst spec_assignments)"
  by (simp only: spec_ops spec_op_order_distinct)

lemma spec_assignments_total: "op \<in> fst ` set spec_assignments"
  using spec_op_order_total [of op] by (metis spec_ops set_map)

lemma build_specs_fold:
  "build_specs = fold (\<lambda>p table. table[unat (opcode_byte (fst p)) := Some (snd p)]) spec_assignments (replicate 256 None)"
  by (simp add: build_specs_def split_def)

lemma spec_hit: "(op, s) \<in> set spec_assignments \<Longrightarrow> spec op = Some s"
proof -
  assume mem: "(op, s) \<in> set spec_assignments"
  have "distinct (map (\<lambda>p. unat (opcode_byte (fst p))) spec_assignments)"
    using spec_assignments_distinct by (simp add: distinct_map inj_on_def)
  then have "build_specs ! unat (opcode_byte (fst (op, s))) = Some (snd (op, s))"
    unfolding build_specs_fold using mem
    by (intro fold_update_hit) (simp_all add: unat_u8_lt)
  then show ?thesis by (simp add: spec_def)
qed

lemma spec_eq_map_of: "spec op = map_of spec_assignments op"
proof -
  obtain s where "(op, s) \<in> set spec_assignments"
    using spec_assignments_total [of op] by force
  with spec_hit spec_assignments_distinct show ?thesis by simp
qed

lemma spec_at_byte_unassigned: "b \<notin> range opcode_byte \<Longrightarrow> spec_at_byte b = None"
  unfolding spec_at_byte_def build_specs_fold
  by (subst fold_update_other) (auto simp: unat_u8_lt)

lemma spec_at_byte_eq: "spec_at_byte b = Option.bind (from_byte b) spec"
  by (cases "b \<in> range opcode_byte")
    (auto simp: spec_at_byte_unassigned from_byte_unassigned, simp add: spec_at_byte_def spec_def)

text \<open>The contract of an opcode; \<open>spec\<close> is never \<open>None\<close>.\<close>

definition spec_of :: "opcode \<Rightarrow> op_spec" where
  "spec_of op = the (spec op)"

lemma spec_eq [simp]: "spec op = Some (spec_of op)"
  using spec_assignments_total [of op] by (auto simp: spec_of_def dest!: spec_hit)

lemma spec_of_code: "spec_of op = the (map_of spec_assignments op)"
  unfolding spec_of_def spec_eq_map_of ..

section \<open>Facts of the table\<close>

text \<open>A fact of every entry, checked on the list of assignments.\<close>

lemma spec_of_all:
  assumes "list_all (\<lambda>(op, s). P op s) spec_assignments"
  shows "P op (spec_of op)"
proof -
  obtain s where "(op, s) \<in> set spec_assignments"
    using spec_assignments_total [of op] by force
  moreover from this have "spec_of op = s" by (auto dest: spec_hit)
  ultimately show ?thesis using assms by (auto simp: list_all_iff)
qed

lemmas spec_eval = spec_assignments_def spec_section_defs opspec_new_def opspec_wide_def

lemma spec_of_eval: "spec_of op = the (map_of spec_assignments op)"
  by (rule spec_of_code)

definition two_slot_roles :: "role list" where
  "two_slot_roles = [Role_ConstId, Role_NameId, Role_Imm16]"

definition entry_coherent :: "opcode \<Rightarrow> op_spec \<Rightarrow> bool" where
  "entry_coherent op s \<longleftrightarrow>
     (spec_width s = WidePayload \<longleftrightarrow> op = Op_Wide)
   \<and> (\<forall>r \<in> set two_slot_roles. spec_a s \<noteq> r \<and> (spec_b s = r \<longleftrightarrow> spec_c s = r))
   \<and> (spec_a s = Role_Imm24 \<longleftrightarrow> op = Op_Jump)
   \<and> (spec_b s = Role_Imm24 \<longleftrightarrow> op = Op_Jump) \<and> (spec_c s = Role_Imm24 \<longleftrightarrow> op = Op_Jump)
   \<and> (spec_a s = Role_InOut \<longleftrightarrow> op = Op_SuspendYield)
   \<and> (spec_b s = Role_InOut \<longleftrightarrow> op = Op_GenResumeMode) \<and> spec_c s \<noteq> Role_InOut
   \<and> (spec_b s = Role_Dst \<longleftrightarrow> op = Op_MergeObject) \<and> spec_c s \<noteq> Role_Dst
   \<and> spec_a s \<noteq> Role_Flag
   \<and> (spec_b s = Role_Flag \<longleftrightarrow> op = Op_IteratorClose) \<and> (spec_c s = Role_Flag \<longleftrightarrow> op = Op_Await)"

lemma entry_coherent_all: "list_all (\<lambda>(op, s). entry_coherent op s) spec_assignments"
  by (simp add: entry_coherent_def two_slot_roles_def spec_eval)

text \<open>
  The contract table is total and coherent: every assigned byte has an entry and no
  other byte has one; only the \<open>Wide\<close> header has a payload width; a 16-bit immediate or
  id occupies both low slots and never \<open>a\<close>, the 24-bit target all three slots of
  \<open>Jump\<close> alone; an operand that is both read and written occurs only in
  \<open>SuspendYield\<close> slot \<open>a\<close> and \<open>GenResumeMode\<close> slot \<open>b\<close>; \<open>MergeObject\<close> is the
  only opcode whose destination is not in slot \<open>a\<close>; and \<open>IteratorClose\<close> and
  \<open>Await\<close> are the only flags.
\<close>

theorem opspec_table_coherent:
  "(spec_at_byte b = None \<longleftrightarrow> from_byte b = None) \<and> spec op = Some (spec_of op)
   \<and> entry_coherent op (spec_of op)"
proof (intro conjI)
  show "spec_at_byte b = None \<longleftrightarrow> from_byte b = None"
    by (cases "from_byte b") (simp_all add: spec_at_byte_eq)
  show "entry_coherent op (spec_of op)"
    by (rule spec_of_all) (rule entry_coherent_all)
qed simp

lemma spec_width_of: "spec_width (spec_of op) = WidePayload \<longleftrightarrow> op = Op_Wide"
  using spec_of_all [OF entry_coherent_all, of op] by (simp add: entry_coherent_def)

lemma logical_width_bounds:
  "ws \<noteq> [] \<Longrightarrow> 1 \<le> logical_width s ws \<and> logical_width s ws \<le> length ws"
  by (cases ws) (auto simp: logical_width_def Suc_le_eq dest!: try_decode_width
      split: width.split sum.split)

end
