(* ===== verification/FunctionCode.thy ===== *)
theory FunctionCode
  imports ConstPool OpSpecs
begin

text \<open>
  Assembled functions (\<open>v12-bytecode/src/lib.rs\<close>): the \<open>FunctionBytecode\<close> record, the
  exception handler table and the part of \<open>FunctionBytecode::validate\<close> that checks it;
  and the static walks of \<open>v12-bytecode/src/analysis.rs\<close> over instruction boundaries,
  loop markers, counted loops and inline candidates.
\<close>

section \<open>Data\<close>

record handler_range =
  h_start :: u32
  h_end :: u32
  h_target :: u32
  h_stack_depth :: u32

datatype binding_location = BindRegister u16 | BindEnv u16 | BindGlobal

datatype eval_binding_kind =
  EvalParameter | EvalVar | EvalLexical | EvalImplicitArguments

record eval_caller_facts =
  caller_strict :: bool
  caller_arguments_needed :: bool
  caller_bindings :: "(string \<times> eval_binding_kind) list"

datatype eval_phase = PhaseParameter | PhaseBody

record eval_site_facts =
  site_pc :: u32
  site_phase :: eval_phase
  site_caller :: eval_caller_facts

record eval_function_metadata =
  em_bindings :: "(string \<times> binding_location) list"
  em_direct_eval_sites :: "eval_site_facts list"
  em_var_declared_names :: "string list"
  em_eval_reachable :: bool
  em_is_eval_payload :: bool

datatype constructor_kind = Ctor_None | Ctor_Base | Ctor_Derived

record function_bytecode =
  name_hint :: "string option"
  function_name :: "string option"
  max_regs :: u16
  env_slots :: u16
  instrs :: "instr list"
  fb_consts :: const_pool
  handlers :: "handler_range list"
  spans :: "(u32 \<times> u32) list"
  pc_map :: "(u32 \<times> u32) list"
  is_strict :: bool
  fixed_params :: u16
  has_rest :: bool
  rest_reg :: u16
  expected_args :: u16
  needs_arguments :: bool
  is_generator :: bool
  is_async :: bool
  is_arrow :: bool
  is_constructor :: bool
  is_top_level :: bool
  uses_seeded_env :: bool
  ctor_kind :: constructor_kind
  eval_metadata :: "eval_function_metadata option"

definition with_instructions :: "instr list \<Rightarrow> u16 \<Rightarrow> function_bytecode" where
  "with_instructions is regs =
     \<lparr>name_hint = None, function_name = None, max_regs = regs, env_slots = 0, instrs = is,
      fb_consts = pool_new, handlers = [], spans = replicate (length is) (0, 0), pc_map = [],
      is_strict = False, fixed_params = 0, has_rest = False, rest_reg = 0, expected_args = 0,
      needs_arguments = False, is_generator = False, is_async = False, is_arrow = False,
      is_constructor = False, is_top_level = False, uses_seeded_env = False,
      ctor_kind = Ctor_None, eval_metadata = None\<rparr>"

section \<open>The handler table\<close>

text \<open>
  The loop of \<open>validate\<close> over the handlers. \<open>open\<close> is the stack of still-open
  ranges, innermost first (the source pushes at the end); \<open>n\<close> is the instruction count.
\<close>

definition pop_closed :: "handler_range \<Rightarrow> handler_range list \<Rightarrow> handler_range list" where
  "pop_closed h open = dropWhile (\<lambda>tp. h_end tp \<le> h_start h) open"

definition check_handler ::
  "nat \<Rightarrow> handler_range list \<Rightarrow> u32 \<Rightarrow> handler_range \<Rightarrow> bytecode_error + handler_range list" where
  "check_handler n open prev_start h =
     (if h_end h \<le> h_start h then Inl (InvalidFunction (HandlerRangeEmpty (h_start h) (h_end h)))
      else if h_start h < prev_start then Inl (InvalidFunction (HandlerNotSorted (h_start h)))
      else if n \<le> unat (h_target h) then Inl (HandlerTargetOutOfBounds (h_target h) n)
      else (case pop_closed h open of
          [] \<Rightarrow> Inr [h]
        | tp # rest \<Rightarrow>
            if h_end tp < h_end h then
              Inl (InvalidFunction (HandlerPartialOverlap (h_start h) (h_end h) (h_start tp) (h_end tp)))
            else if h_stack_depth h \<le> h_stack_depth tp then
              Inl (InvalidFunction (HandlerDepthNotIncreasing (h_start h) (h_end h)
                (h_stack_depth h) (h_stack_depth tp)))
            else Inr (h # tp # rest)))"

fun check_handlers ::
  "nat \<Rightarrow> handler_range list \<Rightarrow> u32 \<Rightarrow> handler_range list \<Rightarrow> bytecode_error + unit" where
  "check_handlers n open prev_start [] = Inr ()"
| "check_handlers n open prev_start (h # hs) =
     rbind (check_handler n open prev_start h) (\<lambda>open'. check_handlers n open' (h_start h) hs)"

text \<open>
  The specification of a legal table: each range is non-empty with an in-range target,
  starts are sorted, and of two ranges the later one either begins where the earlier has
  ended or lies inside it at a strictly greater stack depth.
\<close>

definition handler_ok :: "nat \<Rightarrow> handler_range \<Rightarrow> bool" where
  "handler_ok n h \<longleftrightarrow> h_start h < h_end h \<and> unat (h_target h) < n"

definition nested_or_after :: "handler_range \<Rightarrow> handler_range \<Rightarrow> bool" where
  "nested_or_after g h \<longleftrightarrow>
     h_start g \<le> h_start h
   \<and> (h_end g \<le> h_start h \<or> (h_end h \<le> h_end g \<and> h_stack_depth g < h_stack_depth h))"

definition handlers_ok :: "nat \<Rightarrow> handler_range list \<Rightarrow> bool" where
  "handlers_ok n hs \<longleftrightarrow> list_all (handler_ok n) hs \<and> sorted_wrt nested_or_after hs"

text \<open>The open stack is a chain: each range lies inside the one below it, deeper.\<close>

definition inside :: "handler_range \<Rightarrow> handler_range \<Rightarrow> bool" where
  "inside h g \<longleftrightarrow> h_end h \<le> h_end g \<and> h_stack_depth g < h_stack_depth h"

lemma inside_trans: "inside h g \<Longrightarrow> inside g f \<Longrightarrow> inside h f"
  by (auto simp: inside_def)

definition chain :: "handler_range list \<Rightarrow> bool" where
  "chain open \<longleftrightarrow> sorted_wrt inside open"

lemma chain_pop: "chain open \<Longrightarrow> chain (pop_closed h open)"
  unfolding chain_def pop_closed_def by (metis sorted_wrt_append takeWhile_dropWhile_id)

lemma pop_closed_set:
  assumes "chain open"
  shows "set (pop_closed h open) = {g \<in> set open. h_start h < h_end g}"
  using assms
proof (induction "open")
  case (Cons g gs)
  show ?case
  proof (cases "h_end g \<le> h_start h")
    case True
    with Cons show ?thesis by (auto simp: pop_closed_def chain_def not_less)
  next
    case False
    from Cons.prems have "h_end g \<le> h_end f" if "f \<in> set gs" for f
      using that by (auto simp: chain_def inside_def)
    with False show ?thesis by (force simp: pop_closed_def not_le)
  qed
qed (simp add: pop_closed_def)

lemma check_handler_Inr:
  assumes "chain open"
  shows "check_handler n open prev h = Inr open' \<longleftrightarrow>
     handler_ok n h \<and> prev \<le> h_start h
   \<and> (\<forall>g \<in> set open. h_start h < h_end g \<longrightarrow> inside h g)
   \<and> open' = h # pop_closed h open"
proof (cases "pop_closed h open")
  case Nil
  with pop_closed_set [OF assms, of h] have "\<not> h_start h < h_end g" if "g \<in> set open" for g
    using that by auto
  with Nil show ?thesis by (auto simp: check_handler_def handler_ok_def)
next
  case (Cons tp rest)
  have live: "{g \<in> set open. h_start h < h_end g} = set (tp # rest)"
    using pop_closed_set [OF assms, of h] by (simp add: Cons)
  have below: "inside tp g" if "g \<in> set rest" for g
    using chain_pop [OF assms, of h] that by (auto simp: Cons chain_def)
  have "(\<forall>g \<in> set open. h_start h < h_end g \<longrightarrow> inside h g) \<longleftrightarrow>
      (\<forall>g \<in> {g \<in> set open. h_start h < h_end g}. inside h g)" by auto
  also have "\<dots> \<longleftrightarrow> inside h tp"
    unfolding live using below by (auto intro: inside_trans)
  finally have "(\<forall>g \<in> set open. h_start h < h_end g \<longrightarrow> inside h g) \<longleftrightarrow> inside h tp" .
  with Cons show ?thesis
    by (auto simp: check_handler_def handler_ok_def inside_def not_less not_le)
qed

lemma chain_step:
  assumes "chain open" "\<forall>g \<in> set open. h_start h < h_end g \<longrightarrow> inside h g"
  shows "chain (h # pop_closed h open)"
  using chain_pop [OF assms(1), of h] pop_closed_set [OF assms(1), of h] assms(2)
  by (simp add: chain_def)

text \<open>Ranges that were popped stay closed, since starts only grow.\<close>

lemma check_handlers_iff:
  assumes "chain open" "\<forall>g \<in> set open. h_start g \<le> prev"
  shows "check_handlers n open prev hs = Inr () \<longleftrightarrow>
     handlers_ok n hs \<and> (\<forall>h \<in> set hs. prev \<le> h_start h)
   \<and> (\<forall>g \<in> set open. \<forall>h \<in> set hs. nested_or_after g h)"
  using assms
proof (induction hs arbitrary: "open" prev)
  case Nil
  then show ?case by (simp add: handlers_ok_def)
next
  case (Cons h hs)
  let ?nest = "\<forall>g \<in> set open. h_start h < h_end g \<longrightarrow> inside h g"
  let ?open = "h # pop_closed h open"
  show ?case
  proof (cases "handler_ok n h \<and> prev \<le> h_start h \<and> ?nest")
    case False
    moreover have "nested_or_after g h \<Longrightarrow> h_start h < h_end g \<Longrightarrow> inside h g" for g
      by (auto simp: nested_or_after_def inside_def)
    ultimately show ?thesis
      using check_handler_Inr [OF Cons.prems(1), of n prev h] by (auto simp: handlers_ok_def)
  next
    case True
    then have step: "check_handler n open prev h = Inr ?open"
      by (simp add: check_handler_Inr [OF Cons.prems(1)])
    have ch: "chain ?open" using Cons.prems(1) True by (blast intro: chain_step)
    have starts: "\<forall>g \<in> set ?open. h_start g \<le> h_start h"
      using Cons.prems(2) True pop_closed_set [OF Cons.prems(1), of h] by auto
    have closed: "nested_or_after g k"
      if "g \<in> set open" "\<not> h_start h < h_end g" "h_start h \<le> h_start k" for g k
      using that Cons.prems(2) True by (auto simp: nested_or_after_def)
    have here: "nested_or_after g h" if "g \<in> set open" for g
      using that True Cons.prems(2) by (auto simp: nested_or_after_def inside_def)
    have sub: "set (pop_closed h open) = {g \<in> set open. h_start h < h_end g}"
      by (rule pop_closed_set [OF Cons.prems(1)])
    have "check_handlers n open prev (h # hs) = Inr () \<longleftrightarrow>
        handlers_ok n hs \<and> (\<forall>k \<in> set hs. h_start h \<le> h_start k)
      \<and> (\<forall>g \<in> set ?open. \<forall>k \<in> set hs. nested_or_after g k)"
      by (simp add: step Cons.IH [OF ch starts])
    also have "\<dots> \<longleftrightarrow> handlers_ok n (h # hs) \<and> (\<forall>k \<in> set (h # hs). prev \<le> h_start k)
      \<and> (\<forall>g \<in> set open. \<forall>k \<in> set (h # hs). nested_or_after g k)"
      (is "?L \<longleftrightarrow> ?R")
    proof
      assume L: ?L
      then have "nested_or_after g k" if "g \<in> set open" "k \<in> set hs" for g k
        using that closed [OF that(1)] sub by (cases "h_start h < h_end g") auto
      with L True here show ?R by (auto simp: handlers_ok_def)
    next
      assume ?R
      then show ?L using sub by (auto simp: handlers_ok_def nested_or_after_def)
    qed
    finally show ?thesis .
  qed
qed

text \<open>
  The single pass with an open-range stack accepts a handler table exactly when the
  table is legal: every range is non-empty with a target inside the instruction stream,
  starts are sorted, and any two ranges are disjoint or properly nested with strictly
  increasing stack depth. Comparing with the innermost open range alone misses nothing.
\<close>

theorem check_handlers_exact:
  "check_handlers n [] 0 hs = Inr () \<longleftrightarrow> handlers_ok n hs"
  by (subst check_handlers_iff) (simp_all add: chain_def)

text \<open>
  Unwinding from a protected pc: among the handlers covering it, a later one in the table
  is the inner one and has the greater stack depth.
\<close>

definition covers :: "handler_range \<Rightarrow> u32 \<Rightarrow> bool" where
  "covers h pc \<longleftrightarrow> h_start h \<le> pc \<and> pc < h_end h"

lemma handlers_ok_innermost:
  assumes "handlers_ok n hs" "i < j" "j < length hs" "covers (hs ! i) pc" "covers (hs ! j) pc"
  shows "h_end (hs ! j) \<le> h_end (hs ! i) \<and> h_stack_depth (hs ! i) < h_stack_depth (hs ! j)"
proof -
  have "nested_or_after (hs ! i) (hs ! j)"
    using assms(1-3) by (auto simp: handlers_ok_def sorted_wrt_iff_nth_less)
  with assms(4,5) show ?thesis by (auto simp: nested_or_after_def covers_def)
qed

end
