(* ===== verification/Analysis.thy ===== *)
theory Analysis
  imports FunctionCode
begin

text \<open>
  The static walks of \<open>v12-bytecode/src/analysis.rs\<close>: instruction widths, logical pcs
  (instruction boundaries, one per instruction however many words it has), loop markers,
  counted loops and inline candidates. Word offsets are \<open>nat\<close> here; the code holds them
  as \<open>u32\<close>, which is exact for the streams a function can have (fewer than \<open>2 ^ 32\<close>
  words).
\<close>

section \<open>Instruction boundaries\<close>

definition MAX_INLINE_SIZE :: nat where "MAX_INLINE_SIZE = 20"

definition instr_width :: "instr list \<Rightarrow> nat \<Rightarrow> nat" where
  "instr_width is pc =
     (case list_get is pc of
        None \<Rightarrow> 0
      | Some i \<Rightarrow>
          if instr_op i = Some Op_Wide
          then (case try_decode (drop pc is) of Inr (_, width) \<Rightarrow> width | Inl _ \<Rightarrow> 1)
          else 1)"

lemma instr_width_past [simp]: "length is \<le> pc \<Longrightarrow> instr_width is pc = 0"
  by (simp add: instr_width_def list_get_def)

lemma instr_width_pos [bounds]: "pc < length is \<Longrightarrow> 0 < instr_width is pc"
  by (auto simp: instr_width_def list_get_def split: sum.split dest!: try_decode_width)

lemma instr_width_fits [bounds]: "pc < length is \<Longrightarrow> pc + instr_width is pc \<le> length is"
  by (auto simp: instr_width_def list_get_def split: sum.split dest!: try_decode_width)

text \<open>The walk of the analyses agrees with the width the operand contract computes.\<close>

lemma instr_width_logical:
  assumes "pc < length is" "instr_op (is ! pc) = Some op"
  shows "instr_width is pc = logical_width (spec_of op) (drop pc is)"
  using assms spec_width_of [of op]
  by (cases "spec_width (spec_of op)")
    (auto simp: instr_width_def logical_width_def list_get_def split: sum.splits)

function logical_pcs_from :: "instr list \<Rightarrow> nat \<Rightarrow> nat list" where
  "logical_pcs_from is pc =
     (if pc < length is
      then pc # (let width = instr_width is pc
                 in if width = 0 then [] else logical_pcs_from is (pc + width))
      else [])"
  by pat_completeness auto
termination
  by (relation "measure (\<lambda>(is, pc). length is - pc)") auto

declare logical_pcs_from.simps [simp del]

lemma logical_pcs_from_past [simp]: "length is \<le> pc \<Longrightarrow> logical_pcs_from is pc = []"
  by (simp add: logical_pcs_from.simps)

lemma logical_pcs_from_step:
  "pc < length is \<Longrightarrow> logical_pcs_from is pc = pc # logical_pcs_from is (pc + instr_width is pc)"
  using instr_width_pos [of pc "is"] by (subst logical_pcs_from.simps) simp

definition logical_pcs :: "function_bytecode \<Rightarrow> nat list" where
  "logical_pcs fb = logical_pcs_from (instrs fb) 0"

definition next_logical_pc :: "function_bytecode \<Rightarrow> nat \<Rightarrow> nat option" where
  "next_logical_pc fb pc =
     (let nxt = pc + instr_width (instrs fb) pc in if nxt < length (instrs fb) then Some nxt else None)"

definition is_loop_header :: "function_bytecode \<Rightarrow> nat \<Rightarrow> bool" where
  "is_loop_header fb pc \<longleftrightarrow>
     (case list_get (instrs fb) pc of None \<Rightarrow> False | Some i \<Rightarrow> instr_op i = Some Op_LoopHeader)"

definition loop_headers :: "function_bytecode \<Rightarrow> nat list" where
  "loop_headers fb = filter (is_loop_header fb) (logical_pcs fb)"

text \<open>
  Induction over the walk: the property of the stream's end, and of a boundary from the
  property of the next one.
\<close>

lemma walk_induct [case_names End Step]:
  assumes "\<And>pc. length is \<le> pc \<Longrightarrow> P pc"
    and "\<And>pc. pc < length is \<Longrightarrow> P (pc + instr_width is pc) \<Longrightarrow> P pc"
  shows "P pc"
proof (induction "length is - pc" arbitrary: pc rule: less_induct)
  case less
  show ?case
  proof (cases "pc < length is")
    case True
    then have "P (pc + instr_width is pc)"
      using instr_width_pos [OF True] by (intro less) simp
    with True show ?thesis by (rule assms(2))
  qed (simp add: assms(1))
qed

lemma logical_pcs_from_bounds:
  "p \<in> set (logical_pcs_from is pc) \<Longrightarrow> pc \<le> p \<and> p < length is"
proof (induction pc rule: walk_induct [of "is"])
  case (Step pc)
  then show ?case by (auto simp: logical_pcs_from_step)
qed simp

lemma logical_pcs_from_sorted: "sorted_wrt (<) (logical_pcs_from is pc)"
proof (induction pc rule: walk_induct [of "is"])
  case (Step pc)
  then show ?case
    using instr_width_pos [of pc "is"]
    by (auto simp: logical_pcs_from_step dest: logical_pcs_from_bounds)
qed simp

text \<open>The words an instruction at \<open>p\<close> occupies, and the one that owns a word.\<close>

definition owns :: "instr list \<Rightarrow> nat \<Rightarrow> nat \<Rightarrow> bool" where
  "owns is p i \<longleftrightarrow> p \<le> i \<and> i < p + instr_width is p"

lemma logical_pcs_from_cover:
  assumes "pc \<le> i" "i < length is"
  shows "\<exists>!p. p \<in> set (logical_pcs_from is pc) \<and> owns is p i"
  using assms
proof (induction pc rule: walk_induct [of "is"])
  case (End pc)
  then show ?case by simp
next
  case (Step pc)
  let ?next = "pc + instr_width is pc"
  show ?case
  proof (cases "i < ?next")
    case True
    with Step.prems have "owns is pc i" by (simp add: owns_def)
    moreover have "p = pc" if "p \<in> set (logical_pcs_from is pc)" "owns is p i" for p
      using that True Step(1) logical_pcs_from_bounds [of p "is" ?next]
      by (auto simp: logical_pcs_from_step owns_def)
    ultimately show ?thesis using Step(1) by (auto simp: logical_pcs_from_step)
  next
    case False
    then have "\<not> owns is pc i" by (simp add: owns_def)
    with False Step show ?thesis by (auto simp: logical_pcs_from_step)
  qed
qed

text \<open>
  The logical pcs partition the stream: they are strictly increasing, every
  instruction's words lie inside the stream, and every word belongs to exactly one logical
  instruction. So a wide operation's payload is never visited as an instruction and no
  word is skipped, whatever the words contain.
\<close>

theorem logical_pcs_partition:
  "sorted_wrt (<) (logical_pcs fb)
   \<and> (\<forall>p \<in> set (logical_pcs fb). p + instr_width (instrs fb) p \<le> length (instrs fb))
   \<and> (\<forall>i < length (instrs fb). \<exists>!p. p \<in> set (logical_pcs fb) \<and> owns (instrs fb) p i)"
  unfolding logical_pcs_def
  by (auto simp: logical_pcs_from_sorted intro!: logical_pcs_from_cover instr_width_fits
      dest: logical_pcs_from_bounds)

text \<open>
  A stream with a wide operation between narrow ones.
\<close>

definition sample_stream :: "function_bytecode" where
  "sample_stream = with_instructions
     ([instr_new Op_Move 0 1 0] @ wide_encode (CallW 2 3 1) @ [instr_new Op_Return 2 0 0]) 8"

lemma sample_stream_instrs:
  "instrs sample_stream =
     [instr_new Op_Move 0 1 0, wide_hdr 0 4, pack_hi_lo 2 3, 1, instr_new Op_Return 2 0 0]"
  by (simp add: sample_stream_def with_instructions_def)

lemma sample_stream_widths:
  "instr_width (instrs sample_stream) 0 = 1"
  "instr_width (instrs sample_stream) (Suc 0) = 3"
  "instr_width (instrs sample_stream) 4 = 1"
proof -
  have "try_decode (drop 1 (instrs sample_stream)) = Inr (CallW 2 3 1, 3)"
    using try_decode_encode [of "CallW 2 3 1" "[instr_new Op_Return 2 0 0]"]
    by (simp add: sample_stream_instrs)
  then show "instr_width (instrs sample_stream) (Suc 0) = 3"
    by (simp add: instr_width_def list_get_def sample_stream_instrs)
qed (simp_all add: instr_width_def list_get_def sample_stream_instrs)

lemma sample_stream_pcs: "logical_pcs sample_stream = [0, 1, 4]"
proof -
  have "length (instrs sample_stream) = 5" by (simp add: sample_stream_instrs)
  then show ?thesis
    by (simp add: logical_pcs_def logical_pcs_from_step sample_stream_widths)
qed

theorem logical_pcs_partition_witness:
  "\<exists>!p. p \<in> {0, 1, 4} \<and> owns (instrs sample_stream) p 3"
proof -
  have "3 < length (instrs sample_stream)" by (simp add: sample_stream_instrs)
  with logical_pcs_partition [of sample_stream] show ?thesis
    by (simp add: sample_stream_pcs)
qed

text \<open>Walking on from a boundary visits the rest of the boundaries.\<close>

lemma logical_pcs_from_suffix:
  "p \<in> set (logical_pcs_from is pc) \<Longrightarrow>
     set (logical_pcs_from is p) = {q \<in> set (logical_pcs_from is pc). p \<le> q}"
proof (induction pc rule: walk_induct [of "is"])
  case (Step pc)
  show ?case
  proof (cases "p = pc")
    case True
    then show ?thesis using logical_pcs_from_bounds by auto
  next
    case False
    with Step.prems Step(1) have "p \<in> set (logical_pcs_from is (pc + instr_width is pc))"
      by (simp add: logical_pcs_from_step)
    note later = this
    have "pc < p" using logical_pcs_from_bounds [OF later] instr_width_pos [OF Step(1)] by simp
    then show ?thesis unfolding logical_pcs_from_step [OF Step(1)] Step.IH [OF later] by auto
  qed
qed simp

lemma logical_pcs_next:
  "p \<in> set (logical_pcs_from is pc) \<Longrightarrow> p + instr_width is p < length is \<Longrightarrow>
     p + instr_width is p \<in> set (logical_pcs_from is pc)"
  by (induction pc rule: walk_induct [of "is"]) (auto simp: logical_pcs_from_step)

section \<open>Counted loops\<close>

record counted_loop =
  cl_header :: nat
  cl_exit :: "nat option"
  cl_induction :: "u8 option"
  cl_backedge :: nat

text \<open>\<open>get_or_insert\<close>: the first value recorded stays.\<close>

definition get_or_insert :: "'a option \<Rightarrow> 'a \<Rightarrow> 'a option" where
  "get_or_insert x v = (case x of None \<Rightarrow> Some v | Some w \<Rightarrow> Some w)"

lemma get_or_insert_simps [simp]: "get_or_insert None v = Some v" "get_or_insert (Some w) v = Some w"
  by (simp_all add: get_or_insert_def)

lemma get_or_insert_cases: "get_or_insert x v = Some w \<Longrightarrow> x = Some w \<or> (x = None \<and> w = v)"
  by (cases x) auto

definition note_exit :: "nat \<Rightarrow> nat \<Rightarrow> instr \<Rightarrow> nat option \<Rightarrow> nat option" where
  "note_exit header pc i exit =
     (if instr_op i = Some Op_JumpIfFalse \<or> instr_op i = Some Op_JumpIfTrue
      then let target = unat (instr_imm16 i); is_backedge = (header \<le> target \<and> target < pc)
           in if is_backedge then exit else get_or_insert exit pc
      else exit)"

definition note_induction :: "instr \<Rightarrow> u8 option \<Rightarrow> u8 option" where
  "note_induction i induct =
     (if instr_op i = Some Op_Add \<or> instr_op i = Some Op_Sub
      then let dst = instr_a i
           in if dst = instr_b i \<or> dst = instr_c i then get_or_insert induct dst else induct
      else induct)"

text \<open>The scan; its result is the exit, the induction register and the back edge.\<close>

function scan_loop ::
  "instr list \<Rightarrow> nat \<Rightarrow> nat \<Rightarrow> nat option \<Rightarrow> u8 option \<Rightarrow> nat option \<times> u8 option \<times> nat option"
where
  "scan_loop is header pc exit induct =
     (if pc < length is then
        (case instr_op (is ! pc) of
           None \<Rightarrow> (exit, induct, None)
         | Some op \<Rightarrow>
             if op = Op_LoopHeader then (exit, induct, None)
             else if op = Op_Jump \<and> unat (instr_imm24 (is ! pc)) = header
               then (exit, induct, Some pc)
             else let width = instr_width is pc;
                      exit' = note_exit header pc (is ! pc) exit;
                      induct' = note_induction (is ! pc) induct
               in if width = 0 then (exit', induct', None)
                  else scan_loop is header (pc + width) exit' induct')
      else (exit, induct, None))"
  by pat_completeness auto
termination
  by (relation "measure (\<lambda>(is, _, pc, _). length is - pc)") auto

declare scan_loop.simps [simp del]

definition find_counted_loop :: "function_bytecode \<Rightarrow> nat \<Rightarrow> counted_loop option" where
  "find_counted_loop fb header =
     (let is = instrs fb;
          (exit, induct, backedge) = scan_loop is header (header + instr_width is header) None None
      in case backedge of
           None \<Rightarrow> None
         | Some b \<Rightarrow> Some \<lparr>cl_header = header, cl_exit = exit, cl_induction = induct, cl_backedge = b\<rparr>)"

lemma scan_loop_past [simp]: "length is \<le> pc \<Longrightarrow> scan_loop is h pc e d = (e, d, None)"
  by (simp add: scan_loop.simps)

lemma scan_loop_backedge:
  assumes "scan_loop is header pc e d = (e', d', Some b)"
  shows "b \<in> set (logical_pcs_from is pc) \<and> instr_op (is ! b) = Some Op_Jump
     \<and> unat (instr_imm24 (is ! b)) = header
     \<and> (\<forall>q \<in> set (logical_pcs_from is pc). q < b \<longrightarrow> instr_op (is ! q) \<noteq> Some Op_LoopHeader)"
  using assms
proof (induction pc arbitrary: e d rule: walk_induct [of "is"])
  case (Step pc)
  note width = instr_width_pos [OF Step(1)]
  from Step.prems Step(1) obtain op where op: "instr_op (is ! pc) = Some op" "op \<noteq> Op_LoopHeader"
    by (auto simp: scan_loop.simps [of "is" header pc] split: option.splits if_splits)
  show ?case
  proof (cases "op = Op_Jump \<and> unat (instr_imm24 (is ! pc)) = header")
    case True
    with Step.prems Step(1) op have "b = pc"
      by (simp add: scan_loop.simps [of "is" header pc])
    with True Step(1) op show ?thesis
      by (auto simp: logical_pcs_from_step dest: logical_pcs_from_bounds)
  next
    case False
    with Step.prems Step(1) op width have
      "scan_loop is header (pc + instr_width is pc) (note_exit header pc (is ! pc) e)
         (note_induction (is ! pc) d) = (e', d', Some b)"
      by (simp add: scan_loop.simps [of "is" header pc] Let_def)
    with Step.IH Step(1) op show ?thesis by (auto simp: logical_pcs_from_step)
  qed
qed simp

text \<open>What a recorded exit or induction register is.\<close>

definition leaves_backward_window :: "nat \<Rightarrow> nat \<Rightarrow> instr \<Rightarrow> bool" where
  "leaves_backward_window header x i \<longleftrightarrow>
     (instr_op i = Some Op_JumpIfFalse \<or> instr_op i = Some Op_JumpIfTrue)
   \<and> \<not> (header \<le> unat (instr_imm16 i) \<and> unat (instr_imm16 i) < x)"

definition self_update :: "instr \<Rightarrow> u8 \<Rightarrow> bool" where
  "self_update i r \<longleftrightarrow>
     (instr_op i = Some Op_Add \<or> instr_op i = Some Op_Sub)
   \<and> instr_a i = r \<and> (instr_b i = r \<or> instr_c i = r)"

lemma note_exit_Some:
  "note_exit header pc i e = Some x \<Longrightarrow> e = Some x \<or> (x = pc \<and> leaves_backward_window header pc i)"
  by (auto simp: note_exit_def leaves_backward_window_def Let_def
      dest: get_or_insert_cases split: if_splits)

lemma note_induction_Some:
  "note_induction i d = Some r \<Longrightarrow> d = Some r \<or> self_update i r"
  by (auto simp: note_induction_def self_update_def Let_def
      dest: get_or_insert_cases split: if_splits)

lemma scan_loop_facts:
  assumes "scan_loop is header pc e d = (e', d', Some b)"
  shows "(\<forall>x. e' = Some x \<longrightarrow> e = Some x \<or>
            (x \<in> set (logical_pcs_from is pc) \<and> x < b \<and> leaves_backward_window header x (is ! x)))
       \<and> (\<forall>r. d' = Some r \<longrightarrow> d = Some r \<or>
            (\<exists>q \<in> set (logical_pcs_from is pc). q < b \<and> self_update (is ! q) r))"
  using assms
proof (induction pc arbitrary: e d rule: walk_induct [of "is"])
  case (Step pc)
  note width = instr_width_pos [OF Step(1)]
  from Step.prems Step(1) obtain op where op: "instr_op (is ! pc) = Some op" "op \<noteq> Op_LoopHeader"
    by (auto simp: scan_loop.simps [of "is" header pc] split: option.splits if_splits)
  show ?case
  proof (cases "op = Op_Jump \<and> unat (instr_imm24 (is ! pc)) = header")
    case True
    with Step.prems Step(1) op show ?thesis
      by (simp add: scan_loop.simps [of "is" header pc])
  next
    case False
    with Step.prems Step(1) op width have rest:
      "scan_loop is header (pc + instr_width is pc) (note_exit header pc (is ! pc) e)
         (note_induction (is ! pc) d) = (e', d', Some b)"
      by (simp add: scan_loop.simps [of "is" header pc] Let_def)
    have "b \<in> set (logical_pcs_from is (pc + instr_width is pc))"
      using scan_loop_backedge [OF rest] by blast
    then have "pc < b" using logical_pcs_from_bounds [of b "is"] width by fastforce
    with Step.IH [OF rest] show ?thesis
      unfolding logical_pcs_from_step [OF Step(1)]
      by (auto dest: note_exit_Some note_induction_Some)
  qed
qed simp

text \<open>
  What a detected counted loop is: its back edge is an instruction of the function
  below the header, an unconditional jump to the header, with no other loop marker between
  them; a recorded exit is a conditional branch strictly before the back edge whose target
  is not behind it in the loop; and a recorded induction register is updated in place by
  an addition or subtraction before the back edge.
\<close>

theorem counted_loop_sound:
  assumes found: "find_counted_loop fb header = Some l" and hdr: "header \<in> set (logical_pcs fb)"
  shows "cl_header l = header \<and> header < cl_backedge l \<and> cl_backedge l \<in> set (logical_pcs fb)
     \<and> instr_op (instrs fb ! cl_backedge l) = Some Op_Jump
     \<and> unat (instr_imm24 (instrs fb ! cl_backedge l)) = header
     \<and> (\<forall>q \<in> set (logical_pcs fb). header < q \<and> q < cl_backedge l \<longrightarrow>
          instr_op (instrs fb ! q) \<noteq> Some Op_LoopHeader)
     \<and> (\<forall>x. cl_exit l = Some x \<longrightarrow> header < x \<and> x < cl_backedge l \<and> x \<in> set (logical_pcs fb)
          \<and> leaves_backward_window header x (instrs fb ! x))
     \<and> (\<forall>r. cl_induction l = Some r \<longrightarrow>
          (\<exists>q \<in> set (logical_pcs fb). header < q \<and> q < cl_backedge l \<and> self_update (instrs fb ! q) r))"
proof -
  let ?is = "instrs fb"
  let ?next = "header + instr_width ?is header"
  obtain e d b where scan: "scan_loop ?is header ?next None None = (e, d, Some b)"
    and l: "l = \<lparr>cl_header = header, cl_exit = e, cl_induction = d, cl_backedge = b\<rparr>"
    using found by (auto simp: find_counted_loop_def Let_def split: prod.splits option.splits)
  have lt: "header < length ?is"
    using hdr by (auto simp: logical_pcs_def dest: logical_pcs_from_bounds)
  have rest: "set (logical_pcs_from ?is ?next) = {q \<in> set (logical_pcs fb). header < q}"
  proof -
    have "insert header (set (logical_pcs_from ?is ?next)) = {q \<in> set (logical_pcs fb). header \<le> q}"
      using logical_pcs_from_suffix [of header ?is 0] hdr
      by (simp add: logical_pcs_def logical_pcs_from_step [OF lt])
    moreover have "header \<notin> set (logical_pcs_from ?is ?next)"
      using logical_pcs_from_bounds [of header ?is ?next] instr_width_pos [OF lt] by auto
    ultimately have "set (logical_pcs_from ?is ?next) = {q \<in> set (logical_pcs fb). header \<le> q} - {header}"
      by (metis Diff_insert_absorb)
    also have "\<dots> = {q \<in> set (logical_pcs fb). header < q}" by auto
    finally show ?thesis .
  qed
  show ?thesis
    using scan_loop_backedge [OF scan] scan_loop_facts [OF scan] unfolding rest l by auto
qed

text \<open>A loop \<open>while (r0) \<lbrace> if (r1) r2 = r2; r3 = r3 + r4 \<rbrace>\<close>, as the compiler lays it out.\<close>

definition sample_loop :: "function_bytecode" where
  "sample_loop = with_instructions
     [instr_new Op_LoopHeader 0 0 0, instr_new_imm16 Op_JumpIfFalse 0 6,
      instr_new_imm16 Op_JumpIfFalse 1 4, instr_new Op_Move 2 2 0,
      instr_new Op_Add 3 3 4, instr_new_imm24 Op_Jump 0, instr_new Op_Return 0 0 0] 5"

lemma sample_loop_ops:
  "length (instrs sample_loop) = 7"
  "instrs sample_loop ! 0 = instr_new Op_LoopHeader 0 0 0"
  "instrs sample_loop ! Suc 0 = instr_new_imm16 Op_JumpIfFalse 0 6"
  "instrs sample_loop ! 2 = instr_new_imm16 Op_JumpIfFalse 1 4"
  "instrs sample_loop ! 3 = instr_new Op_Move 2 2 0"
  "instrs sample_loop ! 4 = instr_new Op_Add 3 3 4"
  "instrs sample_loop ! 5 = instr_new_imm24 Op_Jump 0"
  "instrs sample_loop ! 6 = instr_new Op_Return 0 0 0"
  by (simp_all add: sample_loop_def with_instructions_def)

lemma sample_loop_widths: "pc < 7 \<Longrightarrow> instr_width (instrs sample_loop) pc = 1"
proof -
  assume "pc < 7"
  then have "pc \<in> {0, 1, 2, 3, 4, 5, 6}" by auto
  then show ?thesis
    by (elim insertE emptyE; simp add: instr_width_def list_get_def sample_loop_def
        with_instructions_def instr_new_imm24_fields)
qed

lemma sample_loop_found:
  "find_counted_loop sample_loop 0 =
     Some \<lparr>cl_header = 0, cl_exit = Some 1, cl_induction = Some 3, cl_backedge = 5\<rparr>"
proof -
  have w: "instr_width (instrs sample_loop) pc = 1" if "pc < 7" for pc
    using that by (rule sample_loop_widths)
  show ?thesis
    by (simp add: find_counted_loop_def scan_loop.simps [of _ _ "Suc 0"] scan_loop.simps [of _ _ 2]
        scan_loop.simps [of _ _ 3] scan_loop.simps [of _ _ 4] scan_loop.simps [of _ _ 5] w
        numeral_2_eq_2 [symmetric] sample_loop_ops note_exit_def note_induction_def instr_new_imm24_fields Let_def)
qed

theorem counted_loop_sound_witness:
  "0 \<in> set (logical_pcs sample_loop)
   \<and> (\<exists>l. find_counted_loop sample_loop 0 = Some l \<and> cl_backedge l = 5
        \<and> unat (instr_imm24 (instrs sample_loop ! cl_backedge l)) = 0)"
proof -
  have hdr: "0 \<in> set (logical_pcs sample_loop)"
    by (simp add: logical_pcs_def logical_pcs_from_step sample_loop_ops)
  with counted_loop_sound [OF sample_loop_found hdr] show ?thesis
    using sample_loop_found by simp
qed

section \<open>Inline candidates\<close>

definition is_inline_candidate :: "function_bytecode \<Rightarrow> bool" where
  "is_inline_candidate callee =
     (let pcs = logical_pcs callee
      in pcs \<noteq> []
       \<and> instr_op (instrs callee ! last pcs) \<in> {Some Op_Return, Some Op_Throw}
       \<and> length pcs \<le> MAX_INLINE_SIZE + 1)"

lemma logical_pcs_from_last:
  "pc < length is \<Longrightarrow> last (logical_pcs_from is pc) + instr_width is (last (logical_pcs_from is pc)) = length is"
proof (induction pc rule: walk_induct [of "is"])
  case (Step pc)
  let ?next = "pc + instr_width is pc"
  show ?case
  proof (cases "?next < length is")
    case True
    then have "logical_pcs_from is ?next \<noteq> []" by (simp add: logical_pcs_from_step)
    with True Step show ?thesis by (simp add: logical_pcs_from_step [OF Step(1)])
  next
    case False
    with instr_width_fits [OF Step(1)] show ?thesis
      by (simp add: logical_pcs_from_step [OF Step(1)])
  qed
qed simp

text \<open>An inline candidate ends in a \<open>Return\<close> or \<open>Throw\<close> that is the last word of the stream.\<close>

lemma inline_candidate_terminated:
  assumes "is_inline_candidate fb"
  shows "instrs fb \<noteq> [] \<and> instr_op (last (instrs fb)) \<in> {Some Op_Return, Some Op_Throw}
     \<and> length (logical_pcs fb) \<le> MAX_INLINE_SIZE + 1"
proof -
  let ?p = "last (logical_pcs fb)"
  from assms have ne: "logical_pcs fb \<noteq> []"
    and op: "instr_op (instrs fb ! ?p) \<in> {Some Op_Return, Some Op_Throw}"
    and len: "length (logical_pcs fb) \<le> MAX_INLINE_SIZE + 1"
    by (auto simp: is_inline_candidate_def Let_def)
  from ne have "0 < length (instrs fb)"
    by (metis logical_pcs_def logical_pcs_from_past not_gr_zero le_refl)
  then have "?p + instr_width (instrs fb) ?p = length (instrs fb)"
    unfolding logical_pcs_def by (rule logical_pcs_from_last)
  moreover have "?p < length (instrs fb)"
    using last_in_set [OF ne] unfolding logical_pcs_def by (auto dest: logical_pcs_from_bounds)
  moreover from this have "instr_width (instrs fb) ?p = 1"
    using op by (auto simp: instr_width_def list_get_def)
  ultimately have "?p = length (instrs fb) - 1" by simp
  then have "last (instrs fb) = instrs fb ! ?p"
    using \<open>0 < length (instrs fb)\<close> by (simp add: last_conv_nth)
  with op len \<open>0 < length (instrs fb)\<close> show ?thesis by auto
qed

end
