(* ===== verification/Validator.thy ===== *)
theory Validator
  imports Analysis
begin

text \<open>
  The operand validator: \<open>FunctionBytecode::validate\<close> and the walk of
  \<open>v12-bytecode/src/validate.rs\<close> that checks every instruction against its
  \<open>OpSpec\<close>. The walk's local variables are a record; one iteration of its loop is
  \<open>contract_step\<close>. Its specification splits the work in two: \<open>decode_stream\<close>
  says which logical instructions the words are, \<open>instr_contract\<close> what one of them must
  satisfy, given the environments allocated before it. \<open>pc as u32\<close> truncates, so
  the exact statements ask for a stream shorter than \<open>2 ^ 32\<close> words.
\<close>

section \<open>The checks\<close>

definition FLAG_VALUES :: "u8 list" where "FLAG_VALUES = [0, 1]"

definition role_slot :: "op_spec \<Rightarrow> role \<Rightarrow> nat option" where
  "role_slot s r = find (\<lambda>i. role_at_index s i = r) [0, 1, 2]"

definition check_register :: "u32 \<Rightarrow> opcode \<Rightarrow> string \<Rightarrow> u16 \<Rightarrow> u32 \<Rightarrow> bytecode_error + unit" where
  "check_register at op operand reg regs =
     (if (ucast reg :: u32) < regs then Inr ()
      else Inl (RegisterOutOfRange at op operand (ucast reg) regs))"

definition check_positional_windows ::
  "u32 \<Rightarrow> opcode \<Rightarrow> u16 list \<Rightarrow> u32 \<Rightarrow> bytecode_error + unit" where
  "check_positional_windows at op operands regs =
     (let window =
        (if op = Op_NewArray then Some (operands ! 1, operands ! 2, ''element window b + c'')
         else if op = Op_DefineAccessor \<or> op = Op_DefineAccessorEnumerable
           then Some (operands ! 2, 1, ''accessor pair base + 1'')
         else None)
      in case window of
           None \<Rightarrow> Inr ()
         | Some (base, count, name) \<Rightarrow>
             (let last = (ucast base :: u32) + ucast count
              in if last < regs then Inr () else Inl (RegisterOutOfRange at op name last regs)))"

text \<open>\<open>envs\<close> has the innermost environment last, as in the source.\<close>

definition check_env_access ::
  "u32 \<Rightarrow> opcode \<Rightarrow> u32 \<Rightarrow> u32 \<Rightarrow> u32 list \<Rightarrow> bytecode_error + unit" where
  "check_env_access at op depth slot envs =
     (if length envs < unat depth + 1 then Inr ()
      else let env_slots = envs ! (length envs - (unat depth + 1))
        in if slot < env_slots then Inr () else Inl (EnvSlotOutOfRange at op depth slot env_slots))"

definition check_wide ::
  "u32 \<Rightarrow> wide_op \<Rightarrow> function_bytecode \<Rightarrow> u32 list \<Rightarrow> u32 \<Rightarrow> bytecode_error + u32 list" where
  "check_wide at w fb envs regs =
     (case find (\<lambda>(_, reg). regs \<le> ucast reg) (wide_registers w) of
        Some (name, reg) \<Rightarrow> Inl (RegisterOutOfRange at Op_Wide (name @ '' (wide)'') (ucast reg) regs)
      | None \<Rightarrow>
          rbind (case w of
              LoadConstW _ const_id \<Rightarrow>
                if pool_len (fb_consts fb) \<le> unat const_id
                then Inl (ConstIdOutOfRange at Op_Wide const_id (pool_len (fb_consts fb)))
                else Inr ()
            | _ \<Rightarrow> Inr ())
          (\<lambda>_. let envs' = (case env_allocation w of None \<Rightarrow> envs | Some slots \<Rightarrow> envs @ [slots])
             in case env_access w of
                  None \<Rightarrow> Inr envs'
                | Some (depth, slot) \<Rightarrow>
                    rbind (check_env_access at Op_Wide depth slot envs') (\<lambda>_. Inr envs')))"

text \<open>A pending \<open>RegExt\<close>: mask and the three high bytes.\<close>

type_synonym reg_prefix = "(u8 \<times> u8 \<times> u8 \<times> u8) option"

definition resolve_operand :: "reg_prefix \<Rightarrow> nat \<Rightarrow> u8 \<Rightarrow> u16" where
  "resolve_operand prefix index byte =
     (case prefix of
        Some (m, a_hi, b_hi, c_hi) \<Rightarrow>
          if m AND push_bit index 1 \<noteq> 0
          then let hi = (if index = 0 then a_hi else if index = 1 then b_hi else c_hi)
               in push_bit 8 (ucast hi) OR ucast byte
          else ucast byte
      | None \<Rightarrow> ucast byte)"

definition instr_bytes :: "instr \<Rightarrow> u8 list" where
  "instr_bytes i = [instr_a i, instr_b i, instr_c i]"

definition resolve_operands :: "reg_prefix \<Rightarrow> instr \<Rightarrow> u16 list" where
  "resolve_operands prefix i =
     map (\<lambda>index. resolve_operand prefix index (instr_bytes i ! index)) [0, 1, 2]"

fun check_registers ::
  "u32 \<Rightarrow> opcode \<Rightarrow> op_spec \<Rightarrow> u32 \<Rightarrow> (nat \<times> u16) list \<Rightarrow> bytecode_error + unit" where
  "check_registers at op s regs [] = Inr ()"
| "check_registers at op s regs ((index, reg) # rest) =
     (if \<not> index_is_register s index then check_registers at op s regs rest
      else rbind (check_register at op (role_name (role_at_index s index)) reg regs)
             (\<lambda>_. check_registers at op s regs rest))"

fun check_flags :: "u32 \<Rightarrow> opcode \<Rightarrow> op_spec \<Rightarrow> (nat \<times> u8) list \<Rightarrow> bytecode_error + unit" where
  "check_flags at op s [] = Inr ()"
| "check_flags at op s ((index, byte) # rest) =
     (if role_at_index s index = Role_Flag \<and> byte \<notin> set FLAG_VALUES
      then Inl (FlagNotBoolean at op byte)
      else check_flags at op s rest)"

definition branch_target :: "opcode \<Rightarrow> instr \<Rightarrow> u32 option" where
  "branch_target op i =
     (if op = Op_Jump then Some (instr_imm24 i)
      else if op \<in> {Op_JumpIfFalse, Op_JumpIfTrue, Op_JumpIfNullish} then Some (ucast (instr_imm16 i))
      else None)"

definition check_branch :: "u32 \<Rightarrow> opcode \<Rightarrow> instr \<Rightarrow> nat \<Rightarrow> bytecode_error + unit" where
  "check_branch at op i n =
     (case branch_target op i of
        None \<Rightarrow> Inr ()
      | Some target \<Rightarrow>
          if word_of_nat n < target then Inl (BranchTargetOutOfRange at op target n) else Inr ())"

definition check_const :: "u32 \<Rightarrow> opcode \<Rightarrow> instr \<Rightarrow> nat \<Rightarrow> bytecode_error + unit" where
  "check_const at op i pool =
     (if op = Op_LoadConst \<and> pool \<le> unat (instr_imm16 i)
      then Inl (ConstIdOutOfRange at op (ucast (instr_imm16 i)) pool) else Inr ())"

text \<open>Environment allocation and access, located by role.\<close>

definition check_envs ::
  "u32 \<Rightarrow> opcode \<Rightarrow> op_spec \<Rightarrow> u16 list \<Rightarrow> u32 list \<Rightarrow> bytecode_error + u32 list" where
  "check_envs at op s operands envs =
     (let pushed = (if op = Op_NewEnvironment
                    then case role_slot s Role_Slot of
                           None \<Rightarrow> envs | Some count \<Rightarrow> envs @ [ucast (operands ! count)]
                    else envs);
          envs' = (if op = Op_PopEnvironment then butlast pushed else pushed)
      in case (role_slot s Role_Depth, role_slot s Role_Slot) of
           (Some depth_at, Some slot_at) \<Rightarrow>
             rbind (check_env_access at op (ucast (operands ! depth_at))
                      (ucast (operands ! slot_at)) envs') (\<lambda>_. Inr envs')
         | _ \<Rightarrow> Inr envs')"

text \<open>A narrow instruction: the rest of the loop body, in the code's order.\<close>

definition check_narrow ::
  "u32 \<Rightarrow> opcode \<Rightarrow> instr \<Rightarrow> reg_prefix \<Rightarrow> function_bytecode \<Rightarrow> u32 list \<Rightarrow> bytecode_error + u32 list"
where
  "check_narrow at op i prefix fb envs =
     (case spec op of
        None \<Rightarrow> Inl (UnassignedOpcode at (opcode_byte op))
      | Some s \<Rightarrow>
          (let operands = resolve_operands prefix i
           in rbind (check_registers at op s (ucast (max_regs fb)) (enumerate 0 operands)) (\<lambda>_.
              rbind (check_positional_windows at op operands (ucast (max_regs fb))) (\<lambda>_.
              rbind (check_flags at op s (enumerate 0 (instr_bytes i))) (\<lambda>_.
              rbind (check_const at op i (pool_len (fb_consts fb))) (\<lambda>_.
              rbind (check_branch at op i (length (instrs fb))) (\<lambda>_.
              check_envs at op s operands envs)))))))"

record walk =
  w_pc :: nat
  w_envs :: "u32 list"
  w_pending :: reg_prefix

definition contract_step :: "function_bytecode \<Rightarrow> walk \<Rightarrow> bytecode_error + walk" where
  "contract_step fb st =
     (let is = instrs fb; pc = w_pc st; at = word_of_nat pc; i = is ! pc
      in case instr_op i of
           None \<Rightarrow> Inl (UnassignedOpcode at (ucast (drop_bit 24 i)))
         | Some op \<Rightarrow>
             if op = Op_Wide then
               rbind (try_decode (drop pc is)) (\<lambda>(w, width).
                 case w of
                   RegExt m a_hi b_hi c_hi \<Rightarrow>
                     if w_pending st \<noteq> None then Inl (TruncatedWide pc)
                     else Inr (st\<lparr>w_pending := Some (m, a_hi, b_hi, c_hi), w_pc := pc + width\<rparr>)
                 | _ \<Rightarrow>
                     if w_pending st \<noteq> None then Inl (TruncatedWide pc)
                     else rbind (check_wide at w fb (w_envs st) (ucast (max_regs fb)))
                       (\<lambda>envs. Inr (st\<lparr>w_envs := envs, w_pc := pc + width\<rparr>)))
             else rbind (check_narrow at op i (w_pending st) fb (w_envs st))
               (\<lambda>envs. Inr (st\<lparr>w_envs := envs, w_pending := None, w_pc := pc + 1\<rparr>)))"

lemma contract_step_advances:
  "contract_step fb st = Inr st' \<Longrightarrow> w_pc st < w_pc st'"
  by (auto simp: contract_step_def Let_def split: option.splits if_splits wide_op.splits
      dest!: try_decode_width)

function contract_walk :: "function_bytecode \<Rightarrow> walk \<Rightarrow> bytecode_error + unit" where
  "contract_walk fb st =
     (if w_pc st < length (instrs fb)
      then (case contract_step fb st of Inl e \<Rightarrow> Inl e | Inr st' \<Rightarrow> contract_walk fb st')
      else if w_pending st \<noteq> None then Inl (TruncatedWide (length (instrs fb)))
      else Inr ())"
  by pat_completeness auto
termination
  by (relation "measure (\<lambda>(fb, st). length (instrs fb) - w_pc st)")
    (auto dest!: contract_step_advances)

declare contract_walk.simps [simp del]

definition check_operand_contract :: "function_bytecode \<Rightarrow> bytecode_error + unit" where
  "check_operand_contract fb = contract_walk fb \<lparr>w_pc = 0, w_envs = [], w_pending = None\<rparr>"

definition validate :: "function_bytecode \<Rightarrow> bytecode_error + unit" where
  "validate fb =
     (if max_regs fb = 0 then Inl ZeroMaxRegs
      else rbind (check_handlers (length (instrs fb)) [] 0 (handlers fb))
             (\<lambda>_. check_operand_contract fb))"

section \<open>Specification: logical instructions and their contract\<close>

text \<open>
  \<open>Narrow op i ops\<close> is a one-word instruction with its three operands widened by the
  prefix before it, \<open>Prefix\<close> a \<open>RegExt\<close>, \<open>WideI\<close> any other wide operation.
\<close>

datatype logical = Narrow opcode instr "u16 list" | Prefix wide_op | WideI wide_op

text \<open>
  The logical instructions of a stream with their pcs. A stream is malformed (\<open>None\<close>)
  when a byte at a boundary is unassigned, a wide operation is truncated or unknown, a
  prefix is not followed by a narrow instruction, or the stream ends in a prefix.
\<close>

definition decode_one ::
  "instr list \<Rightarrow> reg_prefix \<Rightarrow> nat \<Rightarrow> (logical \<times> reg_prefix) option" where
  "decode_one is prefix pc =
     (case instr_op (is ! pc) of
        None \<Rightarrow> None
      | Some op \<Rightarrow>
          if op \<noteq> Op_Wide then Some (Narrow op (is ! pc) (resolve_operands prefix (is ! pc)), None)
          else (case (prefix, try_decode (drop pc is)) of
              (None, Inr (RegExt m a b c, _)) \<Rightarrow> Some (Prefix (RegExt m a b c), Some (m, a, b, c))
            | (None, Inr (w, _)) \<Rightarrow> Some (WideI w, None)
            | _ \<Rightarrow> None))"

function decode_stream :: "instr list \<Rightarrow> reg_prefix \<Rightarrow> nat \<Rightarrow> (nat \<times> logical) list option" where
  "decode_stream is prefix pc =
     (if pc < length is
      then (case decode_one is prefix pc of
          None \<Rightarrow> None
        | Some (l, prefix') \<Rightarrow>
            map_option (Cons (pc, l)) (decode_stream is prefix' (pc + instr_width is pc)))
      else if prefix = None then Some [] else None)"
  by pat_completeness auto
termination
  by (relation "measure (\<lambda>(is, _, pc). length is - pc)") (simp_all add: instr_width_pos diff_less_mono2)

declare decode_stream.simps [simp del]

fun window_register :: "opcode \<Rightarrow> u16 list \<Rightarrow> nat list" where
  "window_register op ops =
     (if op = Op_NewArray then [unat (ops ! 1) + unat (ops ! 2)]
      else if op \<in> {Op_DefineAccessor, Op_DefineAccessorEnumerable} then [unat (ops ! 2) + 1]
      else [])"

text \<open>The registers a logical instruction names, windows included.\<close>

fun logical_registers :: "logical \<Rightarrow> nat list" where
  "logical_registers (Narrow op i ops) =
     [unat (ops ! k). k \<leftarrow> [0, 1, 2], index_is_register (spec_of op) k] @ window_register op ops"
| "logical_registers (Prefix w) = []"
| "logical_registers (WideI w) = map (unat \<circ> snd) (wide_registers w)"

fun logical_const :: "logical \<Rightarrow> nat option" where
  "logical_const (Narrow op i ops) = (if op = Op_LoadConst then Some (unat (instr_imm16 i)) else None)"
| "logical_const (WideI (LoadConstW _ const_id)) = Some (unat const_id)"
| "logical_const _ = None"

fun logical_target :: "logical \<Rightarrow> nat option" where
  "logical_target (Narrow op i ops) = map_option unat (branch_target op i)"
| "logical_target _ = None"

fun logical_flag :: "logical \<Rightarrow> u8 option" where
  "logical_flag (Narrow op i ops) =
     (if op = Op_IteratorClose then Some (instr_b i)
      else if op = Op_Await then Some (instr_c i) else None)"
| "logical_flag _ = None"

text \<open>\<open>(depth, slot)\<close> of an environment access: the two opcodes order them differently.\<close>

fun logical_access :: "logical \<Rightarrow> (nat \<times> nat) option" where
  "logical_access (Narrow op i ops) =
     (if op = Op_GetEnvSlot then Some (unat (ops ! 1), unat (ops ! 2))
      else if op = Op_SetEnvSlot then Some (unat (ops ! 0), unat (ops ! 1))
      else None)"
| "logical_access (WideI w) = map_option (map_prod unat unat) (env_access w)"
| "logical_access (Prefix w) = None"

text \<open>The environments allocated so far, after an instruction.\<close>

fun env_effect :: "logical \<Rightarrow> u32 list \<Rightarrow> u32 list" where
  "env_effect (Narrow op i ops) envs =
     (if op = Op_NewEnvironment then envs @ [ucast (ops ! 1)]
      else if op = Op_PopEnvironment then butlast envs else envs)"
| "env_effect (WideI w) envs = (case env_allocation w of None \<Rightarrow> envs | Some n \<Rightarrow> envs @ [n])"
| "env_effect (Prefix w) envs = envs"

definition access_ok :: "u32 list \<Rightarrow> nat \<times> nat \<Rightarrow> bool" where
  "access_ok envs = (\<lambda>(depth, slot). depth < length envs \<longrightarrow> slot < unat (rev envs ! depth))"

definition instr_contract :: "function_bytecode \<Rightarrow> u32 list \<Rightarrow> logical \<Rightarrow> bool" where
  "instr_contract fb envs l \<longleftrightarrow>
     list_all (\<lambda>r. r < unat (max_regs fb)) (logical_registers l)
   \<and> pred_option (\<lambda>k. k < pool_len (fb_consts fb)) (logical_const l)
   \<and> pred_option (\<lambda>t. t \<le> length (instrs fb)) (logical_target l)
   \<and> pred_option (\<lambda>v. v = 0 \<or> v = 1) (logical_flag l)
   \<and> pred_option (access_ok (env_effect l envs)) (logical_access l)"

fun stream_contract :: "function_bytecode \<Rightarrow> u32 list \<Rightarrow> (nat \<times> logical) list \<Rightarrow> bool" where
  "stream_contract fb envs [] = True"
| "stream_contract fb envs ((_, l) # ls) =
     (instr_contract fb envs l \<and> stream_contract fb (env_effect l envs) ls)"

section \<open>The walk implements the specification\<close>

lemma rbind_unit: "rbind (r :: 'e + unit) f = Inr y \<longleftrightarrow> r = Inr () \<and> f () = Inr y"
  by simp

lemma role_slots:
  "role_slot (spec_of op) Role_Depth =
     (if op = Op_GetEnvSlot then Some 1 else if op = Op_SetEnvSlot then Some 0 else None)"
  "role_slot (spec_of op) Role_Slot =
     (if op = Op_GetEnvSlot then Some 2
      else if op = Op_SetEnvSlot \<or> op = Op_NewEnvironment then Some 1 else None)"
proof -
  show "role_slot (spec_of op) Role_Depth =
     (if op = Op_GetEnvSlot then Some 1 else if op = Op_SetEnvSlot then Some 0 else None)"
    by (rule spec_of_all [where P = "\<lambda>op s. role_slot s Role_Depth =
      (if op = Op_GetEnvSlot then Some 1 else if op = Op_SetEnvSlot then Some 0 else None)"])
      (simp add: spec_eval role_slot_def role_at_index_def slot_of_index_def)
  show "role_slot (spec_of op) Role_Slot =
     (if op = Op_GetEnvSlot then Some 2
      else if op = Op_SetEnvSlot \<or> op = Op_NewEnvironment then Some 1 else None)"
    by (rule spec_of_all [where P = "\<lambda>op s. role_slot s Role_Slot =
      (if op = Op_GetEnvSlot then Some 2
       else if op = Op_SetEnvSlot \<or> op = Op_NewEnvironment then Some 1 else None)"])
      (simp add: spec_eval role_slot_def role_at_index_def slot_of_index_def)
qed

lemma role_flags:
  "role_at_index (spec_of op) 0 \<noteq> Role_Flag"
  "role_at_index (spec_of op) (Suc 0) = Role_Flag \<longleftrightarrow> op = Op_IteratorClose"
  "role_at_index (spec_of op) 2 = Role_Flag \<longleftrightarrow> op = Op_Await"
  using spec_of_all [OF entry_coherent_all, of op]
  by (simp_all add: entry_coherent_def role_at_index_def slot_of_index_def)

lemma ucast_u16_less [simp]: "(ucast (x :: u16) :: u32) < ucast (y :: u16) \<longleftrightarrow> unat x < unat y"
  by (simp add: word_less_nat_alt)

lemma ucast_u16_le [simp]: "(ucast (x :: u16) :: u32) \<le> ucast (y :: u16) \<longleftrightarrow> unat x \<le> unat y"
  by (simp add: word_le_nat_alt)

lemma u16_window:
  "(ucast (x :: u16) :: u32) + ucast (y :: u16) < ucast (z :: u16) \<longleftrightarrow> unat x + unat y < unat z"
proof -
  have "unat x + unat y < 2 ^ 32" using unat_u16_lt [of x] unat_u16_lt [of y] by simp
  then have "unat ((ucast x :: u32) + ucast y) = unat x + unat y"
    by (simp add: unat_word_ariths)
  then show ?thesis by (simp add: word_less_nat_alt)
qed

lemma check_register_Inr [simp]:
  "check_register at op name reg (ucast (m :: u16)) = Inr () \<longleftrightarrow> unat reg < unat m"
  by (simp add: check_register_def)

lemma check_registers_Inr [simp]:
  "check_registers at op s (ucast (m :: u16)) xs = Inr () \<longleftrightarrow>
     (\<forall>(k, r) \<in> set xs. index_is_register s k \<longrightarrow> unat r < unat m)"
  by (induction xs) (auto split: if_splits)

lemma check_flags_Inr [simp]:
  "check_flags at op s xs = Inr () \<longleftrightarrow>
     (\<forall>(k, b) \<in> set xs. role_at_index s k = Role_Flag \<longrightarrow> b = 0 \<or> b = 1)"
  by (induction xs) (auto simp: FLAG_VALUES_def split: if_splits)

lemma resolve_operands_list: "\<exists>a b c. resolve_operands prefix i = [a, b, c]"
  by (simp add: resolve_operands_def)

lemma check_positional_windows_Inr:
  "check_positional_windows at op ops (ucast (m :: u16)) = Inr () \<longleftrightarrow>
     list_all (\<lambda>r. r < unat m) (window_register op ops)"
  using u16_window [of "ops ! 2" 1 m]
  by (simp add: check_positional_windows_def Let_def u16_window)

lemma check_env_access_Inr:
  "check_env_access at op depth slot envs = Inr () \<longleftrightarrow> access_ok envs (unat depth, unat slot)"
  by (auto simp: check_env_access_def access_ok_def Let_def word_less_nat_alt rev_nth)

lemma word_of_nat_less:
  "n < 2 ^ 32 \<Longrightarrow> word_of_nat n < (t :: u32) \<longleftrightarrow> n < unat t"
  by (simp add: word_less_nat_alt unsigned_of_nat take_bit_nat_eq_self)

lemma check_registers_three:
  "check_registers at op s (ucast (m :: u16)) (enumerate 0 [a, b, c]) = Inr () \<longleftrightarrow>
     list_all (\<lambda>r. r < unat m) [unat ([a, b, c] ! k). k \<leftarrow> [0, 1, 2], index_is_register s k]"
  by (auto simp: numeral_2_eq_2)

lemma check_flags_three:
  "check_flags at op (spec_of op) (enumerate 0 (instr_bytes i)) = Inr () \<longleftrightarrow>
     pred_option (\<lambda>v. v = 0 \<or> v = 1) (logical_flag (Narrow op i ops))"
  by (auto simp: instr_bytes_def role_flags numeral_2_eq_2 [symmetric] simp del: check_flags.simps)

lemma check_const_Inr [simp]:
  "check_const at op i n = Inr () \<longleftrightarrow> pred_option (\<lambda>k. k < n) (logical_const (Narrow op i ops))"
  by (auto simp: check_const_def)

lemma check_branch_Inr [simp]:
  "n < 2 ^ 32 \<Longrightarrow> check_branch at op i n = Inr () \<longleftrightarrow>
     pred_option (\<lambda>t. t \<le> n) (logical_target (Narrow op i ops))"
  by (auto simp: check_branch_def word_of_nat_less split: option.split)

lemma check_envs_Inr:
  "check_envs at op (spec_of op) ops envs = Inr envs' \<longleftrightarrow>
     pred_option (access_ok (env_effect (Narrow op i ops) envs)) (logical_access (Narrow op i ops))
   \<and> envs' = env_effect (Narrow op i ops) envs"
  by (auto simp: check_envs_def role_slots check_env_access_Inr)

text \<open>A narrow instruction passes exactly when it satisfies its contract.\<close>

lemma check_narrow_Inr:
  assumes "length (instrs fb) < 2 ^ 32"
  shows "check_narrow at op i prefix fb envs = Inr envs' \<longleftrightarrow>
     instr_contract fb envs (Narrow op i (resolve_operands prefix i))
   \<and> envs' = env_effect (Narrow op i (resolve_operands prefix i)) envs"
proof -
  obtain a b c where ops: "resolve_operands prefix i = [a, b, c]"
    using resolve_operands_list by blast
  show ?thesis
    unfolding check_narrow_def instr_contract_def ops spec_eq option.case Let_def rbind_unit
      check_registers_three check_positional_windows_Inr check_flags_three [of at op i "[a, b, c]"]
      check_const_Inr [of at op i _ "[a, b, c]"] check_branch_Inr [OF assms, of at op i "[a, b, c]"]
      check_envs_Inr [of at op "[a, b, c]" envs envs' i] logical_registers.simps list_all_append
    by blast
qed

lemma check_wide_Inr:
  assumes "\<And>m a b c. w \<noteq> RegExt m a b c"
  shows "check_wide at w fb envs (ucast (max_regs fb)) = Inr envs' \<longleftrightarrow>
     instr_contract fb envs (WideI w) \<and> envs' = env_effect (WideI w) envs"
proof (cases "find (\<lambda>(_, reg). (ucast (max_regs fb) :: u32) \<le> ucast reg) (wide_registers w)")
  case None
  then have "list_all (\<lambda>r. r < unat (max_regs fb)) (logical_registers (WideI w))"
    by (auto simp: find_None_iff list_all_iff not_le)
  then show ?thesis using assms unfolding check_wide_def None instr_contract_def
    by (cases w) (auto simp: check_env_access_Inr not_le Let_def split: if_splits)
next
  case (Some nr)
  then have "\<not> list_all (\<lambda>r. r < unat (max_regs fb)) (logical_registers (WideI w))"
    by (auto simp: find_Some_iff list_all_iff not_less split_beta dest!: nth_mem)
  with Some show ?thesis by (cases nr) (simp add: check_wide_def instr_contract_def)
qed

lemma instr_width_narrow:
  "pc < length is \<Longrightarrow> instr_op (is ! pc) = Some op \<Longrightarrow> op \<noteq> Op_Wide \<Longrightarrow> instr_width is pc = 1"
  by (simp add: instr_width_def list_get_def)

lemma instr_width_wide:
  "pc < length is \<Longrightarrow> instr_op (is ! pc) = Some Op_Wide \<Longrightarrow> try_decode (drop pc is) = Inr (w, n) \<Longrightarrow>
     instr_width is pc = n"
  by (simp add: instr_width_def list_get_def)

lemma instr_contract_prefix [simp]: "instr_contract fb envs (Prefix w)"
  by (simp add: instr_contract_def)

lemma contract_step_Inr:
  assumes len: "length (instrs fb) < 2 ^ 32" and pc: "w_pc st < length (instrs fb)"
  shows "contract_step fb st = Inr st' \<longleftrightarrow>
     (\<exists>l prefix. decode_one (instrs fb) (w_pending st) (w_pc st) = Some (l, prefix)
        \<and> instr_contract fb (w_envs st) l
        \<and> st' = \<lparr>w_pc = w_pc st + instr_width (instrs fb) (w_pc st),
                 w_envs = env_effect l (w_envs st), w_pending = prefix\<rparr>)"
proof -
  let ?is = "instrs fb" and ?pc = "w_pc st"
  let ?i = "?is ! ?pc"
  consider (bad) "instr_op ?i = None"
    | (narrow) op where "instr_op ?i = Some op" "op \<noteq> Op_Wide"
    | (torn) e where "instr_op ?i = Some Op_Wide" "try_decode (drop ?pc ?is) = Inl e"
    | (wide) w n where "instr_op ?i = Some Op_Wide" "try_decode (drop ?pc ?is) = Inr (w, n)"
    by (cases "instr_op ?i"; cases "try_decode (drop ?pc ?is)") auto
  then show ?thesis
  proof cases
    case bad
    then show ?thesis by (simp add: contract_step_def decode_one_def Let_def)
  next
    case narrow
    with pc have "instr_width ?is ?pc = 1" by (simp add: instr_width_narrow)
    with narrow show ?thesis
      by (auto simp: contract_step_def decode_one_def Let_def check_narrow_Inr [OF len])
  next
    case torn
    then show ?thesis
      by (simp add: contract_step_def decode_one_def Let_def split: option.split)
  next
    case wide
    with pc have width: "instr_width ?is ?pc = n" by (simp add: instr_width_wide)
    show ?thesis
    proof (cases "w_pending st")
      case None
      show ?thesis
      proof (cases "\<exists>m a b c. w = RegExt m a b c")
        case True
        with wide width None show ?thesis by (auto simp: contract_step_def decode_one_def Let_def)
      next
        case False
        then have "check_wide at w fb envs (ucast (max_regs fb)) = Inr envs' \<longleftrightarrow>
            instr_contract fb envs (WideI w) \<and> envs' = env_effect (WideI w) envs" for at envs envs'
          by (intro check_wide_Inr) auto
        with False wide width None show ?thesis
          by (cases w) (auto simp: contract_step_def decode_one_def Let_def)
      qed
    next
      case Some
      with wide show ?thesis
        by (simp add: contract_step_def decode_one_def Let_def split: wide_op.split)
    qed
  qed
qed

lemma contract_walk_Inr:
  assumes len: "length (instrs fb) < 2 ^ 32"
  shows "contract_walk fb st = Inr () \<longleftrightarrow>
     (\<exists>ls. decode_stream (instrs fb) (w_pending st) (w_pc st) = Some ls
         \<and> stream_contract fb (w_envs st) ls)"
  using len
proof (induction fb st rule: contract_walk.induct)
  case (1 fb st)
  let ?is = "instrs fb" and ?pc = "w_pc st"
  show ?case
  proof (cases "?pc < length ?is")
    case False
    then show ?thesis by (auto simp: contract_walk.simps [of fb st] decode_stream.simps [of ?is _ ?pc])
  next
    case True
    have walk: "contract_walk fb st = Inr () \<longleftrightarrow>
        (\<exists>st'. contract_step fb st = Inr st' \<and> contract_walk fb st' = Inr ())"
      using True by (simp add: contract_walk.simps [of fb st] split: sum.split)
    also have "\<dots> \<longleftrightarrow> (\<exists>l prefix ls. decode_one ?is (w_pending st) ?pc = Some (l, prefix)
        \<and> instr_contract fb (w_envs st) l
        \<and> decode_stream ?is prefix (?pc + instr_width ?is ?pc) = Some ls
        \<and> stream_contract fb (env_effect l (w_envs st)) ls)" (is "?steps \<longleftrightarrow> ?decoded")
      using 1(1) [OF True _ 1(2)] unfolding contract_step_Inr [OF 1(2) True] by fastforce
    also have "\<dots> \<longleftrightarrow> (\<exists>ls. decode_stream ?is (w_pending st) ?pc = Some ls
        \<and> stream_contract fb (w_envs st) ls)"
      using True by (auto simp: decode_stream.simps [of ?is _ ?pc] split: option.splits)
    finally show ?thesis .
  qed
qed

lemma validate_Inr:
  assumes "length (instrs fb) < 2 ^ 32"
  shows "validate fb = Inr () \<longleftrightarrow>
     max_regs fb \<noteq> 0 \<and> handlers_ok (length (instrs fb)) (handlers fb)
   \<and> (\<exists>ls. decode_stream (instrs fb) None 0 = Some ls \<and> stream_contract fb [] ls)"
  using check_handlers_iff [of "[]" 0 "length (instrs fb)" "handlers fb"]
  by (simp add: validate_def check_operand_contract_def contract_walk_Inr [OF assms] chain_def)

text \<open>
  C4. \<open>validate\<close> accepts exactly the well-formed functions: a non-zero register file,
  a legal handler table, a stream that decodes into logical instructions, and every one of
  them within its contract - registers (widened ones, windows and wide fields included)
  inside the frame, constant ids in the pool, branch targets at most the length, flags
  boolean, and slots inside the environments the function itself allocated.
\<close>

theorem validate_exact:
  assumes "length (instrs fb) < 2 ^ 32"
  shows "validate fb = Inr () \<longleftrightarrow>
     max_regs fb \<noteq> 0 \<and> handlers_ok (length (instrs fb)) (handlers fb)
   \<and> (\<exists>ls. decode_stream (instrs fb) None 0 = Some ls \<and> stream_contract fb [] ls)"
  by (rule validate_Inr [OF assms])

text \<open>A function with an environment, a prefixed move into register 258 and a wide call.\<close>

definition sample_valid :: "function_bytecode" where
  "sample_valid = with_instructions
     ([instr_new Op_NewEnvironment 0 2 0, instr_new Op_SetEnvSlot 0 1 3]
      @ wide_encode (RegExt 1 1 0 0) @ [instr_new Op_Move 2 3 0]
      @ wide_encode (CallW 2 3 1) @ [instr_new_imm24 Op_Jump 9]) 300"

lemma sample_valid_instrs:
  "instrs sample_valid =
     [instr_new Op_NewEnvironment 0 2 0, instr_new Op_SetEnvSlot 0 1 3,
      wide_hdr 1 DISC_REG_EXT, pack_ext 1 0 0, instr_new Op_Move 2 3 0,
      wide_hdr 0 DISC_CALL_W, pack_hi_lo 2 3, 1, instr_new_imm24 Op_Jump 9]"
  by (simp add: sample_valid_def with_instructions_def)

lemma sample_valid_decodes:
  "decode_stream (instrs sample_valid) None 0 = Some
     [(0, Narrow Op_NewEnvironment (instr_new Op_NewEnvironment 0 2 0) [0, 2, 0]),
      (1, Narrow Op_SetEnvSlot (instr_new Op_SetEnvSlot 0 1 3) [0, 1, 3]),
      (2, Prefix (RegExt 1 1 0 0)),
      (4, Narrow Op_Move (instr_new Op_Move 2 3 0) [258, 3, 0]),
      (5, WideI (CallW 2 3 1)),
      (8, Narrow Op_Jump (instr_new_imm24 Op_Jump 9) [0, 0, 9])]"
proof -
  have ext: "try_decode (drop 2 (instrs sample_valid)) = Inr (RegExt 1 1 0 0, 2)"
    using try_decode_encode [of "RegExt 1 1 0 0" "drop 4 (instrs sample_valid)"]
    by (simp add: sample_valid_instrs numeral_2_eq_2)
  have call: "try_decode (drop 5 (instrs sample_valid)) = Inr (CallW 2 3 1, 3)"
    using try_decode_encode [of "CallW 2 3 1" "drop 8 (instrs sample_valid)"]
    by (simp add: sample_valid_instrs numeral_2_eq_2)
  have jump: "instr_a (instr_new_imm24 Op_Jump 9) = 0" "instr_b (instr_new_imm24 Op_Jump 9) = 0"
    "instr_c (instr_new_imm24 Op_Jump 9) = 9"
    by (simp_all add: instr_new_imm24_def instr_a_def instr_b_def instr_c_def MAX_IMM24_def)
  show ?thesis
    using ext call
    by (simp add: jump sample_valid_instrs decode_stream.simps [of _ _ 0] decode_stream.simps [of _ _ "Suc 0"]
        decode_stream.simps [of _ _ 2] decode_stream.simps [of _ _ 4] decode_stream.simps [of _ _ 5]
        decode_stream.simps [of _ _ 8] decode_stream.simps [of _ _ 9]
        decode_one_def instr_width_def list_get_def numeral_2_eq_2 [symmetric]
        resolve_operands_def resolve_operand_def instr_bytes_def instr_new_imm24_fields)
qed

lemma sample_valid_contract:
  "length (instrs sample_valid) = 9 \<and> max_regs sample_valid = 300 \<and> handlers sample_valid = []
   \<and> (\<exists>ls. decode_stream (instrs sample_valid) None 0 = Some ls \<and> stream_contract sample_valid [] ls)"
proof -
  have len: "length (instrs sample_valid) = 9" by (simp add: sample_valid_instrs)
  have rest: "max_regs sample_valid = 300" "handlers sample_valid = []"
    "pool_len (fb_consts sample_valid) = 0"
    by (simp_all add: sample_valid_def with_instructions_def pool_new_def pool_len_def)
  have "stream_contract sample_valid []
     [(0, Narrow Op_NewEnvironment (instr_new Op_NewEnvironment 0 2 0) [0, 2, 0]),
      (1, Narrow Op_SetEnvSlot (instr_new Op_SetEnvSlot 0 1 3) [0, 1, 3]),
      (2, Prefix (RegExt 1 1 0 0)),
      (4, Narrow Op_Move (instr_new Op_Move 2 3 0) [258, 3, 0]),
      (5, WideI (CallW 2 3 1)),
      (8, Narrow Op_Jump (instr_new_imm24 Op_Jump 9) [0, 0, 9])]"
    by (simp add: instr_contract_def rest len access_ok_def branch_target_def spec_of_eval spec_eval
        index_is_register_def slot_of_index_def slot_is_register_def instr_new_imm24_fields MAX_IMM24_def)
  with len rest show ?thesis using sample_valid_decodes by blast
qed

lemma sample_valid_ok: "validate sample_valid = Inr ()"
  using sample_valid_contract by (simp add: validate_Inr handlers_ok_def)

theorem validate_exact_witness:
  "validate sample_valid = Inr () \<and> length (instrs sample_valid) < 2 ^ 32"
  using validate_exact [of sample_valid] sample_valid_contract by (simp add: handlers_ok_def)

lemma decode_stream_pcs: "decode_stream is prefix pc = Some ls \<Longrightarrow> map fst ls = logical_pcs_from is pc"
proof (induction pc arbitrary: prefix ls rule: walk_induct [of "is"])
  case (Step pc)
  then show ?case
    by (auto simp: decode_stream.simps [of "is" prefix pc] logical_pcs_from_step split: option.splits)
qed (simp add: decode_stream.simps split: if_splits)

text \<open>What the decoded stream says about each boundary of the analyses.\<close>

lemma decode_stream_at:
  assumes "decode_stream is prefix pc = Some ls" "p \<in> set (logical_pcs_from is pc)"
    "stream_contract fb envs ls"
  shows "\<exists>prefix' l prefix'' envs'. decode_one is prefix' p = Some (l, prefix'')
     \<and> instr_contract fb envs' l"
  using assms
proof (induction pc arbitrary: prefix ls envs rule: walk_induct [of "is"])
  case (Step pc)
  from Step(1) Step.prems(1) obtain l prefix' ls' where one: "decode_one is prefix pc = Some (l, prefix')"
    and rest: "decode_stream is prefix' (pc + instr_width is pc) = Some ls'" and ls: "ls = (pc, l) # ls'"
    by (auto simp: decode_stream.simps [of "is" prefix pc] split: option.splits)
  show ?case
  proof (cases "p = pc")
    case True
    with one ls Step.prems(3) show ?thesis by auto
  next
    case False
    with Step.prems(2) Step(1) have "p \<in> set (logical_pcs_from is (pc + instr_width is pc))"
      by (simp add: logical_pcs_from_step)
    moreover have "stream_contract fb (env_effect l envs) ls'" using Step.prems(3) ls by simp
    ultimately show ?thesis by (rule Step.IH [OF rest])
  qed
qed simp

text \<open>Widening an operand never makes it smaller.\<close>

lemma resolve_operand_ge: "unat byte \<le> unat (resolve_operand prefix k byte)"
proof -
  have "unat byte \<le> unat (push_bit 8 (ucast hi :: u16) OR ucast byte)" for hi :: u8
  proof -
    have "(ucast byte :: u16) \<le> push_bit 8 (ucast hi) OR ucast byte"
      by (metis word_bw_comms(2) le_word_or2)
    then show ?thesis by (simp add: word_le_nat_alt)
  qed
  then show ?thesis by (auto simp: resolve_operand_def Let_def split: option.split)
qed



section \<open>Diagnostics\<close>

text \<open>What each error of the validator says about the function.\<close>

definition error_truthful :: "function_bytecode \<Rightarrow> bytecode_error \<Rightarrow> bool" where
  "error_truthful fb e \<longleftrightarrow>
     (case e of
        ZeroMaxRegs \<Rightarrow> max_regs fb = 0
      | InvalidFunction _ \<Rightarrow> \<not> handlers_ok (length (instrs fb)) (handlers fb)
      | HandlerTargetOutOfBounds t n \<Rightarrow>
          n = length (instrs fb) \<and> n \<le> unat t \<and> t \<in> h_target ` set (handlers fb)
      | UnassignedOpcode pc b \<Rightarrow>
          unat pc \<in> set (logical_pcs fb) \<and> b = instr_opbyte (instrs fb ! unat pc) \<and> from_byte b = None
      | RegisterOutOfRange pc _ _ reg regs \<Rightarrow>
          unat pc \<in> set (logical_pcs fb) \<and> regs = ucast (max_regs fb) \<and> regs \<le> reg
      | EnvSlotOutOfRange pc _ _ s n \<Rightarrow> unat pc \<in> set (logical_pcs fb) \<and> n \<le> s
      | ConstIdOutOfRange pc _ k n \<Rightarrow>
          unat pc \<in> set (logical_pcs fb) \<and> n = pool_len (fb_consts fb) \<and> n \<le> unat k
      | BranchTargetOutOfRange pc op t n \<Rightarrow>
          unat pc \<in> set (logical_pcs fb) \<and> n = length (instrs fb) \<and> n < unat t
          \<and> branch_target op (instrs fb ! unat pc) = Some t
      | FlagNotBoolean pc _ v \<Rightarrow> unat pc \<in> set (logical_pcs fb) \<and> v \<noteq> 0 \<and> v \<noteq> 1
      | ConstantPoolFull \<Rightarrow> False
      | _ \<Rightarrow> True)"

lemma error_truthful_simps [simp]:
  "error_truthful fb ZeroMaxRegs \<longleftrightarrow> max_regs fb = 0"
  "error_truthful fb (InvalidFunction r) \<longleftrightarrow> \<not> handlers_ok (length (instrs fb)) (handlers fb)"
  "error_truthful fb (HandlerTargetOutOfBounds t n) \<longleftrightarrow>
     n = length (instrs fb) \<and> n \<le> unat t \<and> t \<in> h_target ` set (handlers fb)"
  "error_truthful fb (UnassignedOpcode at b) \<longleftrightarrow> unat at \<in> set (logical_pcs fb)
     \<and> b = instr_opbyte (instrs fb ! unat at) \<and> from_byte b = None"
  "error_truthful fb (RegisterOutOfRange at op name reg regs) \<longleftrightarrow>
     unat at \<in> set (logical_pcs fb) \<and> regs = ucast (max_regs fb) \<and> regs \<le> reg"
  "error_truthful fb (EnvSlotOutOfRange at op d sl k) \<longleftrightarrow> unat at \<in> set (logical_pcs fb) \<and> k \<le> sl"
  "error_truthful fb (ConstIdOutOfRange at op k n) \<longleftrightarrow>
     unat at \<in> set (logical_pcs fb) \<and> n = pool_len (fb_consts fb) \<and> n \<le> unat k"
  "error_truthful fb (BranchTargetOutOfRange at op tgt n) \<longleftrightarrow> unat at \<in> set (logical_pcs fb)
     \<and> n = length (instrs fb) \<and> n < unat tgt \<and> branch_target op (instrs fb ! unat at) = Some tgt"
  "error_truthful fb (FlagNotBoolean at op v) \<longleftrightarrow> unat at \<in> set (logical_pcs fb) \<and> v \<noteq> 0 \<and> v \<noteq> 1"
  "error_truthful fb (TruncatedWide i)" "error_truthful fb WideHeaderNotWide"
  "error_truthful fb (UnknownWideDiscriminant d)" "\<not> error_truthful fb ConstantPoolFull"
  by (simp_all add: error_truthful_def)

text \<open>One lemma per check; each is asked at a boundary \<open>at\<close>.\<close>

lemma check_registers_Inl:
  "check_registers at op s (ucast (max_regs fb)) xs = Inl e \<Longrightarrow> unat at \<in> set (logical_pcs fb) \<Longrightarrow>
     error_truthful fb e"
  by (induction xs) (auto simp: rbind_eq_Inl check_register_def not_less split: if_splits)

lemma check_positional_windows_Inl:
  "check_positional_windows at op ops (ucast (max_regs fb)) = Inl e \<Longrightarrow>
     unat at \<in> set (logical_pcs fb) \<Longrightarrow> error_truthful fb e"
  by (auto simp: check_positional_windows_def Let_def not_less split: if_splits)

lemma check_flags_Inl:
  "check_flags at op s xs = Inl e \<Longrightarrow> unat at \<in> set (logical_pcs fb) \<Longrightarrow> error_truthful fb e"
  by (induction xs) (auto simp: FLAG_VALUES_def split: if_splits)

lemma check_env_access_Inl:
  "check_env_access at op d s envs = Inl e \<Longrightarrow> unat at \<in> set (logical_pcs fb) \<Longrightarrow> error_truthful fb e"
  by (auto simp: check_env_access_def Let_def not_less split: if_splits)

lemma check_envs_Inl:
  "check_envs at op s ops envs = Inl e \<Longrightarrow> unat at \<in> set (logical_pcs fb) \<Longrightarrow> error_truthful fb e"
  by (auto simp: check_envs_def Let_def rbind_eq_Inl dest: check_env_access_Inl
      split: option.splits if_splits)

lemma check_const_Inl:
  "check_const at op i (pool_len (fb_consts fb)) = Inl e \<Longrightarrow> unat at \<in> set (logical_pcs fb) \<Longrightarrow>
     error_truthful fb e"
  by (auto simp: check_const_def split: if_splits)

lemma check_branch_Inl:
  "check_branch at op (instrs fb ! unat at) (length (instrs fb)) = Inl e \<Longrightarrow>
     unat at \<in> set (logical_pcs fb) \<Longrightarrow> length (instrs fb) < 2 ^ 32 \<Longrightarrow> error_truthful fb e"
  by (auto simp: check_branch_def word_of_nat_less split: option.splits if_splits)

lemma check_narrow_Inl:
  assumes "check_narrow at op (instrs fb ! unat at) prefix fb envs = Inl e"
    and at: "unat at \<in> set (logical_pcs fb)" and len: "length (instrs fb) < 2 ^ 32"
  shows "error_truthful fb e"
  using assms(1) check_branch_Inl [OF _ at len] check_registers_Inl [OF _ at]
    check_positional_windows_Inl [OF _ at] check_flags_Inl [OF _ at] check_const_Inl [OF _ at]
    check_envs_Inl [OF _ at]
  by (auto simp: check_narrow_def Let_def rbind_eq_Inl)

lemma check_wide_Inl:
  "check_wide at w fb envs (ucast (max_regs fb)) = Inl e \<Longrightarrow> unat at \<in> set (logical_pcs fb) \<Longrightarrow>
     error_truthful fb e"
  by (auto simp: check_wide_def Let_def rbind_eq_Inl find_Some_iff dest!: check_env_access_Inl
      split: option.splits wide_op.splits if_splits)

lemma try_decode_Inl: "try_decode ws = Inl e \<Longrightarrow> error_truthful fb e"
  using try_decode_errors [of ws e] by auto

lemma check_handler_Inl:
  "check_handler n open prev h = Inl e \<Longrightarrow>
     (\<exists>r. e = InvalidFunction r) \<or> (e = HandlerTargetOutOfBounds (h_target h) n \<and> n \<le> unat (h_target h))"
  by (auto simp: check_handler_def split: if_splits list.splits)

lemma check_handlers_Inl:
  "check_handlers n open prev hs = Inl e \<Longrightarrow>
     (\<exists>r. e = InvalidFunction r)
     \<or> (\<exists>h \<in> set hs. e = HandlerTargetOutOfBounds (h_target h) n \<and> n \<le> unat (h_target h))"
  by (induction hs arbitrary: "open" prev) (auto simp: rbind_eq_Inl dest!: check_handler_Inl)

lemma contract_step_Inl:
  assumes "contract_step fb st = Inl e" "w_pc st \<in> set (logical_pcs fb)" "length (instrs fb) < 2 ^ 32"
  shows "error_truthful fb e"
proof -
  have pc: "unat (word_of_nat (w_pc st) :: u32) = w_pc st"
    using assms(2,3) logical_pcs_from_bounds [of "w_pc st" "instrs fb" 0]
    by (simp add: logical_pcs_def unsigned_of_nat take_bit_nat_eq_self)
  then have at: "unat (word_of_nat (w_pc st) :: u32) \<in> set (logical_pcs fb)" using assms(2) by simp
  show ?thesis
    using assms(1) check_wide_Inl [OF _ at] check_narrow_Inl [OF _ at assms(3)] assms(2)
    by (auto simp: contract_step_def Let_def rbind_eq_Inl pc instr_op_def instr_opbyte_def
        intro: try_decode_Inl split: option.splits if_splits wide_op.splits)
qed

lemma contract_walk_Inl:
  assumes "contract_walk fb st = Inl e" "length (instrs fb) < 2 ^ 32"
    and "w_pc st \<in> set (logical_pcs fb) \<or> length (instrs fb) \<le> w_pc st"
  shows "error_truthful fb e"
  using assms
proof (induction fb st rule: contract_walk.induct)
  case (1 fb st)
  show ?case
  proof (cases "w_pc st < length (instrs fb)")
    case False
    with 1(2) show ?thesis by (auto simp: contract_walk.simps [of fb st] split: if_splits)
  next
    case True
    with 1(4) have pc: "w_pc st \<in> set (logical_pcs fb)" by simp
    show ?thesis
    proof (cases "contract_step fb st")
      case (Inl e')
      with True 1(2) have "e' = e" by (simp add: contract_walk.simps [of fb st])
      with Inl pc 1(3) show ?thesis by (auto intro: contract_step_Inl)
    next
      case (Inr st')
      with True 1(2) have "contract_walk fb st' = Inl e" by (simp add: contract_walk.simps [of fb st])
      moreover have "w_pc st' = w_pc st + instr_width (instrs fb) (w_pc st)"
        using Inr contract_step_Inr [OF 1(3) True] by auto
      then have "w_pc st' \<in> set (logical_pcs fb) \<or> length (instrs fb) \<le> w_pc st'"
        using logical_pcs_next [of "w_pc st" "instrs fb" 0] pc by (auto simp: logical_pcs_def)
      ultimately show ?thesis using 1(1) [OF True Inr _ 1(3)] by simp
    qed
  qed
qed

text \<open>
  Every diagnostic is true of the function it is reported for: its pc is an
  instruction boundary, and the register, constant id, slot, branch target, flag, opcode
  byte or handler it names really is out of its bound, which is the bound it prints.
\<close>

theorem validate_error_truthful:
  assumes "validate fb = Inl e" "length (instrs fb) < 2 ^ 32"
  shows "error_truthful fb e"
proof (cases "max_regs fb = 0")
  case True
  with assms show ?thesis by (simp add: validate_def)
next
  case False
  have start: "0 \<in> set (logical_pcs fb) \<or> length (instrs fb) \<le> 0"
    by (cases "instrs fb") (simp_all add: logical_pcs_def logical_pcs_from_step)
  show ?thesis
  proof (cases "check_handlers (length (instrs fb)) [] 0 (handlers fb)")
    case (Inl e')
    then have "\<not> handlers_ok (length (instrs fb)) (handlers fb)"
      using check_handlers_iff [of "[]" 0 "length (instrs fb)" "handlers fb"] by (simp add: chain_def)
    with Inl False assms(1) show ?thesis by (auto simp: validate_def dest!: check_handlers_Inl)
  next
    case (Inr u)
    with False assms(1) show ?thesis
      using contract_walk_Inl [OF _ assms(2), of "\<lparr>w_pc = 0, w_envs = [], w_pending = None\<rparr>" e] start
      by (simp add: validate_def check_operand_contract_def)
  qed
qed

text \<open>A store into register 900 of a four-register frame.\<close>

definition sample_bad :: "function_bytecode" where
  "sample_bad = with_instructions ([instr_new Op_Move 0 1 0] @ wide_encode (SetEnvSlotW 900 0 0)) 4"

theorem validate_error_truthful_witness:
  "\<exists>e. validate sample_bad = Inl e \<and> error_truthful sample_bad e
     \<and> e = RegisterOutOfRange 1 Op_Wide ''src (wide)'' 900 4"
proof -
  have "instrs sample_bad = [instr_new Op_Move 0 1 0] @ wide_encode (SetEnvSlotW 900 0 0)"
    and rest: "max_regs sample_bad = 4" "handlers sample_bad = []"
    by (simp_all add: sample_bad_def with_instructions_def)
  then have code: "instrs sample_bad =
      [instr_new Op_Move 0 1 0, wide_hdr 0 DISC_SET_ENV_SLOT_W, pack_hi_lo 900 0, 0]"
    by simp
  have dec: "try_decode [wide_hdr 0 DISC_SET_ENV_SLOT_W, pack_hi_lo 900 0, 0] = Inr (SetEnvSlotW 900 0 0, 3)"
    using try_decode_encode [of "SetEnvSlotW 900 0 0" "[]"] by simp
  have "check_narrow 0 Op_Move (instr_new Op_Move 0 1 0) None sample_bad [] = Inr []"
    by (simp add: check_narrow_Inr code instr_contract_def rest spec_of_eval spec_eval branch_target_def
        index_is_register_def slot_of_index_def slot_is_register_def resolve_operands_def
        resolve_operand_def instr_bytes_def)
  then have "validate sample_bad = Inl (RegisterOutOfRange 1 Op_Wide ''src (wide)'' 900 4)"
    by (simp add: validate_def check_operand_contract_def contract_walk.simps contract_step_def code rest
        dec check_wide_def)
  moreover have "length (instrs sample_bad) < 2 ^ 32" by (simp add: code)
  ultimately show ?thesis using validate_error_truthful [of sample_bad] by blast
qed

end
