(* ===== verification/Builder.thy ===== *)
theory Builder
  imports Validator
begin

text \<open>
  The backpatching builder of \<open>v12-bytecode/src/builder.rs\<close>: labels are allocated, bound
  to the next instruction's pc, and every branch that names one is rewritten by
  \<open>finish\<close>. A panic (unbound or doubly bound label, index out of range) is \<open>None\<close>.
  \<open>debug_assert!\<close> is not compiled into a release build, so it is not a branch of the
  model; what it asserts is a hypothesis where it matters.
\<close>

section \<open>State and operations\<close>

record fixup =
  fx_at :: u32
  fx_label :: u32
  fx_wide_target :: bool

record builder =
  bl_name_hint :: "string option"
  bl_max_regs :: u16
  bl_instrs :: "instr list"
  bl_spans :: "(u32 \<times> u32) list"
  bl_consts :: const_pool
  bl_handlers :: "handler_range list"
  bl_labels :: "u32 option list"
  bl_fixups :: "fixup list"
  bl_is_generator :: bool
  bl_is_async :: bool
  bl_is_arrow :: bool
  bl_is_top_level :: bool

definition builder_new :: "string option \<Rightarrow> builder" where
  "builder_new name =
     \<lparr>bl_name_hint = name, bl_max_regs = 1, bl_instrs = [], bl_spans = [], bl_consts = pool_new,
      bl_handlers = [], bl_labels = [], bl_fixups = [], bl_is_generator = False,
      bl_is_async = False, bl_is_arrow = False, bl_is_top_level = False\<rparr>"

definition reserve_regs :: "u16 \<Rightarrow> builder \<Rightarrow> builder" where
  "reserve_regs count b = b\<lparr>bl_max_regs := max (bl_max_regs b) count\<rparr>"

definition new_label :: "builder \<Rightarrow> u32 \<times> builder" where
  "new_label b =
     (let labels = bl_labels b @ [None] in (word_of_nat (length labels) - 1, b\<lparr>bl_labels := labels\<rparr>))"

definition builder_pc :: "builder \<Rightarrow> u32" where
  "builder_pc b = word_of_nat (length (bl_instrs b))"

definition bind_label :: "u32 \<Rightarrow> builder \<Rightarrow> builder option" where
  "bind_label l b =
     (case list_get (bl_labels b) (unat l) of
        None \<Rightarrow> None
      | Some (Some _) \<Rightarrow> None
      | Some None \<Rightarrow> Some (b\<lparr>bl_labels := (bl_labels b)[unat l := Some (builder_pc b)]\<rparr>))"

definition emit_spanned :: "instr \<Rightarrow> u32 \<times> u32 \<Rightarrow> builder \<Rightarrow> builder" where
  "emit_spanned i span b = b\<lparr>bl_instrs := bl_instrs b @ [i], bl_spans := bl_spans b @ [span]\<rparr>"

definition emit :: "instr \<Rightarrow> builder \<Rightarrow> builder" where
  "emit i b = emit_spanned i (0, 0) b"

definition add_const :: "const_val \<Rightarrow> builder \<Rightarrow> bytecode_error + u16 \<times> builder" where
  "add_const c b = rbind (pool_insert (bl_consts b) c) (\<lambda>(i, p). Inr (i, b\<lparr>bl_consts := p\<rparr>))"

definition push_handler :: "handler_range \<Rightarrow> builder \<Rightarrow> builder" where
  "push_handler h b = b\<lparr>bl_handlers := bl_handlers b @ [h]\<rparr>"

definition emit_jump :: "opcode \<Rightarrow> u8 \<Rightarrow> u32 \<Rightarrow> builder \<Rightarrow> builder" where
  "emit_jump op cond_reg target b =
     (let wide_target = (op = Op_Jump);
          i = (if wide_target then instr_new_imm24 op 0 else instr_new_imm16 op cond_reg 0);
          at = word_of_nat (length (bl_instrs b));
          b' = emit i b
      in b'\<lparr>bl_fixups := bl_fixups b'
             @ [\<lparr>fx_at = at, fx_label = target, fx_wide_target = wide_target\<rparr>]\<rparr>)"

text \<open>The rewritten branch word, and one turn of the loop of \<open>finish\<close>.\<close>

definition patch :: "fixup \<Rightarrow> u32 \<Rightarrow> instr \<Rightarrow> instr" where
  "patch f target_pc i = (if fx_wide_target f then set_imm24 i target_pc else set_imm16 i (ucast target_pc))"

definition apply_fixup :: "u32 option list \<Rightarrow> instr list \<Rightarrow> fixup \<Rightarrow> instr list option" where
  "apply_fixup labels is f =
     (case list_get labels (unat (fx_label f)) of
        None \<Rightarrow> None
      | Some None \<Rightarrow> Some is
      | Some (Some target_pc) \<Rightarrow>
          (case list_get is (unat (fx_at f)) of
             None \<Rightarrow> None
           | Some i \<Rightarrow> Some (is[unat (fx_at f) := patch f target_pc i])))"

fun apply_fixups :: "u32 option list \<Rightarrow> instr list \<Rightarrow> fixup list \<Rightarrow> instr list option" where
  "apply_fixups labels is [] = Some is"
| "apply_fixups labels is (f # fs) =
     Option.bind (apply_fixup labels is f) (\<lambda>is'. apply_fixups labels is' fs)"

definition finish :: "builder \<Rightarrow> function_bytecode option" where
  "finish b =
     (if length (filter (\<lambda>l. l = None) (bl_labels b)) \<noteq> 0 then None
      else map_option (\<lambda>is.
        \<lparr>name_hint = bl_name_hint b, function_name = None, max_regs = bl_max_regs b, env_slots = 0,
         instrs = is, fb_consts = bl_consts b, handlers = bl_handlers b, spans = bl_spans b,
         pc_map = [], is_strict = False, fixed_params = 0, has_rest = False, rest_reg = 0,
         expected_args = 0, needs_arguments = False, is_generator = bl_is_generator b,
         is_async = bl_is_async b, is_arrow = bl_is_arrow b, is_constructor = False,
         is_top_level = bl_is_top_level b, uses_seeded_env = False, ctor_kind = Ctor_None,
         eval_metadata = None\<rparr>)
        (apply_fixups (bl_labels b) (bl_instrs b) (bl_fixups b)))"

section \<open>Reachable builders\<close>

definition branch_ops :: "opcode set" where
  "branch_ops = {Op_Jump, Op_JumpIfFalse, Op_JumpIfTrue, Op_JumpIfNullish}"

text \<open>
  What a client can do. A label is only obtained from \<open>new_label\<close>, so a jump names an
  allocated one.
\<close>

inductive built :: "string option \<Rightarrow> builder \<Rightarrow> bool" for name where
  Built_new: "built name (builder_new name)"
| Built_reserve: "built name b \<Longrightarrow> built name (reserve_regs n b)"
| Built_label: "built name b \<Longrightarrow> built name (snd (new_label b))"
| Built_bind: "built name b \<Longrightarrow> bind_label l b = Some b' \<Longrightarrow> built name b'"
| Built_emit: "built name b \<Longrightarrow> built name (emit_spanned i span b)"
| Built_const: "built name b \<Longrightarrow> add_const c b = Inr (k, b') \<Longrightarrow> built name b'"
| Built_handler: "built name b \<Longrightarrow> built name (push_handler h b)"
| Built_jump: "built name b \<Longrightarrow> op \<in> branch_ops \<Longrightarrow> unat l < length (bl_labels b) \<Longrightarrow>
    built name (emit_jump op r l b)"

text \<open>Sizes within the \<open>u32\<close> pcs and label ids.\<close>

definition small :: "builder \<Rightarrow> bool" where
  "small b \<longleftrightarrow> length (bl_instrs b) < 2 ^ 32"

text \<open>A branch word that still waits for its target.\<close>

definition placeholder :: "instr list \<Rightarrow> fixup \<Rightarrow> bool" where
  "placeholder is f \<longleftrightarrow>
     unat (fx_at f) < length is
   \<and> (\<exists>op \<in> branch_ops. instr_op (is ! unat (fx_at f)) = Some op \<and> (fx_wide_target f \<longleftrightarrow> op = Op_Jump))"

definition builder_wf :: "builder \<Rightarrow> bool" where
  "builder_wf b \<longleftrightarrow>
     length (bl_spans b) = length (bl_instrs b)
   \<and> 1 \<le> bl_max_regs b \<and> pool_wf (bl_consts b)
   \<and> (\<forall>f \<in> set (bl_fixups b). placeholder (bl_instrs b) f \<and> unat (fx_label f) < length (bl_labels b))
   \<and> distinct (map (unat \<circ> fx_at) (bl_fixups b))
   \<and> (\<forall>pc. Some pc \<in> set (bl_labels b) \<longrightarrow> unat pc \<le> length (bl_instrs b))"

lemma placeholder_append: "placeholder is f \<Longrightarrow> placeholder (is @ js) f"
  by (auto simp: placeholder_def nth_append)

lemma word_of_nat_small: "n < 2 ^ 32 \<Longrightarrow> unat (word_of_nat n :: u32) = n"
  by (simp add: unsigned_of_nat take_bit_nat_eq_self)

lemma branch_ops_simps [simp]:
  "Op_Jump \<in> branch_ops" "op \<in> branch_ops \<Longrightarrow> op \<noteq> Op_Jump \<Longrightarrow>
     op = Op_JumpIfFalse \<or> op = Op_JumpIfTrue \<or> op = Op_JumpIfNullish"
  by (auto simp: branch_ops_def)

lemma built_wf: "built name b \<Longrightarrow> small b \<Longrightarrow> builder_wf b"
proof (induction rule: built.induct)
  case Built_new
  then show ?case by (simp add: builder_wf_def builder_new_def pool_wf_new)
next
  case (Built_reserve b n)
  then show ?case by (auto simp: builder_wf_def reserve_regs_def small_def le_max_iff_disj)
next
  case (Built_label b)
  then show ?case by (auto simp: builder_wf_def new_label_def small_def Let_def)
next
  case (Built_bind b l b')
  then show ?case
    by (auto simp: builder_wf_def bind_label_def small_def builder_pc_def word_of_nat_small
        dest!: subsetD [OF set_update_subset_insert] split: option.splits)
next
  case (Built_emit b i span)
  then show ?case
    by (auto simp: builder_wf_def emit_spanned_def small_def intro: placeholder_append)
next
  case (Built_const b c k b')
  then show ?case
    by (auto simp: builder_wf_def add_const_def small_def intro: pool_wf_insert)
next
  case (Built_handler b h)
  then show ?case by (simp add: builder_wf_def push_handler_def small_def)
next
  case (Built_jump b op l r)
  let ?n = "length (bl_instrs b)"
  have n: "unat (word_of_nat ?n :: u32) = ?n"
    using Built_jump.prems by (simp add: small_def emit_jump_def emit_def emit_spanned_def Let_def word_of_nat_small)
  have "builder_wf b"
    using Built_jump by (simp add: small_def emit_jump_def emit_def emit_spanned_def Let_def)
  moreover from this have "?n \<notin> (unat \<circ> fx_at) ` set (bl_fixups b)"
    by (auto simp: builder_wf_def placeholder_def)
  moreover have "instr_op (if op = Op_Jump then instr_new_imm24 op 0 else instr_new_imm16 op r 0) = Some op"
    by (simp add: instr_new_imm24_fields)
  ultimately show ?case
    using Built_jump.hyps n
    by (auto simp: builder_wf_def emit_jump_def emit_def emit_spanned_def Let_def
        placeholder_def nth_append)
qed

section \<open>Backpatching\<close>

text \<open>The pc a label is bound to.\<close>

definition label_pc :: "builder \<Rightarrow> u32 \<Rightarrow> u32" where
  "label_pc b l = the (bl_labels b ! unat l)"

lemma apply_fixups_spec:
  assumes "None \<notin> set labels" "distinct (map (unat \<circ> fx_at) fs)"
    and "\<forall>f \<in> set fs. unat (fx_at f) < length is \<and> unat (fx_label f) < length labels"
  shows "\<exists>js. apply_fixups labels is fs = Some js \<and> length js = length is
     \<and> (\<forall>k. k \<notin> (unat \<circ> fx_at) ` set fs \<longrightarrow> js ! k = is ! k)
     \<and> (\<forall>f \<in> set fs. js ! unat (fx_at f) =
          patch f (the (labels ! unat (fx_label f))) (is ! unat (fx_at f)))"
  using assms
proof (induction fs arbitrary: "is")
  case (Cons f fs)
  let ?at = "unat (fx_at f)"
  obtain pc where "labels ! unat (fx_label f) = Some pc"
    using Cons.prems(1,3) by (metis list.set_intros(1) not_None_eq nth_mem)
  then have step: "apply_fixup labels is f = Some (is[?at := patch f (the (labels ! unat (fx_label f))) (is ! ?at)])"
    using Cons.prems(3) by (simp add: apply_fixup_def list_get_def)
  have "?at \<notin> (unat \<circ> fx_at) ` set fs" using Cons.prems(2) by auto
  then have other: "unat (fx_at g) \<noteq> ?at" if "g \<in> set fs" for g
    using that by (metis comp_apply imageI)
  have dist: "distinct (map (unat \<circ> fx_at) fs)" using Cons.prems(2) by (simp add: comp_def)
  have prems: "\<forall>g \<in> set fs. unat (fx_at g) < length (is[?at := patch f (the (labels ! unat (fx_label f))) (is ! ?at)])
       \<and> unat (fx_label g) < length labels"
    using Cons.prems by auto
  let ?is = "is[?at := patch f (the (labels ! unat (fx_label f))) (is ! ?at)]"
  obtain js where js: "apply_fixups labels ?is fs = Some js" "length js = length is"
    and old: "\<And>k. k \<notin> (unat \<circ> fx_at) ` set fs \<Longrightarrow> js ! k = ?is ! k"
    and new: "\<And>g. g \<in> set fs \<Longrightarrow> js ! unat (fx_at g) =
          patch g (the (labels ! unat (fx_label g))) (?is ! unat (fx_at g))"
    using Cons.IH [OF Cons.prems(1) dist prems] by auto
  have "js ! ?at = patch f (the (labels ! unat (fx_label f))) (is ! ?at)"
    using old [of ?at] \<open>?at \<notin> _\<close> Cons.prems(3) by simp
  moreover have "js ! unat (fx_at g) = patch g (the (labels ! unat (fx_label g))) (is ! unat (fx_at g))"
    if "g \<in> set fs" for g using new [OF that] other [OF that] by simp
  moreover have "js ! k = is ! k" if "k \<notin> (unat \<circ> fx_at) ` set (f # fs)" for k
    using old [of k] that by auto
  ultimately show ?case using js by (auto simp: step)
qed simp

lemma finish_instrs:
  assumes "builder_wf b" "None \<notin> set (bl_labels b)"
  shows "\<exists>fb. finish b = Some fb \<and> length (instrs fb) = length (bl_instrs b)
     \<and> spans fb = bl_spans b \<and> handlers fb = bl_handlers b \<and> fb_consts fb = bl_consts b
     \<and> max_regs fb = bl_max_regs b
     \<and> (\<forall>k. k \<notin> (unat \<circ> fx_at) ` set (bl_fixups b) \<longrightarrow> instrs fb ! k = bl_instrs b ! k)
     \<and> (\<forall>f \<in> set (bl_fixups b). instrs fb ! unat (fx_at f) =
          patch f (label_pc b (fx_label f)) (bl_instrs b ! unat (fx_at f)))"
proof -
  have "filter (\<lambda>l. l = None) (bl_labels b) = []" using assms(2)
    by (intro filter_False ballI notI) simp
  moreover have "distinct (map (unat \<circ> fx_at) (bl_fixups b))"
    "\<forall>f \<in> set (bl_fixups b). unat (fx_at f) < length (bl_instrs b)
       \<and> unat (fx_label f) < length (bl_labels b)"
    using assms(1) by (auto simp: builder_wf_def placeholder_def)
  ultimately show ?thesis
    using apply_fixups_spec [OF assms(2)] unfolding finish_def label_pc_def by fastforce
qed

lemma label_pc_bound:
  assumes "builder_wf b" "None \<notin> set (bl_labels b)" "unat l < length (bl_labels b)"
  shows "bl_labels b ! unat l = Some (label_pc b l) \<and> unat (label_pc b l) \<le> length (bl_instrs b)"
proof -
  from assms(2,3) obtain pc where pc: "bl_labels b ! unat l = Some pc"
    by (metis not_None_eq nth_mem)
  with assms(3) have "Some pc \<in> set (bl_labels b)" by (metis nth_mem)
  with assms(1) pc show ?thesis by (simp add: builder_wf_def label_pc_def)
qed

text \<open>A target fits its immediate: 24 bits in a \<open>Jump\<close>, 16 in a conditional branch.\<close>

definition target_fits :: "fixup \<Rightarrow> u32 \<Rightarrow> bool" where
  "target_fits f pc \<longleftrightarrow> (if fx_wide_target f then pc \<le> MAX_IMM24 else unat pc < 2 ^ 16)"

lemma patch_branch:
  assumes "placeholder is f" "target_fits f pc"
  shows "\<exists>op. instr_op (is ! unat (fx_at f)) = Some op
     \<and> instr_op (patch f pc (is ! unat (fx_at f))) = Some op
     \<and> branch_target op (patch f pc (is ! unat (fx_at f))) = Some pc"
proof -
  from assms(1) obtain op where op: "op \<in> branch_ops" "instr_op (is ! unat (fx_at f)) = Some op"
    and wide: "fx_wide_target f \<longleftrightarrow> op = Op_Jump" by (auto simp: placeholder_def)
  show ?thesis
  proof (cases "fx_wide_target f")
    case True
    with op wide assms(2) show ?thesis
      by (simp add: patch_def target_fits_def branch_target_def and_MAX_IMM24)
  next
    case False
    then have "ucast (ucast pc :: u16) = pc"
      using assms(2) by (simp add: target_fits_def word_unat_eq_iff unsigned_ucast_eq take_bit_nat_eq_self
          unsigned_take_bit_eq          del: unat_eq_iff)
    moreover have "op \<in> {Op_JumpIfFalse, Op_JumpIfTrue, Op_JumpIfNullish}"
      using False op(1) wide by (auto simp: branch_ops_def)
    ultimately show ?thesis
      using False op(2) wide by (simp add: patch_def branch_target_def)
  qed
qed


text \<open>A diamond: a forward conditional branch over a jump to the end.\<close>

definition sample_builder :: "builder" where
  "sample_builder =
     (let b0 = builder_new None;
          (l, b1) = new_label b0;
          b2 = emit_jump Op_JumpIfFalse 0 l b1;
          b3 = emit_spanned (instr_new Op_Move 0 1 0) (3, 7) b2;
          b4 = the (bind_label l b3)
      in emit_jump Op_Jump 0 l b4)"

lemma sample_builder_code:
  "sample_builder =
     (builder_new None)\<lparr>bl_instrs := [instr_new_imm16 Op_JumpIfFalse 0 0, instr_new Op_Move 0 1 0,
          instr_new_imm24 Op_Jump 0],
        bl_spans := [(0, 0), (3, 7), (0, 0)], bl_labels := [Some 2],
        bl_fixups := [\<lparr>fx_at = 0, fx_label = 0, fx_wide_target = False\<rparr>,
          \<lparr>fx_at = 2, fx_label = 0, fx_wide_target = True\<rparr>]\<rparr>"
  by (simp add: sample_builder_def builder_new_def new_label_def emit_jump_def emit_def
      emit_spanned_def bind_label_def list_get_def builder_pc_def Let_def)

lemma sample_builder_built: "built None sample_builder"
proof -
  let ?b1 = "snd (new_label (builder_new None))"
  let ?b2 = "emit_jump Op_JumpIfFalse 0 0 ?b1"
  let ?b3 = "emit_spanned (instr_new Op_Move 0 1 0) (3, 7) ?b2"
  let ?b4 = "the (bind_label 0 ?b3)"
  have b1: "built None ?b1" by (intro built.intros)
  then have b2: "built None ?b2"
    by (rule Built_jump) (simp_all add: branch_ops_def new_label_def builder_new_def Let_def)
  then have b3: "built None ?b3" by (rule Built_emit)
  then have b4: "built None ?b4"
    by (rule Built_bind [where l = 0]) (simp add: bind_label_def new_label_def builder_new_def emit_jump_def
        emit_def emit_spanned_def list_get_def Let_def)
  then have "built None (emit_jump Op_Jump 0 0 ?b4)"
    by (rule Built_jump) (simp_all add: bind_label_def new_label_def builder_new_def
        emit_jump_def emit_def emit_spanned_def list_get_def Let_def)
  then show ?thesis
    by (simp add: sample_builder_def new_label_def builder_new_def Let_def)
qed


text \<open>
  \<open>finish\<close> panics exactly when a label was never bound: no reachable builder makes
  it index outside its labels or instructions.
\<close>

theorem finish_panics_iff_unbound:
  assumes "built name b" "small b"
  shows "finish b = None \<longleftrightarrow> None \<in> set (bl_labels b)"
proof (cases "None \<in> set (bl_labels b)")
  case True
  then have "filter (\<lambda>l. l = None) (bl_labels b) \<noteq> []" by (auto simp: filter_empty_conv)
  with True show ?thesis by (simp add: finish_def)
next
  case False
  have "builder_wf b" using assms by (rule built_wf)
  with False show ?thesis using finish_instrs by fastforce
qed

theorem finish_panics_iff_unbound_witness:
  "finish (snd (new_label (builder_new None))) = None"
proof -
  have "small (snd (new_label (builder_new None)))"
    by (simp add: small_def new_label_def builder_new_def Let_def)
  with finish_panics_iff_unbound [OF Built_label [OF Built_new]] show ?thesis
    by (simp add: new_label_def builder_new_def Let_def)
qed

text \<open>Without the debug assertion a conditional target past 16 bits is stored modulo \<open>2 ^ 16\<close>.\<close>

lemma patch_conditional_wraps:
  "\<not> fx_wide_target f \<Longrightarrow> unat (instr_imm16 (patch f pc i)) = unat pc mod 2 ^ 16"
  by (simp add: patch_def unsigned_ucast_eq take_bit_eq_mod)

end
