(* ===== verification/Dispatch.thy ===== *)
theory Dispatch
  imports Validator
begin

text \<open>
  The control part of the dispatch loop (\<open>v12-interp/src/execute.rs\<close>): how the word at
  the program counter is decoded (\<open>decode_instr\<close>, \<open>decode_parked_call\<close>), how the
  branch instructions redirect it, which exception handler covers it
  (\<open>unwind\<close> in \<open>call_setup.rs\<close>), and the runs of a function that result. What an
  instruction other than a branch does to registers and heap is a parameter of the runs.
\<close>

section \<open>Decoding\<close>

text \<open>\<open>merge\<close>: the prefix's high byte goes in front of a slot whose mask bit is set.\<close>

definition merge_slot :: "u8 \<Rightarrow> u8 \<Rightarrow> u8 \<Rightarrow> u8 \<Rightarrow> u16" where
  "merge_slot msk slot hi b = (if msk AND b \<noteq> 0 then push_bit 8 (ucast hi) OR ucast slot else ucast slot)"

text \<open>
  The result is the opcode, the three merged register slots, the width and the word whose
  immediates apply; \<open>None\<close> is a panic (an unassigned byte, a malformed or dangling
  prefix, or a program counter past the stream, which the loop tests before).
\<close>

definition decode_instr :: "instr list \<Rightarrow> nat \<Rightarrow> (opcode \<times> u16 \<times> u16 \<times> u16 \<times> nat \<times> instr) option" where
  "decode_instr is pc =
     Option.bind (list_get is pc) (\<lambda>i. Option.bind (instr_op i) (\<lambda>op.
       if op \<noteq> Op_Wide then Some (op, ucast (instr_a i), ucast (instr_b i), ucast (instr_c i), 1, i)
       else if ucast (instr_c i) = DISC_REG_EXT then
         (case try_decode (drop pc is) of
            Inr (RegExt msk a_hi b_hi c_hi, _) \<Rightarrow>
              Option.bind (list_get is (pc + 2)) (\<lambda>nw. Option.bind (instr_op nw) (\<lambda>narrow_op.
                Some (narrow_op, merge_slot msk (instr_a nw) a_hi 1, merge_slot msk (instr_b nw) b_hi 2,
                      merge_slot msk (instr_c nw) c_hi 4, 3, nw)))
          | _ \<Rightarrow> None)
       else Some (Op_Wide, 0, 0, 0, 1, i)))"

definition parks_construct :: "opcode option \<Rightarrow> bool" where
  "parks_construct op \<longleftrightarrow> op \<in> {Some Op_Construct, Some Op_SuperConstruct, Some Op_SuperConstructApply}"

text \<open>Whether the parked call is a construct, its destination and its width.\<close>

definition decode_parked_call :: "instr list \<Rightarrow> nat \<Rightarrow> bytecode_error + bool \<times> u16 \<times> nat" where
  "decode_parked_call is pc =
     rbind (ok_or (list_get is pc) (TruncatedWide pc)) (\<lambda>i.
       if instr_op i = Some Op_Wide then
         (case try_decode (drop pc is) of
            Inr (CallW dst _ _, width) \<Rightarrow> Inr (False, dst, width)
          | Inr (ConstructW dst _ _, width) \<Rightarrow> Inr (True, dst, width)
          | Inr (RegExt msk a_hi _ _, _) \<Rightarrow>
              rbind (ok_or (list_get is (pc + 2)) (InvalidFunction PrefixWithoutNarrow)) (\<lambda>nw.
                Inr (parks_construct (instr_op nw),
                     if msk AND 1 \<noteq> 0 then push_bit 8 (ucast a_hi) OR ucast (instr_a nw)
                     else ucast (instr_a nw), 3))
          | _ \<Rightarrow> Inl (InvalidFunction ParkedOnMalformedWide))
       else Inr (parks_construct (instr_op i), ucast (instr_a i), 1))"

section \<open>Control transfer\<close>

text \<open>
  The handler \<open>unwind\<close> selects for a frame parked at \<open>pc\<close>: of the ranges that cover
  it the one with the greatest start, the last one in the table among equals
  (\<open>max_by_key\<close> returns the last maximum).
\<close>

definition covers_pc :: "nat \<Rightarrow> handler_range \<Rightarrow> bool" where
  "covers_pc pc h \<longleftrightarrow> unat (h_start h) \<le> pc \<and> pc < unat (h_end h)"

fun last_max :: "handler_range option \<Rightarrow> handler_range list \<Rightarrow> handler_range option" where
  "last_max best [] = best"
| "last_max best (h # hs) =
     (case best of
        None \<Rightarrow> last_max (Some h) hs
      | Some b \<Rightarrow> if h_start b \<le> h_start h then last_max (Some h) hs else last_max (Some b) hs)"

definition covering_handler :: "handler_range list \<Rightarrow> nat \<Rightarrow> handler_range option" where
  "covering_handler hs pc = last_max None (filter (covers_pc pc) hs)"

text \<open>What an instruction other than a branch does to the state, and where that leads.\<close>

datatype 's effect = Proceeds 's | Throws 's | Leaves 's

datatype action = NarrowAction opcode u16 u16 u16 instr | WideAction wide_op

text \<open>
  \<open>FellOff\<close>: the end of the stream, an implicit return; \<open>LeftAt\<close>: a return or a
  suspension at this program counter; \<open>Uncaught\<close>: an exception no range covers.
\<close>

datatype 's stop = FellOff 's | LeftAt nat 's | Uncaught 's
datatype 's transfer = GoTo nat 's | StopWith "'s stop"

record 's machine =
  act :: "action \<Rightarrow> 's \<Rightarrow> 's effect"
  taken :: "opcode \<Rightarrow> u16 \<Rightarrow> 's \<Rightarrow> bool"
  deliver :: "u32 \<Rightarrow> 's \<Rightarrow> 's"

definition conditional :: "opcode \<Rightarrow> bool" where
  "conditional op \<longleftrightarrow> op \<in> {Op_JumpIfFalse, Op_JumpIfTrue, Op_JumpIfNullish}"

definition after_effect ::
  "'s machine \<Rightarrow> handler_range list \<Rightarrow> nat \<Rightarrow> nat \<Rightarrow> 's effect \<Rightarrow> 's transfer" where
  "after_effect m hs pc nxt e =
     (case e of
        Proceeds s \<Rightarrow> GoTo nxt s
      | Leaves s \<Rightarrow> StopWith (LeftAt pc s)
      | Throws s \<Rightarrow>
          (case covering_handler hs pc of
             None \<Rightarrow> StopWith (Uncaught s)
           | Some h \<Rightarrow> GoTo (unat (h_target h)) (deliver m (h_stack_depth h) s)))"

text \<open>One turn of the loop; \<open>None\<close> is a panic.\<close>

definition exec_step ::
  "'s machine \<Rightarrow> instr list \<Rightarrow> handler_range list \<Rightarrow> nat \<Rightarrow> 's \<Rightarrow> 's transfer option" where
  "exec_step m is hs pc s =
     (if length is \<le> pc then Some (StopWith (FellOff s))
      else Option.bind (decode_instr is pc) (\<lambda>(op, ra, rb, rc, width, nw).
        if op = Op_Jump then Some (GoTo (unat (instr_imm24 nw)) s)
        else if conditional op then
          Some (GoTo (if taken m op ra s then unat (instr_imm16 nw) else pc + width) s)
        else if op = Op_Wide then
          (case try_decode (drop pc is) of
             Inr (w, wide_width) \<Rightarrow>
               (case w of
                  RegExt _ _ _ _ \<Rightarrow> None
                | _ \<Rightarrow> Some (after_effect m hs pc (pc + wide_width) (act m (WideAction w) s)))
           | Inl _ \<Rightarrow> None)
        else Some (after_effect m hs pc (pc + width) (act m (NarrowAction op ra rb rc nw) s))))"

text \<open>A run that ends, at its length in steps and without it.\<close>

inductive runs_in :: "(nat \<Rightarrow> 's \<Rightarrow> 's transfer option) \<Rightarrow> nat \<Rightarrow> nat \<Rightarrow> 's \<Rightarrow> 's stop \<Rightarrow> bool"
  for step where
  runs_stop: "step pc s = Some (StopWith r) \<Longrightarrow> runs_in step 0 pc s r"
| runs_go: "step pc s = Some (GoTo q s') \<Longrightarrow> runs_in step k q s' r \<Longrightarrow> runs_in step (Suc k) pc s r"

inductive_cases runs_in_elim: "runs_in step k pc s r"

definition runs :: "(nat \<Rightarrow> 's \<Rightarrow> 's transfer option) \<Rightarrow> nat \<Rightarrow> 's \<Rightarrow> 's stop \<Rightarrow> bool" where
  "runs step pc s r \<longleftrightarrow> (\<exists>k. runs_in step k pc s r)"

lemma runs_in_step:
  "step pc s = Some (GoTo q s') \<Longrightarrow> runs_in step k pc s r \<longleftrightarrow> (\<exists>j. k = Suc j \<and> runs_in step j q s' r)"
  by (auto intro: runs_in.intros elim: runs_in_elim)

lemma runs_in_stop:
  "step pc s = Some (StopWith r') \<Longrightarrow> runs_in step k pc s r \<longleftrightarrow> k = 0 \<and> r = r'"
  by (auto intro: runs_in.intros elim: runs_in_elim)

lemma runs_in_panic: "step pc s = None \<Longrightarrow> \<not> runs_in step k pc s r"
  by (auto elim: runs_in_elim)

lemma runs_step [simp]: "step pc s = Some (GoTo q s') \<Longrightarrow> runs step pc s r \<longleftrightarrow> runs step q s' r"
  by (auto simp: runs_def runs_in_step)

lemma runs_stopped [simp]: "step pc s = Some (StopWith r') \<Longrightarrow> runs step pc s r \<longleftrightarrow> r = r'"
  by (auto simp: runs_def runs_in_stop)

text \<open>
  A run is determined by where it starts, so an equivalence of ending runs is also one of
  runs that never end.
\<close>

lemma runs_in_det: "runs_in step k pc s r \<Longrightarrow> runs_in step k' pc s r' \<Longrightarrow> k = k' \<and> r = r'"
  by (induction arbitrary: k' rule: runs_in.induct) (auto simp: runs_in_step runs_in_stop)

lemma runs_det: "runs step pc s r \<Longrightarrow> runs step pc s r' \<Longrightarrow> r = r'"
  by (auto simp: runs_def dest: runs_in_det)

section \<open>What validation gives the decoder\<close>

lemma decode_stream_suffix:
  assumes "decode_stream is prefix pc = Some ls" "p \<in> set (logical_pcs_from is pc)"
    "stream_contract fb envs ls"
  shows "\<exists>prefix' ls' envs'. decode_stream is prefix' p = Some ls' \<and> stream_contract fb envs' ls'"
  using assms
proof (induction pc arbitrary: prefix ls envs rule: walk_induct [of "is"])
  case (Step pc)
  show ?case
  proof (cases "p = pc")
    case True
    with Step.prems show ?thesis by blast
  next
    case False
    with Step.prems(2) Step(1) have later: "p \<in> set (logical_pcs_from is (pc + instr_width is pc))"
      by (simp add: logical_pcs_from_step)
    from Step(1) Step.prems(1,3) obtain l prefix' ls' where
      "decode_stream is prefix' (pc + instr_width is pc) = Some ls'" "stream_contract fb (env_effect l envs) ls'"
      by (auto simp: decode_stream.simps [of "is" prefix pc] split: option.splits)
    from Step.IH [OF this(1) later this(2)] show ?thesis .
  qed
qed simp

text \<open>The boundary's own entry, and what follows it.\<close>

lemma decode_stream_cons:
  assumes "decode_stream is prefix p = Some ls" "p < length is" "stream_contract fb envs ls"
  obtains l prefix' ls' envs' where "decode_one is prefix p = Some (l, prefix')" "instr_contract fb envs l"
    "decode_stream is prefix' (p + instr_width is p) = Some ls'" "stream_contract fb envs' ls'"
  using assms by (auto simp: decode_stream.simps [of "is" prefix p] split: option.splits)

text \<open>The merged slots are the operands the validator resolves.\<close>

lemma merge_slots_resolve:
  "[merge_slot m (instr_a i) a 1, merge_slot m (instr_b i) b 2, merge_slot m (instr_c i) c 4]
     = resolve_operands (Some (m, a, b, c)) i"
  by (simp add: resolve_operands_def resolve_operand_def merge_slot_def instr_bytes_def Let_def)

lemma narrow_slots_resolve:
  "[ucast (instr_a i), ucast (instr_b i), ucast (instr_c i)] = resolve_operands None i"
  by (simp add: resolve_operands_def resolve_operand_def instr_bytes_def)

lemma instr_width_ext:
  "try_decode (drop p is) = Inr (RegExt m a b c, n) \<Longrightarrow> p < length is \<Longrightarrow> instr_op (is ! p) = Some Op_Wide
    \<Longrightarrow> instr_width is p = 2 \<and> p + 2 \<le> length is"
  using try_decode_width [of "drop p is"] by (auto simp: instr_width_def list_get_def)

text \<open>The three forms the decoder returns.\<close>

lemma decode_instr_narrow:
  "p < length is \<Longrightarrow> instr_op (is ! p) = Some op \<Longrightarrow> op \<noteq> Op_Wide \<Longrightarrow>
     decode_instr is p = Some (op, ucast (instr_a (is ! p)), ucast (instr_b (is ! p)), ucast (instr_c (is ! p)), 1, is ! p)"
  by (simp add: decode_instr_def list_get_def)

lemma decode_instr_wide:
  "p < length is \<Longrightarrow> instr_op (is ! p) = Some Op_Wide \<Longrightarrow> ucast (instr_c (is ! p)) \<noteq> DISC_REG_EXT \<Longrightarrow>
     decode_instr is p = Some (Op_Wide, 0, 0, 0, 1, is ! p)"
  by (simp add: decode_instr_def list_get_def)

lemma decode_instr_ext:
  assumes "p + 2 < length is" "instr_op (is ! p) = Some Op_Wide" "ucast (instr_c (is ! p)) = DISC_REG_EXT"
    "try_decode (drop p is) = Inr (RegExt m a b c, n)" "instr_op (is ! (p + 2)) = Some op"
  shows "decode_instr is p = Some (op, merge_slot m (instr_a (is ! (p + 2))) a 1,
     merge_slot m (instr_b (is ! (p + 2))) b 2, merge_slot m (instr_c (is ! (p + 2))) c 4, 3, is ! (p + 2))"
  using assms by (simp add: decode_instr_def list_get_def)

text \<open>The discriminant byte alone tells a prefix from the other wide operations.\<close>

lemma try_decode_ext_iff:
  assumes "try_decode ws = Inr (w, n)"
  shows "ucast (instr_c (ws ! 0)) = DISC_REG_EXT \<longleftrightarrow> (\<exists>m a b c. w = RegExt m a b c)"
  using assms
  by (auto simp: try_decode_def decode_disc_def with_payload1_def with_payload2_def with_payload3_def list_get_def
      Let_def split_def split: if_splits)

text \<open>A decoded instruction names registers of the frame only, and branches inside the stream.\<close>

definition decoded_ok :: "function_bytecode \<Rightarrow> opcode \<Rightarrow> u16 list \<Rightarrow> instr \<Rightarrow> bool" where
  "decoded_ok fb op slots nw \<longleftrightarrow>
     list_all (\<lambda>k. index_is_register (spec_of op) k \<longrightarrow> unat (slots ! k) < unat (max_regs fb)) [0, 1, 2]
   \<and> pred_option (\<lambda>t. unat t \<le> length (instrs fb)) (branch_target op nw)"

lemma contract_decoded_ok:
  "instr_contract fb envs (Narrow op i (resolve_operands prefix i)) \<Longrightarrow>
     decoded_ok fb op (resolve_operands prefix i) i"
  by (auto simp: instr_contract_def decoded_ok_def option.pred_map o_def)

lemma resolve_None_le:
  "k \<in> {0, 1, 2} \<Longrightarrow> unat (resolve_operands None i ! k) \<le> unat (resolve_operands prefix i ! k)"
  using resolve_operand_ge [of "instr_bytes i ! k" prefix k]
  by (auto simp: resolve_operands_def resolve_operand_def)

lemma decoded_ok_bare:
  assumes "decoded_ok fb op (resolve_operands prefix i) nw"
  shows "decoded_ok fb op (resolve_operands None i) nw"
  using assms resolve_None_le [of 0 i prefix] resolve_None_le [of 1 i prefix] resolve_None_le [of 2 i prefix]
  by (auto simp: decoded_ok_def)

text \<open>
  C27. After validation the decoder of the dispatch loop never panics: at every
  instruction boundary \<open>decode_instr\<close> returns an instruction whose merged register slots
  lie in the frame and whose branch target is inside the stream or its end; a \<open>RegExt\<close>
  prefix has its narrow instruction behind it and the pair ends on the boundary after
  it; and a wide operation decodes with all its registers in the frame.
\<close>

theorem dispatch_decode_safe:
  assumes "validate fb = Inr ()" "length (instrs fb) < 2 ^ 32" "p \<in> set (logical_pcs fb)"
  shows "\<exists>op a b c width nw. decode_instr (instrs fb) p = Some (op, a, b, c, width, nw) \<and>
     (if op = Op_Wide
      then \<exists>w n. try_decode (drop p (instrs fb)) = Inr (w, n) \<and> p + n \<le> length (instrs fb) \<and>
             list_all (\<lambda>r. unat (snd r) < unat (max_regs fb)) (wide_registers w)
      else decoded_ok fb op [a, b, c] nw \<and> p + width \<le> length (instrs fb))"
proof -
  let ?is = "instrs fb"
  have p: "p < length ?is" using assms(3) by (auto simp: logical_pcs_def dest: logical_pcs_from_bounds)
  obtain ls where ls: "decode_stream ?is None 0 = Some ls" "stream_contract fb [] ls"
    using assms(1) validate_Inr [OF assms(2)] by blast
  obtain prefix ls1 envs where ls1: "decode_stream ?is prefix p = Some ls1" "stream_contract fb envs ls1"
    using decode_stream_suffix [OF ls(1) _ ls(2)] assms(3) unfolding logical_pcs_def by blast
  obtain l prefix' ls2 envs2 where one: "decode_one ?is prefix p = Some (l, prefix')"
    and ok: "instr_contract fb envs l"
    and ls2: "decode_stream ?is prefix' (p + instr_width ?is p) = Some ls2" "stream_contract fb envs2 ls2"
    by (rule decode_stream_cons [OF ls1(1) p ls1(2)])
  let ?i = "?is ! p"
  from one obtain op where op: "instr_op ?i = Some op" by (auto simp: decode_one_def split: option.splits)
  have get: "list_get ?is p = Some ?i" using p by (simp add: list_get_eq_Some)
  show ?thesis
  proof (cases "op = Op_Wide")
    case False
    with op one have l: "l = Narrow op ?i (resolve_operands prefix ?i)" by (simp add: decode_one_def)
    have "decoded_ok fb op (resolve_operands None ?i) ?i"
      by (rule decoded_ok_bare [OF contract_decoded_ok]) (use ok l in simp)
    with False p show ?thesis
      using decode_instr_narrow [OF p op False] by (simp add: narrow_slots_resolve)
  next
    case True
    with op one obtain w n where w: "try_decode (drop p ?is) = Inr (w, n)" and prefix: "prefix = None"
      and l: "l = (case w of RegExt _ _ _ _ \<Rightarrow> Prefix w | _ \<Rightarrow> WideI w)"
      and prefix': "prefix' = (case w of RegExt m a b c \<Rightarrow> Some (m, a, b, c) | _ \<Rightarrow> None)"
      by (auto simp: decode_one_def split: option.splits sum.splits wide_op.splits)
    have disc: "ucast (instr_c ?i) = DISC_REG_EXT \<longleftrightarrow> (\<exists>m a b c. w = RegExt m a b c)"
      using try_decode_ext_iff [OF w] p by simp
    show ?thesis
    proof (cases "ucast (instr_c ?i) = DISC_REG_EXT")
      case False
      with disc l have "l = WideI w" by (auto split: wide_op.splits)
      with ok have regs: "list_all (\<lambda>r. unat (snd r) < unat (max_regs fb)) (wide_registers w)"
        by (simp add: instr_contract_def list_all_iff)
      have "p + n \<le> length ?is" using try_decode_width [OF w] p by auto
      with regs w show ?thesis using decode_instr_wide [OF p _ False] op True by auto
    next
      case ext: True
      with disc obtain m a b c where wr: "w = RegExt m a b c" by blast
      with w have width: "instr_width ?is p = 2" "p + 2 \<le> length ?is"
        using instr_width_ext [of p ?is m a b c n] p op True by auto
      from ls2 prefix' wr width have rest: "decode_stream ?is (Some (m, a, b, c)) (p + 2) = Some ls2" by simp
      have q: "p + 2 < length ?is"
        using rest by (rule_tac ccontr) (simp add: decode_stream.simps [of ?is "Some (m, a, b, c)"])
      obtain l2 prefix2 where two: "decode_one ?is (Some (m, a, b, c)) (p + 2) = Some (l2, prefix2)"
        and ok2: "instr_contract fb envs2 l2"
        by (rule decode_stream_cons [OF rest q ls2(2)])
      let ?nw = "?is ! (p + 2)"
      from two obtain op2 where op2: "instr_op ?nw = Some op2" "op2 \<noteq> Op_Wide"
        "l2 = Narrow op2 ?nw (resolve_operands (Some (m, a, b, c)) ?nw)"
        by (auto simp: decode_one_def split: option.splits if_splits)
      with ok2 have "decoded_ok fb op2 (resolve_operands (Some (m, a, b, c)) ?nw) ?nw"
        by (auto dest: contract_decoded_ok)
      with op2 q True op show ?thesis
        using decode_instr_ext [OF q _ ext, of m a b c n op2] w wr by (simp add: merge_slots_resolve)
    qed
  qed
qed

theorem dispatch_decode_safe_witness:
  "\<exists>op a b c width nw. decode_instr (instrs sample_valid) 8 = Some (op, a, b, c, width, nw)"
proof -
  have "8 \<in> set (logical_pcs sample_valid)"
    using decode_stream_pcs [OF sample_valid_decodes, symmetric] by (simp add: logical_pcs_def)
  moreover have "length (instrs sample_valid) < 2 ^ 32" using sample_valid_contract by simp
  ultimately show ?thesis using dispatch_decode_safe [OF sample_valid_ok] by blast
qed

section \<open>The handler that catches\<close>

text \<open>With the starts sorted, the selected handler is the last covering one.\<close>

lemma last_max_sorted:
  "sorted_wrt (\<lambda>g h. h_start g \<le> h_start h) (case best of None \<Rightarrow> hs | Some b \<Rightarrow> b # hs) \<Longrightarrow>
     last_max best hs = (case hs of [] \<Rightarrow> best | _ \<Rightarrow> Some (last hs))"
  by (induction hs arbitrary: best) (auto split: option.splits list.splits)

lemma covering_handler_last:
  assumes "sorted_wrt (\<lambda>g h. h_start g \<le> h_start h) hs"
  shows "covering_handler hs pc = (case filter (covers_pc pc) hs of [] \<Rightarrow> None | hs' \<Rightarrow> Some (last hs'))"
proof -
  have "sorted_wrt (\<lambda>g h. h_start g \<le> h_start h) (filter (covers_pc pc) hs)"
    using assms by (rule sorted_wrt_filter)
  then show ?thesis using last_max_sorted [of "filter (covers_pc pc) hs" None]
    by (simp add: covering_handler_def split: list.splits)
qed

lemma handlers_ok_starts:
  "handlers_ok n hs \<Longrightarrow> sorted_wrt (\<lambda>g h. h_start g \<le> h_start h) hs"
  unfolding handlers_ok_def by (auto elim!: sorted_wrt_mono_rel [rotated] simp: nested_or_after_def)

text \<open>
  In a validated function an exception goes to the innermost try region: when no
  range covers the program counter it is not caught here; otherwise the selected
  range covers it, its target is inside the stream, and every other covering range encloses
  the selected one and delivers at a smaller stack depth.
\<close>

theorem innermost_handler_catches:
  assumes "validate fb = Inr ()" "length (instrs fb) < 2 ^ 32"
  shows "case covering_handler (handlers fb) pc of
      None \<Rightarrow> filter (covers_pc pc) (handlers fb) = []
    | Some h \<Rightarrow> h \<in> set (handlers fb) \<and> covers_pc pc h \<and> unat (h_target h) < length (instrs fb) \<and>
        list_all (\<lambda>g. h_end h \<le> h_end g \<and> h_stack_depth g < h_stack_depth h)
          (butlast (filter (covers_pc pc) (handlers fb)))"
proof -
  let ?hs = "handlers fb" let ?cs = "filter (covers_pc pc) ?hs"
  have ok: "handlers_ok (length (instrs fb)) ?hs" using assms(1) validate_Inr [OF assms(2)] by blast
  note sel = covering_handler_last [OF handlers_ok_starts [OF ok], of pc]
  show ?thesis
  proof (cases "?cs = []")
    case True
    then show ?thesis using sel by simp
  next
    case False
    then have h: "covering_handler ?hs pc = Some (last ?cs)" using sel by (simp split: list.splits)
    have last: "last ?cs \<in> set ?hs \<and> covers_pc pc (last ?cs)" using last_in_set [OF False] by auto
    have "sorted_wrt nested_or_after ?cs" using ok by (simp add: handlers_ok_def sorted_wrt_filter)
    then have "sorted_wrt nested_or_after (butlast ?cs @ [last ?cs])" using False by simp
    then have nest: "nested_or_after g (last ?cs)" if "g \<in> set (butlast ?cs)" for g
      using that by (auto simp: sorted_wrt_append)
    have "h_end (last ?cs) \<le> h_end g \<and> h_stack_depth g < h_stack_depth (last ?cs)"
      if g: "g \<in> set (butlast ?cs)" for g
    proof -
      have "covers_pc pc g" using in_set_butlastD [OF g] by simp
      with last nest [OF g] show ?thesis
        by (auto simp: nested_or_after_def covers_pc_def word_le_nat_alt)
    qed
    with h last ok show ?thesis by (auto simp: list_all_iff handlers_ok_def handler_ok_def)
  qed
qed

definition sample_guarded :: function_bytecode where
  "sample_guarded = sample_valid\<lparr>handlers :=
     [\<lparr>h_start = 0, h_end = 8, h_target = 8, h_stack_depth = 1\<rparr>,
      \<lparr>h_start = 2, h_end = 5, h_target = 8, h_stack_depth = 2\<rparr>]\<rparr>"

lemma stream_contract_handlers [simp]:
  "stream_contract (fb\<lparr>handlers := hs\<rparr>) envs ls = stream_contract fb envs ls"
  by (induction fb envs ls rule: stream_contract.induct) (simp_all add: instr_contract_def)

lemma sample_guarded_ok: "validate sample_guarded = Inr ()" "length (instrs sample_guarded) = 9"
  using sample_valid_contract
  by (simp_all add: sample_guarded_def validate_Inr handlers_ok_def handler_ok_def nested_or_after_def)

theorem innermost_handler_catches_witness:
  "\<exists>h. covering_handler (handlers sample_guarded) 4 = Some h \<and> covers_pc 4 h"
proof -
  have "length (instrs sample_guarded) < 2 ^ 32" using sample_guarded_ok by simp
  from innermost_handler_catches [OF sample_guarded_ok(1) this, of 4] show ?thesis
    by (auto split: option.splits simp: sample_guarded_def covers_pc_def)
qed

end
