(* ===== verification/Peephole.thy ===== *)
theory Peephole
  imports Dispatch
begin

text \<open>
  The peephole pass of the bytecode compiler (\<open>v12-bccompiler/src/peephole.rs\<close>): constant
  folding of literal triples, deletion of branches to the next instruction, compaction with
  the remapping of every branch target and handler range, and threading of jumps to jumps,
  in at most eight rounds. Word indices are \<open>nat\<close>; the code holds the index map as \<open>u32\<close>,
  exact for streams of fewer than \<open>2 ^ 32\<close> words. \<open>None\<close> is a panic (an index past the
  map or past the span table).
\<close>

section \<open>Layout\<close>

definition MAX_ROUNDS :: nat where "MAX_ROUNDS = 8"

definition word_width :: "instr list \<Rightarrow> nat" where
  "word_width ws =
     (case Option.bind (Option.bind (list_get ws 0) instr_op) spec of
        None \<Rightarrow> 1 | Some s \<Rightarrow> logical_width s ws)"

lemma word_width_at: "pc < length is \<Longrightarrow> word_width (drop pc is) = instr_width is pc"
proof (cases "instr_op (is ! pc)")
  case None
  then show "pc < length is \<Longrightarrow> word_width (drop pc is) = instr_width is pc"
    by (simp add: word_width_def instr_width_def list_get_def)
next
  case (Some op)
  then show "pc < length is \<Longrightarrow> word_width (drop pc is) = instr_width is pc"
    using instr_width_logical [of pc "is" op] by (simp add: word_width_def list_get_def)
qed

text \<open>\<open>width_of\<close>: the width at each header word, zero at each payload word.\<close>

function fill_widths :: "instr list \<Rightarrow> nat \<Rightarrow> nat list \<Rightarrow> nat list" where
  "fill_widths is pc width_of =
     (if pc < length is
      then (let w = word_width (drop pc is) in fill_widths is (pc + w) (width_of[pc := w]))
      else width_of)"
  by pat_completeness auto
termination
  by (relation "measure (\<lambda>(is, pc, _). length is - pc)")
    (simp_all add: word_width_at instr_width_pos diff_less_mono2)

declare fill_widths.simps [simp del]

definition layout :: "instr list \<Rightarrow> nat list" where
  "layout is = fill_widths is 0 (replicate (length is) 0)"

section \<open>Constant folding\<close>

text \<open>\<open>imm8\<close>: the sign-extended literal of a \<open>LoadInt\<close>, in \<open>-128..127\<close>.\<close>

definition imm8 :: "instr \<Rightarrow> int" where "imm8 i = sint (instr_c i)"

text \<open>
  The checked \<open>i32\<close> operation, then \<open>i8::try_from\<close>: products of two \<open>i8\<close> values fit an
  \<open>i32\<close>, so only the second conversion can fail.
\<close>

definition fold_literal :: "opcode \<Rightarrow> int \<Rightarrow> int \<Rightarrow> u8 option" where
  "fold_literal op a b =
     (let v = (if op = Op_Add then a + b else if op = Op_Sub then a - b else a * b)
      in if - (2 ^ 31) \<le> v \<and> v < 2 ^ 31 \<and> - 128 \<le> v \<and> v \<le> 127 then Some (word_of_int v) else None)"

text \<open>The instruction a triple of words at \<open>i - 1\<close>, \<open>i\<close>, \<open>i + 1\<close> folds to.\<close>

definition fold_triple :: "instr \<Rightarrow> instr \<Rightarrow> instr \<Rightarrow> instr option" where
  "fold_triple i1 i2 i3 =
     (case instr_op i3 of
        None \<Rightarrow> None
      | Some op3 \<Rightarrow>
          if op3 \<notin> {Op_Add, Op_Sub, Op_Mul} then None
          else let rx = instr_a i1; lx = imm8 i1; ry = instr_a i2; ly = imm8 i2;
                   rz = instr_a i3; b3 = instr_b i3; c3 = instr_c i3;
                   direct = (b3 = rx \<and> c3 = ry);
                   swapped = (op3 \<in> {Op_Add, Op_Mul} \<and> b3 = ry \<and> c3 = rx)
               in if \<not> (direct \<or> swapped) then None
                  else let (a, b) = (if direct then (lx, ly) else (ly, lx))
                       in map_option (\<lambda>v. instr_new Op_LoadInt rz 0 v) (fold_literal op3 a b))"

record sweep =
  sw_instrs :: "instr list"
  sw_keep :: "bool list"
  sw_changed :: bool

definition drop_words :: "nat \<Rightarrow> nat \<Rightarrow> bool list \<Rightarrow> bool list" where
  "drop_words h w keep = fold (\<lambda>k keep. keep[h + k := False]) [1..<w] (keep[h := False])"

definition fold_at :: "nat list \<Rightarrow> nat \<Rightarrow> sweep \<Rightarrow> sweep" where
  "fold_at width_of i s =
     (let is = sw_instrs s; keep = sw_keep s; h1 = i - 1; h2 = i; h3 = i + 1
      in if \<not> keep ! i \<or> \<not> keep ! (i - 1) then s
         else if width_of ! i \<noteq> 1 \<or> instr_op (is ! i) \<noteq> Some Op_LoadInt then s
         else if width_of ! h1 \<noteq> 1 \<or> instr_op (is ! h1) \<noteq> Some Op_LoadInt \<or> width_of ! h3 < 1 then s
         else case fold_triple (is ! h1) (is ! h2) (is ! h3) of
                None \<Rightarrow> s
              | Some folded \<Rightarrow>
                  \<lparr>sw_instrs = is[h1 := folded],
                   sw_keep = drop_words h3 (width_of ! h3) (drop_words h2 (width_of ! h2) keep),
                   sw_changed = True\<rparr>)"

definition fold_pass :: "nat list \<Rightarrow> instr list \<Rightarrow> sweep" where
  "fold_pass width_of is =
     fold (fold_at width_of) [1..<length is - 2]
       \<lparr>sw_instrs = is, sw_keep = replicate (length is) True, sw_changed = False\<rparr>"

section \<open>Dead branches\<close>

definition headers_of :: "nat list \<Rightarrow> nat list" where
  "headers_of width_of = filter (\<lambda>i. 0 < width_of ! i) [0..<length width_of]"

definition dead_branch :: "instr \<Rightarrow> nat \<Rightarrow> bool" where
  "dead_branch i nxt \<longleftrightarrow>
     (instr_op i = Some Op_Jump \<and> unat (instr_imm24 i) = nxt)
   \<or> (instr_op i \<in> {Some Op_JumpIfFalse, Some Op_JumpIfTrue} \<and> unat (instr_imm16 i) = nxt)"

fun dead_pass :: "nat \<Rightarrow> nat list \<Rightarrow> sweep \<Rightarrow> sweep" where
  "dead_pass n [] s = s"
| "dead_pass n (h # hs) s =
     (let nxt = (case hs of [] \<Rightarrow> n | h' # _ \<Rightarrow> h')
      in dead_pass n hs
           (if dead_branch (sw_instrs s ! h) nxt
            then s\<lparr>sw_keep := (sw_keep s)[h := False], sw_changed := True\<rparr> else s))"

text \<open>
  Payload words live or die with their header. The loop visits \<open>0\<close> and then each
  \<open>pc + width_of[pc]\<close>, which are the headers in order.
\<close>

definition sync_payload :: "nat list \<Rightarrow> bool list \<Rightarrow> bool list" where
  "sync_payload width_of keep =
     fold (\<lambda>pc keep. fold (\<lambda>k keep'. keep'[pc + k := keep ! pc]) [1..<width_of ! pc] keep)
       (headers_of width_of) keep"

section \<open>Compaction\<close>

text \<open>\<open>map[i]\<close>: the running count of kept words before word \<open>i\<close>, for \<open>i \<le> n\<close>.\<close>

definition new_index :: "bool list \<Rightarrow> nat \<Rightarrow> nat" where
  "new_index keep i = length (filter (\<lambda>k. k) (take i keep))"

definition kept_words :: "bool list \<Rightarrow> 'a list \<Rightarrow> 'a list" where
  "kept_words keep xs = map snd (filter fst (zip keep xs))"

definition remap_branch :: "bool list \<Rightarrow> instr \<Rightarrow> instr" where
  "remap_branch keep i =
     (if instr_op i = Some Op_Jump
      then set_imm24 i (word_of_nat (new_index keep (min (unat (instr_imm24 i)) (length keep))))
      else if instr_op i \<in> {Some Op_JumpIfFalse, Some Op_JumpIfTrue, Some Op_JumpIfNullish}
      then set_imm16 i (word_of_nat (new_index keep (min (unat (instr_imm16 i)) (length keep))))
      else i)"

definition remap_handler :: "bool list \<Rightarrow> handler_range \<Rightarrow> handler_range option" where
  "remap_handler keep h =
     (if length keep < unat (h_start h) \<or> length keep < unat (h_end h) \<or> length keep < unat (h_target h) then None
      else Some (h\<lparr>h_start := word_of_nat (new_index keep (unat (h_start h))),
                   h_end := word_of_nat (new_index keep (unat (h_end h))),
                   h_target := word_of_nat (new_index keep (unat (h_target h)))\<rparr>))"

definition compact :: "bool list \<Rightarrow> function_bytecode \<Rightarrow> function_bytecode option" where
  "compact keep fb =
     (if list_ex (\<lambda>idx. keep ! idx \<and> length (spans fb) \<le> idx) [0..<length keep] then None
      else map_option (\<lambda>hs.
        fb\<lparr>instrs := map (remap_branch keep) (kept_words keep (instrs fb)),
           handlers := filter (\<lambda>h. h_start h < h_end h) hs,
           spans := kept_words keep (take (length keep) (spans fb))\<rparr>)
        (those (map (remap_handler keep) (handlers fb))))"

section \<open>Threading\<close>

text \<open>
  The loop of at most sixteen hops; \<open>stop\<close> is the jump's own index, which ends the chase
  for an unconditional jump only. The result is the target and the hops taken.
\<close>

definition MAX_HOPS :: nat where "MAX_HOPS = 16"

fun chase :: "nat \<Rightarrow> instr list \<Rightarrow> nat option \<Rightarrow> nat \<Rightarrow> nat \<Rightarrow> nat \<times> nat" where
  "chase 0 is stop t hops = (t, hops)"
| "chase (Suc left) is stop t hops =
     (if stop \<noteq> Some t \<and> Option.bind (list_get is t) instr_op = Some Op_Jump
      then chase left is stop (unat (instr_imm24 (is ! t))) (hops + 1)
      else (t, hops))"

definition thread_at :: "nat \<Rightarrow> instr list \<times> bool \<Rightarrow> instr list \<times> bool" where
  "thread_at i = (\<lambda>(is, changed).
     if instr_op (is ! i) = Some Op_Jump then
       (let (t, hops) = chase MAX_HOPS is (Some i) (unat (instr_imm24 (is ! i))) 0
        in if 0 < hops then (is[i := set_imm24 (is ! i) (word_of_nat t)], True) else (is, changed))
     else if instr_op (is ! i) \<in> {Some Op_JumpIfFalse, Some Op_JumpIfTrue, Some Op_JumpIfNullish} then
       (let (t, hops) = chase MAX_HOPS is None (unat (instr_imm16 (is ! i))) 0
        in if 0 < hops then (is[i := set_imm16 (is ! i) (word_of_nat t)], True) else (is, changed))
     else (is, changed))"

definition thread_pass :: "instr list \<times> bool \<Rightarrow> instr list \<times> bool" where
  "thread_pass s = fold thread_at [0..<length (fst s)] s"

section \<open>The pass\<close>

definition peephole_marks :: "instr list \<Rightarrow> sweep" where
  "peephole_marks is =
     (let width_of = layout is;
          s = dead_pass (length is) (headers_of width_of) (fold_pass width_of is)
      in s\<lparr>sw_keep := sync_payload width_of (sw_keep s)\<rparr>)"

definition peephole_round :: "function_bytecode \<Rightarrow> (function_bytecode \<times> bool) option" where
  "peephole_round fb =
     (if instrs fb = [] then Some (fb, False)
      else let s = peephole_marks (instrs fb);
               fb1 = fb\<lparr>instrs := sw_instrs s\<rparr>
           in map_option (\<lambda>(fb2, changed2).
                let (is, changed) = thread_pass (instrs fb2, changed2)
                in (fb2\<lparr>instrs := is\<rparr>, changed))
              (if list_ex Not (sw_keep s) then map_option (\<lambda>fb2. (fb2, True)) (compact (sw_keep s) fb1)
               else Some (fb1, sw_changed s)))"

fun optimize_rounds :: "nat \<Rightarrow> function_bytecode \<Rightarrow> function_bytecode option" where
  "optimize_rounds 0 fb = Some fb"
| "optimize_rounds (Suc k) fb =
     Option.bind (peephole_round fb) (\<lambda>(fb', changed).
       if changed then optimize_rounds k fb' else Some fb')"

definition optimize :: "function_bytecode \<Rightarrow> function_bytecode option" where
  "optimize fb = optimize_rounds MAX_ROUNDS fb"

section \<open>What the marks are\<close>

definition boundaries :: "instr list \<Rightarrow> nat set" where
  "boundaries is = set (logical_pcs_from is 0)"

lemma boundaries_lt: "p \<in> boundaries is \<Longrightarrow> p < length is"
  by (auto simp: boundaries_def dest: logical_pcs_from_bounds)

lemma boundaries_next: "p \<in> boundaries is \<Longrightarrow> p + instr_width is p \<in> boundaries is \<union> {length is}"
  using instr_width_fits [of p "is"] boundaries_lt [of p "is"] logical_pcs_next [of p "is" 0]
  by (cases "p + instr_width is p < length is") (auto simp: boundaries_def)

lemma fill_widths_spec:
  assumes "length width_of = length is"
  shows "length (fill_widths is pc width_of) = length is"
    and "i < length is \<Longrightarrow> fill_widths is pc width_of ! i =
      (if i \<in> set (logical_pcs_from is pc) then instr_width is i else width_of ! i)"
  using assms
proof (induction pc arbitrary: width_of rule: walk_induct [of "is"])
  case (End pc)
  { case 1 then show ?case using End by (simp add: fill_widths.simps [of "is" pc]) }
  { case 2 then show ?case using End by (simp add: fill_widths.simps [of "is" pc]) }
next
  case (Step pc)
  note eq = fill_widths.simps [of "is" pc width_of for width_of]
  { case 1
    then show ?case using Step by (subst eq) (simp add: word_width_at Let_def) }
  { case 2
    have later: "i \<in> set (logical_pcs_from is (pc + instr_width is pc)) \<Longrightarrow> i \<noteq> pc"
      using logical_pcs_from_bounds [of i "is" "pc + instr_width is pc"] instr_width_pos [OF Step(1)] by auto
    from 2 Step(1) Step.IH(2) [of "width_of[pc := instr_width is pc]"] show ?case
      using later by (subst eq) (auto simp: word_width_at Let_def logical_pcs_from_step nth_list_update) }
qed

lemma layout_spec:
  "length (layout is) = length is"
  "i < length is \<Longrightarrow> layout is ! i = (if i \<in> boundaries is then instr_width is i else 0)"
  by (simp_all add: layout_def boundaries_def fill_widths_spec)

lemma headers_of_layout: "headers_of (layout is) = logical_pcs_from is 0"
proof (rule sorted_distinct_set_unique)
  show "set (headers_of (layout is)) = set (logical_pcs_from is 0)"
    using instr_width_pos boundaries_lt [of _ "is"]
    by (auto simp: headers_of_def layout_spec boundaries_def split: if_splits)
  show "sorted (logical_pcs_from is 0)" "distinct (logical_pcs_from is 0)"
    using logical_pcs_from_sorted [of "is" 0] strict_sorted_iff by auto
qed (simp_all add: headers_of_def sorted_wrt_filter)

text \<open>A folding pass that reports no change made none.\<close>

lemma fold_at_changed: "\<not> sw_changed (fold_at w i s) \<Longrightarrow> fold_at w i s = s"
  by (auto simp: fold_at_def Let_def split: option.splits if_splits)

lemma fold_list_changed: "\<not> sw_changed (fold (fold_at w) xs s) \<Longrightarrow> fold (fold_at w) xs s = s"
proof (induction xs arbitrary: s)
  case (Cons x xs)
  then have eq: "fold (fold_at w) xs (fold_at w x s) = fold_at w x s" by simp
  with Cons.prems have "\<not> sw_changed (fold_at w x s)" by simp
  with eq show ?case by (simp add: fold_at_changed)
qed simp

definition folds :: "instr list \<Rightarrow> bool" where
  "folds is \<longleftrightarrow> sw_changed (fold_pass (layout is) is)"

lemma no_folds:
  "\<not> folds is \<Longrightarrow> fold_pass (layout is) is =
     \<lparr>sw_instrs = is, sw_keep = replicate (length is) True, sw_changed = False\<rparr>"
  using fold_list_changed [of "layout is" "[1..<length is - 2]"] by (simp add: folds_def fold_pass_def)

text \<open>The dead branches of a stream.\<close>

definition dead_at :: "instr list \<Rightarrow> nat \<Rightarrow> bool" where
  "dead_at is i \<longleftrightarrow> i \<in> boundaries is \<and> dead_branch (is ! i) (i + 1)"

lemma dead_branch_width:
  "pc < length is \<Longrightarrow> dead_branch (is ! pc) n \<Longrightarrow> instr_width is pc = 1"
  by (auto simp: dead_branch_def instr_width_def list_get_def)

lemma dead_pass_spec:
  assumes "sw_instrs s = is" "length (sw_keep s) = length is"
  shows "sw_instrs (dead_pass (length is) (logical_pcs_from is pc) s) = is
    \<and> length (sw_keep (dead_pass (length is) (logical_pcs_from is pc) s)) = length is
    \<and> (\<forall>i < length is. sw_keep (dead_pass (length is) (logical_pcs_from is pc) s) ! i \<longleftrightarrow>
        sw_keep s ! i \<and> \<not> (i \<in> set (logical_pcs_from is pc) \<and> dead_branch (is ! i) (i + 1)))
    \<and> (sw_changed (dead_pass (length is) (logical_pcs_from is pc) s) \<longleftrightarrow> sw_changed s \<or>
        (\<exists>i \<in> set (logical_pcs_from is pc). dead_branch (is ! i) (i + 1)))"
  using assms
proof (induction pc arbitrary: s rule: walk_induct [of "is"])
  case (Step pc)
  let ?w = "instr_width is pc"
  have nxt: "(case logical_pcs_from is (pc + ?w) of [] \<Rightarrow> length is | h' # _ \<Rightarrow> h') = pc + ?w"
    using instr_width_fits [OF Step(1)]
    by (cases "pc + ?w < length is") (simp_all add: logical_pcs_from_step)
  have dead: "dead_branch (is ! pc) (pc + ?w) \<longleftrightarrow> dead_branch (is ! pc) (pc + 1)"
    using dead_branch_width [OF Step(1), of "pc + ?w"] dead_branch_width [OF Step(1), of "pc + 1"] by auto
  have later: "pc \<notin> set (logical_pcs_from is (pc + ?w))"
    using logical_pcs_from_bounds [of pc "is" "pc + ?w"] instr_width_pos [OF Step(1)] by auto
  let ?s = "if dead_branch (is ! pc) (pc + 1)
    then s\<lparr>sw_keep := (sw_keep s)[pc := False], sw_changed := True\<rparr> else s"
  have s: "sw_instrs ?s = is" "length (sw_keep ?s) = length is" using Step.prems by simp_all
  have "dead_pass (length is) (logical_pcs_from is pc) s = dead_pass (length is) (logical_pcs_from is (pc + ?w)) ?s"
    using Step.prems(1) Step(1) by (simp add: logical_pcs_from_step nxt dead Let_def)
  with Step.IH [OF s] Step(1) Step.prems later show ?case
    by (auto simp: logical_pcs_from_step nth_list_update)
qed simp

lemma fold_id: "(\<And>x. x \<in> set xs \<Longrightarrow> f x s = s) \<Longrightarrow> fold f xs s = s"
  by (induction xs) auto

lemma sync_payload_id:
  assumes "\<And>p k. p \<in> set (headers_of w) \<Longrightarrow> 1 \<le> k \<Longrightarrow> k < w ! p \<Longrightarrow> keep ! (p + k) = keep ! p"
  shows "sync_payload w keep = keep"
  unfolding sync_payload_def
proof (rule fold_id)
  fix p assume p: "p \<in> set (headers_of w)"
  have "keep[p + k := keep ! p] = keep" if "k \<in> set [1..<w ! p]" for k
    using that assms [OF p, of k] list_update_id [of keep "p + k"] by simp
  then show "fold (\<lambda>k keep'. keep'[p + k := keep ! p]) [1..<w ! p] keep = keep"
    by (rule fold_id)
qed

lemma owned_not_boundary:
  assumes "p \<in> boundaries is" "1 \<le> k" "k < instr_width is p"
  shows "p + k \<notin> boundaries is"
proof
  assume q: "p + k \<in> boundaries is"
  have lt: "p + k < length is" by (rule boundaries_lt [OF q])
  have "owns is p (p + k)" "owns is (p + k) (p + k)"
    using assms instr_width_pos [OF lt] by (simp_all add: owns_def)
  with q assms(1) logical_pcs_from_cover [of 0 "p + k" "is"] lt have "p = p + k"
    unfolding boundaries_def by blast
  with assms(2) show False by simp
qed

lemma marks_spec:
  assumes "\<not> folds is"
  shows "sw_instrs (peephole_marks is) = is" "length (sw_keep (peephole_marks is)) = length is"
    "i < length is \<Longrightarrow> sw_keep (peephole_marks is) ! i \<longleftrightarrow> \<not> dead_at is i"
    "sw_changed (peephole_marks is) \<longleftrightarrow> list_ex Not (sw_keep (peephole_marks is))"
proof -
  let ?s = "\<lparr>sw_instrs = is, sw_keep = replicate (length is) True, sw_changed = False\<rparr>"
  let ?d = "dead_pass (length is) (logical_pcs_from is 0) ?s"
  have d: "sw_instrs ?d = is" "length (sw_keep ?d) = length is"
    "\<And>i. i < length is \<Longrightarrow> sw_keep ?d ! i \<longleftrightarrow> \<not> dead_at is i"
    "sw_changed ?d \<longleftrightarrow> (\<exists>i \<in> boundaries is. dead_branch (is ! i) (i + 1))"
    using dead_pass_spec [of ?s "is" 0] by (auto simp: dead_at_def boundaries_def)
  have "sync_payload (layout is) (sw_keep ?d) = sw_keep ?d"
  proof (rule sync_payload_id)
    fix p k assume p: "p \<in> set (headers_of (layout is))" and k: "1 \<le> k" "k < layout is ! p"
    then have pb: "p \<in> boundaries is" by (simp add: headers_of_layout boundaries_def)
    note lt = boundaries_lt [OF pb]
    with k pb have w: "k < instr_width is p" by (simp add: layout_spec)
    then have "\<not> dead_at is p" using dead_branch_width [OF lt, of "p + 1"] k by (auto simp: dead_at_def)
    moreover have "\<not> dead_at is (p + k)" using owned_not_boundary [OF pb k(1) w] by (simp add: dead_at_def)
    moreover have "p + k < length is" using instr_width_fits [OF lt] w by simp
    ultimately show "sw_keep ?d ! (p + k) = sw_keep ?d ! p" using d(3) lt by simp
  qed
  then have m: "peephole_marks is = ?d"
    by (simp add: peephole_marks_def no_folds [OF assms] headers_of_layout Let_def)
  from d show "sw_instrs (peephole_marks is) = is" "length (sw_keep (peephole_marks is)) = length is"
    "i < length is \<Longrightarrow> sw_keep (peephole_marks is) ! i \<longleftrightarrow> \<not> dead_at is i" unfolding m by auto
  have "list_ex Not (sw_keep ?d) \<longleftrightarrow> (\<exists>i < length is. dead_at is i)"
    using d(2,3) by (auto simp: list_ex_length)
  then show "sw_changed (peephole_marks is) \<longleftrightarrow> list_ex Not (sw_keep (peephole_marks is))"
    unfolding m d(4) by (auto simp: dead_at_def dest: boundaries_lt)
qed

section \<open>Running counts\<close>

lemma new_index_0 [simp]: "new_index keep 0 = 0"
  by (simp add: new_index_def)

lemma new_index_Suc:
  "i < length keep \<Longrightarrow> new_index keep (Suc i) = new_index keep i + (if keep ! i then 1 else 0)"
  by (simp add: new_index_def take_Suc_conv_app_nth)

lemma new_index_mono: "i \<le> j \<Longrightarrow> j \<le> length keep \<Longrightarrow> new_index keep i \<le> new_index keep j"
proof (induction j)
  case (Suc j)
  then show ?case by (cases "i = Suc j") (auto simp: new_index_Suc Suc_le_eq)
qed simp

lemma new_index_strict: "keep ! i \<Longrightarrow> i < j \<Longrightarrow> j \<le> length keep \<Longrightarrow> new_index keep i < new_index keep j"
  using new_index_mono [of "Suc i" j keep] by (simp add: new_index_Suc)

lemma new_index_le: "new_index keep i \<le> i"
  using length_filter_le [of "\<lambda>k. k" "take i keep"] by (simp add: new_index_def)

lemma new_index_kept_run:
  "(\<And>j. j < k \<Longrightarrow> keep ! (i + j)) \<Longrightarrow> i + k \<le> length keep \<Longrightarrow> new_index keep (i + k) = new_index keep i + k"
  by (induction k) (auto simp: new_index_Suc)

lemma length_kept_words: "length xs = length keep \<Longrightarrow> length (kept_words keep xs) = new_index keep (length keep)"
  by (induction xs keep rule: list_induct2) (auto simp: kept_words_def new_index_def)

lemma kept_words_nth:
  "length xs = length keep \<Longrightarrow> i < length keep \<Longrightarrow> keep ! i \<Longrightarrow> kept_words keep xs ! new_index keep i = xs ! i"
proof (induction xs keep arbitrary: i rule: list_induct2)
  case (Cons x xs k keep)
  then show ?case by (cases i) (auto simp: kept_words_def new_index_def)
qed simp

section \<open>Execution units\<close>

text \<open>
  What the dispatch loop does at a program counter, read off the words alone: a jump, a
  conditional branch on a register, or an action of so many words. A prefixed branch is
  left out here (the pass cannot handle one, see the end of this theory).
\<close>

datatype exec_unit = UJump nat | UCond opcode u16 nat | UPlain action nat

definition branch_word :: "instr \<Rightarrow> bool" where
  "branch_word i \<longleftrightarrow> instr_op i \<in> {Some Op_Jump, Some Op_JumpIfFalse, Some Op_JumpIfTrue, Some Op_JumpIfNullish}"

definition narrow_unit :: "instr \<Rightarrow> exec_unit option" where
  "narrow_unit i = map_option (\<lambda>op.
     if op = Op_Jump then UJump (unat (instr_imm24 i))
     else if conditional op then UCond op (ucast (instr_a i)) (unat (instr_imm16 i))
     else UPlain (NarrowAction op (ucast (instr_a i)) (ucast (instr_b i)) (ucast (instr_c i)) i) 1) (instr_op i)"

definition unit_at :: "instr list \<Rightarrow> nat \<Rightarrow> exec_unit option" where
  "unit_at is p =
     (if length is \<le> p then None
      else if instr_op (is ! p) \<noteq> Some Op_Wide then narrow_unit (is ! p)
      else case try_decode (drop p is) of
             Inl _ \<Rightarrow> None
           | Inr (RegExt m a b c, _) \<Rightarrow>
               if p + 2 < length is \<and> \<not> branch_word (is ! (p + 2)) then
                 (case instr_op (is ! (p + 2)) of
                    None \<Rightarrow> None
                  | Some op \<Rightarrow>
                      if op = Op_Wide then None
                      else Some (UPlain (NarrowAction op (merge_slot m (instr_a (is ! (p + 2))) a 1)
                        (merge_slot m (instr_b (is ! (p + 2))) b 2)
                        (merge_slot m (instr_c (is ! (p + 2))) c 4) (is ! (p + 2))) 3))
               else None
           | Inr (w, n) \<Rightarrow> Some (UPlain (WideAction w) n))"

fun run_unit :: "'s machine \<Rightarrow> handler_range list \<Rightarrow> nat \<Rightarrow> 's \<Rightarrow> exec_unit \<Rightarrow> 's transfer" where
  "run_unit m hs p s (UJump t) = GoTo t s"
| "run_unit m hs p s (UCond op ra t) = GoTo (if taken m op ra s then t else p + 1) s"
| "run_unit m hs p s (UPlain a w) = after_effect m hs p (p + w) (act m a s)"

lemma conditional_simps [simp]:
  "conditional Op_JumpIfFalse" "conditional Op_JumpIfTrue" "conditional Op_JumpIfNullish"
  "\<not> conditional Op_Jump" "\<not> conditional Op_Wide"
  by (simp_all add: conditional_def)

lemma branch_word_iff:
  "branch_word i \<longleftrightarrow> (\<exists>op. instr_op i = Some op \<and> (op = Op_Jump \<or> conditional op))"
  by (auto simp: branch_word_def conditional_def)

lemma exec_step_unit:
  assumes "unit_at is p = Some u"
  shows "exec_step m is hs p s = Some (run_unit m hs p s u)"
proof (cases "instr_op (is ! p) = Some Op_Wide")
  case False
  with assms obtain op where op: "p < length is" "instr_op (is ! p) = Some op" "op \<noteq> Op_Wide"
    and u: "narrow_unit (is ! p) = Some u"
    by (auto simp: unit_at_def narrow_unit_def split: if_splits)
  from op u show ?thesis
    by (auto simp: exec_step_def decode_instr_narrow [OF op] narrow_unit_def)
next
  case True
  with assms obtain w n where p: "p < length is" and w: "try_decode (drop p is) = Inr (w, n)"
    by (auto simp: unit_at_def split: if_splits sum.splits)
  have disc: "ucast (instr_c (is ! p)) = DISC_REG_EXT \<longleftrightarrow> (\<exists>m a b c. w = RegExt m a b c)"
    using try_decode_ext_iff [OF w] p by simp
  show ?thesis
  proof (cases "ucast (instr_c (is ! p)) = DISC_REG_EXT")
    case False
    with disc assms True p w have u: "u = UPlain (WideAction w) n"
      by (auto simp: unit_at_def split: wide_op.splits)
    with False disc p w show ?thesis
      by (auto simp: exec_step_def decode_instr_wide [OF p True False] split: wide_op.splits)
  next
    case ext: True
    with disc obtain x a b c where wr: "w = RegExt x a b c" by blast
    with assms True p w obtain op where op: "p + 2 < length is" "instr_op (is ! (p + 2)) = Some op"
        "op \<noteq> Op_Wide" "\<not> branch_word (is ! (p + 2))"
      and u: "u = UPlain (NarrowAction op (merge_slot x (instr_a (is ! (p + 2))) a 1)
         (merge_slot x (instr_b (is ! (p + 2))) b 2) (merge_slot x (instr_c (is ! (p + 2))) c 4) (is ! (p + 2))) 3"
      by (auto simp: unit_at_def split: if_splits option.splits)
    from op have "op \<noteq> Op_Jump" "\<not> conditional op" by (auto simp: branch_word_iff)
    with u p op show ?thesis
      using decode_instr_ext [OF op(1) True ext w [unfolded wr] op(2)] by (simp add: exec_step_def)
  qed
qed

subsection \<open>A unit depends on its own words only\<close>

lemma list_get_take: "i < n \<Longrightarrow> list_get (take n ws) i = list_get ws i"
  by (simp add: list_get_def)

lemma payload_local:
  "i < n \<Longrightarrow> take n ws = take n ws' \<Longrightarrow> wide_payload ws i = wide_payload ws' i"
  using list_get_take [of i n ws] list_get_take [of i n ws'] by (simp add: wide_payload_def)

lemma with_payload_local:
  "take n ws = take n ws' \<Longrightarrow> with_payload1 ws k1 = Inr (w, n) \<Longrightarrow> with_payload1 ws' k1 = Inr (w, n)"
  "take n ws = take n ws' \<Longrightarrow> with_payload2 ws k2 = Inr (w, n) \<Longrightarrow> with_payload2 ws' k2 = Inr (w, n)"
  "take n ws = take n ws' \<Longrightarrow> with_payload3 ws k3 = Inr (w, n) \<Longrightarrow> with_payload3 ws' k3 = Inr (w, n)"
  using payload_local [of 1 n ws ws'] payload_local [of 2 n ws ws'] payload_local [of 3 n ws ws']
  by (auto simp: with_payload1_def with_payload2_def with_payload3_def) metis+

lemma try_decode_local:
  assumes "try_decode ws = Inr (w, n)" "take n ws = take n ws'"
  shows "try_decode ws' = Inr (w, n)"
proof -
  have "2 \<le> n" using try_decode_width [OF assms(1)] by blast
  then have n: "0 < n" by simp
  with assms(2) have "list_get ws' 0 = list_get ws 0"
    using list_get_take [of 0 n ws] list_get_take [of 0 n ws'] by simp
  with assms show ?thesis
    by (auto simp: try_decode_def decode_disc_def dest: with_payload_local split: option.splits if_splits)
qed

lemma take_drop_eqI:
  "(\<And>k. k < n \<Longrightarrow> is' ! (p' + k) = is ! (p + k)) \<Longrightarrow> p + n \<le> length is \<Longrightarrow> p' + n \<le> length is' \<Longrightarrow>
     take n (drop p is) = take n (drop p' is')"
  by (intro nth_equalityI) auto

lemma unit_at_plain_fits:
  "unit_at is p = Some (UPlain a n) \<Longrightarrow> 0 < n \<and> p + n \<le> length is"
  by (auto simp: unit_at_def narrow_unit_def dest!: try_decode_width split: if_splits sum.splits wide_op.splits option.splits)

lemma unit_at_plain_local:
  assumes u: "unit_at is p = Some (UPlain a n)"
    and same: "\<And>k. k < n \<Longrightarrow> is' ! (p' + k) = is ! (p + k)" and fits: "p' + n \<le> length is'"
  shows "unit_at is' p' = Some (UPlain a n)"
proof -
  have n: "0 < n" "p + n \<le> length is" using unit_at_plain_fits [OF u] by auto
  have lt: "p < length is" "p' < length is'" using n fits by auto
  have hd: "is' ! p' = is ! p" using same [of 0] n by simp
  have words: "take n (drop p is) = take n (drop p' is')" by (rule take_drop_eqI [OF same n(2) fits])
  show ?thesis
  proof (cases "instr_op (is ! p) = Some Op_Wide")
    case False
    with u lt hd show ?thesis by (simp add: unit_at_def)
  next
    case True
    with u lt obtain w k where w: "try_decode (drop p is) = Inr (w, k)"
      by (auto simp: unit_at_def split: sum.splits)
    show ?thesis
    proof (cases "\<exists>x a b c. w = RegExt x a b c")
      case False
      with u lt True w have "k = n" "a = WideAction w" by (auto simp: unit_at_def split: wide_op.splits)
      with try_decode_local [OF w] words w False True lt hd show ?thesis
        by (auto simp: unit_at_def split: wide_op.splits)
    next
      case ext: True
      then obtain x b1 b2 b3 where wr: "w = RegExt x b1 b2 b3" by blast
      with u lt True w have n3: "n = 3" by (auto simp: unit_at_def split: if_splits option.splits)
      have "k = 2" using try_decode_width [OF w] wr by simp
      moreover have "take 2 (drop p is) = take 2 (drop p' is')"
        using arg_cong [OF words, of "take 2"] n3 by simp
      ultimately have "try_decode (drop p' is') = Inr (w, 2)" using try_decode_local w by metis
      moreover have "is' ! (p' + 2) = is ! (p + 2)" "p' + 2 < length is'" using same [of 2] n3 fits by simp_all
      ultimately show ?thesis using u lt hd True w wr
        by (simp add: unit_at_def del: add_2_eq_Suc' split: if_splits option.splits)
    qed
  qed
qed

text \<open>Branch units.\<close>

lemma unit_at_branch:
  assumes "p < length is" "branch_word (is ! p)"
  shows "unit_at is p = narrow_unit (is ! p)"
  using assms by (auto simp: unit_at_def branch_word_def)

lemma unit_at_jumpD:
  assumes "unit_at is p = Some (UJump t)"
  shows "p < length is" "branch_word (is ! p)" "instr_op (is ! p) = Some Op_Jump" "t = unat (instr_imm24 (is ! p))"
  using assms
  by (auto simp: unit_at_def narrow_unit_def branch_word_def split: if_splits sum.splits wide_op.splits option.splits)

lemma unit_at_condD:
  assumes "unit_at is p = Some (UCond op ra t)"
  shows "p < length is" "branch_word (is ! p)" "instr_op (is ! p) = Some op" "conditional op"
    "ra = ucast (instr_a (is ! p))" "t = unat (instr_imm16 (is ! p))"
  using assms
  by (auto simp: unit_at_def narrow_unit_def branch_word_iff split: if_splits sum.splits wide_op.splits option.splits)

subsection \<open>Closed sets of program counters\<close>

text \<open>
  \<open>units_ok P is\<close>: \<open>P\<close> is a set of program counters closed under execution (the end
  of the stream included), every unit there is one the pass can handle, and the words of a
  unit that is not a branch do not look like one.
\<close>

fun unit_ok :: "nat set \<Rightarrow> instr list \<Rightarrow> nat \<Rightarrow> exec_unit \<Rightarrow> bool" where
  "unit_ok P is p (UJump t) \<longleftrightarrow> t \<in> P"
| "unit_ok P is p (UCond op ra t) \<longleftrightarrow> t \<in> P \<and> p + 1 \<in> P"
| "unit_ok P is p (UPlain a w) \<longleftrightarrow> p + w \<in> P \<and> (\<forall>k < w. \<not> branch_word (is ! (p + k)))"

definition units_ok :: "nat set \<Rightarrow> instr list \<Rightarrow> bool" where
  "units_ok P is \<longleftrightarrow> P \<subseteq> {..length is} \<and>
     (\<forall>p \<in> P. p < length is \<longrightarrow> (\<exists>u. unit_at is p = Some u \<and> unit_ok P is p u))"

definition targets_ok :: "nat set \<Rightarrow> handler_range list \<Rightarrow> bool" where
  "targets_ok P hs \<longleftrightarrow> (\<forall>h \<in> set hs. unat (h_target h) \<in> P)"

lemma units_okE:
  assumes "units_ok P is" "p \<in> P" "p < length is"
  obtains (Jump) t where "unit_at is p = Some (UJump t)" "t \<in> P"
  | (Cond) op ra t where "unit_at is p = Some (UCond op ra t)" "t \<in> P" "p + 1 \<in> P"
  | (Plain) a w where "unit_at is p = Some (UPlain a w)" "p + w \<in> P" "\<And>k. k < w \<Longrightarrow> \<not> branch_word (is ! (p + k))"
proof -
  from assms obtain u where "unit_at is p = Some u" "unit_ok P is p u" by (auto simp: units_ok_def)
  then show thesis using that by (cases u) auto
qed

lemma exec_step_end: "length is \<le> p \<Longrightarrow> exec_step m is hs p s = Some (StopWith (FellOff s))"
  by (simp add: exec_step_def)

lemma last_max_in: "last_max best hs = Some h \<Longrightarrow> h \<in> set hs \<or> best = Some h"
  by (induction hs arbitrary: best) (auto split: option.splits if_splits)

lemma covering_handler_in: "covering_handler hs p = Some h \<Longrightarrow> h \<in> set hs"
  unfolding covering_handler_def by (drule last_max_in) simp

lemma exec_step_closed:
  assumes "units_ok P is" "targets_ok P hs" "p \<in> P" "exec_step m is hs p s = Some (GoTo q s')"
  shows "q \<in> P"
proof (cases "p < length is")
  case True
  from assms(1,3) True show ?thesis
  proof (cases rule: units_okE)
    case (Jump t)
    with assms(4) show ?thesis by (simp add: exec_step_unit)
  next
    case (Cond op ra t)
    with assms(4) show ?thesis by (auto simp: exec_step_unit split: if_splits)
  next
    case (Plain a w)
    with assms(2,4) show ?thesis
      by (auto simp: exec_step_unit after_effect_def targets_ok_def dest: covering_handler_in
          split: effect.splits option.splits)
  qed
qed (use assms(4) in \<open>simp add: exec_step_end\<close>)

section \<open>Simulation up to renamed program counters\<close>

fun map_stop :: "(nat \<Rightarrow> nat) \<Rightarrow> 's stop \<Rightarrow> 's stop" where
  "map_stop f (FellOff s) = FellOff s"
| "map_stop f (LeftAt p s) = LeftAt (f p) s"
| "map_stop f (Uncaught s) = Uncaught s"

fun map_transfer :: "(nat \<Rightarrow> nat) \<Rightarrow> 's transfer \<Rightarrow> 's transfer" where
  "map_transfer f (GoTo q s) = GoTo (f q) s"
| "map_transfer f (StopWith r) = StopWith (map_stop f r)"

text \<open>
  \<open>g\<close> runs on the renamed program counters; where \<open>K\<close> fails, \<open>f\<close> makes a silent step
  forward to a program counter of the same name.
\<close>

lemma runs_renamed:
  assumes closed: "\<And>p s q s'. p \<in> P \<Longrightarrow> f p s = Some (GoTo q s') \<Longrightarrow> q \<in> P"
    and kept: "\<And>p s. p \<in> P \<Longrightarrow> K p \<Longrightarrow> g (ni p) s = map_option (map_transfer ni) (f p s)"
    and silent: "\<And>p s. p \<in> P \<Longrightarrow> \<not> K p \<Longrightarrow> f p s = Some (GoTo (Suc p) s) \<and> ni (Suc p) = ni p \<and> p < N"
    and p: "p \<in> P"
  shows "runs g (ni p) s r' \<longleftrightarrow> (\<exists>r. runs f p s r \<and> r' = map_stop ni r)"
proof -
  have forward: "runs g (ni p) s (map_stop ni r)" if "runs_in f k p s r" "p \<in> P" for k p s r
    using that
  proof (induction rule: runs_in.induct)
    case (runs_stop p s r)
    then have "K p" using silent [OF runs_stop(2), of s] by auto
    with kept [OF runs_stop(2), of s] runs_stop(1) show ?case by simp
  next
    case (runs_go p s q s' k r)
    note q = closed [OF runs_go(4,1)]
    show ?case
    proof (cases "K p")
      case True
      with kept [OF runs_go(4) True, of s] runs_go(1) runs_go.IH [OF q] show ?thesis by simp
    next
      case False
      with silent [OF runs_go(4) False, of s] runs_go(1) runs_go.IH [OF q] show ?thesis by auto
    qed
  qed
  have awake: "\<exists>q \<in> P. K q \<and> ni q = ni p \<and> (\<forall>s r. runs f p s r \<longleftrightarrow> runs f q s r)" if "p \<in> P" for p
    using that
  proof (induction "N - p" arbitrary: p rule: less_induct)
    case less
    show ?case
    proof (cases "K p")
      case False
      from silent [OF less(2) False] have st: "f p s = Some (GoTo (Suc p) s)" "ni (Suc p) = ni p" "p < N" for s
        by auto
      have "Suc p \<in> P" by (rule closed [OF less(2) st(1)])
      with less(1) [of "Suc p"] st(2,3) show ?thesis by (auto simp: st(1))
    qed (use less in blast)
  qed
  have backward: "\<exists>r. runs f p s r \<and> r' = map_stop ni r" if "runs_in g k x s r'" "x = ni p" "p \<in> P" for k x p s r'
    using that
  proof (induction arbitrary: p rule: runs_in.induct)
    case (runs_stop x s r')
    from awake [OF runs_stop(3)] obtain q where q: "q \<in> P" "K q" "ni q = ni p" "\<And>s r. runs f p s r \<longleftrightarrow> runs f q s r"
      by blast
    from kept [OF q(1,2), of s] runs_stop(1,2) q(3) obtain r where "f q s = Some (StopWith r)" "r' = map_stop ni r"
      by (auto elim: map_transfer.elims)
    then show ?case using q(4) by auto
  next
    case (runs_go x s y s' k r')
    from awake [OF runs_go(5)] obtain q where q: "q \<in> P" "K q" "ni q = ni p" "\<And>s r. runs f p s r \<longleftrightarrow> runs f q s r"
      by blast
    from kept [OF q(1,2), of s] runs_go(1,4) q(3) obtain z where z: "f q s = Some (GoTo z s')" "y = ni z"
      by (auto elim: map_transfer.elims)
    from runs_go.IH [OF z(2) closed [OF q(1) z(1)]] show ?case using q(4) z(1) by simp
  qed
  show ?thesis using forward backward p unfolding runs_def by blast
qed

section \<open>Compaction preserves runs\<close>

text \<open>
  What compaction needs of its marks: a word is dropped only where a unit branches to the
  next word anyway, and the words of a unit stay together.
\<close>

definition marks_ok :: "nat set \<Rightarrow> instr list \<Rightarrow> bool list \<Rightarrow> bool" where
  "marks_ok P is keep \<longleftrightarrow> length keep = length is \<and>
     (\<forall>p \<in> P. p < length is \<longrightarrow>
        (if keep ! p then \<forall>a w. unit_at is p = Some (UPlain a w) \<longrightarrow> (\<forall>k < w. keep ! (p + k))
         else unit_at is p = Some (UJump (p + 1)) \<or> (\<exists>op ra. unit_at is p = Some (UCond op ra (p + 1)))))"

definition compacted :: "bool list \<Rightarrow> instr list \<Rightarrow> instr list" where
  "compacted keep is = map (remap_branch keep) (kept_words keep is)"

lemma length_compacted: "length keep = length is \<Longrightarrow> length (compacted keep is) = new_index keep (length is)"
  by (simp add: compacted_def length_kept_words)

lemma compacted_nth:
  assumes "length keep = length is" "i < length is" "keep ! i"
  shows "compacted keep is ! new_index keep i = remap_branch keep (is ! i)"
    "new_index keep i < length (compacted keep is)"
proof -
  have lt: "new_index keep i < new_index keep (length is)" using assms by (intro new_index_strict) simp_all
  then show "new_index keep i < length (compacted keep is)" using assms(1) by (simp add: length_compacted)
  from lt assms show "compacted keep is ! new_index keep i = remap_branch keep (is ! i)"
    by (simp add: compacted_def kept_words_nth length_kept_words)
qed

lemma remap_other: "\<not> branch_word i \<Longrightarrow> remap_branch keep i = i"
  by (simp add: remap_branch_def branch_word_def)

lemma new_index_small: "length keep < 2 ^ 16 \<Longrightarrow> t \<le> length keep \<Longrightarrow> new_index keep t < 2 ^ 16"
  using new_index_le [of keep t] by simp

lemma set_imm24_read:
  assumes "k < 2 ^ 16"
  shows "unat (instr_imm24 (set_imm24 i (word_of_nat k))) = k"
proof -
  have u: "unat (word_of_nat k :: u32) = k" using assms by (simp add: unat_of_nat_small)
  have "(word_of_nat k :: u32) \<le> MAX_IMM24"
    using assms by (simp add: word_le_nat_alt u MAX_IMM24_def)
  then show ?thesis by (simp add: and_MAX_IMM24 u)
qed

lemma unit_at_set_imm24:
  assumes "unit_at is p = Some (UJump t)" "p' < length is'" "is' ! p' = set_imm24 (is ! p) (word_of_nat k)" "k < 2 ^ 16"
  shows "unit_at is' p' = Some (UJump k)"
proof -
  note op = unit_at_jumpD(3) [OF assms(1)]
  have "branch_word (is' ! p')" using assms(3) op by (simp add: branch_word_def)
  with assms(2) have "unit_at is' p' = narrow_unit (is' ! p')" by (rule unit_at_branch)
  with op assms(3,4) show ?thesis by (simp add: narrow_unit_def set_imm24_read del: set_imm24_fields)
qed

lemma unit_at_set_imm16:
  assumes "unit_at is p = Some (UCond op ra t)" "p' < length is'" "is' ! p' = set_imm16 (is ! p) (word_of_nat k)" "k < 2 ^ 16"
  shows "unit_at is' p' = Some (UCond op ra k)"
proof -
  note op = unit_at_condD(3-5) [OF assms(1)]
  have "branch_word (is' ! p')" using assms(3) op by (auto simp: branch_word_iff)
  with assms(2) have "unit_at is' p' = narrow_unit (is' ! p')" by (rule unit_at_branch)
  with op assms(3,4) show ?thesis by (auto simp: narrow_unit_def unat_of_nat_small)
qed

fun rename_unit :: "(nat \<Rightarrow> nat) \<Rightarrow> exec_unit \<Rightarrow> exec_unit" where
  "rename_unit f (UJump t) = UJump (f t)"
| "rename_unit f (UCond op ra t) = UCond op ra (f t)"
| "rename_unit f (UPlain a w) = UPlain a w"

lemma compacted_unit:
  assumes P: "units_ok P is" and marks: "marks_ok P is keep" and small: "length is < 2 ^ 16"
    and p: "p \<in> P" "p < length is" "keep ! p"
  shows "\<exists>u. unit_at is p = Some u \<and> unit_at (compacted keep is) (new_index keep p) = Some (rename_unit (new_index keep) u)
     \<and> (\<forall>w. (\<exists>a. u = UPlain a w) \<or> (\<exists>op ra t. u = UCond op ra t \<and> w = 1) \<longrightarrow>
          new_index keep (p + w) = new_index keep p + w)"
proof -
  have len: "length keep = length is" using marks by (simp add: marks_ok_def)
  note at = compacted_nth [OF len p(2,3)]
  have le: "t \<le> length is" if "t \<in> P" for t using P that by (auto simp: units_ok_def)
  have k: "new_index keep t < 2 ^ 16" if "t \<in> P" for t
    by (rule new_index_small) (use small len le [OF that] in simp_all)
  from P p(1,2) show ?thesis
  proof (cases rule: units_okE)
    case (Jump t)
    note op = unit_at_jumpD(3,4) [OF Jump(1)]
    have "compacted keep is ! new_index keep p = set_imm24 (is ! p) (word_of_nat (new_index keep t))"
      using at(1) op le [OF Jump(2)] len by (simp add: remap_branch_def min_absorb1)
    from unit_at_set_imm24 [OF Jump(1) at(2) this k [OF Jump(2)]] Jump(1) show ?thesis by auto
  next
    case (Cond op ra t)
    note op = unit_at_condD(3,4,6) [OF Cond(1)]
    have "compacted keep is ! new_index keep p = set_imm16 (is ! p) (word_of_nat (new_index keep t))"
      using at(1) op le [OF Cond(2)] len by (auto simp: remap_branch_def conditional_def min_absorb1)
    from unit_at_set_imm16 [OF Cond(1) at(2) this k [OF Cond(2)]] Cond(1) show ?thesis
      using new_index_Suc [of p keep] p len by auto
  next
    case (Plain a w)
    note fits = unit_at_plain_fits [OF Plain(1)]
    have kept: "keep ! (p + k)" if "k < w" for k
      using marks p Plain(1) that by (auto simp: marks_ok_def)
    have run: "new_index keep (p + k) = new_index keep p + k" if "k \<le> w" for k
      by (rule new_index_kept_run) (use kept fits len that in auto)
    have "compacted keep is ! (new_index keep p + k) = is ! (p + k)" if "k < w" for k
      using compacted_nth(1) [OF len _ kept [OF that]] run [of k] that fits remap_other [OF Plain(3) [OF that]] by simp
    moreover have "new_index keep p + w \<le> length (compacted keep is)"
      using new_index_mono [of "p + w" "length is" keep] run [of w] fits len by (simp add: length_compacted)
    ultimately have "unit_at (compacted keep is) (new_index keep p) = Some (UPlain a w)"
      by (rule unit_at_plain_local [OF Plain(1)])
    with Plain(1) run [of w] show ?thesis by auto
  qed
qed

subsection \<open>Handlers\<close>

definition renamed_handler :: "bool list \<Rightarrow> handler_range \<Rightarrow> handler_range" where
  "renamed_handler keep h = h\<lparr>h_start := word_of_nat (new_index keep (unat (h_start h))),
     h_end := word_of_nat (new_index keep (unat (h_end h))),
     h_target := word_of_nat (new_index keep (unat (h_target h)))\<rparr>"

definition ranges_ok :: "nat \<Rightarrow> handler_range list \<Rightarrow> bool" where
  "ranges_ok n hs \<longleftrightarrow> sorted_wrt (\<lambda>g h. h_start g \<le> h_start h) hs \<and>
     (\<forall>h \<in> set hs. unat (h_start h) \<le> n \<and> unat (h_end h) \<le> n \<and> unat (h_target h) \<le> n)"

lemma remap_handlers:
  "ranges_ok (length keep) hs \<Longrightarrow> those (map (remap_handler keep) hs) = Some (map (renamed_handler keep) hs)"
  by (induction hs) (auto simp: ranges_ok_def remap_handler_def renamed_handler_def)

lemma unat_new_index: "length keep < 2 ^ 16 \<Longrightarrow> t \<le> length keep \<Longrightarrow> unat (word_of_nat (new_index keep t) :: u32) = new_index keep t"
  using new_index_small [of keep t] by (simp add: unat_of_nat_small)

text \<open>A kept program counter is covered by the renamed range exactly when the range covers it.\<close>

lemma covers_renamed:
  assumes "length keep < 2 ^ 16" "unat (h_start h) \<le> length keep" "unat (h_end h) \<le> length keep" "p < length keep" "keep ! p"
  shows "covers_pc (new_index keep p) (renamed_handler keep h) \<longleftrightarrow> covers_pc p h"
proof -
  have order: "t \<le> p \<longleftrightarrow> new_index keep t \<le> new_index keep p" if "t \<le> length keep" for t
  proof (cases "t \<le> p")
    case True
    with new_index_mono [of t p keep] assms(4) show ?thesis by simp
  next
    case False
    with new_index_strict [OF assms(5), of t] that show ?thesis by simp
  qed
  show ?thesis
    using order [OF assms(2)] order [OF assms(3)] assms(1-3)
    by (simp add: covers_pc_def renamed_handler_def unat_new_index flip: not_le)
qed

lemma renamed_sorted:
  assumes "length keep < 2 ^ 16" "ranges_ok (length keep) hs"
  shows "sorted_wrt (\<lambda>g h. h_start g \<le> h_start h) (map (renamed_handler keep) hs)"
proof -
  have "sorted_wrt (\<lambda>g h. h_start (renamed_handler keep g) \<le> h_start (renamed_handler keep h)) hs"
  proof (rule sorted_wrt_mono_rel)
    show "sorted_wrt (\<lambda>g h. h_start g \<le> h_start h) hs" using assms(2) by (simp add: ranges_ok_def)
    fix g h assume "g \<in> set hs" "h \<in> set hs" "h_start g \<le> h_start h"
    with assms show "h_start (renamed_handler keep g) \<le> h_start (renamed_handler keep h)"
      using new_index_mono [of "unat (h_start g)" "unat (h_start h)" keep]
      by (auto simp: renamed_handler_def ranges_ok_def word_le_nat_alt unat_new_index)
  qed
  then show ?thesis by (simp add: sorted_wrt_map)
qed

lemma covering_renamed:
  assumes "length keep < 2 ^ 16" "ranges_ok (length keep) hs" "p < length keep" "keep ! p"
  shows "covering_handler (filter (\<lambda>h. h_start h < h_end h) (map (renamed_handler keep) hs)) (new_index keep p)
     = map_option (renamed_handler keep) (covering_handler hs p)"
proof -
  let ?R = "renamed_handler keep" let ?q = "new_index keep p"
  let ?hs' = "filter (\<lambda>h. h_start h < h_end h) (map ?R hs)"
  have nonempty: "h_start h < h_end h" if "covers_pc ?q h" for h
    using that by (auto simp: covers_pc_def word_less_nat_alt)
  have "filter (covers_pc ?q) ?hs' = filter (covers_pc ?q) (map ?R hs)"
    unfolding filter_filter by (rule filter_cong [OF refl]) (use nonempty in auto)
  also have "\<dots> = map ?R (filter (covers_pc p) hs)"
    unfolding filter_map o_def
    by (rule arg_cong [where f = "map ?R"], rule filter_cong [OF refl])
      (use assms covers_renamed [OF assms(1) _ _ assms(3,4)] in \<open>simp add: ranges_ok_def\<close>)
  finally have f: "filter (covers_pc ?q) ?hs' = map ?R (filter (covers_pc p) hs)" .
  have "sorted_wrt (\<lambda>g h. h_start g \<le> h_start h) ?hs'"
    by (rule sorted_wrt_filter [OF renamed_sorted [OF assms(1,2)]])
  moreover have "sorted_wrt (\<lambda>g h. h_start g \<le> h_start h) hs" using assms(2) by (simp add: ranges_ok_def)
  ultimately show ?thesis
    unfolding covering_handler_last [OF \<open>sorted_wrt _ ?hs'\<close>] covering_handler_last [OF \<open>sorted_wrt _ hs\<close>] f
    by (simp add: last_map split: list.splits)
qed

subsection \<open>Runs\<close>

lemma compact_runs:
  assumes P: "units_ok P is" and T: "targets_ok P hs" and marks: "marks_ok P is keep"
    and small: "length is < 2 ^ 16" and H: "ranges_ok (length is) hs" and p: "p \<in> P"
  defines "hs' \<equiv> filter (\<lambda>h. h_start h < h_end h) (map (renamed_handler keep) hs)"
  shows "runs (exec_step m (compacted keep is) hs') (new_index keep p) s r'
    \<longleftrightarrow> (\<exists>r. runs (exec_step m is hs) p s r \<and> r' = map_stop (new_index keep) r)"
proof (rule runs_renamed [where P = P and K = "\<lambda>p. p < length is \<longrightarrow> keep ! p" and N = "length is"])
  fix p s q s'
  assume "p \<in> P" "exec_step m is hs p s = Some (GoTo q s')"
  with P T show "q \<in> P" by (rule exec_step_closed)
next
  have len: "length keep = length is" using marks by (simp add: marks_ok_def)
  fix p s assume p: "p \<in> P" and K: "p < length is \<longrightarrow> keep ! p"
  show "exec_step m (compacted keep is) hs' (new_index keep p) s =
      map_option (map_transfer (new_index keep)) (exec_step m is hs p s)"
  proof (cases "p < length is")
    case False
    then have "p = length is" using p P by (auto simp: units_ok_def)
    then show ?thesis by (simp add: exec_step_end length_compacted len)
  next
    case True
    then have kp: "keep ! p" using K by simp
    from compacted_unit [OF P marks small p True kp] obtain u where u: "unit_at is p = Some u"
        "unit_at (compacted keep is) (new_index keep p) = Some (rename_unit (new_index keep) u)"
      and nxt: "\<And>w. (\<exists>a. u = UPlain a w) \<or> (\<exists>op ra t. u = UCond op ra t \<and> w = 1) \<Longrightarrow>
          new_index keep (p + w) = new_index keep p + w" by blast
    have cov: "covering_handler hs' (new_index keep p) = map_option (renamed_handler keep) (covering_handler hs p)"
      unfolding hs'_def using covering_renamed [of keep hs p] small H True kp len by simp
    have tgt: "unat (h_target (renamed_handler keep h)) = new_index keep (unat (h_target h))"
      "h_stack_depth (renamed_handler keep h) = h_stack_depth h"
      if "covering_handler hs p = Some h" for h
      using covering_handler_in [OF that] H small len
      by (auto simp: renamed_handler_def ranges_ok_def unat_new_index)
    show ?thesis
    proof (cases u)
      case (UPlain a w)
      then have "new_index keep (p + w) = new_index keep p + w" using nxt by blast
      with UPlain show ?thesis
        by (simp add: exec_step_unit [OF u(1)] exec_step_unit [OF u(2)] after_effect_def cov tgt
            split: effect.splits option.splits)
    next
      case (UCond op ra t)
      then have "new_index keep (p + 1) = new_index keep p + 1" using nxt by blast
      with UCond show ?thesis by (simp add: exec_step_unit [OF u(1)] exec_step_unit [OF u(2)])
    qed (simp add: exec_step_unit [OF u(1)] exec_step_unit [OF u(2)])
  qed
next
  have len: "length keep = length is" using marks by (simp add: marks_ok_def)
  fix p s assume p: "p \<in> P" and K: "\<not> (p < length is \<longrightarrow> keep ! p)"
  then have dead: "unit_at is p = Some (UJump (p + 1)) \<or> (\<exists>op ra. unit_at is p = Some (UCond op ra (p + 1)))"
    using marks by (auto simp: marks_ok_def)
  then have "exec_step m is hs p s = Some (GoTo (Suc p) s)" by (auto simp: exec_step_unit)
  with K len show "exec_step m is hs p s = Some (GoTo (Suc p) s) \<and> new_index keep (Suc p) = new_index keep p \<and> p < length is"
    by (simp add: new_index_Suc)
qed (rule p)

text \<open>The compacted stream has its own closed set: the new names of the old one.\<close>

lemma compact_units_ok:
  assumes P: "units_ok P is" and marks: "marks_ok P is keep" and small: "length is < 2 ^ 16"
  shows "units_ok (new_index keep ` P) (compacted keep is)"
proof -
  have len: "length keep = length is" using marks by (simp add: marks_ok_def)
  have awake: "\<exists>q \<in> P. (q < length is \<longrightarrow> keep ! q) \<and> new_index keep q = new_index keep p" if "p \<in> P" for p
    using that
  proof (induction "length is - p" arbitrary: p rule: less_induct)
    case less
    show ?case
    proof (cases "p < length is \<longrightarrow> keep ! p")
      case False
      then have "unit_at is p = Some (UJump (p + 1)) \<or> (\<exists>op ra. unit_at is p = Some (UCond op ra (p + 1)))"
        using marks less(2) by (auto simp: marks_ok_def)
      then have "Suc p \<in> P" using P less(2) False by (force simp: units_ok_def)
      with less(1) [of "Suc p"] False len show ?thesis by (auto simp: new_index_Suc)
    qed (use less in blast)
  qed
  show ?thesis
    unfolding units_ok_def
  proof (intro conjI ballI impI)
    show "new_index keep ` P \<subseteq> {..length (compacted keep is)}"
      using P new_index_mono [of _ "length is" keep] len by (auto simp: units_ok_def length_compacted)
    fix x assume "x \<in> new_index keep ` P" and lt: "x < length (compacted keep is)"
    then obtain p0 where p0: "p0 \<in> P" "x = new_index keep p0" by blast
    from awake [OF p0(1)] obtain p where p: "p \<in> P" "p < length is \<longrightarrow> keep ! p" "x = new_index keep p"
      unfolding p0(2) by force
    have "p \<le> length is" using P p(1) by (auto simp: units_ok_def)
    moreover have "p \<noteq> length is" using lt len by (auto simp: p(3) length_compacted)
    ultimately have "p < length is" by simp
    with p(2) have kp: "keep ! p" by simp
    from compacted_unit [OF P marks small p(1) \<open>p < length is\<close> kp] obtain u where u: "unit_at is p = Some u"
        "unit_at (compacted keep is) x = Some (rename_unit (new_index keep) u)"
      and nxt: "\<And>w. (\<exists>a. u = UPlain a w) \<or> (\<exists>op ra t. u = UCond op ra t \<and> w = 1) \<Longrightarrow>
          new_index keep (p + w) = x + w" unfolding p(3) by blast
    have ok: "unit_ok P is p u" using P p(1) \<open>p < length is\<close> u(1) by (auto simp: units_ok_def)
    have "unit_ok (new_index keep ` P) (compacted keep is) x (rename_unit (new_index keep) u)"
    proof (cases u)
      case (UPlain a w)
      have "x + w = new_index keep (p + w)" using nxt UPlain by simp
      moreover have "\<not> branch_word (compacted keep is ! (x + k))" if k: "k < w" for k
      proof -
        have "keep ! (p + j)" if "j < w" for j
          using marks p(1) \<open>p < length is\<close> kp u(1) UPlain that by (auto simp: marks_ok_def)
        moreover have "p + w \<le> length is" using unit_at_plain_fits u(1) UPlain by blast
        ultimately have "new_index keep (p + k) = x + k"
          unfolding p(3) using k len by (intro new_index_kept_run) simp_all
        with \<open>\<And>j. j < w \<Longrightarrow> keep ! (p + j)\<close> [OF k] \<open>p + w \<le> length is\<close> k ok UPlain show ?thesis
          using compacted_nth(1) [OF len, of "p + k"] by (simp add: remap_other)
      qed
      ultimately show ?thesis using ok UPlain by simp
    next
      case (UCond op ra t)
      then have "x + 1 = new_index keep (p + 1)" using nxt by simp
      with ok UCond show ?thesis by simp
    qed (use ok in simp)
    with u(2) show "\<exists>u. unit_at (compacted keep is) x = Some u \<and> unit_ok (new_index keep ` P) (compacted keep is) x u"
      by blast
  qed
qed

section \<open>Threading preserves runs\<close>

text \<open>
  \<open>g\<close> may enter a chain of \<open>f\<close> at a later point: where the two differ, \<open>f\<close> goes to
  \<open>t\<close>, \<open>g\<close> to a \<open>t'\<close> from which \<open>f\<close> runs the same way in no more steps.
\<close>

definition shortcut :: "(nat \<Rightarrow> 's \<Rightarrow> 's transfer option) \<Rightarrow> nat \<Rightarrow> nat \<Rightarrow> bool" where
  "shortcut f t t' \<longleftrightarrow> (\<forall>s r. (\<forall>k. runs_in f k t s r \<longrightarrow> (\<exists>j \<le> k. runs_in f j t' s r)) \<and>
     (runs f t' s r \<longrightarrow> runs f t s r))"

lemma shortcutD:
  "shortcut f t t' \<Longrightarrow> runs_in f k t s r \<Longrightarrow> \<exists>j \<le> k. runs_in f j t' s r"
  "shortcut f t t' \<Longrightarrow> runs f t' s r \<Longrightarrow> runs f t s r"
  by (simp_all add: shortcut_def)

lemma shortcut_refl: "shortcut f t t"
  by (auto simp: shortcut_def)

lemma shortcut_jump:
  assumes "\<And>s. f t s = Some (GoTo u s)" "shortcut f u t'"
  shows "shortcut f t t'"
  unfolding shortcut_def
proof (intro allI conjI impI)
  fix s r k assume "runs_in f k t s r"
  then obtain k' where k: "k = Suc k'" "runs_in f k' u s r" by (auto elim: runs_in_elim simp: assms(1))
  from shortcutD(1) [OF assms(2) k(2)] obtain j where "j \<le> k'" "runs_in f j t' s r" by blast
  with k(1) show "\<exists>j \<le> k. runs_in f j t' s r" by (intro exI [of _ j]) simp
next
  fix s r assume "runs f t' s r"
  with assms show "runs f t s r" by (simp add: shortcut_def)
qed

lemma runs_shortcut:
  assumes closed: "\<And>p s q s'. p \<in> P \<Longrightarrow> f p s = Some (GoTo q s') \<Longrightarrow> q \<in> P"
    and step: "\<And>p s. p \<in> P \<Longrightarrow> g p s = f p s \<or> (\<exists>t t'. f p s = Some (GoTo t s) \<and> g p s = Some (GoTo t' s)
         \<and> t' \<in> P \<and> shortcut f t t')"
    and p: "p \<in> P"
  shows "runs g p s r \<longleftrightarrow> runs f p s r"
proof
  have "runs g p s r" if "runs_in f k p s r" "p \<in> P" for k p s
    using that
  proof (induction k arbitrary: p s rule: less_induct)
    case (less k)
    from step [OF less(3), of s] show ?case
    proof (elim disjE exE conjE)
      assume eq: "g p s = f p s"
      from less(2) show ?thesis
      proof (cases rule: runs_in.cases)
        case (runs_go q s' j)
        with less(1) [of j q s'] closed [OF less(3)] eq show ?thesis by simp
      qed (simp add: eq)
    next
      fix t t' assume t: "f p s = Some (GoTo t s)" "g p s = Some (GoTo t' s)" "t' \<in> P" "shortcut f t t'"
      from less(2) obtain k' where k: "k = Suc k'" "runs_in f k' t s r" by (auto elim: runs_in_elim simp: t(1))
      from shortcutD(1) [OF t(4) k(2)] obtain j where "j \<le> k'" "runs_in f j t' s r" by blast
      with less(1) [of j t' s] t k(1) show ?thesis by simp
    qed
  qed
  then show "runs g p s r" if "runs f p s r" using that p by (auto simp: runs_def)
  have "runs f p s r" if "runs_in g k p s r" "p \<in> P" for k p s
    using that
  proof (induction rule: runs_in.induct)
    case (runs_stop p s r)
    with step [OF runs_stop(2), of s] have "f p s = Some (StopWith r)" by auto
    then show ?case by simp
  next
    case (runs_go p s q s' k r)
    from step [OF runs_go(4), of s] show ?case
    proof (elim disjE exE conjE)
      assume "g p s = f p s"
      with runs_go closed show ?thesis by simp
    next
      fix t t' assume t: "f p s = Some (GoTo t s)" "g p s = Some (GoTo t' s)" "t' \<in> P" "shortcut f t t'"
      with runs_go have "runs f t' s r" by simp
      with t shortcutD(2) [OF t(4)] show ?thesis by simp
    qed
  qed
  then show "runs f p s r" if "runs g p s r" using that p by (auto simp: runs_def)
qed

text \<open>The chase follows jumps only and stays in the closed set.\<close>

lemma jump_word_unit:
  assumes "Option.bind (list_get is t) instr_op = Some Op_Jump"
  shows "t < length is" "unit_at is t = Some (UJump (unat (instr_imm24 (is ! t))))"
proof -
  from assms show lt: "t < length is" by (auto simp: list_get_def bind_eq_Some_conv split: if_splits)
  with assms have op: "instr_op (is ! t) = Some Op_Jump" by (simp add: list_get_def)
  with lt show "unit_at is t = Some (UJump (unat (instr_imm24 (is ! t))))"
    by (simp add: unit_at_branch branch_word_def narrow_unit_def)
qed

lemma chase_sound:
  assumes P: "units_ok P is"
  shows "t \<in> P \<Longrightarrow> fst (chase left is stop t hops) \<in> P
    \<and> shortcut (exec_step m is hs) t (fst (chase left is stop t hops))"
proof (induction left arbitrary: t hops)
  case (Suc left)
  show ?case
  proof (cases "stop \<noteq> Some t \<and> Option.bind (list_get is t) instr_op = Some Op_Jump")
    case True
    note u = jump_word_unit [OF conjunct2 [OF True]]
    from P Suc(2) u have "unat (instr_imm24 (is ! t)) \<in> P" by (auto simp: units_ok_def)
    note IH = Suc.IH [OF this, of "hops + 1"]
    have "exec_step m is hs t s = Some (GoTo (unat (instr_imm24 (is ! t))) s)" for s
      by (simp add: exec_step_unit [OF u(2)])
    from shortcut_jump [where f = "exec_step m is hs" and t = t, OF this conjunct2 [OF IH]] IH True
    show ?thesis by simp
  qed (auto simp: Suc shortcut_refl)
qed (simp add: shortcut_refl)

lemma chase_target:
  assumes P: "units_ok P is" and small: "length is < 2 ^ 16" and t: "t \<in> P"
  shows "fst (chase left is stop t hops) \<in> P \<and> fst (chase left is stop t hops) < 2 ^ 16
    \<and> shortcut (exec_step m is hs) t (fst (chase left is stop t hops))"
proof -
  note c = chase_sound [OF P t, of left stop hops m hs]
  then have "fst (chase left is stop t hops) \<in> {..length is}" using P by (auto simp: units_ok_def)
  with c small show ?thesis by simp
qed

text \<open>Replacing a branch word by the same branch elsewhere.\<close>

lemma unit_at_update_other:
  assumes "unit_at is p = Some u" "branch_word (is ! i)" "p \<noteq> i" "unit_ok P is p u"
  shows "unit_at (is[i := w]) p = Some u"
proof (cases u)
  case (UPlain a n)
  have "i \<noteq> p + k" if "k < n" for k using assms(2,4) UPlain that by auto
  then have same: "is[i := w] ! (p + k) = is ! (p + k)" if "k < n" for k
    using that by (simp add: nth_list_update_neq)
  have "p + n \<le> length (is[i := w])" using unit_at_plain_fits assms(1) UPlain by simp
  from unit_at_plain_local [OF assms(1) [unfolded UPlain] same this] UPlain show ?thesis by simp
next
  case (UJump t)
  with assms(1) have u: "p < length is" "branch_word (is ! p)" using unit_at_jumpD by blast+
  with assms(3) have "unit_at (is[i := w]) p = unit_at is p" by (simp add: unit_at_branch)
  with assms(1) show ?thesis by simp
next
  case (UCond op ra t)
  with assms(1) have u: "p < length is" "branch_word (is ! p)" using unit_at_condD by blast+
  with assms(3) have "unit_at (is[i := w]) p = unit_at is p" by (simp add: unit_at_branch)
  with assms(1) show ?thesis by simp
qed

lemma unit_ok_update:
  assumes "unit_ok P is p u" "branch_word (is ! i)" "unit_at is p = Some u"
  shows "unit_ok P (is[i := w]) p u"
proof (cases u)
  case (UPlain a n)
  then have "i \<noteq> p + k" if "k < n" for k using assms(1,2) that by auto
  with assms(1) UPlain show ?thesis by (simp add: nth_list_update_neq)
qed (use assms in auto)

lemma retarget_runs:
  assumes P: "units_ok P is" and T: "targets_ok P hs" and i: "i < length is"
    and new: "(instr_op (is ! i) = Some Op_Jump \<and> w = set_imm24 (is ! i) (word_of_nat t') \<and> t = unat (instr_imm24 (is ! i)))
      \<or> ((\<exists>op. instr_op (is ! i) = Some op \<and> conditional op) \<and> w = set_imm16 (is ! i) (word_of_nat t')
          \<and> t = unat (instr_imm16 (is ! i)))"
    and t': "t \<in> P \<Longrightarrow> t' \<in> P \<and> t' < 2 ^ 16 \<and> shortcut (exec_step m is hs) t t'"
  shows "units_ok P (is[i := w])"
    "p \<in> P \<Longrightarrow> runs (exec_step m (is[i := w]) hs) p s r \<longleftrightarrow> runs (exec_step m is hs) p s r"
proof -
  have br: "branch_word (is ! i)" using new by (auto simp: branch_word_iff)
  have other: "unit_at (is[i := w]) p = Some u \<and> unit_ok P (is[i := w]) p u"
    if "unit_at is p = Some u" "unit_ok P is p u" "p \<noteq> i" for p u
    using that br unit_at_update_other unit_ok_update by blast
  have at: "(\<exists>u. unit_at (is[i := w]) i = Some u \<and> unit_ok P (is[i := w]) i u) \<and>
      (\<forall>s. exec_step m (is[i := w]) hs i s = exec_step m is hs i s \<or>
        (\<exists>t t'. exec_step m is hs i s = Some (GoTo t s) \<and> exec_step m (is[i := w]) hs i s = Some (GoTo t' s)
           \<and> t' \<in> P \<and> shortcut (exec_step m is hs) t t'))" if iP: "i \<in> P"
    using new
  proof (elim disjE conjE exE)
    assume J: "instr_op (is ! i) = Some Op_Jump" "w = set_imm24 (is ! i) (word_of_nat t')" "t = unat (instr_imm24 (is ! i))"
    then have u: "unit_at is i = Some (UJump t)" using i br by (simp add: unit_at_branch narrow_unit_def)
    then have "t \<in> P" using P iP i by (auto simp: units_ok_def)
    note t' = t' [OF this]
    have "unit_at (is[i := w]) i = Some (UJump t')"
      by (rule unit_at_set_imm24 [OF u]) (use i J t' in auto)
    with u t' show ?thesis by (simp add: exec_step_unit)
  next
    fix op assume J: "instr_op (is ! i) = Some op" "conditional op" "w = set_imm16 (is ! i) (word_of_nat t')"
      "t = unat (instr_imm16 (is ! i))"
    then have u: "unit_at is i = Some (UCond op (ucast (instr_a (is ! i))) t)"
      using i br by (auto simp: unit_at_branch narrow_unit_def)
    then have tP: "t \<in> P" "i + 1 \<in> P" using P iP i by (auto simp: units_ok_def)
    note t' = t' [OF tP(1)]
    have "unit_at (is[i := w]) i = Some (UCond op (ucast (instr_a (is ! i))) t')"
      by (rule unit_at_set_imm16 [OF u]) (use i J t' in auto)
    with u t' tP show ?thesis by (simp add: exec_step_unit)
  qed
  show P2: "units_ok P (is[i := w])"
    unfolding units_ok_def
  proof (intro conjI ballI impI)
    fix p assume p: "p \<in> P" "p < length (is[i := w])"
    then obtain u where "unit_at is p = Some u" "unit_ok P is p u" using P by (auto simp: units_ok_def)
    with other [of p u] at p show "\<exists>u. unit_at (is[i := w]) p = Some u \<and> unit_ok P (is[i := w]) p u"
      by (cases "p = i") auto
  qed (use P in \<open>simp add: units_ok_def\<close>)
  show "runs (exec_step m (is[i := w]) hs) p s r \<longleftrightarrow> runs (exec_step m is hs) p s r" if p: "p \<in> P"
  proof (rule runs_shortcut [where P = P])
    fix p s assume p: "p \<in> P"
    show "exec_step m (is[i := w]) hs p s = exec_step m is hs p s \<or>
        (\<exists>t t'. exec_step m is hs p s = Some (GoTo t s) \<and> exec_step m (is[i := w]) hs p s = Some (GoTo t' s)
           \<and> t' \<in> P \<and> shortcut (exec_step m is hs) t t')"
    proof (cases "p = i \<or> length is \<le> p")
      case True
      then show ?thesis using at p by (auto simp: exec_step_end)
    next
      case False
      then obtain u where "unit_at is p = Some u" "unit_ok P is p u" using P p by (auto simp: units_ok_def)
      with other [of p u] False show ?thesis by (simp add: exec_step_unit)
    qed
  qed (use p exec_step_closed [OF P T] in auto)
qed

lemma thread_at_runs:
  assumes P: "units_ok P is" and T: "targets_ok P hs" and small: "length is < 2 ^ 16" and i: "i < length is"
  shows "length (fst (thread_at i (is, ch))) = length is" "units_ok P (fst (thread_at i (is, ch)))"
    "p \<in> P \<Longrightarrow> runs (exec_step m (fst (thread_at i (is, ch))) hs) p s r \<longleftrightarrow> runs (exec_step m is hs) p s r"
proof -
  let ?j = "unat (instr_imm24 (is ! i))" let ?c = "unat (instr_imm16 (is ! i))"
  let ?t = "\<lambda>stop t. fst (chase MAX_HOPS is stop t 0)"
  consider (Same) "fst (thread_at i (is, ch)) = is"
    | (Jump) "instr_op (is ! i) = Some Op_Jump"
        "fst (thread_at i (is, ch)) = is[i := set_imm24 (is ! i) (word_of_nat (?t (Some i) ?j))]"
    | (Cond) op where "instr_op (is ! i) = Some op" "conditional op"
        "fst (thread_at i (is, ch)) = is[i := set_imm16 (is ! i) (word_of_nat (?t None ?c))]"
    by (fastforce simp: thread_at_def conditional_def Let_def split: prod.splits if_splits)
  then have "length (fst (thread_at i (is, ch))) = length is \<and> units_ok P (fst (thread_at i (is, ch)))
    \<and> (\<forall>p \<in> P. runs (exec_step m (fst (thread_at i (is, ch))) hs) p s r \<longleftrightarrow> runs (exec_step m is hs) p s r)"
  proof cases
    case Same
    then show ?thesis using P by simp
  next
    case Jump
    note w = disjI1 [OF conjI [OF Jump(1) conjI [OF refl refl]]]
    note R = retarget_runs [OF P T i w chase_target [OF P small]]
    show ?thesis unfolding Jump(2) using R(1) R(2) [of _ m _ _ _ s r] by auto
  next
    case Cond
    have "\<exists>op. instr_op (is ! i) = Some op \<and> conditional op" using Cond(1,2) by blast
    note w = disjI2 [OF conjI [OF this conjI [OF refl refl]]]
    note R = retarget_runs [OF P T i w chase_target [OF P small]]
    show ?thesis unfolding Cond(3) using R(1) R(2) [of _ m _ _ _ s r] by auto
  qed
  then show "length (fst (thread_at i (is, ch))) = length is" "units_ok P (fst (thread_at i (is, ch)))"
    "p \<in> P \<Longrightarrow> runs (exec_step m (fst (thread_at i (is, ch))) hs) p s r \<longleftrightarrow> runs (exec_step m is hs) p s r"
    by auto
qed

lemma thread_pass_runs:
  assumes P: "units_ok P is" and T: "targets_ok P hs" and small: "length is < 2 ^ 16"
  shows "length (fst (thread_pass (is, ch))) = length is"
    "p \<in> P \<Longrightarrow> runs (exec_step m (fst (thread_pass (is, ch))) hs) p s r \<longleftrightarrow> runs (exec_step m is hs) p s r"
proof -
  have "length (fst (fold thread_at xs (is', ch'))) = length is \<and>
     (\<forall>p \<in> P. runs (exec_step m (fst (fold thread_at xs (is', ch'))) hs) p s r \<longleftrightarrow> runs (exec_step m is hs) p s r)"
    if "\<forall>i \<in> set xs. i < length is" "length is' = length is" "units_ok P is'"
      "\<forall>p \<in> P. runs (exec_step m is' hs) p s r \<longleftrightarrow> runs (exec_step m is hs) p s r" for xs is' ch'
    using that
  proof (induction xs arbitrary: is' ch')
    case (Cons i xs)
    have i: "length is' < 2 ^ 16" "i < length is'" using Cons.prems(1,2) small by simp_all
    note at = thread_at_runs [OF Cons.prems(3) T i, where ch = ch']
    obtain is2 ch2 where t: "thread_at i (is', ch') = (is2, ch2)" by fastforce
    have "\<forall>p \<in> P. runs (exec_step m is2 hs) p s r \<longleftrightarrow> runs (exec_step m is hs) p s r"
      using at(3) [of _ m s r] Cons.prems(4) unfolding t fst_conv by blast
    note R = this
    have xs: "\<forall>i \<in> set xs. i < length is" "length is2 = length is" "units_ok P is2"
      using Cons.prems(1,2) at(1,2) by (simp_all add: t)
    have eq: "fold thread_at (i # xs) (is', ch') = fold thread_at xs (is2, ch2)" by (simp add: t)
    show ?case unfolding eq by (rule Cons.IH [OF xs R])
  qed simp
  from this [of "[0..<length is]" "is" ch] P
  show "length (fst (thread_pass (is, ch))) = length is"
    "p \<in> P \<Longrightarrow> runs (exec_step m (fst (thread_pass (is, ch))) hs) p s r \<longleftrightarrow> runs (exec_step m is hs) p s r"
    by (auto simp: thread_pass_def)
qed

section \<open>A round preserves runs\<close>

text \<open>
  What the pass relies on: fewer than \<open>2 ^ 16\<close> words, a span per word, ranges sorted by
  start and inside the stream, handlers that start at instruction boundaries, and a closed
  set of units the pass can handle. Each part is there for a reason, see the end.
\<close>

definition entry_points :: "instr list \<Rightarrow> nat set" where
  "entry_points is = boundaries is \<union> {length is}"

definition peephole_ready :: "function_bytecode \<Rightarrow> bool" where
  "peephole_ready fb \<longleftrightarrow>
     length (instrs fb) < 2 ^ 16 \<and> length (spans fb) = length (instrs fb)
   \<and> ranges_ok (length (instrs fb)) (handlers fb)
   \<and> targets_ok (entry_points (instrs fb)) (handlers fb)
   \<and> units_ok (entry_points (instrs fb)) (instrs fb)"

lemma dead_branch_unit:
  assumes "unit_at is p = Some u" "p < length is"
  shows "dead_branch (is ! p) (p + 1) \<Longrightarrow> u = UJump (p + 1) \<or> (\<exists>op ra. u = UCond op ra (p + 1))"
proof -
  assume d: "dead_branch (is ! p) (p + 1)"
  then have "branch_word (is ! p)" by (auto simp: dead_branch_def branch_word_def)
  with assms have "narrow_unit (is ! p) = Some u" by (simp add: unit_at_branch)
  with d show ?thesis by (auto simp: dead_branch_def narrow_unit_def conditional_def)
qed

lemma dead_marks_ok:
  assumes "units_ok P is" "\<not> folds is"
  shows "marks_ok P is (sw_keep (peephole_marks is))"
  unfolding marks_ok_def
proof (intro conjI ballI impI)
  let ?keep = "sw_keep (peephole_marks is)"
  show "length ?keep = length is" by (rule marks_spec(2) [OF assms(2)])
  fix p assume p: "p \<in> P" "p < length is"
  then obtain u where u: "unit_at is p = Some u" "unit_ok P is p u" using assms(1) by (auto simp: units_ok_def)
  show "if ?keep ! p then \<forall>a w. unit_at is p = Some (UPlain a w) \<longrightarrow> (\<forall>k < w. ?keep ! (p + k))
      else unit_at is p = Some (UJump (p + 1)) \<or> (\<exists>op ra. unit_at is p = Some (UCond op ra (p + 1)))"
  proof (cases "?keep ! p")
    case False
    then have "dead_branch (is ! p) (p + 1)" using marks_spec(3) [OF assms(2) p(2)] by (simp add: dead_at_def)
    with False dead_branch_unit [OF u(1) p(2)] u(1) show ?thesis by simp
  next
    case True
    have "?keep ! (p + k)" if "u = UPlain a w" "k < w" for a w k
    proof -
      have "p + k < length is" using unit_at_plain_fits [of "is" p a w] u(1) that by simp
      moreover have "\<not> dead_branch (is ! (p + k)) (p + k + 1)"
        using u(2) that by (auto simp: dead_branch_def branch_word_def)
      ultimately show ?thesis using marks_spec(3) [OF assms(2)] by (simp add: dead_at_def)
    qed
    with True u(1) show ?thesis by simp
  qed
qed

lemma compact_total:
  assumes "length (spans fb) = length (instrs fb)" "length keep = length (instrs fb)"
    "ranges_ok (length (instrs fb)) (handlers fb)"
  shows "compact keep fb = Some (fb\<lparr>instrs := compacted keep (instrs fb),
    handlers := filter (\<lambda>h. h_start h < h_end h) (map (renamed_handler keep) (handlers fb)),
    spans := kept_words keep (spans fb)\<rparr>)"
proof -
  have "\<not> list_ex (\<lambda>idx. keep ! idx \<and> length (spans fb) \<le> idx) [0..<length keep]"
    using assms(1,2) by (simp add: list_ex_iff)
  moreover have "those (map (remap_handler keep) (handlers fb)) = Some (map (renamed_handler keep) (handlers fb))"
    using assms(2,3) by (intro remap_handlers) simp
  ultimately show ?thesis using assms(1,2) by (simp add: compact_def compacted_def)
qed

lemma new_index_full: "\<not> list_ex Not keep \<Longrightarrow> i \<le> length keep \<Longrightarrow> new_index keep i = i"
  by (induction i) (auto simp: new_index_Suc list_ex_length)

lemma runs_same_names:
  assumes P: "units_ok P is" and T: "targets_ok P hs" and ni: "\<And>q. q \<in> P \<Longrightarrow> ni q = q" and p: "p \<in> P"
  shows "runs (exec_step m is hs) p s r' \<longleftrightarrow> (\<exists>r. runs (exec_step m is hs) p s r \<and> r' = map_stop ni r)"
proof -
  have "exec_step m is hs (ni p) s = map_option (map_transfer ni) (exec_step m is hs p s)" if q: "p \<in> P" for p s
  proof (cases "p < length is")
    case True
    with P q obtain u where u: "unit_at is p = Some u" by (auto simp: units_ok_def)
    have "map_transfer ni (run_unit m hs p s u) = run_unit m hs p s u"
    proof (cases "run_unit m hs p s u")
      case (GoTo q' s')
      with u exec_step_closed [OF P T q, of m s q' s'] ni show ?thesis by (simp add: exec_step_unit)
    next
      case (StopWith r)
      then show ?thesis using ni [OF q]
        by (cases u) (auto simp: after_effect_def split: effect.splits option.splits if_splits)
    qed
    with u show ?thesis by (simp add: ni [OF q] exec_step_unit)
  qed (simp add: ni [OF q] exec_step_end)
  from runs_renamed [where K = "\<lambda>_. True" and g = "exec_step m is hs" and ni = ni and P = P,
      OF exec_step_closed [OF P T] this _ p] ni [OF p] show ?thesis by simp
qed

lemma targets_renamed:
  assumes "targets_ok P hs" "ranges_ok (length keep) hs" "length keep < 2 ^ 16"
  shows "targets_ok (new_index keep ` P) (filter (\<lambda>h. h_start h < h_end h) (map (renamed_handler keep) hs))"
  using assms by (auto simp: targets_ok_def ranges_ok_def renamed_handler_def unat_new_index)


text \<open>A branch over two dead jumps, inside a guarded range.\<close>

definition sample_jumps :: function_bytecode where
  "sample_jumps = (with_instructions
     [instr_new_imm16 Op_JumpIfTrue 0 3, instr_new_imm24 Op_Jump 2, instr_new_imm24 Op_Jump 3,
      instr_new Op_Return 1 0 0] 4)
     \<lparr>handlers := [\<lparr>h_start = 0, h_end = 3, h_target = 3, h_stack_depth = 1\<rparr>]\<rparr>"

lemma sample_jumps_instrs:
  "instrs sample_jumps = [instr_new_imm16 Op_JumpIfTrue 0 3, instr_new_imm24 Op_Jump 2, instr_new_imm24 Op_Jump 3,
      instr_new Op_Return 1 0 0]"
  by (simp add: sample_jumps_def with_instructions_def)

lemma sample_jumps_units:
  "unit_at (instrs sample_jumps) 0 = Some (UCond Op_JumpIfTrue 0 3)"
  "unit_at (instrs sample_jumps) 1 = Some (UJump 2)"
  "unit_at (instrs sample_jumps) 2 = Some (UJump 3)"
  "unit_at (instrs sample_jumps) 3 = Some (UPlain (NarrowAction Op_Return 1 0 0 (instr_new Op_Return 1 0 0)) 1)"
  by (simp_all add: sample_jumps_instrs unit_at_def narrow_unit_def instr_new_imm16_fields instr_new_imm24_fields
      conditional_def MAX_IMM24_def)

lemma sample_jumps_points: "entry_points (instrs sample_jumps) = {0, 1, 2, 3, 4}"
proof -
  have w: "instr_width (instrs sample_jumps) p = 1" if "p < 4" for p
  proof -
    from that have "p \<in> {0, 1, 2, 3}" by auto
    then show ?thesis
      by (auto simp: sample_jumps_instrs instr_width_def list_get_def instr_new_imm16_fields instr_new_imm24_fields)
  qed
  have "length (instrs sample_jumps) = 4" by (simp add: sample_jumps_instrs)
  then show ?thesis
    by (auto simp: entry_points_def boundaries_def logical_pcs_from_step w)
qed

lemma sample_jumps_ready: "peephole_ready sample_jumps" "\<not> folds (instrs sample_jumps)"
proof -
  let ?P = "entry_points (instrs sample_jumps)"
  have len: "length (instrs sample_jumps) = 4" by (simp add: sample_jumps_instrs)
  have "units_ok ?P (instrs sample_jumps)"
    unfolding units_ok_def sample_jumps_points len
    using sample_jumps_units by (auto simp: branch_word_def sample_jumps_instrs)
  then show "peephole_ready sample_jumps"
    unfolding peephole_ready_def sample_jumps_points len
    by (simp add: ranges_ok_def targets_ok_def) (simp add: sample_jumps_def with_instructions_def)
  have "fold_at w 1 \<lparr>sw_instrs = instrs sample_jumps, sw_keep = k, sw_changed = False\<rparr>
      = \<lparr>sw_instrs = instrs sample_jumps, sw_keep = k, sw_changed = False\<rparr>" for w k
    by (simp add: fold_at_def sample_jumps_instrs instr_new_imm24_fields Let_def)
  then show "\<not> folds (instrs sample_jumps)"
    by (simp add: folds_def fold_pass_def len numeral_2_eq_2)
qed


section \<open>Constant folding\<close>

text \<open>The literal arithmetic a triple computes, on registers holding integers.\<close>

definition literal_op :: "opcode \<Rightarrow> int \<Rightarrow> int \<Rightarrow> int" where
  "literal_op op a b = (if op = Op_Add then a + b else if op = Op_Sub then a - b else a * b)"

lemma fold_literal_read:
  "fold_literal op a b = Some v \<longleftrightarrow> - 128 \<le> literal_op op a b \<and> literal_op op a b \<le> 127 \<and> v = word_of_int (literal_op op a b)"
  by (auto simp: fold_literal_def literal_op_def Let_def)

lemma sint_u8: "- 128 \<le> x \<Longrightarrow> x \<le> 127 \<Longrightarrow> sint (word_of_int x :: u8) = x"
proof -
  assume "- 128 \<le> x" "x \<le> 127"
  then have "signed_take_bit 7 x = x" by (intro signed_take_bit_int_eq_self) simp_all
  then show ?thesis by transfer simp
qed

text \<open>
  A folded literal is the value the triple computes. When a triple over two
  different registers folds, the new instruction is a \<open>LoadInt\<close> of the third
  instruction's destination, and its literal is the operation applied to what the two
  registers hold after their loads; the fold is taken exactly when that value fits the
  literal's signed byte.
\<close>

theorem fold_triple_exact:
  assumes "instr_op i3 = Some op" "op \<in> {Op_Add, Op_Sub, Op_Mul}" "instr_a i1 \<noteq> instr_a i2"
    "{instr_b i3, instr_c i3} = {instr_a i1, instr_a i2}" "op = Op_Sub \<longrightarrow> instr_b i3 = instr_a i1"
  shows "let regs = (\<lambda>r. if r = instr_a i2 then imm8 i2 else imm8 i1);
             v = literal_op op (regs (instr_b i3)) (regs (instr_c i3)) in
    (fold_triple i1 i2 i3 = None \<longleftrightarrow> v < - 128 \<or> 127 < v) \<and>
    (case fold_triple i1 i2 i3 of
       None \<Rightarrow> True
     | Some i \<Rightarrow> instr_op i = Some Op_LoadInt \<and> instr_a i = instr_a i3 \<and> imm8 i = v)"
proof -
  define x where "x = (if instr_b i3 = instr_a i2 then imm8 i2 else imm8 i1)"
  define y where "y = (if instr_c i3 = instr_a i2 then imm8 i2 else imm8 i1)"
  from assms(3,4) have slots: "instr_b i3 = instr_a i1 \<and> instr_c i3 = instr_a i2
      \<or> instr_b i3 = instr_a i2 \<and> instr_c i3 = instr_a i1"
    by (auto simp: doubleton_eq_iff)
  have "fold_triple i1 i2 i3 = map_option (\<lambda>v. instr_new Op_LoadInt (instr_a i3) 0 v) (fold_literal op x y)"
    using slots assms(1-3,5) by (auto simp: fold_triple_def x_def y_def)
  moreover have "fold_literal op x y = None \<longleftrightarrow> literal_op op x y < - 128 \<or> 127 < literal_op op x y"
    by (auto simp: fold_literal_def literal_op_def Let_def)
  moreover have "imm8 (instr_new Op_LoadInt (instr_a i3) 0 v) = literal_op op x y" if "fold_literal op x y = Some v" for v
    using that by (simp add: imm8_def fold_literal_read sint_u8)
  ultimately show ?thesis unfolding Let_def x_def [symmetric] y_def [symmetric]
    by (cases "fold_literal op x y") simp_all
qed

lemma fold_triple_exact_witness:
  "fold_triple (instr_new Op_LoadInt 1 0 7) (instr_new Op_LoadInt 2 0 5) (instr_new Op_Sub 3 1 2) \<noteq> None"
  using fold_triple_exact [of "instr_new Op_Sub 3 1 2" Op_Sub "instr_new Op_LoadInt 1 0 7" "instr_new Op_LoadInt 2 0 5"]
  by (simp add: Let_def literal_op_def imm8_def)

section \<open>What the pass gets wrong\<close>

text \<open>
  The four shapes the hypotheses above exclude are not rejected by the pass, and the
  compiler emits the first three. A payload word is remapped like an instruction when its
  top byte is a branch opcode, so a pooled integer changes value.
\<close>

lemma compaction_corrupts_payload:
  "map_option (\<lambda>fb. try_decode (instrs fb)) (optimize (with_instructions
     (wide_encode (LoadIntW 1 570425349) @ [instr_new_imm24 Op_Jump 5, instr_new Op_Return 1 0 0]) 4))
   = Some (Inr (LoadIntW 1 570425348, 4))"
  by code_simp

text \<open>
  A dead conditional on a register above 255 is deleted without its \<open>RegExt\<close> prefix, which
  then applies to the next instruction: the move into register 2 becomes one into 258.
\<close>

lemma deletion_strands_prefix:
  "map_option (\<lambda>fb. decode_instr (instrs fb) 0) (optimize (with_instructions
     (wide_encode (RegExt 1 1 0 0) @ [instr_new_imm16 Op_JumpIfFalse 3 3, instr_new Op_Move 2 3 0,
        instr_new Op_Return 2 0 0]) 300))
   = Some (Some (Op_Move, 258, 3, 0, 3, instr_new Op_Move 2 3 0))"
  by code_simp

text \<open>
  \<open>0 * (2 - 5)\<close> is minus zero in the language and folds, in the second round, to a plain
  zero.
\<close>

lemma folding_drops_negative_zero:
  "map_option instrs (optimize (with_instructions
     [instr_new Op_LoadInt 1 0 0, instr_new Op_LoadInt 2 0 2, instr_new Op_LoadInt 3 0 5,
      instr_new Op_Sub 4 2 3, instr_new Op_Mul 5 1 4, instr_new Op_Return 5 0 0] 8))
   = Some [instr_new Op_LoadInt 5 0 0, instr_new Op_Return 5 0 0]"
  by code_simp

text \<open>With both loads into one register the fold uses the overwritten literal.\<close>

lemma folding_needs_two_registers:
  "fold_triple (instr_new Op_LoadInt 1 0 2) (instr_new Op_LoadInt 1 0 5) (instr_new Op_Sub 4 1 1)
   = Some (instr_new Op_LoadInt 4 0 (- 3))"
  by code_simp

text \<open>At most \<open>MAX_ROUNDS\<close> rounds run, and none when nothing changes any more.\<close>

lemma optimize_stable: "peephole_round fb = Some (fb', False) \<Longrightarrow> optimize fb = Some fb'"
  by (simp add: optimize_def MAX_ROUNDS_def eval_nat_numeral)

end
