(* ===== verification/JsValues.thy ===== *)
theory JsValues
  imports Prelude
begin

text \<open>
  The value word of \<open>v12-heap/src/value.rs\<close>: a NaN-boxed \<open>u64\<close> that is either a raw
  double or a tagged payload. The word is modelled as it is; a heap handle is its slot
  index (\<open>v12-heap/src/handle.rs\<close>). The type predicates follow the release build,
  where \<open>has_tag\<close> is the single tag check; the debug build's check is
  \<open>has_tag_debug\<close>.

  \<open>f64\<close> values are bit patterns. \<open>f64_of_int\<close> and \<open>f64_to_int\<close> model the two
  conversions of the standard library that the code uses (\<open>f64::from(i32)\<close> and the
  exact integer of a double with zero fraction).
\<close>

section \<open>Integers as doubles\<close>

fun bit_len :: "nat \<Rightarrow> nat" where
  "bit_len n = (if n = 0 then 0 else Suc (bit_len (n div 2)))"

declare bit_len.simps [simp del]

lemma bit_len_0 [simp]: "bit_len 0 = 0"
  by (simp add: bit_len.simps)

lemma bit_len_bounds: "0 < n \<Longrightarrow> 0 < bit_len n \<and> 2 ^ (bit_len n - 1) \<le> n \<and> n < 2 ^ bit_len n"
proof (induction n rule: bit_len.induct)
  case (1 n)
  show ?case
  proof (cases "n div 2 = 0")
    case True
    with 1(2) have "n = 1" by simp
    then show ?thesis by (simp add: bit_len.simps [of "Suc 0"])
  next
    case False
    with 1 have "0 < bit_len (n div 2)" "2 ^ (bit_len (n div 2) - 1) \<le> n div 2" "n div 2 < 2 ^ bit_len (n div 2)"
      by simp_all
    moreover obtain k where "bit_len (n div 2) = Suc k" using calculation(1) by (cases "bit_len (n div 2)") auto
    ultimately show ?thesis using 1(2) by (simp add: bit_len.simps [of n]) linarith
  qed
qed

text \<open>The three fields of a double: sign, biased exponent, fraction.\<close>

definition f64_pack :: "bool \<Rightarrow> nat \<Rightarrow> nat \<Rightarrow> f64" where
  "f64_pack s e m = word_of_nat ((if s then 2 ^ 63 else 0) + e * 2 ^ 52 + m)"

definition f64_sign :: "f64 \<Rightarrow> bool" where "f64_sign b \<longleftrightarrow> 2 ^ 63 \<le> unat b"
definition f64_exponent :: "f64 \<Rightarrow> nat" where "f64_exponent b = unat b div 2 ^ 52 mod 2 ^ 11"
definition f64_fraction :: "f64 \<Rightarrow> nat" where "f64_fraction b = unat b mod 2 ^ 52"

lemma f64_pack_fields:
  assumes "e < 2 ^ 11" "m < 2 ^ 52"
  shows "f64_sign (f64_pack s e m) = s" "f64_exponent (f64_pack s e m) = e"
    "f64_fraction (f64_pack s e m) = m"
proof -
  let ?n = "(if s then 2 ^ 63 else 0) + e * 2 ^ 52 + m"
  have "e * 2 ^ 52 \<le> (2 ^ 11 - 1) * 2 ^ 52" using assms(1) by (intro mult_right_mono) auto
  then have low: "e * 2 ^ 52 + m < 2 ^ 63" using assms(2) by simp
  then have "?n < 2 ^ 64" by simp
  then have n: "unat (f64_pack s e m) = ?n"
    unfolding f64_pack_def by (intro unat_of_nat_small) simp
  show "f64_sign (f64_pack s e m) = s" using low by (simp add: f64_sign_def n)
  have "?n div 2 ^ 52 = (if s then 2 ^ 11 else 0) + e" using assms(2) by (auto simp: div_add1_eq)
  then show "f64_exponent (f64_pack s e m) = e" using assms(1) by (simp add: f64_exponent_def n)
  show "f64_fraction (f64_pack s e m) = m" 
  proof -
    have "?n = m + ((if s then 2 ^ 11 else 0) + e) * 2 ^ 52" by simp
    then have "?n mod 2 ^ 52 = m" using assms(2) by (simp only: mod_mult_self1 mod_less)
    then show ?thesis by (simp only: f64_fraction_def n)
  qed
qed

text \<open>\<open>f64::from(n)\<close> for an integer of at most 53 bits, which is exact.\<close>

definition f64_of_int :: "int \<Rightarrow> f64" where
  "f64_of_int n =
     (if n = 0 then 0
      else let m = nat \<bar>n\<bar>; e = bit_len m - 1
        in f64_pack (n < 0) (1023 + e) (m * 2 ^ (52 - e) - 2 ^ 52))"

text \<open>The integer a double is, when its fraction is zero.\<close>

definition f64_to_int :: "f64 \<Rightarrow> int option" where
  "f64_to_int b =
     (let e = f64_exponent b; m = f64_fraction b; sgn = (if f64_sign b then -1 else 1);
          sig = (if e = 0 then m else m + 2 ^ 52); x = max e 1
      in if e = 2047 then None
         else if 1075 \<le> x then Some (sgn * int (sig * 2 ^ (x - 1075)))
         else if 2 ^ (1075 - x) dvd sig then Some (sgn * int (sig div 2 ^ (1075 - x)))
         else None)"

lemma f64_of_int_fields:
  assumes "n \<noteq> 0" "\<bar>n\<bar> < 2 ^ 53"
  defines "m \<equiv> nat \<bar>n\<bar>" and "e \<equiv> bit_len (nat \<bar>n\<bar>) - 1"
  shows "e \<le> 52" "f64_sign (f64_of_int n) = (n < 0)" "f64_exponent (f64_of_int n) = 1023 + e"
    "f64_fraction (f64_of_int n) + 2 ^ 52 = m * 2 ^ (52 - e)"
proof -
  have m: "0 < m" "m < 2 ^ 53" using assms(1,2) by (simp_all add: m_def)
  have b: "0 < bit_len m" "2 ^ e \<le> m" "m < 2 ^ bit_len m"
    using bit_len_bounds [OF m(1)] by (simp_all add: e_def m_def)
  show e: "e \<le> 52"
  proof (rule ccontr)
    assume "\<not> e \<le> 52"
    then have "(2 :: nat) ^ 53 \<le> 2 ^ e" by (intro power_increasing) auto
    with b m show False by simp
  qed
  have split: "(2 :: nat) ^ e * 2 ^ (52 - e) = 2 ^ 52" using e by (simp flip: power_add)
  have lo: "2 ^ 52 \<le> m * 2 ^ (52 - e)" using b(2) by (metis mult_right_mono split zero_le)
  have "Suc e = bit_len m" using b(1) by (simp add: e_def m_def)
  with b(3) have "m * 2 ^ (52 - e) < 2 ^ Suc e * 2 ^ (52 - e)" by simp
  also have "\<dots> = 2 ^ 53" using split by simp
  finally have hi: "m * 2 ^ (52 - e) - 2 ^ 52 < 2 ^ 52" by simp
  have eq: "f64_of_int n = f64_pack (n < 0) (1023 + e) (m * 2 ^ (52 - e) - 2 ^ 52)"
    using assms(1) by (simp add: f64_of_int_def Let_def m_def e_def)
  have "1023 + e < 2 ^ 11" using e by simp
  note fields = f64_pack_fields [OF this hi, of "n < 0"]
  show "f64_sign (f64_of_int n) = (n < 0)" "f64_exponent (f64_of_int n) = 1023 + e"
    unfolding eq by (rule fields)+
  show "f64_fraction (f64_of_int n) + 2 ^ 52 = m * 2 ^ (52 - e)"
    unfolding eq using fields(3) lo by simp
qed

lemma f64_int_roundtrip: "\<bar>n\<bar> < 2 ^ 53 \<Longrightarrow> f64_to_int (f64_of_int n) = Some n"
proof (cases "n = 0")
  case True
  then show ?thesis
    by (simp add: f64_of_int_def f64_to_int_def f64_exponent_def f64_fraction_def f64_sign_def)
next
  case False
  assume small: "\<bar>n\<bar> < 2 ^ 53"
  let ?e = "bit_len (nat \<bar>n\<bar>) - 1"
  note f = f64_of_int_fields [OF False small]
  have sgn: "(if f64_sign (f64_of_int n) then -1 else 1) * int (nat \<bar>n\<bar>) = n"
    using f(2) by simp
  have max: "max (1023 + ?e) 1 = 1023 + ?e" by simp
  show ?thesis
  proof (cases "?e = 52")
    case True
    with f sgn show ?thesis by (simp add: f64_to_int_def Let_def)
  next
    case False
    with f(1) have "1075 - (1023 + ?e) = 52 - ?e" "\<not> 1075 \<le> 1023 + ?e" "1023 + ?e \<noteq> 2047" by auto
    with f(3,4) sgn show ?thesis by (simp add: f64_to_int_def Let_def del: max_def)
  qed
qed

section \<open>Spaces and handles\<close>

datatype space = Objects | Strings | Symbols | Bigints | Shapes

primrec space_index :: "space \<Rightarrow> nat" where
  "space_index Objects = 0"
| "space_index Strings = 1"
| "space_index Symbols = 2"
| "space_index Bigints = 3"
| "space_index Shapes = 4"

type_synonym handle = u32

lemma space_index_inj [simp]: "space_index s = space_index t \<longleftrightarrow> s = t"
  by (cases s; cases t) simp_all

section \<open>The word\<close>

type_synonym js_value = u64

definition BOX_MASK :: u64 where "BOX_MASK = 0xFFF8000000000000"
definition QUIET_NAN_BITS :: u64 where "QUIET_NAN_BITS = 0x7FF8000000000000"
definition TAG_SHIFT :: nat where "TAG_SHIFT = 44"
definition TAG_MASK :: u64 where "TAG_MASK = push_bit TAG_SHIFT 0xF"
definition SPARE_MASK :: u64 where "SPARE_MASK = push_bit 48 0x7"
definition REF_PAYLOAD_MASK :: u64 where "REF_PAYLOAD_MASK = 0xFFFFFFFF"
definition SMI_PAYLOAD_MASK :: u64 where "SMI_PAYLOAD_MASK = 0x7FFFFFFF"
definition LOWER_BITS_MASK :: u64 where "LOWER_BITS_MASK = push_bit TAG_SHIFT 1 - 1"

abbreviation TAG_SMI :: u64 where "TAG_SMI \<equiv> 0"
abbreviation TAG_OBJECT :: u64 where "TAG_OBJECT \<equiv> 1"
abbreviation TAG_STRING :: u64 where "TAG_STRING \<equiv> 2"
abbreviation TAG_SYMBOL :: u64 where "TAG_SYMBOL \<equiv> 3"
abbreviation TAG_BIGINT :: u64 where "TAG_BIGINT \<equiv> 4"
abbreviation TAG_UNDEFINED :: u64 where "TAG_UNDEFINED \<equiv> 5"
abbreviation TAG_NULL :: u64 where "TAG_NULL \<equiv> 6"
abbreviation TAG_FALSE :: u64 where "TAG_FALSE \<equiv> 7"
abbreviation TAG_TRUE :: u64 where "TAG_TRUE \<equiv> 8"
abbreviation TAG_HOLE :: u64 where "TAG_HOLE \<equiv> 9"
abbreviation TAG_EMPTY :: u64 where "TAG_EMPTY \<equiv> 10"

definition SMI_MIN :: int where "SMI_MIN = - (2 ^ 30)"
definition SMI_MAX :: int where "SMI_MAX = 2 ^ 30 - 1"

definition boxed :: "u64 \<Rightarrow> u64 \<Rightarrow> u64" where
  "boxed tag payload = BOX_MASK OR push_bit TAG_SHIFT tag OR payload"

definition is_boxed :: "js_value \<Rightarrow> bool" where
  "is_boxed v \<longleftrightarrow> v AND BOX_MASK = BOX_MASK"

definition tag_of :: "js_value \<Rightarrow> u64" where
  "tag_of v = drop_bit TAG_SHIFT (v AND TAG_MASK)"

definition boxed_with :: "u64 \<Rightarrow> js_value" where
  "boxed_with tag = boxed tag 0"

subsection \<open>Constructors\<close>

definition from_f64 :: "f64 \<Rightarrow> js_value" where
  "from_f64 f = (if f AND BOX_MASK = BOX_MASK then QUIET_NAN_BITS else f)"

definition from_i32_smi :: "i32 \<Rightarrow> js_value option" where
  "from_i32_smi v =
     (if SMI_MIN \<le> sint v \<and> sint v \<le> SMI_MAX
      then Some (boxed TAG_SMI (ucast v AND SMI_PAYLOAD_MASK)) else None)"

definition js_undefined :: js_value where "js_undefined = boxed_with TAG_UNDEFINED"
definition js_null :: js_value where "js_null = boxed_with TAG_NULL"
definition js_true :: js_value where "js_true = boxed_with TAG_TRUE"
definition js_false :: js_value where "js_false = boxed_with TAG_FALSE"
definition from_bool :: "bool \<Rightarrow> js_value" where "from_bool b = (if b then js_true else js_false)"
definition js_hole :: js_value where "js_hole = boxed_with TAG_HOLE"
definition js_empty :: js_value where "js_empty = boxed_with TAG_EMPTY"
definition js_object :: "handle \<Rightarrow> js_value" where "js_object h = boxed TAG_OBJECT (ucast h)"
definition js_string :: "handle \<Rightarrow> js_value" where "js_string h = boxed TAG_STRING (ucast h)"
definition js_symbol :: "handle \<Rightarrow> js_value" where "js_symbol h = boxed TAG_SYMBOL (ucast h)"
definition js_bigint :: "handle \<Rightarrow> js_value" where "js_bigint h = boxed TAG_BIGINT (ucast h)"

subsection \<open>Predicates\<close>

definition is_canonical :: "js_value \<Rightarrow> bool" where
  "is_canonical v =
     (if \<not> is_boxed v then True
      else if v AND SPARE_MASK \<noteq> 0 then False
      else let tag = tag_of v in
        if tag = TAG_SMI then v AND LOWER_BITS_MASK AND NOT SMI_PAYLOAD_MASK = 0
        else if tag \<in> {TAG_OBJECT, TAG_STRING, TAG_SYMBOL, TAG_BIGINT}
          then v AND LOWER_BITS_MASK AND NOT REF_PAYLOAD_MASK = 0
        else if TAG_UNDEFINED \<le> tag \<and> tag \<le> TAG_EMPTY then v AND LOWER_BITS_MASK AND NOT 0 = 0
        else False)"

definition has_tag :: "js_value \<Rightarrow> u64 \<Rightarrow> bool" where
  "has_tag v tag \<longleftrightarrow> is_boxed v \<and> tag_of v = tag"

definition has_tag_debug :: "js_value \<Rightarrow> u64 \<Rightarrow> bool" where
  "has_tag_debug v tag \<longleftrightarrow> is_boxed v \<and> is_canonical v \<and> tag_of v = tag"

definition is_f64 :: "js_value \<Rightarrow> bool" where "is_f64 v \<longleftrightarrow> \<not> is_boxed v"
definition is_smi :: "js_value \<Rightarrow> bool" where "is_smi v \<longleftrightarrow> has_tag v TAG_SMI"
definition is_ref :: "js_value \<Rightarrow> bool" where
  "is_ref v \<longleftrightarrow> is_boxed v \<and> tag_of v \<in> {TAG_OBJECT, TAG_STRING, TAG_SYMBOL, TAG_BIGINT}"
definition is_object :: "js_value \<Rightarrow> bool" where "is_object v \<longleftrightarrow> has_tag v TAG_OBJECT"
definition is_string :: "js_value \<Rightarrow> bool" where "is_string v \<longleftrightarrow> has_tag v TAG_STRING"
definition is_symbol :: "js_value \<Rightarrow> bool" where "is_symbol v \<longleftrightarrow> has_tag v TAG_SYMBOL"
definition is_bigint :: "js_value \<Rightarrow> bool" where "is_bigint v \<longleftrightarrow> has_tag v TAG_BIGINT"
definition is_undefined :: "js_value \<Rightarrow> bool" where "is_undefined v \<longleftrightarrow> has_tag v TAG_UNDEFINED"
definition is_null :: "js_value \<Rightarrow> bool" where "is_null v \<longleftrightarrow> has_tag v TAG_NULL"
definition is_boolean :: "js_value \<Rightarrow> bool" where
  "is_boolean v \<longleftrightarrow> is_boxed v \<and> tag_of v \<in> {TAG_TRUE, TAG_FALSE}"
definition is_true :: "js_value \<Rightarrow> bool" where "is_true v \<longleftrightarrow> has_tag v TAG_TRUE"
definition is_false :: "js_value \<Rightarrow> bool" where "is_false v \<longleftrightarrow> has_tag v TAG_FALSE"
definition is_hole :: "js_value \<Rightarrow> bool" where "is_hole v \<longleftrightarrow> has_tag v TAG_HOLE"
definition is_empty :: "js_value \<Rightarrow> bool" where "is_empty v \<longleftrightarrow> has_tag v TAG_EMPTY"

definition from_bits :: "u64 \<Rightarrow> js_value option" where
  "from_bits b = (if is_canonical b then Some b else None)"

subsection \<open>Extractors\<close>

definition as_f64 :: "js_value \<Rightarrow> f64 option" where
  "as_f64 v = (if is_boxed v then None else Some v)"

definition as_smi :: "js_value \<Rightarrow> i32 option" where
  "as_smi v =
     (if \<not> is_smi v then None
      else let p = (ucast (v AND SMI_PAYLOAD_MASK) :: u32) in Some (signed_drop_bit 1 (push_bit 1 p)))"

definition ref_handle :: "js_value \<Rightarrow> u64 \<Rightarrow> handle option" where
  "ref_handle v expected =
     (if is_boxed v \<and> tag_of v = expected then Some (ucast (v AND REF_PAYLOAD_MASK)) else None)"

definition as_object :: "js_value \<Rightarrow> handle option" where "as_object v = ref_handle v TAG_OBJECT"
definition as_string :: "js_value \<Rightarrow> handle option" where "as_string v = ref_handle v TAG_STRING"
definition as_symbol :: "js_value \<Rightarrow> handle option" where "as_symbol v = ref_handle v TAG_SYMBOL"
definition as_bigint :: "js_value \<Rightarrow> handle option" where "as_bigint v = ref_handle v TAG_BIGINT"

definition as_bool :: "js_value \<Rightarrow> bool option" where
  "as_bool v = (if is_true v then Some True else if is_false v then Some False else None)"

definition as_slot :: "js_value \<Rightarrow> (space \<times> u32) option" where
  "as_slot v =
     (let idx = ucast (v AND REF_PAYLOAD_MASK); tag = tag_of v
      in if tag = TAG_OBJECT \<and> is_boxed v then Some (Objects, idx)
         else if tag = TAG_STRING \<and> is_boxed v then Some (Strings, idx)
         else if tag = TAG_SYMBOL \<and> is_boxed v then Some (Symbols, idx)
         else if tag = TAG_BIGINT \<and> is_boxed v then Some (Bigints, idx)
         else None)"

definition type_name :: "js_value \<Rightarrow> string" where
  "type_name v =
     (if is_f64 v \<or> is_smi v then ''number''
      else if is_string v then ''string''
      else if is_boolean v then ''boolean''
      else if is_object v then ''object''
      else if is_undefined v then ''undefined''
      else if is_null v then ''null''
      else if is_symbol v then ''symbol''
      else if is_bigint v then ''bigint''
      else ''value'')"

subsection \<open>Conversions\<close>

record decode_error =
  got :: string
  expected :: string

definition decode_error_for :: "js_value \<Rightarrow> string \<Rightarrow> decode_error" where
  "decode_error_for v e = \<lparr>got = type_name v, expected = e\<rparr>"

definition try_into_f64 :: "js_value \<Rightarrow> decode_error + f64" where
  "try_into_f64 v =
     (case as_f64 v of
        Some n \<Rightarrow> Inr n
      | None \<Rightarrow> (case as_smi v of
          Some n \<Rightarrow> Inr (f64_of_int (sint n))
        | None \<Rightarrow> Inl (decode_error_for v ''number'')))"

definition try_into_i32 :: "js_value \<Rightarrow> decode_error + i32" where
  "try_into_i32 v =
     (case as_smi v of
        Some n \<Rightarrow> Inr n
      | None \<Rightarrow> (case Option.bind (as_f64 v) f64_to_int of
          Some n \<Rightarrow> if - (2 ^ 31) \<le> n \<and> n \<le> 2 ^ 31 - 1 then Inr (word_of_int n)
            else Inl (decode_error_for v ''integer'')
        | None \<Rightarrow> Inl (decode_error_for v ''integer'')))"

definition try_into_bool :: "js_value \<Rightarrow> decode_error + bool" where
  "try_into_bool v = ok_or (as_bool v) (decode_error_for v ''boolean'')"

definition try_into_string :: "js_value \<Rightarrow> decode_error + handle" where
  "try_into_string v = ok_or (as_string v) (decode_error_for v ''string'')"

definition try_into_object :: "js_value \<Rightarrow> decode_error + handle" where
  "try_into_object v = ok_or (as_object v) (decode_error_for v ''object'')"

definition from_i32 :: "i32 \<Rightarrow> js_value" where
  "from_i32 n = (case from_i32_smi n of Some v \<Rightarrow> v | None \<Rightarrow> from_f64 (f64_of_int (sint n)))"

section \<open>Fields of a boxed word\<close>

lemma mask_forms:
  "BOX_MASK = push_bit 51 (mask 13)" "TAG_MASK = push_bit 44 (mask 4)" "SPARE_MASK = push_bit 48 (mask 3)"
  "REF_PAYLOAD_MASK = mask 32" "SMI_PAYLOAD_MASK = mask 31" "LOWER_BITS_MASK = mask 44"
  by (simp_all add: BOX_MASK_def TAG_MASK_def SPARE_MASK_def REF_PAYLOAD_MASK_def SMI_PAYLOAD_MASK_def
      LOWER_BITS_MASK_def TAG_SHIFT_def mask_eq_exp_minus_1)

text \<open>A tag fits its nibble and a payload the bits below it.\<close>

definition fits :: "u64 \<Rightarrow> u64 \<Rightarrow> bool" where
  "fits t p \<longleftrightarrow> take_bit 4 t = t \<and> take_bit 44 p = p"

lemma fits_bits: "fits t p \<Longrightarrow> (bit t n \<longrightarrow> n < 4) \<and> (bit p n \<longrightarrow> n < 44)"
  unfolding fits_def by (metis bit_take_bit_iff)

lemma boxed_bits:
  "bit (boxed t p) n \<longleftrightarrow> n < 64 \<and> (51 \<le> n \<or> (44 \<le> n \<and> bit t (n - 44)) \<or> bit p n)"
  unfolding boxed_def mask_forms TAG_SHIFT_def by (auto simp: bit_simps)

lemma boxed_fields:
  assumes "fits t p"
  shows "is_boxed (boxed t p)" "tag_of (boxed t p) = t" "boxed t p AND SPARE_MASK = 0"
    "boxed t p AND LOWER_BITS_MASK = p"
proof -
  note low = fits_bits [OF assms]
  show "is_boxed (boxed t p)" unfolding is_boxed_def mask_forms
    by (rule bit_word_eqI) (auto simp: bit_simps boxed_bits)
  show "tag_of (boxed t p) = t" unfolding tag_of_def mask_forms TAG_SHIFT_def
    by (rule bit_word_eqI) (auto simp: bit_simps boxed_bits dest: low [THEN conjunct1, rule_format] low [THEN conjunct2, rule_format])
  show "boxed t p AND SPARE_MASK = 0" unfolding mask_forms
    by (rule bit_word_eqI) (auto simp: bit_simps boxed_bits dest: low [THEN conjunct1, rule_format] low [THEN conjunct2, rule_format])
  show "boxed t p AND LOWER_BITS_MASK = p" unfolding mask_forms
    by (rule bit_word_eqI) (auto simp: bit_simps boxed_bits dest: low [THEN conjunct1, rule_format] low [THEN conjunct2, rule_format])
qed

lemma boxed_decompose:
  assumes "is_boxed v" "v AND SPARE_MASK = 0"
  shows "v = boxed (tag_of v) (v AND LOWER_BITS_MASK)" "fits (tag_of v) (v AND LOWER_BITS_MASK)"
proof -
  have top: "bit v n" if "51 \<le> n" "n < 64" for n
  proof -
    have "bit (v AND BOX_MASK) n" using that assms(1) unfolding is_boxed_def mask_forms by (auto simp: bit_simps)
    then show ?thesis by (simp add: bit_simps)
  qed
  have spare: "\<not> bit v n" if "48 \<le> n" "n < 51" for n
  proof -
    have "\<not> bit (v AND SPARE_MASK) n" using assms(2) by simp
    moreover have "n - 48 < 3" "n - 48 < 64" using that by auto
    ultimately show ?thesis using that unfolding mask_forms by (simp add: bit_simps)
  qed
  show "fits (tag_of v) (v AND LOWER_BITS_MASK)"
    unfolding fits_def tag_of_def mask_forms TAG_SHIFT_def
    by (intro conjI; rule bit_word_eqI) (auto simp: bit_simps)
  show "v = boxed (tag_of v) (v AND LOWER_BITS_MASK)"
  proof (rule bit_word_eqI)
    fix n :: nat assume "n < LENGTH(64)"
    then have n: "n < 64" by simp
    consider "n < 44" | "44 \<le> n" "n < 48" | "48 \<le> n" "n < 51" | "51 \<le> n" by linarith
    then show "bit v n \<longleftrightarrow> bit (boxed (tag_of v) (v AND LOWER_BITS_MASK)) n"
      by cases (use n top [of n] spare [of n] in
          \<open>auto simp: boxed_bits tag_of_def mask_forms TAG_SHIFT_def bit_simps\<close>)
  qed
qed

section \<open>Specification: what a word stands for\<close>

datatype js_view =
    VDouble f64 | VSmi i32 | VObject handle | VString handle | VSymbol handle | VBigInt handle
  | VUndefined | VNull | VBool bool | VHole | VEmpty

fun view_ok :: "js_view \<Rightarrow> bool" where
  "view_ok (VDouble f) \<longleftrightarrow> f AND BOX_MASK \<noteq> BOX_MASK"
| "view_ok (VSmi n) \<longleftrightarrow> SMI_MIN \<le> sint n \<and> sint n \<le> SMI_MAX"
| "view_ok _ \<longleftrightarrow> True"

text \<open>The word the code's constructors build.\<close>

fun repr :: "js_view \<Rightarrow> js_value" where
  "repr (VDouble f) = from_f64 f"
| "repr (VSmi n) = the (from_i32_smi n)"
| "repr (VObject h) = js_object h"
| "repr (VString h) = js_string h"
| "repr (VSymbol h) = js_symbol h"
| "repr (VBigInt h) = js_bigint h"
| "repr VUndefined = js_undefined"
| "repr VNull = js_null"
| "repr (VBool b) = from_bool b"
| "repr VHole = js_hole"
| "repr VEmpty = js_empty"

fun view_tag :: "js_view \<Rightarrow> u64" where
  "view_tag (VDouble f) = 0"
| "view_tag (VSmi n) = TAG_SMI"
| "view_tag (VObject h) = TAG_OBJECT"
| "view_tag (VString h) = TAG_STRING"
| "view_tag (VSymbol h) = TAG_SYMBOL"
| "view_tag (VBigInt h) = TAG_BIGINT"
| "view_tag VUndefined = TAG_UNDEFINED"
| "view_tag VNull = TAG_NULL"
| "view_tag (VBool b) = (if b then TAG_TRUE else TAG_FALSE)"
| "view_tag VHole = TAG_HOLE"
| "view_tag VEmpty = TAG_EMPTY"

fun view_payload :: "js_view \<Rightarrow> u64" where
  "view_payload (VSmi n) = ucast n AND SMI_PAYLOAD_MASK"
| "view_payload (VObject h) = ucast h"
| "view_payload (VString h) = ucast h"
| "view_payload (VSymbol h) = ucast h"
| "view_payload (VBigInt h) = ucast h"
| "view_payload _ = 0"

fun is_double :: "js_view \<Rightarrow> bool" where
  "is_double (VDouble f) = True"
| "is_double _ = False"

lemma repr_double: "view_ok (VDouble f) \<Longrightarrow> repr (VDouble f) = f \<and> \<not> is_boxed f"
  by (simp add: from_f64_def is_boxed_def)

lemma repr_boxed: "view_ok a \<Longrightarrow> \<not> is_double a \<Longrightarrow> repr a = boxed (view_tag a) (view_payload a)"
  by (cases a) (simp_all add: from_i32_smi_def js_object_def js_string_def js_symbol_def js_bigint_def
      js_undefined_def js_null_def from_bool_def js_true_def js_false_def js_hole_def js_empty_def
      boxed_with_def)

lemma ucast_u32_u64 [simp]: "(ucast (ucast (h :: u32) :: u64) :: u32) = h"
  by (rule bit_word_eqI) (auto simp: bit_simps)

lemma take_bit_ucast_u32: "take_bit 44 (ucast (h :: u32) :: u64) = ucast h"
  by (rule bit_word_eqI) (auto simp: bit_simps)

lemma view_fits: "fits (view_tag a) (view_payload a)"
proof -
  have "take_bit 44 (ucast (n :: u32) AND mask 31 :: u64) = ucast n AND mask 31" for n
    by (rule bit_word_eqI) (auto simp: bit_simps)
  then show ?thesis
    by (cases a) (simp_all add: fits_def take_bit_ucast_u32 mask_forms)
qed

lemma view_fields:
  assumes "view_ok a" "\<not> is_double a"
  shows "is_boxed (repr a)" "tag_of (repr a) = view_tag a" "repr a AND SPARE_MASK = 0"
    "repr a AND LOWER_BITS_MASK = view_payload a"
  using boxed_fields [OF view_fits [of a]] by (simp_all add: repr_boxed [OF assms])

text \<open>The payload masks only read bits below the tag.\<close>

lemma payload_and:
  "v AND REF_PAYLOAD_MASK = (v AND LOWER_BITS_MASK) AND REF_PAYLOAD_MASK"
  "v AND SMI_PAYLOAD_MASK = (v AND LOWER_BITS_MASK) AND SMI_PAYLOAD_MASK"
  unfolding mask_forms by (rule bit_word_eqI; auto simp: bit_simps)+

subsection \<open>Smis\<close>

lemma smi_range_iff: "SMI_MIN \<le> sint n \<and> sint n \<le> SMI_MAX \<longleftrightarrow> (bit (n :: i32) 31 \<longleftrightarrow> bit n 30)"
proof -
  have "SMI_MIN \<le> sint n \<and> sint n \<le> SMI_MAX \<longleftrightarrow> signed_take_bit 30 (sint n) = sint n"
    by (auto simp: SMI_MIN_def SMI_MAX_def signed_take_bit_int_eq_self_iff)
  also have "\<dots> \<longleftrightarrow> (bit n 31 \<longleftrightarrow> bit n 30)"
  proof
    assume "signed_take_bit 30 (sint n) = sint n"
    then have "bit (signed_take_bit 30 (sint n)) 31 = bit (sint n) 31" by simp
    then show "bit n 31 \<longleftrightarrow> bit n 30" by (simp add: bit_simps min_def)
  next
    assume same: "bit n 31 \<longleftrightarrow> bit n 30"
    show "signed_take_bit 30 (sint n) = sint n"
    proof (rule bit_eqI)
      fix k :: nat
      consider "k \<le> 30" | "k = 31" | "31 < k" by linarith
      then show "bit (signed_take_bit 30 (sint n)) k = bit (sint n) k"
        by cases (use same in \<open>auto simp: bit_simps min_def\<close>)
    qed
  qed
  finally show ?thesis .
qed

text \<open>Sign extension from bit 30.\<close>

definition smi_extend :: "u64 \<Rightarrow> i32" where
  "smi_extend p = signed_drop_bit 1 (push_bit 1 (ucast p :: u32))"

lemma smi_extend_bits:
  "bit (smi_extend p) k \<longleftrightarrow> k < 32 \<and> bit p (min k 30)"
  unfolding smi_extend_def bit_signed_drop_bit_iff bit_push_bit_iff
  by (cases "k \<le> 30") (auto simp: bit_simps min_def le_Suc_eq not_le)

lemma smi_extend_range: "SMI_MIN \<le> sint (smi_extend p) \<and> sint (smi_extend p) \<le> SMI_MAX"
  by (simp add: smi_range_iff smi_extend_bits)

lemma smi_extend_payload:
  assumes "SMI_MIN \<le> sint n \<and> sint n \<le> SMI_MAX"
  shows "smi_extend (ucast n AND SMI_PAYLOAD_MASK) = n"
proof (rule bit_word_eqI)
  fix k assume "k < LENGTH(32)"
  moreover have "bit n 31 \<longleftrightarrow> bit n 30" using assms by (simp only: smi_range_iff)
  moreover have "k = 31" if "\<not> k \<le> 30" "k < 32" using that by simp
  ultimately show "bit (smi_extend (ucast n AND SMI_PAYLOAD_MASK)) k = bit n k"
    by (cases "k \<le> 30") (auto simp: smi_extend_bits mask_forms bit_simps min_def)
qed

lemma payload_of_smi_extend:
  assumes "p AND NOT SMI_PAYLOAD_MASK = 0"
  shows "ucast (smi_extend p) AND SMI_PAYLOAD_MASK = p"
proof (rule bit_word_eqI)
  fix k assume "k < LENGTH(64)"
  moreover have "\<not> bit p k" if "31 \<le> k"
  proof -
    have "\<not> bit (p AND NOT SMI_PAYLOAD_MASK) k" using assms by simp
    with that show ?thesis unfolding mask_forms by (auto simp: bit_simps)
  qed
  ultimately show "bit (ucast (smi_extend p) AND SMI_PAYLOAD_MASK) k = bit p k"
    by (cases "k < 31") (auto simp: smi_extend_bits mask_forms bit_simps min_def)
qed

subsection \<open>Canonical words are exactly the constructed ones\<close>

lemma view_canonical: "view_ok a \<Longrightarrow> is_canonical (repr a)"
proof (cases "is_double a")
  case True
  assume "view_ok a"
  with True show ?thesis by (cases a) (simp_all add: is_canonical_def from_f64_def is_boxed_def)
next
  case False
  assume ok: "view_ok a"
  have "(ucast (h :: u32) AND NOT REF_PAYLOAD_MASK :: u64) = 0" for h
    unfolding mask_forms by (rule bit_word_eqI) (auto simp: bit_simps)
  moreover have "ucast (n :: u32) AND SMI_PAYLOAD_MASK AND NOT SMI_PAYLOAD_MASK = 0" for n
    unfolding mask_forms by (rule bit_word_eqI) (auto simp: bit_simps)
  ultimately show ?thesis
    using False unfolding is_canonical_def Let_def and.assoc [symmetric] view_fields [OF ok False]
    by (cases a) simp_all
qed

definition view_of :: "js_value \<Rightarrow> js_view" where
  "view_of v =
     (let tag = tag_of v; p = v AND LOWER_BITS_MASK; h = ucast p
      in if \<not> is_boxed v then VDouble v
         else if tag = TAG_SMI then VSmi (smi_extend p)
         else if tag = TAG_OBJECT then VObject h
         else if tag = TAG_STRING then VString h
         else if tag = TAG_SYMBOL then VSymbol h
         else if tag = TAG_BIGINT then VBigInt h
         else if tag = TAG_UNDEFINED then VUndefined
         else if tag = TAG_NULL then VNull
         else if tag = TAG_FALSE then VBool False
         else if tag = TAG_TRUE then VBool True
         else if tag = TAG_HOLE then VHole
         else VEmpty)"

lemma view_of_repr: "view_ok a \<Longrightarrow> view_of (repr a) = a"
proof (cases "is_double a")
  case True
  assume "view_ok a"
  with True show ?thesis by (cases a) (simp_all add: view_of_def from_f64_def is_boxed_def)
next
  case False
  assume ok: "view_ok a"
  note fields = view_fields [OF ok False]
  show ?thesis
    unfolding view_of_def Let_def fields(2,4)
    using ok False fields(1) by (cases a) (simp_all add: smi_extend_payload del: repr.simps)
qed

lemma tag_cases:
  assumes "TAG_UNDEFINED \<le> t" "t \<le> TAG_EMPTY"
  shows "t \<in> {TAG_UNDEFINED, TAG_NULL, TAG_FALSE, TAG_TRUE, TAG_HOLE, TAG_EMPTY}"
proof -
  have "unat t \<in> {5, 6, 7, 8, 9, 10}" using assms by (auto simp: word_le_nat_alt)
  then show ?thesis by (auto simp: word_unat_eq_iff simp del: unat_eq_iff)
qed

lemma repr_view_of: "is_canonical v \<Longrightarrow> view_ok (view_of v) \<and> repr (view_of v) = v"
proof (cases "is_boxed v")
  case False
  then show ?thesis by (simp add: view_of_def is_boxed_def from_f64_def)
next
  case True
  assume canon: "is_canonical v"
  let ?t = "tag_of v" and ?p = "v AND LOWER_BITS_MASK"
  from canon True have "v AND SPARE_MASK = 0" by (simp add: is_canonical_def split: if_splits)
  note v = boxed_decompose [OF True this]
  have ref: "ucast (ucast p :: u32) = p" if "p AND NOT REF_PAYLOAD_MASK = 0" for p :: u64
  proof (rule bit_word_eqI)
    fix k assume "k < LENGTH(64)"
    moreover have "\<not> bit p k" if "32 \<le> k"
    proof -
      have "\<not> bit (p AND NOT REF_PAYLOAD_MASK) k" using \<open>p AND NOT REF_PAYLOAD_MASK = 0\<close> by simp
      with that show ?thesis unfolding mask_forms by (auto simp: bit_simps)
    qed
    ultimately show "bit (ucast (ucast p :: u32) :: u64) k = bit p k"
      by (cases "k < 32") (auto simp: bit_simps)
  qed
  have "view_ok (view_of v) \<and> \<not> is_double (view_of v) \<and> view_tag (view_of v) = ?t
      \<and> view_payload (view_of v) = ?p"
    using True canon smi_extend_range [of ?p] payload_of_smi_extend [of ?p] ref [of ?p] tag_cases [of ?t]
    unfolding is_canonical_def view_of_def Let_def and.assoc [symmetric]
    by (auto split: if_splits)
  then show ?thesis using v(1) by (simp add: repr_boxed)
qed

text \<open>
  C40. Canonical form: a word passes \<open>is_canonical\<close> - the guard of \<open>from_bits\<close> -
  exactly when one of the typed constructors builds it, and then from exactly one value. So
  no two kinds share a word, no payload is lost, and forged words are refused.
\<close>

theorem canonical_iff_constructed:
  "(is_canonical v \<longleftrightarrow> (\<exists>!a. view_ok a \<and> repr a = v))
   \<and> (from_bits v \<noteq> None \<longleftrightarrow> (\<exists>a. view_ok a \<and> repr a = v))"
proof -
  have "is_canonical v \<longleftrightarrow> (\<exists>a. view_ok a \<and> repr a = v)"
    using view_canonical repr_view_of by blast
  moreover have "a = b" if "view_ok a" "view_ok b" "repr a = repr b" for a b
    using that view_of_repr by metis
  ultimately show ?thesis unfolding from_bits_def by auto
qed

subsection \<open>Reading a constructed word\<close>

lemma has_tag_view: "view_ok a \<Longrightarrow> has_tag (repr a) t \<longleftrightarrow> \<not> is_double a \<and> view_tag a = t"
proof (cases "is_double a")
  case True
  assume "view_ok a"
  with True show ?thesis by (cases a) (auto simp: has_tag_def repr_double simp del: repr.simps)
next
  case False
  assume "view_ok a"
  with view_fields [OF this False] False show ?thesis by (simp add: has_tag_def)
qed

lemma boxed_view: "view_ok a \<Longrightarrow> is_boxed (repr a) \<longleftrightarrow> \<not> is_double a"
  using view_fields(1) [of a] repr_double by (cases "is_double a"; cases a) auto

lemma payload_view:
  assumes "view_ok a" "\<not> is_double a"
  shows "repr a AND REF_PAYLOAD_MASK = view_payload a AND REF_PAYLOAD_MASK"
    "repr a AND SMI_PAYLOAD_MASK = view_payload a AND SMI_PAYLOAD_MASK"
  using payload_and [of "repr a"] view_fields(4) [OF assms] by simp_all

lemma ref_payload_u32 [simp]: "(ucast (ucast (h :: u32) AND REF_PAYLOAD_MASK) :: u32) = h"
  unfolding mask_forms by (rule bit_word_eqI) (auto simp: bit_simps)

fun view_slot :: "js_view \<Rightarrow> (space \<times> u32) option" where
  "view_slot (VObject h) = Some (Objects, h)"
| "view_slot (VString h) = Some (Strings, h)"
| "view_slot (VSymbol h) = Some (Symbols, h)"
| "view_slot (VBigInt h) = Some (Bigints, h)"
| "view_slot _ = None"

fun view_type_name :: "js_view \<Rightarrow> string" where
  "view_type_name (VDouble _) = ''number''"
| "view_type_name (VSmi _) = ''number''"
| "view_type_name (VObject _) = ''object''"
| "view_type_name (VString _) = ''string''"
| "view_type_name (VSymbol _) = ''symbol''"
| "view_type_name (VBigInt _) = ''bigint''"
| "view_type_name VUndefined = ''undefined''"
| "view_type_name VNull = ''null''"
| "view_type_name (VBool _) = ''boolean''"
| "view_type_name VHole = ''value''"
| "view_type_name VEmpty = ''value''"

lemmas predicate_defs = is_f64_def is_smi_def is_object_def is_string_def is_symbol_def is_bigint_def
  is_undefined_def is_null_def is_true_def is_false_def is_hole_def is_empty_def

lemma as_slot_view: "view_ok a \<Longrightarrow> as_slot (repr a) = view_slot a"
proof (cases "is_double a")
  case True
  assume "view_ok a"
  with True show ?thesis
    by (cases a) (auto simp: as_slot_def Let_def repr_double simp del: repr.simps)
next
  case False
  assume ok: "view_ok a"
  note f = view_fields [OF ok False]
  show ?thesis unfolding as_slot_def Let_def f(2) payload_view [OF ok False]
    using f(1) False by (cases a) (simp_all del: repr.simps)
qed

lemma as_f64_view: "view_ok a \<Longrightarrow> as_f64 (repr a) = (case a of VDouble f \<Rightarrow> Some f | _ \<Rightarrow> None)"
  using boxed_view [of a] repr_double
  by (cases a) (simp_all add: as_f64_def del: repr.simps)

lemma as_smi_view: "view_ok a \<Longrightarrow> as_smi (repr a) = (case a of VSmi n \<Rightarrow> Some n | _ \<Rightarrow> None)"
proof (cases "\<exists>n. a = VSmi n")
  case True
  then obtain n where a: "a = VSmi n" ..
  assume ok: "view_ok a"
  have "repr a AND SMI_PAYLOAD_MASK = ucast n AND SMI_PAYLOAD_MASK"
    using payload_view(2) [OF ok] by (simp add: a and.assoc del: repr.simps)
  then show ?thesis
    using has_tag_view [OF ok] smi_extend_payload [of n] ok
    by (simp add: as_smi_def is_smi_def a smi_extend_def del: repr.simps)
next
  case False
  assume "view_ok a"
  with False show ?thesis
    by (cases a) (simp_all add: as_smi_def is_smi_def has_tag_view del: repr.simps)
qed

lemma type_name_view: "view_ok a \<Longrightarrow> type_name (repr a) = view_type_name a"
  by (cases a) (simp_all add: type_name_def predicate_defs has_tag_view boxed_view is_boolean_def
      view_fields(2) del: repr.simps)

lemma as_bool_view: "view_ok a \<Longrightarrow> as_bool (repr a) = (case a of VBool b \<Rightarrow> Some b | _ \<Rightarrow> None)"
  by (cases a) (simp_all add: as_bool_def predicate_defs has_tag_view del: repr.simps)

text \<open>
  Every extractor reads back what the constructors stored, bit for bit, and refuses
  every other kind: doubles, sign-extended Smis, booleans, the space and slot of a
  reference, and the \<open>typeof\<close> name.
\<close>

theorem extractors_read_view:
  assumes "view_ok a"
  shows "as_f64 (repr a) = (case a of VDouble f \<Rightarrow> Some f | _ \<Rightarrow> None)
     \<and> as_smi (repr a) = (case a of VSmi n \<Rightarrow> Some n | _ \<Rightarrow> None)
     \<and> as_bool (repr a) = (case a of VBool b \<Rightarrow> Some b | _ \<Rightarrow> None)
     \<and> as_slot (repr a) = view_slot a
     \<and> type_name (repr a) = view_type_name a"
  using assms by (simp add: as_f64_view as_smi_view as_bool_view as_slot_view type_name_view)

theorem extractors_read_view_witness:
  "as_smi (repr (VSmi (- 5))) = Some (- 5) \<and> as_slot (repr (VString 77)) = Some (Strings, 77)"
proof -
  have "sint (- 5 :: i32) = - 5" by simp
  then have "view_ok (VSmi (- 5))" by (simp add: SMI_MIN_def SMI_MAX_def)
  from extractors_read_view [OF this] extractors_read_view [of "VString 77"]
  show ?thesis by simp
qed

text \<open>The debug build's check agrees with the release build's on canonical words.\<close>

lemma has_tag_debug_eq: "is_canonical v \<Longrightarrow> has_tag_debug v t = has_tag v t"
  by (simp add: has_tag_debug_def has_tag_def)

lemma from_f64_reads:
  "is_canonical (from_f64 f) \<and> as_f64 (from_f64 f) = Some (if is_boxed f then QUIET_NAN_BITS else f)"
proof -
  have "\<not> is_boxed QUIET_NAN_BITS" by (simp add: is_boxed_def QUIET_NAN_BITS_def BOX_MASK_def)
  then show ?thesis by (auto simp: from_f64_def as_f64_def is_canonical_def is_boxed_def)
qed

subsection \<open>Integers\<close>

lemma is_boxed_exponent: "is_boxed v \<Longrightarrow> f64_exponent v = 2047"
proof -
  assume boxed: "is_boxed v"
  have "take_bit 11 (drop_bit 52 v) = mask 11"
  proof (rule bit_word_eqI)
    fix n assume "n < LENGTH(64)"
    moreover have "bit v (n + 52)" if "n < 11"
    proof -
      have "bit (v AND BOX_MASK) (n + 52)"
        using boxed that unfolding is_boxed_def mask_forms by (simp add: bit_simps)
      then show ?thesis by (simp add: bit_simps)
    qed
    ultimately show "bit (take_bit 11 (drop_bit 52 v)) n = bit (mask 11 :: u64) n"
      by (auto simp: bit_simps add.commute)
  qed
  then have "unat (take_bit 11 (drop_bit 52 v)) = unat (mask 11 :: u64)" by simp
  then show ?thesis
    by (simp add: f64_exponent_def unsigned_take_bit_eq unsigned_drop_bit_eq take_bit_eq_mod
        drop_bit_eq_div mask_eq_exp_minus_1 unat_div_distrib unat_mod_distrib)
qed

lemma sint_i32_small: "\<bar>sint (n :: i32)\<bar> < 2 ^ 53"
  using sint_lt [of n] sint_ge [of n] by simp

lemma f64_of_i32_not_boxed: "\<not> is_boxed (f64_of_int (sint (n :: i32)))"
proof (cases "sint n = 0")
  case True
  then show ?thesis by (simp add: f64_of_int_def is_boxed_def BOX_MASK_def)
next
  case False
  from f64_of_int_fields(1,3) [OF this sint_i32_small] show ?thesis
    using is_boxed_exponent by fastforce
qed

lemma from_i32_cases:
  "from_i32 n = repr (if SMI_MIN \<le> sint n \<and> sint n \<le> SMI_MAX then VSmi n else VDouble (f64_of_int (sint n)))"
  by (simp add: from_i32_def from_i32_smi_def)

lemma view_ok_i32:
  "view_ok (if SMI_MIN \<le> sint n \<and> sint n \<le> SMI_MAX then VSmi n else VDouble (f64_of_int (sint n)))"
  using f64_of_i32_not_boxed [of n] by (simp add: is_boxed_def)

text \<open>
  Integers survive the trip through a value: every \<open>i32\<close>, stored as a Smi when it
  fits 31 bits and as a double otherwise, is decoded to itself, and to the same number as a
  double.
\<close>

theorem i32_value_roundtrip:
  "is_canonical (from_i32 n) \<and> try_into_i32 (from_i32 n) = Inr n
   \<and> try_into_f64 (from_i32 n) = Inr (f64_of_int (sint n))"
  using view_canonical [OF view_ok_i32 [of n]] as_smi_view [OF view_ok_i32 [of n]]
    as_f64_view [OF view_ok_i32 [of n]] f64_int_roundtrip [OF sint_i32_small [of n]]
    sint_lt [of n] sint_ge [of n]
  unfolding from_i32_cases try_into_i32_def try_into_f64_def
  by (auto simp del: repr.simps split: if_splits)

end
