(* ===== verification/GcSpaces.thy ===== *)
theory GcSpaces
  imports JsValues
begin

text \<open>
  One space of the heap (\<open>v12-heap/src/gc.rs\<close>): a slot vector with a free list, liveness
  bits, and the lazy sweeper that hands dead slots back a few at a time. The state is the
  five per-space entries of \<open>Heap\<close>; the payload type is a type variable and \<open>dflt\<close> its
  \<open>Default\<close>. A \<open>Vec\<close> used as a stack has its top at the end.
\<close>

section \<open>State and operations\<close>

definition SWEEP_BUDGET_SLOTS :: nat where "SWEEP_BUDGET_SLOTS = 256"

record 'a space_state =
  slots :: "'a list"
  free :: "nat list"
  alive :: "bool list"
  released :: "bool list"
  sweep_cursor :: nat
  pending_dead :: nat

definition space_new :: "'a list \<Rightarrow> 'a space_state" where
  "space_new xs =
     \<lparr>slots = xs, free = [], alive = replicate (length xs) True, released = replicate (length xs) False,
      sweep_cursor = 0, pending_dead = 0\<rparr>"

text \<open>The loop of \<open>sweep_step\<close> up to \<open>stop\<close>; it ends at the first released slot.\<close>

function sweep_scan :: "'a \<Rightarrow> nat \<Rightarrow> 'a space_state \<Rightarrow> 'a space_state" where
  "sweep_scan dflt stop st =
     (if sweep_cursor st < stop then
        (let i = sweep_cursor st; st' = st\<lparr>sweep_cursor := i + 1\<rparr>
         in if \<not> alive st ! i \<and> \<not> released st ! i
            then st'\<lparr>slots := (slots st)[i := dflt], released := (released st)[i := True],
                     pending_dead := pending_dead st - 1, free := free st @ [i]\<rparr>
            else sweep_scan dflt stop st')
      else st)"
  by pat_completeness auto
termination
  by (relation "measure (\<lambda>(dflt, stop, st). stop - sweep_cursor st)") auto

declare sweep_scan.simps [simp del]

definition sweep_step :: "'a \<Rightarrow> 'a space_state \<Rightarrow> 'a space_state \<times> bool" where
  "sweep_step dflt st =
     (let slot_count = length (slots st)
      in if pending_dead st = 0 then (st\<lparr>sweep_cursor := slot_count\<rparr>, False)
         else let st' = sweep_scan dflt (min slot_count (sweep_cursor st + SWEEP_BUDGET_SLOTS)) st
           in (st', sweep_cursor st' < slot_count))"

lemma sweep_scan_slots [simp]: "length (slots (sweep_scan dflt stop st)) = length (slots st)"
  by (induction dflt stop st rule: sweep_scan.induct) (subst sweep_scan.simps, simp add: Let_def)

lemma sweep_scan_stop: "\<not> sweep_cursor st < stop \<Longrightarrow> sweep_scan dflt stop st = st"
  by (subst sweep_scan.simps) simp

lemma sweep_scan_skip:
  "sweep_cursor st < stop \<Longrightarrow> alive st ! sweep_cursor st \<or> released st ! sweep_cursor st \<Longrightarrow>
     sweep_scan dflt stop st = sweep_scan dflt stop (st\<lparr>sweep_cursor := sweep_cursor st + 1\<rparr>)"
  by (subst sweep_scan.simps) (auto simp: Let_def)

text \<open>The step that releases slot \<open>i\<close>.\<close>

definition release_slot :: "'a \<Rightarrow> nat \<Rightarrow> 'a space_state \<Rightarrow> 'a space_state" where
  "release_slot dflt i st =
     st\<lparr>sweep_cursor := i + 1, slots := (slots st)[i := dflt], released := (released st)[i := True],
        pending_dead := pending_dead st - 1, free := free st @ [i]\<rparr>"

lemma sweep_scan_release:
  "sweep_cursor st < stop \<Longrightarrow> \<not> alive st ! sweep_cursor st \<Longrightarrow> \<not> released st ! sweep_cursor st \<Longrightarrow>
     sweep_scan dflt stop st = release_slot dflt (sweep_cursor st) st"
  by (subst sweep_scan.simps) (simp add: Let_def release_slot_def)

text \<open>Induction over a scan: it stops at the budget, releases a slot, or skips one.\<close>

lemma scan_induct [case_names Stop Release Skip]:
  assumes "\<And>st. \<not> sweep_cursor st < stop \<Longrightarrow> P st"
    and "\<And>st. sweep_cursor st < stop \<Longrightarrow> \<not> alive st ! sweep_cursor st \<Longrightarrow>
      \<not> released st ! sweep_cursor st \<Longrightarrow> P st"
    and "\<And>st. sweep_cursor st < stop \<Longrightarrow> alive st ! sweep_cursor st \<or> released st ! sweep_cursor st \<Longrightarrow>
      P (st\<lparr>sweep_cursor := sweep_cursor st + 1\<rparr>) \<Longrightarrow> P st"
  shows "P (st :: 'a space_state)"
proof (induction "stop - sweep_cursor st" arbitrary: st rule: less_induct)
  case less
  show ?case
  proof (cases "sweep_cursor st < stop")
    case True
    then have "P (st\<lparr>sweep_cursor := sweep_cursor st + 1\<rparr>)" by (intro less) simp
    with True assms(2,3) show ?thesis by blast
  qed (rule assms(1))
qed

lemma sweep_scan_cursor:
  "sweep_cursor st < stop \<Longrightarrow>
     sweep_cursor st < sweep_cursor (sweep_scan dflt stop st) \<and> sweep_cursor (sweep_scan dflt stop st) \<le> stop"
proof (induction st rule: scan_induct [of stop])
  case (Release st)
  then show ?case by (simp add: sweep_scan_release release_slot_def)
next
  case (Skip st)
  then show ?case
    by (cases "sweep_cursor st + 1 < stop") (auto simp: sweep_scan_skip sweep_scan_stop)
qed simp

lemma sweep_step_progress:
  assumes "sweep_step dflt st = (st', True)"
  shows "length (slots st') = length (slots st)" "sweep_cursor st < sweep_cursor st'"
    "sweep_cursor st' < length (slots st)"
proof -
  let ?stop = "min (length (slots st)) (sweep_cursor st + SWEEP_BUDGET_SLOTS)"
  from assms have st': "st' = sweep_scan dflt ?stop st" and lt: "sweep_cursor st' < length (slots st)"
    by (auto simp: sweep_step_def Let_def split: if_splits)
  then show "length (slots st') = length (slots st)" "sweep_cursor st' < length (slots st)" by auto
  show "sweep_cursor st < sweep_cursor st'"
  proof (cases "sweep_cursor st < ?stop")
    case True
    with sweep_scan_cursor [OF this] st' show ?thesis by simp
  next
    case False
    then have "st' = st" unfolding st' by (rule sweep_scan_stop)
    with lt False show ?thesis by (simp add: SWEEP_BUDGET_SLOTS_def)
  qed
qed

lemma sweep_step_measure:
  "(st', True) = sweep_step dflt st \<Longrightarrow>
     length (slots st') - sweep_cursor st' < length (slots st) - sweep_cursor st"
  using sweep_step_progress [of dflt st st'] by simp

text \<open>The allocation loop: pop, sweep a step and retry, or extend the vector.\<close>

function alloc_loop :: "'a \<Rightarrow> 'a \<Rightarrow> 'a space_state \<Rightarrow> nat \<times> 'a space_state" where
  "alloc_loop dflt v st =
     (if free st \<noteq> [] then
        (let i = last (free st)
         in (i, st\<lparr>free := butlast (free st), released := (released st)[i := False],
                   slots := (slots st)[i := v]\<rparr>))
      else (case sweep_step dflt st of (st', again) \<Rightarrow>
        if \<not> again \<and> free st' = []
        then (length (slots st'), st'\<lparr>slots := slots st' @ [v], alive := alive st' @ [False],
                                      released := released st' @ [False]\<rparr>)
        else alloc_loop dflt v st'))"
  by pat_completeness auto
termination
  by (relation "measure (\<lambda>(dflt, v, st). if free st = [] then Suc (length (slots st) - sweep_cursor st) else 0)")
    (auto dest: sweep_step_measure)

declare alloc_loop.simps [simp del]

text \<open>\<open>None\<close> is the panic of \<open>expect\<close> when the index does not fit a handle.\<close>

definition alloc :: "'a \<Rightarrow> 'a \<Rightarrow> 'a space_state \<Rightarrow> (handle \<times> 'a space_state) option" where
  "alloc dflt v st =
     (case alloc_loop dflt v st of (i, st') \<Rightarrow>
        if i < 2 ^ 32 then Some (word_of_nat i, st'\<lparr>alive := (alive st')[i := True]\<rparr>) else None)"

text \<open>\<open>get\<close> in a release build: the slot, a panic past the end.\<close>

definition slot_get :: "'a space_state \<Rightarrow> handle \<Rightarrow> 'a option" where
  "slot_get st h = list_get (slots st) (unat h)"

definition publish_mark :: "bool list \<Rightarrow> 'a space_state \<Rightarrow> 'a space_state" where
  "publish_mark marked st =
     (let fr = filter (\<lambda>i. \<not> marked ! i) (free st);
          rel = map2 (\<lambda>flag m. if m then False else flag) (released st) marked
      in st\<lparr>free := fr, released := rel, alive := marked,
            pending_dead := length (filter (\<lambda>(i, m). \<not> m \<and> \<not> rel ! i) (enumerate 0 marked)),
            sweep_cursor := 0\<rparr>)"

function finish_sweep :: "'a \<Rightarrow> 'a space_state \<Rightarrow> 'a space_state" where
  "finish_sweep dflt st =
     (case sweep_step dflt st of (st', again) \<Rightarrow> if again then finish_sweep dflt st' else st')"
  by pat_completeness auto
termination
  by (relation "measure (\<lambda>(dflt, st). length (slots st) - sweep_cursor st)") (auto dest: sweep_step_measure)

declare finish_sweep.simps [simp del]

definition live_count :: "'a space_state \<Rightarrow> nat" where
  "live_count st = length (slots st) - length (free st) - pending_dead st"

definition slot_count :: "'a space_state \<Rightarrow> nat" where
  "slot_count st = length (slots st)"

section \<open>The invariant\<close>

definition live :: "'a space_state \<Rightarrow> nat set" where
  "live st = {i. i < length (slots st) \<and> alive st ! i}"

definition dead :: "'a space_state \<Rightarrow> nat set" where
  "dead st = {i. i < length (slots st) \<and> \<not> alive st ! i \<and> \<not> released st ! i}"

text \<open>
  The bit vectors are aligned with the slots; the free list holds each released slot once;
  a released slot is not alive and holds the default payload; the dead slots the sweeper has
  not released are counted, and lie at or after its cursor.
\<close>

definition space_wf :: "'a \<Rightarrow> 'a space_state \<Rightarrow> bool" where
  "space_wf dflt st \<longleftrightarrow>
     length (alive st) = length (slots st) \<and> length (released st) = length (slots st) \<and>
     distinct (free st) \<and> set (free st) = {i. i < length (slots st) \<and> released st ! i} \<and>
     (\<forall>i < length (slots st). released st ! i \<longrightarrow> \<not> alive st ! i \<and> slots st ! i = dflt) \<and>
     pending_dead st = card (dead st) \<and> (\<forall>i \<in> dead st. sweep_cursor st \<le> i)"

lemma live_finite [simp]: "finite (live st)" and dead_finite [simp]: "finite (dead st)"
  by (simp_all add: live_def dead_def)

text \<open>What a sweep keeps: the liveness bits, the payload of the live slots and the vector's length.\<close>

definition sweep_keeps :: "'a space_state \<Rightarrow> 'a space_state \<Rightarrow> bool" where
  "sweep_keeps st st' \<longleftrightarrow>
     length (slots st') = length (slots st) \<and> alive st' = alive st \<and>
     (\<forall>i \<in> live st. slots st' ! i = slots st ! i)"

lemma sweep_keeps_refl [simp]: "sweep_keeps st st"
  by (simp add: sweep_keeps_def)

lemma sweep_keeps_live: "sweep_keeps st st' \<Longrightarrow> live st' = live st"
  by (simp add: sweep_keeps_def live_def)

lemma sweep_keeps_trans [trans]: "sweep_keeps a b \<Longrightarrow> sweep_keeps b c \<Longrightarrow> sweep_keeps a c"
  by (auto simp: sweep_keeps_def live_def)

lemma sweep_keeps_cursor [simp]: "sweep_keeps (st\<lparr>sweep_cursor := n\<rparr>) st' = sweep_keeps st st'"
  "sweep_keeps st (st'\<lparr>sweep_cursor := n\<rparr>) = sweep_keeps st st'"
  by (simp_all add: sweep_keeps_def live_def)

lemma dead_cursor [simp]: "dead (st\<lparr>sweep_cursor := n\<rparr>) = dead st"
  by (simp add: dead_def)

lemma space_wf_cursor:
  "space_wf dflt st \<Longrightarrow> (\<And>i. i \<in> dead st \<Longrightarrow> n \<le> i) \<Longrightarrow> space_wf dflt (st\<lparr>sweep_cursor := n\<rparr>)"
  by (simp add: space_wf_def)

lemma release_slot_wf:
  assumes wf: "space_wf dflt st" and i: "i < length (slots st)" "\<not> alive st ! i" "\<not> released st ! i"
    and cur: "sweep_cursor st = i"
  shows "space_wf dflt (release_slot dflt i st)" "sweep_keeps st (release_slot dflt i st)"
proof -
  let ?st = "release_slot dflt i st"
  have dead: "dead ?st = dead st - {i}"
    using wf i by (auto simp: dead_def release_slot_def space_wf_def nth_list_update)
  have mem: "i \<in> dead st" using i by (simp add: dead_def)
  have ge: "i < j" if "j \<in> dead st - {i}" for j
  proof -
    have "i \<le> j" using wf cur that by (auto simp: space_wf_def)
    with that show ?thesis by auto
  qed
  have "pending_dead ?st = card (dead ?st)"
    using wf mem unfolding dead by (simp add: release_slot_def space_wf_def)
  moreover have "\<forall>j \<in> dead ?st. sweep_cursor ?st \<le> j"
    using ge unfolding dead by (auto simp: release_slot_def Suc_le_eq)
  ultimately show "space_wf dflt ?st"
    using wf i unfolding space_wf_def
    by (auto simp: release_slot_def nth_list_update)
  show "sweep_keeps st ?st"
    using i by (auto simp: sweep_keeps_def release_slot_def live_def nth_list_update)
qed

lemma sweep_scan_wf:
  "space_wf dflt st \<Longrightarrow> stop \<le> length (slots st) \<Longrightarrow>
     space_wf dflt (sweep_scan dflt stop st) \<and> sweep_keeps st (sweep_scan dflt stop st)"
proof (induction st rule: scan_induct [of stop])
  case (Stop st)
  then show ?case by (simp add: sweep_scan_stop)
next
  case (Release st)
  then show ?case by (simp add: sweep_scan_release release_slot_wf)
next
  case (Skip st)
  have "space_wf dflt (st\<lparr>sweep_cursor := sweep_cursor st + 1\<rparr>)"
  proof (rule space_wf_cursor [OF Skip.prems(1)])
    fix i assume i: "i \<in> dead st"
    with Skip.prems(1) have "sweep_cursor st \<le> i" by (simp add: space_wf_def)
    moreover have "i \<noteq> sweep_cursor st" using i Skip.hyps by (auto simp: dead_def)
    ultimately show "sweep_cursor st + 1 \<le> i" by simp
  qed
  with Skip show ?case by (simp add: sweep_scan_skip)
qed

lemma sweep_step_wf:
  assumes wf: "space_wf dflt st" and step: "sweep_step dflt st = (st', again)"
  shows "space_wf dflt st'" "sweep_keeps st st'" "\<not> again \<Longrightarrow> dead st' = {}"
proof -
  let ?stop = "min (length (slots st)) (sweep_cursor st + SWEEP_BUDGET_SLOTS)"
  have scan: "space_wf dflt (sweep_scan dflt ?stop st) \<and> sweep_keeps st (sweep_scan dflt ?stop st)"
    by (rule sweep_scan_wf [OF wf]) simp
  have none: "pending_dead st = 0 \<Longrightarrow> dead st = {}"
    using wf by (simp add: space_wf_def)
  show 1: "space_wf dflt st'" and "sweep_keeps st st'"
    using step scan none
    by (auto simp: sweep_step_def Let_def intro: space_wf_cursor [OF wf] split: if_splits)
  show "dead st' = {}" if "\<not> again"
  proof (cases "pending_dead st = 0")
    case True
    with step none show ?thesis by (auto simp: sweep_step_def Let_def)
  next
    case False
    with step that have "length (slots st') \<le> sweep_cursor st'"
      by (auto simp: sweep_step_def Let_def)
    moreover have "\<forall>i \<in> dead st'. sweep_cursor st' \<le> i" using 1 by (simp add: space_wf_def)
    ultimately show ?thesis by (force simp: dead_def)
  qed
qed

section \<open>Allocation\<close>

lemma alloc_loop_pop:
  "free st \<noteq> [] \<Longrightarrow> alloc_loop dflt v st =
     (last (free st), st\<lparr>free := butlast (free st), released := (released st)[last (free st) := False],
                         slots := (slots st)[last (free st) := v]\<rparr>)"
  by (subst alloc_loop.simps) (simp add: Let_def)

lemma alloc_loop_extend:
  "free st = [] \<Longrightarrow> sweep_step dflt st = (st', False) \<Longrightarrow> free st' = [] \<Longrightarrow> alloc_loop dflt v st =
     (length (slots st'), st'\<lparr>slots := slots st' @ [v], alive := alive st' @ [False],
                              released := released st' @ [False]\<rparr>)"
  by (subst alloc_loop.simps) simp

lemma alloc_loop_again:
  "free st = [] \<Longrightarrow> sweep_step dflt st = (st', again) \<Longrightarrow> again \<or> free st' \<noteq> [] \<Longrightarrow>
     alloc_loop dflt v st = alloc_loop dflt v st'"
  by (subst alloc_loop.simps) auto

text \<open>
  The postcondition of an allocation at \<open>i\<close>: the slot was not live, it is now and holds \<open>v\<close>,
  every other live slot kept its payload, and the vector grew only if every slot was live.
\<close>

definition allocates :: "'a \<Rightarrow> 'a \<Rightarrow> 'a space_state \<Rightarrow> nat \<Rightarrow> 'a space_state \<Rightarrow> bool" where
  "allocates dflt v st i st' \<longleftrightarrow>
     space_wf dflt st' \<and> i \<notin> live st \<and> live st' = insert i (live st) \<and> slots st' ! i = v \<and>
     (\<forall>j \<in> live st. slots st' ! j = slots st ! j) \<and>
     length (slots st') = length (slots st) + (if live st = {..<length (slots st)} then 1 else 0)"

definition set_alive :: "nat \<Rightarrow> 'a space_state \<Rightarrow> 'a space_state" where
  "set_alive i st = st\<lparr>alive := (alive st)[i := True]\<rparr>"

lemma allocates_keeps:
  assumes k: "sweep_keeps st st1" and a: "allocates dflt v st1 i st'"
  shows "allocates dflt v st i st'"
proof -
  from k have l: "live st1 = live st" by (rule sweep_keeps_live)
  from a have "\<forall>j \<in> live st. slots st' ! j = slots st1 ! j" by (simp add: allocates_def l)
  moreover from k have "\<forall>j \<in> live st. slots st1 ! j = slots st ! j"
    and "length (slots st1) = length (slots st)" by (auto simp: sweep_keeps_def)
  ultimately show ?thesis using a by (simp add: allocates_def l)
qed

lemma alloc_pop_allocates:
  assumes wf: "space_wf dflt st" and ne: "free st \<noteq> []"
  shows "allocates dflt v st (last (free st))
    (set_alive (last (free st)) (st\<lparr>free := butlast (free st),
       released := (released st)[last (free st) := False], slots := (slots st)[last (free st) := v]\<rparr>))"
    (is "allocates dflt v st ?i ?st")
proof -
  have i: "?i < length (slots st)" "released st ! ?i" "\<not> alive st ! ?i"
    using wf last_in_set [OF ne] by (auto simp: space_wf_def)
  have len: "length (slots ?st) = length (slots st)" "length (alive st) = length (slots st)"
    "length (released st) = length (slots st)" using wf by (auto simp: set_alive_def space_wf_def)
  have fr: "set (butlast (free st)) = set (free st) - {?i}" "distinct (butlast (free st))"
  proof -
    have "distinct (butlast (free st) @ [?i])" using wf ne by (simp add: space_wf_def)
    then show "distinct (butlast (free st))" by (simp only: distinct_append)
    have "set (free st) = set (butlast (free st) @ [?i])" using ne by simp
    then have "set (free st) = insert ?i (set (butlast (free st)))" by (simp del: append_butlast_last_id)
    moreover have "?i \<notin> set (butlast (free st))"
      using \<open>distinct (butlast (free st) @ [?i])\<close> by (simp only: distinct_append) auto
    ultimately show "set (butlast (free st)) = set (free st) - {?i}" by auto
  qed
  have dead: "dead ?st = dead st"
    using i len by (auto simp: dead_def set_alive_def nth_list_update)
  have live: "live ?st = insert ?i (live st)"
    using i len by (auto simp: live_def set_alive_def nth_list_update)
  have "space_wf dflt ?st"
    unfolding space_wf_def dead
    using wf i len fr by (auto simp: space_wf_def set_alive_def nth_list_update)
  moreover have "?i \<notin> live st" "live st \<noteq> {..<length (slots st)}"
    using i by (auto simp: live_def)
  moreover have "slots ?st ! ?i = v" "\<forall>j \<in> live st. slots ?st ! j = slots st ! j"
    using i by (auto simp: set_alive_def live_def nth_list_update)
  ultimately show ?thesis by (simp add: allocates_def live len)
qed

lemma alloc_extend_allocates:
  assumes wf: "space_wf dflt st" and fr: "free st = []" and dd: "dead st = {}"
  shows "allocates dflt v st (length (slots st))
    (set_alive (length (slots st)) (st\<lparr>slots := slots st @ [v], alive := alive st @ [False],
       released := released st @ [False]\<rparr>))"
    (is "allocates dflt v st ?i ?st")
proof -
  have rel: "\<not> released st ! i" and al: "alive st ! i" if "i < length (slots st)" for i
    using wf fr dd that by (auto simp: space_wf_def dead_def)
  have len: "length (alive st) = length (slots st)" "length (released st) = length (slots st)"
    using wf by (auto simp: space_wf_def)
  have full: "live st = {..<length (slots st)}" using al by (auto simp: live_def)
  have alive: "alive ?st = alive st @ [True]" by (simp add: set_alive_def list_update_append len)
  have dead: "dead ?st = {}"
    using rel al by (auto simp: dead_def alive nth_append len) (simp add: set_alive_def)
  have live: "live ?st = insert ?i (live st)"
    using al by (auto simp: live_def alive nth_append len) (auto simp: set_alive_def)
  have "space_wf dflt ?st"
    unfolding space_wf_def dead
    using wf rel fr dd by (auto simp: space_wf_def set_alive_def nth_append less_Suc_eq)
  moreover have "slots ?st ! ?i = v" "\<forall>j \<in> live st. slots ?st ! j = slots st ! j"
    "length (slots ?st) = length (slots st) + 1"
    by (auto simp: set_alive_def live_def nth_append)
  ultimately show ?thesis using full by (auto simp: allocates_def live)
qed

lemma alloc_loop_allocates:
  "space_wf dflt st \<Longrightarrow> alloc_loop dflt v st = (i, st') \<Longrightarrow> allocates dflt v st i (set_alive i st')"
proof (induction dflt v st arbitrary: i st' rule: alloc_loop.induct)
  case (1 dflt v st)
  show ?case
  proof (cases "free st = []")
    case False
    with 1 show ?thesis using alloc_pop_allocates [of dflt st v] by (auto simp: alloc_loop_pop)
  next
    case True
    obtain st1 again where step: "sweep_step dflt st = (st1, again)" by fastforce
    note st1 = sweep_step_wf [OF "1.prems"(1) step]
    show ?thesis
    proof (cases "\<not> again \<and> free st1 = []")
      case ext: True
      then have "allocates dflt v st1 (length (slots st1)) (set_alive (length (slots st1))
          (st1\<lparr>slots := slots st1 @ [v], alive := alive st1 @ [False], released := released st1 @ [False]\<rparr>))"
        using st1 by (intro alloc_extend_allocates) auto
      with ext "1.prems" True step show ?thesis
        by (auto simp: alloc_loop_extend intro: allocates_keeps [OF st1(2)])
    next
      case False
      with True step "1.prems" have "alloc_loop dflt v st1 = (i, st')"
        by (auto simp: alloc_loop_again)
      with "1.IH" [OF _ step [symmetric]] True False step st1 show ?thesis
        by (auto intro: allocates_keeps)
    qed
  qed
qed

lemma live_index: "space_wf dflt st \<Longrightarrow> card (live st) \<le> length (slots st)"
  using card_mono [of "{..<length (slots st)}" "live st"] by (auto simp: live_def)

lemma live_full:
  assumes "space_wf dflt st"
  shows "live st = {..<length (slots st)} \<longleftrightarrow> card (live st) = length (slots st)"
proof
  assume "card (live st) = length (slots st)"
  moreover have "live st \<subseteq> {..<length (slots st)}" by (auto simp: live_def)
  ultimately show "live st = {..<length (slots st)}" by (intro card_subset_eq) auto
qed simp

lemma live_count_card:
  assumes "space_wf dflt st"
  shows "live_count st = card (live st)"
proof -
  let ?n = "{..<length (slots st)}"
  have part: "?n = live st \<union> set (free st) \<union> dead st"
    and disj: "live st \<inter> set (free st) = {}" "(live st \<union> set (free st)) \<inter> dead st = {}"
    using assms by (auto simp: space_wf_def live_def dead_def)
  have "length (slots st) = card (live st) + card (set (free st)) + card (dead st)"
  proof -
    have "length (slots st) = card ?n" by simp
    also have "\<dots> = card (live st) + card (set (free st)) + card (dead st)"
      unfolding part using disj by (simp add: card_Un_disjoint)
    finally show ?thesis .
  qed
  moreover have "card (set (free st)) = length (free st)" "pending_dead st = card (dead st)"
    using assms distinct_card [of "free st"] unfolding space_wf_def by metis+
  ultimately show ?thesis by (simp add: live_count_def)
qed

lemma alloc_allocates:
  "space_wf dflt st \<Longrightarrow> alloc dflt v st = Some (h, st') \<Longrightarrow> allocates dflt v st (unat h) st'"
  using alloc_loop_allocates [of dflt st v]
  by (auto simp: alloc_def set_alive_def unat_of_nat_small split: prod.splits if_splits)

text \<open>Where the index of an allocation lies: it extends the vector only when every slot is live.\<close>

lemma alloc_loop_index:
  assumes "space_wf dflt st" "alloc_loop dflt v st = (i, st')"
  shows "i \<le> length (slots st)" "i = length (slots st) \<longleftrightarrow> live st = {..<length (slots st)}"
proof -
  have a: "allocates dflt v st i (set_alive i st')" by (rule alloc_loop_allocates [OF assms])
  then have "i \<in> live (set_alive i st')" by (simp add: allocates_def)
  then have "i < length (slots (set_alive i st'))" by (simp add: live_def)
  with a show "i \<le> length (slots st)" by (auto simp: allocates_def split: if_splits)
  show "i = length (slots st) \<longleftrightarrow> live st = {..<length (slots st)}"
  proof
    assume "i = length (slots st)"
    with \<open>i < length (slots (set_alive i st'))\<close> a show "live st = {..<length (slots st)}"
      by (auto simp: allocates_def split: if_splits)
  next
    assume "live st = {..<length (slots st)}"
    with a \<open>i \<le> length (slots st)\<close> show "i = length (slots st)"
      by (auto simp: allocates_def)
  qed
qed

text \<open>
  Allocation never hands out a slot in use. In a well-formed space that fits 32-bit
  handles, \<open>alloc\<close> panics exactly when all \<open>2 ^ 32\<close> slots are live; otherwise the handle names
  a slot that was not live and now holds the value, every other live slot keeps its payload,
  the live slots are the old ones and this one, and the slot vector is extended only if it
  had no dead or free slot left, however the sweep was split into steps.
\<close>

theorem alloc_exact:
  assumes "space_wf dflt st" "length (slots st) \<le> 2 ^ 32"
  shows "(alloc dflt v st = None \<longleftrightarrow> card (live st) = 2 ^ 32) \<and>
    (\<forall>h st'. alloc dflt v st = Some (h, st') \<longrightarrow>
       space_wf dflt st' \<and> unat h \<notin> live st \<and> live st' = insert (unat h) (live st) \<and>
       slot_get st' h = Some v \<and> (\<forall>g. unat g \<in> live st \<longrightarrow> slot_get st' g = slot_get st g) \<and>
       length (slots st') = (if card (live st) = length (slots st) then length (slots st) + 1 else length (slots st)))"
proof (intro conjI allI impI)
  obtain i st' where loop: "alloc_loop dflt v st = (i, st')" by fastforce
  note idx = alloc_loop_index [OF assms(1) loop]
  show "alloc dflt v st = None \<longleftrightarrow> card (live st) = 2 ^ 32"
  proof -
    have "alloc dflt v st = None \<longleftrightarrow> \<not> i < 2 ^ 32" by (simp add: alloc_def loop)
    also have "\<dots> \<longleftrightarrow> card (live st) = 2 ^ 32"
    proof
      assume "\<not> i < 2 ^ 32"
      with idx(1) assms(2) have "i = length (slots st)" "length (slots st) = 2 ^ 32" by linarith+
      with idx(2) live_full [OF assms(1)] show "card (live st) = 2 ^ 32" by metis
    next
      assume c: "card (live st) = 2 ^ 32"
      with live_index [OF assms(1)] assms(2) have "length (slots st) = 2 ^ 32" by linarith
      with c idx(2) live_full [OF assms(1)] show "\<not> i < 2 ^ 32" by (metis less_irrefl)
    qed
    finally show ?thesis .
  qed
next
  fix h st' assume "alloc dflt v st = Some (h, st')"
  then have a: "allocates dflt v st (unat h) st'" by (rule alloc_allocates [OF assms(1)])
  have inl: "g < length (slots st')" if "g \<in> live st'" for g using that by (simp add: live_def)
  from a inl show "space_wf dflt st'" "unat h \<notin> live st" "live st' = insert (unat h) (live st)"
    "slot_get st' h = Some v"
    by (auto simp: allocates_def slot_get_def list_get_def)
  show "slot_get st' g = slot_get st g" if "unat g \<in> live st" for g
  proof -
    have "unat g < length (slots st)" using that by (simp add: live_def)
    with a that show ?thesis by (auto simp: allocates_def slot_get_def list_get_def)
  qed
  show "length (slots st') = (if card (live st) = length (slots st) then length (slots st) + 1 else length (slots st))"
    using a live_full [OF assms(1)] by (simp add: allocates_def)
qed

definition demo_space :: "nat space_state" where
  "demo_space = \<lparr>slots = [7, 0, 9, 8], free = [1], alive = [True, False, False, True],
                 released = [False, True, False, False], sweep_cursor = 2, pending_dead = 1\<rparr>"

lemma demo_dead: "dead demo_space = {2}" "live demo_space = {0, 3}"
  by (auto simp: dead_def live_def demo_space_def less_Suc_eq numeral_nat)

lemma demo_space_wf: "space_wf 0 demo_space"
  unfolding space_wf_def demo_dead by (auto simp: demo_space_def less_Suc_eq numeral_nat)

lemma alloc_exact_witness:
  "alloc 0 5 demo_space \<noteq> None"
  using alloc_exact [of 0 demo_space 5, OF demo_space_wf]
  by (simp add: demo_dead) (simp add: demo_space_def)

section \<open>Publication of a mark\<close>

lemma publish_released:
  "length rel = length marked \<Longrightarrow> i < length marked \<Longrightarrow>
     map2 (\<lambda>flag m. if m then False else flag) rel marked ! i = (rel ! i \<and> \<not> marked ! i)"
  by simp

lemma length_filter_enumerate:
  "length (filter (\<lambda>(i, m). P i m) (enumerate 0 xs)) = card {i. i < length xs \<and> P i (xs ! i)}"
proof -
  have "map fst (filter (\<lambda>(i, m). P i m) (enumerate 0 xs)) = filter (\<lambda>i. P i (xs ! i)) [0..<length xs]"
  proof (induction xs rule: rev_induct)
    case (snoc x xs)
    have "filter (\<lambda>i. P i ((xs @ [x]) ! i)) [0..<length xs] = filter (\<lambda>i. P i (xs ! i)) [0..<length xs]"
      by (rule filter_cong) (auto simp: nth_append)
    with snoc show ?case by (simp add: enumerate_append_eq)
  qed simp
  then have "length (filter (\<lambda>(i, m). P i m) (enumerate 0 xs)) = length (filter (\<lambda>i. P i (xs ! i)) [0..<length xs])"
    by (metis length_map)
  also have "\<dots> = card (set (filter (\<lambda>i. P i (xs ! i)) [0..<length xs]))"
    by (rule distinct_card [symmetric]) simp
  also have "set (filter (\<lambda>i. P i (xs ! i)) [0..<length xs]) = {i. i < length xs \<and> P i (xs ! i)}"
    by auto
  finally show ?thesis .
qed

lemma publish_mark_wf:
  assumes wf: "space_wf dflt st" and len: "length marked = length (slots st)"
  shows "space_wf dflt (publish_mark marked st)"
    "live (publish_mark marked st) = {i. i < length (slots st) \<and> marked ! i}"
    "slots (publish_mark marked st) = slots st"
    "set (free (publish_mark marked st)) \<subseteq> set (free st)"
proof -
  let ?st = "publish_mark marked st"
  let ?rel = "map2 (\<lambda>flag m. if m then False else flag) (released st) marked"
  have sel: "slots ?st = slots st" "alive ?st = marked" "released ?st = ?rel" "sweep_cursor ?st = 0"
    "free ?st = filter (\<lambda>i. \<not> marked ! i) (free st)"
    by (simp_all add: publish_mark_def Let_def)
  have rel: "?rel ! i = (released st ! i \<and> \<not> marked ! i)" if "i < length (slots st)" for i
    using wf len that by (intro publish_released) (auto simp: space_wf_def)
  have "pending_dead ?st = card (dead ?st)"
    by (simp add: publish_mark_def Let_def length_filter_enumerate dead_def len)
  then show "space_wf dflt ?st"
    using wf len rel by (auto simp: space_wf_def sel dest: bspec)
  show "slots ?st = slots st" "set (free ?st) \<subseteq> set (free st)" by (auto simp: sel)
  show "live ?st = {i. i < length (slots st) \<and> marked ! i}" by (simp add: live_def sel)
qed

lemma finish_sweep_wf:
  "space_wf dflt st \<Longrightarrow>
     space_wf dflt (finish_sweep dflt st) \<and> sweep_keeps st (finish_sweep dflt st) \<and> dead (finish_sweep dflt st) = {}"
proof (induction dflt st rule: finish_sweep.induct)
  case (1 dflt st)
  obtain st1 again where step: "sweep_step dflt st = (st1, again)" by fastforce
  note st1 = sweep_step_wf [OF "1.prems" step]
  show ?case
  proof (cases again)
    case True
    then have "finish_sweep dflt st = finish_sweep dflt st1"
      by (subst finish_sweep.simps) (simp add: step)
    with "1.IH" [OF step [symmetric]] True st1 show ?thesis by (auto intro: sweep_keeps_trans)
  next
    case False
    then have "finish_sweep dflt st = st1" by (subst finish_sweep.simps) (simp add: step)
    with st1 False show ?thesis by simp
  qed
qed

text \<open>
  A published mark is exact. With a mark bit per slot, \<open>publish_mark\<close> of a well-formed
  space is well-formed, the live slots are exactly the marked ones (a marked slot that was
  free is taken off the free list), \<open>live_count\<close> is their number and no payload changes.
  Completing the sweep then keeps the live slots and their payloads, and every other slot
  ends in the free list exactly once with the default payload.
\<close>

theorem publish_sweep_exact:
  assumes "space_wf dflt st" "length marked = length (slots st)"
  shows "(let st1 = publish_mark marked st; st2 = finish_sweep dflt st1 in
     space_wf dflt st1 \<and> live st1 = {i. i < length (slots st) \<and> marked ! i} \<and>
     live_count st1 = card (live st1) \<and> slots st1 = slots st \<and>
     space_wf dflt st2 \<and> live st2 = live st1 \<and> live_count st2 = card (live st1) \<and>
     distinct (free st2) \<and> set (free st2) = {i. i < length (slots st) \<and> \<not> marked ! i} \<and>
     (\<forall>i < length (slots st). slots st2 ! i = (if marked ! i then slots st ! i else dflt)))"
proof -
  define st1 where "st1 = publish_mark marked st"
  define st2 where "st2 = finish_sweep dflt st1"
  note p = publish_mark_wf [OF assms, folded st1_def]
  from finish_sweep_wf [OF p(1), folded st2_def]
  have f: "space_wf dflt st2" "sweep_keeps st1 st2" "dead st2 = {}" by auto
  have live: "live st2 = live st1" by (rule sweep_keeps_live [OF f(2)])
  have len: "length (slots st2) = length (slots st)" using f(2) p(3) by (simp add: sweep_keeps_def)
  have al: "alive st2 ! i = marked ! i" if "i < length (slots st)" for i
  proof -
    have "i \<in> live st2 \<longleftrightarrow> marked ! i" using that by (simp add: live p(2))
    with that show ?thesis by (simp add: live_def len)
  qed
  have rel: "released st2 ! i \<longleftrightarrow> \<not> marked ! i" if "i < length (slots st)" for i
    using f(1,3) al [OF that] that by (auto simp: space_wf_def dead_def len)
  have fr: "set (free st2) = {i. i < length (slots st) \<and> \<not> marked ! i}" "distinct (free st2)"
    using f(1) rel by (auto simp: space_wf_def len)
  have pay: "slots st2 ! i = (if marked ! i then slots st ! i else dflt)" if "i < length (slots st)" for i
  proof (cases "marked ! i")
    case True
    then have "i \<in> live st1" using that by (simp add: p(2))
    with f(2) have "slots st2 ! i = slots st1 ! i" by (simp add: sweep_keeps_def)
    with True show ?thesis by (simp add: p(3))
  next
    case False
    with rel [OF that] f(1) that show ?thesis by (auto simp: space_wf_def len)
  qed
  show ?thesis
    unfolding Let_def st1_def [symmetric] st2_def [symmetric]
    using p f(1) live live_count_card [OF p(1)] live_count_card [OF f(1)] fr pay by simp
qed

lemma publish_sweep_exact_witness:
  "free (finish_sweep 0 (publish_mark [False, True, True, False] demo_space)) \<noteq> []
   \<and> slots (finish_sweep 0 (publish_mark [False, True, True, False] demo_space)) ! 2 = 9"
proof -
  have "length [False, True, True, False] = length (slots demo_space)"
    by (simp add: demo_space_def)
  note all = publish_sweep_exact [OF demo_space_wf this, unfolded Let_def]
  from all have "set (free (finish_sweep 0 (publish_mark [False, True, True, False] demo_space)))
      = {i. i < length (slots demo_space) \<and> \<not> [False, True, True, False] ! i}"
    by (elim conjE) assumption
  moreover from all have "\<forall>i < length (slots demo_space).
       slots (finish_sweep 0 (publish_mark [False, True, True, False] demo_space)) ! i
       = (if [False, True, True, False] ! i then slots demo_space ! i else 0)"
    by (elim conjE) assumption
  moreover have "0 \<in> {i. i < length (slots demo_space) \<and> \<not> [False, True, True, False] ! i}"
    by (simp add: demo_space_def)
  ultimately show ?thesis by (auto simp: demo_space_def)
qed

end
