(* ===== verification/PropKeys.thy ===== *)
theory PropKeys
  imports JsValues
begin

text \<open>
  Property keys (\<open>v12-heap/src/prop_key.rs\<close>): one \<open>u32\<close> whose high bit tells symbol
  handles from string handles, and its mixing function.
\<close>

type_synonym prop_key = u32

definition SYMBOL_FLAG :: u32 where "SYMBOL_FLAG = push_bit 31 1"
definition PAYLOAD_MASK :: u32 where "PAYLOAD_MASK = SYMBOL_FLAG - 1"

definition pk_from_string :: "handle \<Rightarrow> prop_key" where
  "pk_from_string h = h"

definition pk_from_symbol :: "handle \<Rightarrow> prop_key" where
  "pk_from_symbol h = SYMBOL_FLAG OR h"

text \<open>\<open>from_parts\<close> panics (\<open>None\<close>) on a payload of more than 31 bits.\<close>

definition pk_from_parts :: "bool \<Rightarrow> u32 \<Rightarrow> prop_key option" where
  "pk_from_parts is_sym payload =
     (if payload AND NOT PAYLOAD_MASK = 0
      then Some (if is_sym then SYMBOL_FLAG OR payload else payload) else None)"

definition pk_parts :: "prop_key \<Rightarrow> bool \<times> u32" where
  "pk_parts k = (k AND SYMBOL_FLAG \<noteq> 0, k AND PAYLOAD_MASK)"

definition pk_is_symbol :: "prop_key \<Rightarrow> bool" where
  "pk_is_symbol k \<longleftrightarrow> k AND SYMBOL_FLAG \<noteq> 0"

definition pk_is_string :: "prop_key \<Rightarrow> bool" where
  "pk_is_string k \<longleftrightarrow> k AND SYMBOL_FLAG = 0"

definition pk_string :: "prop_key \<Rightarrow> handle option" where
  "pk_string k = (if pk_is_string k then Some k else None)"

definition pk_symbol :: "prop_key \<Rightarrow> handle option" where
  "pk_symbol k = (if pk_is_symbol k then Some (k AND PAYLOAD_MASK) else None)"

definition pk_hash :: "prop_key \<Rightarrow> u32" where
  "pk_hash k =
     (let z = k XOR drop_bit 16 k;
          z = z * 0x7FEF352D;
          z = z XOR drop_bit 15 z;
          z = z * 0x846CA68B
      in z XOR drop_bit 16 z)"

section \<open>Encoding\<close>

lemma payload_mask_form: "PAYLOAD_MASK = mask 31"
  by (simp add: PAYLOAD_MASK_def SYMBOL_FLAG_def mask_eq_exp_minus_1)

lemma symbol_flag_bit [simp]: "bit SYMBOL_FLAG n \<longleftrightarrow> n = 31"
  unfolding SYMBOL_FLAG_def bit_push_bit_iff bit_1_iff by auto

lemma payload_bit [simp]: "bit PAYLOAD_MASK n \<longleftrightarrow> n < 31"
  by (auto simp: payload_mask_form bit_simps)

text \<open>Keys are compared on the flag bit and the 31 bits below it.\<close>

lemma key_eq_iff: "(a :: u32) = b \<longleftrightarrow> (bit a 31 \<longleftrightarrow> bit b 31) \<and> (\<forall>n < 31. bit a n \<longleftrightarrow> bit b n)"
proof
  assume same: "(bit a 31 \<longleftrightarrow> bit b 31) \<and> (\<forall>n < 31. bit a n \<longleftrightarrow> bit b n)"
  show "a = b"
  proof (rule bit_word_eqI)
    fix n assume "n < LENGTH(32)"
    then have "n = 31 \<or> n < 31" by auto
    with same show "bit a n \<longleftrightarrow> bit b n" by auto
  qed
qed simp

lemma symbol_flag_test: "k AND SYMBOL_FLAG = 0 \<longleftrightarrow> \<not> bit k 31"
  by (simp add: key_eq_iff bit_simps)

lemma payload_test: "p AND NOT PAYLOAD_MASK = 0 \<longleftrightarrow> \<not> bit (p :: u32) 31"
  by (simp add: key_eq_iff bit_simps)

lemma less_flag_iff: "p < SYMBOL_FLAG \<longleftrightarrow> \<not> bit (p :: u32) 31"
proof -
  have "bit p 31 \<longleftrightarrow> odd (unat p div 2 ^ 31)" 
    using bit_iff_odd [of "unat p" 31] by (simp add: bit_unsigned_iff)
  moreover have "unat p div 2 ^ 31 < 2" using unat_u32_lt [of p] by (simp add: less_mult_imp_div_less)
  then have "odd (unat p div 2 ^ 31) \<longleftrightarrow> unat p div 2 ^ 31 \<noteq> 0" by (auto simp: less_2_cases_iff)
  moreover have "unat p div 2 ^ 31 = 0 \<longleftrightarrow> unat p < 2 ^ 31" by (simp add: div_eq_0_iff)
  ultimately show ?thesis by (simp add: word_less_nat_alt SYMBOL_FLAG_def)
qed

text \<open>
  The key encoding is exact: \<open>from_parts\<close> succeeds for precisely the 31-bit
  payloads, \<open>parts\<close> inverts it, every word is the key of its own parts, a string and a
  symbol key of genuine handles are never equal, and each is read back as the handle it was
  made from.
\<close>

theorem prop_key_encoding:
  "(pk_from_parts s p = Some k \<longleftrightarrow> p < SYMBOL_FLAG \<and> pk_parts k = (s, p))
   \<and> case_prod pk_from_parts (pk_parts k) = Some k
   \<and> (pk_is_symbol k \<longleftrightarrow> \<not> pk_is_string k)
   \<and> (pk_string k = Some h \<longleftrightarrow> h < SYMBOL_FLAG \<and> k = pk_from_string h)
   \<and> (pk_symbol k = Some h \<longleftrightarrow> h < SYMBOL_FLAG \<and> k = pk_from_symbol h)"
  unfolding pk_from_parts_def pk_parts_def pk_is_symbol_def pk_is_string_def pk_string_def
    pk_symbol_def pk_from_string_def pk_from_symbol_def payload_test symbol_flag_test less_flag_iff
    prod.case prod.inject option.inject
  by (intro conjI) (auto simp: key_eq_iff bit_simps)

section \<open>Mixing\<close>

text \<open>Both kinds of round are bijections of the 32-bit words.\<close>

lemma xorshift_inj:
  assumes eq: "x XOR drop_bit s x = y XOR drop_bit s (y :: u32)" and s: "0 < s"
  shows "x = y"
proof (rule bit_word_eqI)
  fix n assume "n < LENGTH(32)"
  then show "bit x n \<longleftrightarrow> bit y n"
  proof (induction "32 - n" arbitrary: n rule: less_induct)
    case less
    have "bit (x XOR drop_bit s x) n \<longleftrightarrow> bit (y XOR drop_bit s y) n" using eq by simp
    then have "(bit x n \<noteq> bit x (n + s)) \<longleftrightarrow> (bit y n \<noteq> bit y (n + s))"
      by (simp add: bit_simps add.commute)
    moreover have "bit x (n + s) \<longleftrightarrow> bit y (n + s)"
    proof (cases "n + s < 32")
      case True
      with less(1) [of "n + s"] less(2) s show ?thesis by simp
    next
      case False
      then show ?thesis using bit_word_lt [of x "n + s"] bit_word_lt [of y "n + s"] by auto
    qed
    ultimately show ?case by blast
  qed
qed

lemma odd_mult_inj:
  assumes "a * m = b * m" "m * m' = (1 :: u32)"
  shows "a = b"
proof -
  have "a = a * m * m'" "b = b * m * m'" by (simp_all add: mult.assoc assms(2))
  with assms(1) show ?thesis by simp
qed

text \<open>The two multipliers and their inverses modulo \<open>2 ^ 32\<close>.\<close>

lemma mixers_inj:
  "a * 0x7FEF352D = b * 0x7FEF352D \<Longrightarrow> (a :: u32) = b"
  "a * 0x846CA68B = b * 0x846CA68B \<Longrightarrow> (a :: u32) = b"
  by (erule odd_mult_inj [where m' = 604365477], simp)
    (erule odd_mult_inj [where m' = 1124208931], simp)

text \<open>
  The mixing function is injective on 32-bit words: distinct keys never share a hash
  value, so collisions only come from reducing the hash to a table index.
\<close>

theorem prop_key_hash_injective: "pk_hash k = pk_hash k' \<longleftrightarrow> k = k'"
proof
  assume "pk_hash k = pk_hash k'"
  then show "k = k'"
    unfolding pk_hash_def Let_def
    by (auto dest!: xorshift_inj [OF _ zero_less_numeral] mixers_inj)
qed simp

end
