(* ===== verification/Shapes.thy ===== *)
theory Shapes
  imports PropKeys "HOL-Library.AList"
begin

text \<open>
  Shape nodes (\<open>v12-heap/src/shape.rs\<close>): property attributes, descriptors, the two-tier
  transition table and the two-tier descriptor list with its position index. A hash map is an
  association list, updated with \<open>AList.update\<close>; nothing proved depends on its order.
\<close>

section \<open>Attributes and descriptors\<close>

datatype attrs = Attrs (attrs_bits: u8)

definition WRITABLE :: u8 where "WRITABLE = 1"
definition ENUMERABLE :: u8 where "ENUMERABLE = 2"
definition CONFIGURABLE :: u8 where "CONFIGURABLE = 4"

definition attrs_new :: "bool \<Rightarrow> bool \<Rightarrow> bool \<Rightarrow> attrs" where
  "attrs_new w e c =
     (let bits = 0;
          bits = (if w then bits OR WRITABLE else bits);
          bits = (if e then bits OR ENUMERABLE else bits);
          bits = (if c then bits OR CONFIGURABLE else bits)
      in Attrs bits)"

definition attrs_writable :: "attrs \<Rightarrow> bool" where
  "attrs_writable a \<longleftrightarrow> attrs_bits a AND WRITABLE \<noteq> 0"
definition attrs_enumerable :: "attrs \<Rightarrow> bool" where
  "attrs_enumerable a \<longleftrightarrow> attrs_bits a AND ENUMERABLE \<noteq> 0"
definition attrs_configurable :: "attrs \<Rightarrow> bool" where
  "attrs_configurable a \<longleftrightarrow> attrs_bits a AND CONFIGURABLE \<noteq> 0"

definition ATTRS_DEFAULT :: attrs where "ATTRS_DEFAULT = Attrs (WRITABLE OR ENUMERABLE OR CONFIGURABLE)"
definition ATTRS_BUILTIN :: attrs where "ATTRS_BUILTIN = Attrs (WRITABLE OR CONFIGURABLE)"
definition ATTRS_ENUMERABLE_ACCESSOR :: attrs where
  "ATTRS_ENUMERABLE_ACCESSOR = Attrs (ENUMERABLE OR CONFIGURABLE)"
definition ATTRS_FUNCTION_PROTOTYPE :: attrs where
  "ATTRS_FUNCTION_PROTOTYPE = attrs_new True False False"

datatype descriptor =
  Data (desc_key: prop_key) (data_slot: u32) (desc_attrs: attrs)
| Accessor (desc_key: prop_key) (acc_getter: "handle option") (acc_setter: "handle option") (desc_attrs: attrs)

fun desc_slot :: "descriptor \<Rightarrow> u32 option" where
  "desc_slot (Data _ s _) = Some s"
| "desc_slot (Accessor _ _ _ _) = None"

fun desc_is_data :: "descriptor \<Rightarrow> bool" where
  "desc_is_data (Data _ _ _) = True"
| "desc_is_data (Accessor _ _ _ _) = False"

fun desc_is_accessor :: "descriptor \<Rightarrow> bool" where
  "desc_is_accessor (Data _ _ _) = False"
| "desc_is_accessor (Accessor _ _ _ _) = True"

fun desc_getter :: "descriptor \<Rightarrow> handle option" where
  "desc_getter (Accessor _ g _ _) = g"
| "desc_getter (Data _ _ _) = None"

fun desc_setter :: "descriptor \<Rightarrow> handle option" where
  "desc_setter (Accessor _ _ s _) = s"
| "desc_setter (Data _ _ _) = None"

lemma attrs_flags_new:
  "attrs_writable (attrs_new w e c) = w" "attrs_enumerable (attrs_new w e c) = e"
  "attrs_configurable (attrs_new w e c) = c"
  by (simp_all add: attrs_new_def attrs_writable_def attrs_enumerable_def attrs_configurable_def
      WRITABLE_def ENUMERABLE_def CONFIGURABLE_def)

section \<open>Transitions\<close>

definition TRANSITIONS_INLINE_CAP :: nat where "TRANSITIONS_INLINE_CAP = 8"

type_synonym edge = "prop_key \<times> attrs"
type_synonym inline_entry = "(prop_key \<times> attrs \<times> handle) option"

datatype transitions =
  TInline "inline_entry list" nat
| TMap "(edge \<times> handle) list"

definition transitions_default :: transitions where
  "transitions_default = TInline (replicate TRANSITIONS_INLINE_CAP None) 0"

fun transitions_len :: "transitions \<Rightarrow> nat" where
  "transitions_len (TInline _ n) = n"
| "transitions_len (TMap m) = length m"

definition transitions_is_empty :: "transitions \<Rightarrow> bool" where
  "transitions_is_empty t \<longleftrightarrow> transitions_len t = 0"

definition flatten_entries :: "inline_entry list \<Rightarrow> (prop_key \<times> attrs \<times> handle) list" where
  "flatten_entries es = List.map_filter id es"

fun transitions_get :: "transitions \<Rightarrow> prop_key \<Rightarrow> attrs \<Rightarrow> handle option" where
  "transitions_get (TInline es _) key at =
     map_option (\<lambda>(_, _, h). h) (find (\<lambda>(k, a, _). k = key \<and> a = at) (flatten_entries es))"
| "transitions_get (TMap m) key at = map_of m (key, at)"

text \<open>The replacement pass over the inline entries: the first match is overwritten.\<close>

fun replace_entry :: "prop_key \<Rightarrow> attrs \<Rightarrow> handle \<Rightarrow> inline_entry list \<Rightarrow> inline_entry list" where
  "replace_entry key at child [] = []"
| "replace_entry key at child (None # es) = None # replace_entry key at child es"
| "replace_entry key at child (Some (k, a, h) # es) =
     (if k = key \<and> a = at then Some (k, a, child) # es else Some (k, a, h) # replace_entry key at child es)"

fun transitions_insert :: "transitions \<Rightarrow> prop_key \<Rightarrow> attrs \<Rightarrow> handle \<Rightarrow> transitions" where
  "transitions_insert (TInline es n) key at child =
     (if transitions_get (TInline es n) key at \<noteq> None
      then TInline (replace_entry key at child es) n
      else if n < TRANSITIONS_INLINE_CAP then TInline (es[n := Some (key, at, child)]) (n + 1)
      else TMap (AList.update (key, at) child
             (fold (\<lambda>(k, a, h) m. AList.update (k, a) h m) (flatten_entries es) [])))"
| "transitions_insert (TMap m) key at child = TMap (AList.update (key, at) child m)"

text \<open>The compaction loop of \<open>retain\<close>: from index \<open>i\<close>, with \<open>kept\<close> entries written so far.\<close>

function compact_entries :: "(prop_key \<Rightarrow> attrs \<Rightarrow> handle \<Rightarrow> bool) \<Rightarrow> nat \<Rightarrow> nat \<Rightarrow> inline_entry list \<Rightarrow> nat
    \<Rightarrow> inline_entry list \<times> nat" where
  "compact_entries keep i n es kept =
     (if i < n then
        (case es ! i of
           Some (k, a, h) \<Rightarrow>
             if keep k a h then compact_entries keep (i + 1) n (es[kept := Some (k, a, h)]) (kept + 1)
             else compact_entries keep (i + 1) n es kept
         | None \<Rightarrow> compact_entries keep (i + 1) n es kept)
      else (es, kept))"
  by pat_completeness auto
termination
  by (relation "measure (\<lambda>(keep, i, n, es, kept). n - i)") auto

declare compact_entries.simps [simp del]

fun transitions_retain :: "(prop_key \<Rightarrow> attrs \<Rightarrow> handle \<Rightarrow> bool) \<Rightarrow> transitions \<Rightarrow> transitions" where
  "transitions_retain keep (TInline es n) =
     (case compact_entries keep 0 n es 0 of (es', kept) \<Rightarrow>
        TInline (take kept es' @ replicate (length es' - kept) None) kept)"
| "transitions_retain keep (TMap m) = TMap (filter (\<lambda>((k, a), h). keep k a h) m)"

fun transitions_iter :: "transitions \<Rightarrow> (prop_key \<times> attrs \<times> handle) list" where
  "transitions_iter (TInline es n) = flatten_entries (take n es)"
| "transitions_iter (TMap m) = map (\<lambda>((k, a), h). (k, a, h)) m"

section \<open>Descriptors\<close>

definition DESCRIPTORS_INLINE_CAP :: nat where "DESCRIPTORS_INLINE_CAP = 8"

datatype descriptors =
  DInline "descriptor list"
| DOutOfLine "descriptor list" "(prop_key \<times> u32) list"

definition descriptors_default :: descriptors where "descriptors_default = DInline []"

text \<open>\<open>indexed\<close>: each key maps to the first position that holds it, narrowed to 32 bits.\<close>

definition indexed :: "descriptor list \<Rightarrow> descriptor list \<times> (prop_key \<times> u32) list" where
  "indexed flat =
     (flat, fold (\<lambda>(i, d) m. if map_of m (desc_key d) = None
                             then AList.update (desc_key d) (word_of_nat i) m else m)
              (enumerate 0 flat) [])"

fun descriptors_push :: "descriptors \<Rightarrow> descriptor \<Rightarrow> descriptors" where
  "descriptors_push (DInline ds) d =
     (if length ds < DESCRIPTORS_INLINE_CAP then DInline (ds @ [d])
      else case indexed (ds @ [d]) of (flat, index) \<Rightarrow> DOutOfLine flat index)"
| "descriptors_push (DOutOfLine ds _) d =
     (case indexed (ds @ [d]) of (flat, index) \<Rightarrow> DOutOfLine flat index)"

fun descriptors_as_slice :: "descriptors \<Rightarrow> descriptor list" where
  "descriptors_as_slice (DInline ds) = ds"
| "descriptors_as_slice (DOutOfLine ds _) = ds"

definition descriptors_len :: "descriptors \<Rightarrow> nat" where
  "descriptors_len d = length (descriptors_as_slice d)"

definition descriptors_is_empty :: "descriptors \<Rightarrow> bool" where
  "descriptors_is_empty d \<longleftrightarrow> descriptors_len d = 0"

fun descriptors_find :: "descriptors \<Rightarrow> prop_key \<Rightarrow> descriptor option" where
  "descriptors_find (DInline ds) key = find (\<lambda>d. desc_key d = key) ds"
| "descriptors_find (DOutOfLine ds index) key =
     Option.bind (map_of index key) (\<lambda>pos.
       Option.bind (list_get ds (unat pos)) (\<lambda>d. if desc_key d = key then Some d else None))"

section \<open>Shapes\<close>

type_synonym validity_cell_id = u32

definition VALIDITY_NONE :: validity_cell_id where "VALIDITY_NONE = 0"

record shape =
  parent :: "handle option"
  transitions :: transitions
  descriptors :: descriptors
  proto_cell :: validity_cell_id
  num_own :: u32

definition shape_default :: shape where
  "shape_default =
     \<lparr>parent = None, transitions = transitions_default, descriptors = descriptors_default,
      proto_cell = VALIDITY_NONE, num_own = 0\<rparr>"

definition shape_root :: shape where "shape_root = shape_default"

definition shape_reserved :: "u32 \<Rightarrow> shape" where
  "shape_reserved reserved = shape_default\<lparr>num_own := reserved\<rparr>"

definition find_descriptor :: "shape \<Rightarrow> prop_key \<Rightarrow> descriptor option" where
  "find_descriptor sh key = descriptors_find (descriptors sh) key"

section \<open>The transition table is an association list\<close>

fun edge_entry :: "prop_key \<times> attrs \<times> handle \<Rightarrow> edge \<times> handle" where
  "edge_entry (k, a, h) = ((k, a), h)"

fun entry_edge :: "edge \<times> handle \<Rightarrow> prop_key \<times> attrs \<times> handle" where
  "entry_edge ((k, a), h) = (k, a, h)"

lemma entry_edge_inv [simp]: "entry_edge (edge_entry x) = x" "edge_entry (entry_edge y) = y"
  by (cases x; simp) (cases y rule: entry_edge.cases; simp)

lemma entry_edge_comp [simp]: "entry_edge \<circ> edge_entry = id" "edge_entry \<circ> entry_edge = id"
  by (simp_all add: fun_eq_iff del: split_paired_All)

fun edges_of :: "transitions \<Rightarrow> (edge \<times> handle) list" where
  "edges_of (TInline es _) = map edge_entry (flatten_entries es)"
| "edges_of (TMap m) = m"

definition inline_repr :: "(edge \<times> handle) list \<Rightarrow> inline_entry list" where
  "inline_repr ts = map (Some \<circ> entry_edge) ts @ replicate (TRANSITIONS_INLINE_CAP - length ts) None"

text \<open>
  The representation invariant: the inline entries are the first \<open>len\<close> cells, at most
  \<open>TRANSITIONS_INLINE_CAP\<close>, and no edge is recorded twice.
\<close>

fun transitions_wf :: "transitions \<Rightarrow> bool" where
  "transitions_wf (TInline es n) =
     (es = inline_repr (edges_of (TInline es n)) \<and> n = length (edges_of (TInline es n)) \<and>
      n \<le> TRANSITIONS_INLINE_CAP \<and> distinct (map fst (edges_of (TInline es n))))"
| "transitions_wf (TMap m) = distinct (map fst m)"

lemma flatten_simps [simp]:
  "flatten_entries [] = []" "flatten_entries (None # es) = flatten_entries es"
  "flatten_entries (Some x # es) = x # flatten_entries es"
  "flatten_entries (es @ es') = flatten_entries es @ flatten_entries es'"
  "flatten_entries (replicate n None) = []"
  by (simp_all add: flatten_entries_def List.map_filter_def o_def filter_empty_conv del: split_paired_Ex)

lemma flatten_map_Some [simp]: "flatten_entries (map (Some \<circ> f) xs) = map f xs"
  by (induction xs) simp_all

lemma flatten_inline_repr [simp]: "flatten_entries (inline_repr ts) = map entry_edge ts"
  by (simp add: inline_repr_def)

lemma edges_of_inline [simp]: "edges_of (TInline (inline_repr ts) n) = ts"
  by simp

lemma transitions_wf_inline:
  "transitions_wf (TInline (inline_repr ts) (length ts)) \<longleftrightarrow>
     length ts \<le> TRANSITIONS_INLINE_CAP \<and> distinct (map fst ts)"
  by simp

lemma transitions_wf_cases [consumes 1, case_names Inline Map]:
  assumes "transitions_wf t"
  obtains ts where "t = TInline (inline_repr ts) (length ts)" "length ts \<le> TRANSITIONS_INLINE_CAP"
    "distinct (map fst ts)" "edges_of t = ts"
  | m where "t = TMap m" "distinct (map fst m)" "edges_of t = m"
proof (cases t)
  case (TInline es n)
  with assms that(1) [of "edges_of t"] show thesis by (metis transitions_wf.simps(1))
qed (use assms that(2) in auto)

lemma find_entries:
  "map_option (\<lambda>(_, _, h). h) (find (\<lambda>(k, a, _). k = key \<and> a = at) (map entry_edge ts)) = map_of ts (key, at)"
  by (induction ts rule: list.induct) auto

lemma transitions_get_edges: "transitions_get t key at = map_of (edges_of t) (key, at)"
proof (cases t)
  case (TInline es n)
  have "transitions_get t key at = map_of (map edge_entry (flatten_entries es)) (key, at)"
    unfolding find_entries [symmetric] by (simp add: TInline)
  then show ?thesis by (simp add: TInline)
qed simp

lemma replace_entry_repr:
  "map_of ts (key, at) \<noteq> None \<Longrightarrow>
     replace_entry key at child (map (Some \<circ> entry_edge) ts @ es) =
     map (Some \<circ> entry_edge) (AList.update (key, at) child ts) @ es"
  by (induction ts) auto

lemma update_length:
  "length (AList.update k v ts) = (if map_of ts k = None then length ts + 1 else length ts)"
  by (induction ts) auto

lemma update_new: "map_of ts k = None \<Longrightarrow> AList.update k v ts = ts @ [(k, v)]"
  by (induction ts) (auto split: if_splits)

lemma fold_update_distinct:
  "distinct (map fst (acc @ ts)) \<Longrightarrow>
     fold (\<lambda>(k, a, h) m. AList.update (k, a) h m) (map entry_edge ts) acc = acc @ ts"
proof (induction ts arbitrary: acc)
  case (Cons t ts)
  obtain k a h where t: "t = ((k, a), h)" by (cases t rule: entry_edge.cases)
  with Cons.prems have "map_of acc (k, a) = None" by (auto simp: map_of_eq_None_iff)
  with Cons.IH [of "acc @ [t]"] Cons.prems t show ?case by (simp add: update_new)
qed simp

lemma transitions_insert_both:
  assumes "transitions_wf t"
  shows "transitions_wf (transitions_insert t key at child) \<and>
    edges_of (transitions_insert t key at child) = AList.update (key, at) child (edges_of t)"
  using assms
proof (cases t rule: transitions_wf_cases)
  case (Inline ts)
  let ?new = "AList.update (key, at) child ts"
  have d: "distinct (map fst ?new)" using Inline(3) by (rule distinct_update)
  have get: "transitions_get t key at = map_of ts (key, at)"
    by (simp add: transitions_get_edges Inline(4))
  have "transitions_wf (transitions_insert t key at child) \<and> edges_of (transitions_insert t key at child) = ?new"
  proof (cases "map_of ts (key, at)")
    case (Some h)
    then have len: "length ?new = length ts" by (simp add: update_length)
    have "replace_entry key at child (inline_repr ts) = inline_repr ?new"
      using Some by (simp add: inline_repr_def replace_entry_repr len)
    then have "transitions_insert t key at child = TInline (inline_repr ?new) (length ?new)"
      using get Some by (simp add: Inline(1) len del: transitions_get.simps)
    then show ?thesis
      using d len Inline(2) transitions_wf_inline [of ?new] by (simp only: edges_of_inline simp_thms)
  next
    case None
    then have new: "?new = ts @ [((key, at), child)]" by (rule update_new)
    show ?thesis
    proof (cases "length ts < TRANSITIONS_INLINE_CAP")
      case True
      then obtain k where k: "TRANSITIONS_INLINE_CAP - length ts = Suc k"
        "TRANSITIONS_INLINE_CAP - length ?new = k" by (metis Suc_diff_Suc diff_Suc_1 diff_Suc_eq_diff_pred length_append_singleton new)
      have "(inline_repr ts)[length ts := Some (key, at, child)] = inline_repr ?new"
        unfolding inline_repr_def k by (simp add: new list_update_append)
      then have "transitions_insert t key at child = TInline (inline_repr ?new) (length ?new)"
        using get None True by (simp add: Inline(1) new del: transitions_get.simps)
      with d True show ?thesis by (simp only: transitions_wf_inline edges_of_inline) (simp add: new)
    next
      case False
      have "fold (\<lambda>(k, a, h) m. AList.update (k, a) h m) (map entry_edge ts) [] = ts"
        using fold_update_distinct [of "[]" ts] Inline(3) by simp
      then have "transitions_insert t key at child = TMap ?new"
        using get None False by (simp add: Inline(1) del: transitions_get.simps)
      with d show ?thesis by simp
    qed
  qed
  then show ?thesis by (simp only: Inline(4) simp_thms)
qed (simp_all add: distinct_update)

lemma transitions_insert_edges:
  assumes "transitions_wf t"
  shows "transitions_wf (transitions_insert t key at child)" "edges_of (transitions_insert t key at child) = AList.update (key, at) child (edges_of t)"
  using transitions_insert_both [OF assms] by blast+

lemma compact_entries_spec:
  "kept \<le> i \<Longrightarrow> i \<le> n \<Longrightarrow> n = length ts \<Longrightarrow> n \<le> length es \<Longrightarrow>
   (\<forall>j. i \<le> j \<and> j < n \<longrightarrow> es ! j = Some (entry_edge (ts ! j))) \<Longrightarrow>
   compact_entries keep i n es kept = (es', kept') \<Longrightarrow>
     length es' = length es \<and>
     kept' = kept + length (filter (\<lambda>((k, a), h). keep k a h) (drop i ts)) \<and>
     take kept' es' = take kept es @ map (Some \<circ> entry_edge) (filter (\<lambda>((k, a), h). keep k a h) (drop i ts))"
proof (induction keep i n es kept arbitrary: es' kept' rule: compact_entries.induct)
  case (1 keep i n es kept)
  show ?case
  proof (cases "i < n")
    case False
    with "1.prems" show ?thesis by (subst (asm) compact_entries.simps) simp
  next
    case True
    obtain k a h where ti: "ts ! i = ((k, a), h)" by (cases "ts ! i" rule: entry_edge.cases)
    with "1.prems" True have esi: "es ! i = Some (k, a, h)" by simp
    from True "1.prems"(3) have dr: "drop i ts = ((k, a), h) # drop (i + 1) ts"
      using ti by (simp add: Cons_nth_drop_Suc [symmetric])
    show ?thesis
    proof (cases "keep k a h")
      case keep: True
      have "compact_entries keep (i + 1) n (es[kept := Some (k, a, h)]) (kept + 1) = (es', kept')"
        using "1.prems"(6) True esi keep by (subst (asm) compact_entries.simps) simp
      from "1.IH"(2) [OF True esi refl refl keep _ _ _ _ _ this] "1.prems" True
      have r: "length es' = length es"
        "kept' = kept + 1 + length (filter (\<lambda>((k, a), h). keep k a h) (drop (i + 1) ts))"
        "take kept' es' = take (kept + 1) (es[kept := Some (k, a, h)]) @
           map (Some \<circ> entry_edge) (filter (\<lambda>((k, a), h). keep k a h) (drop (i + 1) ts))"
        by auto
      have "take (kept + 1) (es[kept := Some (k, a, h)]) = take kept es @ [Some (k, a, h)]"
        using "1.prems" True by (simp add: take_Suc_conv_app_nth)
      with r(3) keep have "take kept' es' = take kept es @
          map (Some \<circ> entry_edge) (filter (\<lambda>((k, a), h). keep k a h) (drop i ts))"
        by (simp add: dr)
      moreover have "kept' = kept + length (filter (\<lambda>((k, a), h). keep k a h) (drop i ts))"
        using r(2) keep by (simp add: dr)
      ultimately show ?thesis using r(1) by (intro conjI)
    next
      case drop: False
      have "compact_entries keep (i + 1) n es kept = (es', kept')"
        using "1.prems"(6) True esi drop by (subst (asm) compact_entries.simps) simp
      from "1.IH"(3) [OF True esi refl refl drop _ _ _ _ _ this] "1.prems" True
      have "length es' = length es \<and>
        kept' = kept + length (filter (\<lambda>((k, a), h). keep k a h) (drop (i + 1) ts)) \<and>
        take kept' es' = take kept es @
          map (Some \<circ> entry_edge) (filter (\<lambda>((k, a), h). keep k a h) (drop (i + 1) ts))"
        by auto
      moreover have "filter (\<lambda>((k, a), h). keep k a h) (drop i ts) =
          filter (\<lambda>((k, a), h). keep k a h) (drop (i + 1) ts)"
        using drop by (simp add: dr)
      ultimately show ?thesis by metis
    qed
  qed
qed

lemma transitions_retain_both:
  assumes "transitions_wf t"
  shows "transitions_wf (transitions_retain keep t) \<and>
    edges_of (transitions_retain keep t) = filter (\<lambda>((k, a), h). keep k a h) (edges_of t)"
  using assms
proof (cases t rule: transitions_wf_cases)
  case (Inline ts)
  let ?new = "filter (\<lambda>((k, a), h). keep k a h) ts"
  obtain es' kept' where c: "compact_entries keep 0 (length ts) (inline_repr ts) 0 = (es', kept')" by fastforce
  have len: "length (inline_repr ts) = TRANSITIONS_INLINE_CAP" using Inline(2) by (simp add: inline_repr_def)
  from compact_entries_spec [OF _ _ refl _ _ c] Inline(2) len
  have r: "length es' = TRANSITIONS_INLINE_CAP" "kept' = length ?new"
    "take kept' es' = map (Some \<circ> entry_edge) ?new"
    by (auto simp: inline_repr_def nth_append)
  have "transitions_retain keep t = TInline (inline_repr ?new) (length ?new)"
    unfolding Inline(1) transitions_retain.simps c prod.case r(1,3) by (simp add: inline_repr_def r(2))
  moreover have "length ?new \<le> TRANSITIONS_INLINE_CAP" using Inline(2) length_filter_le le_trans by blast
  moreover have "distinct (map fst ?new)" using Inline(3) by (rule distinct_map_filter)
  ultimately have "transitions_wf (transitions_retain keep t) \<and> edges_of (transitions_retain keep t) = ?new"
    using transitions_wf_inline [of ?new] by (simp only: edges_of_inline simp_thms)
  then show ?thesis by (simp only: Inline(4) simp_thms)
qed (simp_all add: distinct_map_filter)

lemma transitions_retain_edges:
  assumes "transitions_wf t"
  shows "transitions_wf (transitions_retain keep t)" "edges_of (transitions_retain keep t) = filter (\<lambda>((k, a), h). keep k a h) (edges_of t)"
  using transitions_retain_both [OF assms] by blast+

lemma transitions_default_wf [simp]: "transitions_wf transitions_default" "edges_of transitions_default = []"
  by (simp_all add: transitions_default_def inline_repr_def)

lemma transitions_len_edges: "transitions_wf t \<Longrightarrow> transitions_len t = length (edges_of t)"
  by (cases t rule: transitions_wf_cases) simp_all

lemma map_of_filter_edge:
  "distinct (map fst m) \<Longrightarrow>
     map_of (filter (\<lambda>((k, a), h). keep k a h) m) (key, at) =
     (case map_of m (key, at) of Some h \<Rightarrow> if keep key at h then Some h else None | None \<Rightarrow> None)"
  by (induction m) (auto simp: map_of_eq_None_iff split: option.splits dest: map_of_SomeD)

lemma transitions_wf_distinct: "transitions_wf t \<Longrightarrow> distinct (map fst (edges_of t))"
  by (cases t) auto

lemma transitions_get_insert:
  "transitions_wf t \<Longrightarrow> transitions_get (transitions_insert t key at child) k a =
     (if (k, a) = (key, at) then Some child else transitions_get t k a)"
  by (simp add: transitions_get_edges transitions_insert_edges update_conv' del: fun_upd_apply)
    (simp add: fun_upd_apply)

lemma transitions_get_retain:
  "transitions_wf t \<Longrightarrow> transitions_get (transitions_retain keep t) k a =
     (case transitions_get t k a of Some h \<Rightarrow> if keep k a h then Some h else None | None \<Rightarrow> None)"
  by (simp add: transitions_get_edges transitions_retain_edges map_of_filter_edge transitions_wf_distinct)

text \<open>A transition table as the collector and the shape tree use it: inserts and prunes.\<close>

datatype trans_op =
  InsertEdge prop_key attrs handle
| PruneEdges "handle list"

fun run_op :: "trans_op \<Rightarrow> transitions \<Rightarrow> transitions" where
  "run_op (InsertEdge k a c) t = transitions_insert t k a c"
| "run_op (PruneEdges live) t = transitions_retain (\<lambda>_ _ h. h \<in> set live) t"

fun spec_op :: "trans_op \<Rightarrow> (edge \<rightharpoonup> handle) \<Rightarrow> (edge \<rightharpoonup> handle)" where
  "spec_op (InsertEdge k a c) m = m((k, a) \<mapsto> c)"
| "spec_op (PruneEdges live) m = (\<lambda>e. case m e of Some h \<Rightarrow> if h \<in> set live then Some h else None | None \<Rightarrow> None)"

definition trans_map :: "transitions \<Rightarrow> edge \<rightharpoonup> handle" where
  "trans_map t = (\<lambda>(k, a). transitions_get t k a)"

lemma run_op_refines:
  "transitions_wf t \<Longrightarrow> transitions_wf (run_op op t) \<and> trans_map (run_op op t) = spec_op op (trans_map t)"
  by (cases op)
    (auto simp: trans_map_def transitions_get_insert transitions_get_retain transitions_insert_edges
      transitions_retain_edges fun_eq_iff split: option.splits)

lemma iter_edges:
  assumes "transitions_wf t"
  shows "transitions_iter t = map entry_edge (edges_of t)"
  using assms
proof (cases t rule: transitions_wf_cases)
  case (Inline ts)
  have "take (length ts) (inline_repr ts) = map (Some \<circ> entry_edge) ts" by (simp add: inline_repr_def)
  then show ?thesis
    unfolding Inline(1) transitions_iter.simps edges_of_inline by (simp only: flatten_map_Some)
next
  case (Map m)
  have "(\<lambda>((k, a), h). (k, a, h)) = entry_edge" by (auto simp: fun_eq_iff)
  with Map show ?thesis by simp
qed

lemma trans_map_dom: "transitions_wf t \<Longrightarrow> card (dom (trans_map t)) = transitions_len t"
proof -
  assume wf: "transitions_wf t"
  have "trans_map t = map_of (edges_of t)"
    by (auto simp: trans_map_def transitions_get_edges fun_eq_iff)
  then have "card (dom (trans_map t)) = card (set (map fst (edges_of t)))"
    by (simp add: dom_map_of_conv_image_fst)
  also have "\<dots> = length (edges_of t)"
    using distinct_card [OF transitions_wf_distinct [OF wf]] by simp
  finally show ?thesis by (simp add: transitions_len_edges [OF wf])
qed

text \<open>
  The two-tier transition table is a finite map from \<open>(key, attrs)\<close> to the child. After
  any sequence of inserts and of the collector's prunes from the empty table, whatever tier
  it is in, lookup answers what the map does, \<open>len\<close> is the number of edges, and iteration
  lists each edge of the map exactly once.
\<close>

theorem transitions_refine_map:
  "(let t = fold run_op ops transitions_default; m = fold spec_op ops Map.empty in
     (\<forall>k a. transitions_get t k a = m (k, a)) \<and> transitions_len t = card (dom m) \<and>
     distinct (transitions_iter t) \<and> set (transitions_iter t) = {(k, a, h). m (k, a) = Some h})"
proof -
  have "transitions_wf (fold run_op ops t) \<and> trans_map (fold run_op ops t) = fold spec_op ops (trans_map t)"
    if "transitions_wf t" for t
    using that by (induction ops arbitrary: t) (simp_all add: run_op_refines)
  moreover have "trans_map transitions_default = Map.empty"
    by (simp add: trans_map_def transitions_get_edges fun_eq_iff)
  ultimately obtain t m where t: "t = fold run_op ops transitions_default" "m = fold spec_op ops Map.empty"
    and wf: "transitions_wf t" and m: "trans_map t = m"
    by (metis transitions_default_wf(1))
  have d: "distinct (map fst (edges_of t))" by (rule transitions_wf_distinct [OF wf])
  have get: "transitions_get t k a = m (k, a)" for k a by (simp add: m [symmetric] trans_map_def)
  have "inj_on entry_edge (set (edges_of t))" by (metis entry_edge_inv(2) inj_onI)
  with d have "distinct (transitions_iter t)"
    by (simp add: iter_edges [OF wf] distinct_map)
  moreover have "(k, a, h) \<in> set (transitions_iter t) \<longleftrightarrow> m (k, a) = Some h" for k a h
  proof -
    have "(k, a, h) \<in> set (transitions_iter t) \<longleftrightarrow> ((k, a), h) \<in> set (edges_of t)"
      unfolding iter_edges [OF wf] set_map image_iff
      by (metis edge_entry.simps entry_edge.simps entry_edge_inv(2))
    also have "\<dots> \<longleftrightarrow> map_of (edges_of t) (k, a) = Some h" using d by simp
    finally show ?thesis by (simp add: get [symmetric] transitions_get_edges)
  qed
  ultimately show ?thesis
    unfolding Let_def t [symmetric] using get trans_map_dom [OF wf] by (auto simp: m)
qed

section \<open>The descriptor list and its index\<close>

definition descriptors_of :: "descriptor list \<Rightarrow> descriptors" where
  "descriptors_of ds = foldl descriptors_push descriptors_default ds"

definition position_index :: "descriptor list \<Rightarrow> (prop_key \<times> u32) list" where
  "position_index ds = snd (indexed ds)"

lemma indexed_pair: "indexed ds = (ds, position_index ds)"
  by (simp add: position_index_def indexed_def)

lemma position_index_snoc:
  "position_index (ds @ [d]) =
     (if map_of (position_index ds) (desc_key d) = None
      then AList.update (desc_key d) (word_of_nat (length ds)) (position_index ds) else position_index ds)"
  by (simp add: position_index_def indexed_def enumerate_append_eq)

text \<open>The index names the first position of each key, as the linear scan would find it.\<close>

lemma position_index_first:
  "case map_of (position_index ds) key of
     None \<Rightarrow> find (\<lambda>d. desc_key d = key) ds = None
   | Some p \<Rightarrow> (\<exists>i < length ds. p = word_of_nat i \<and> find (\<lambda>d. desc_key d = key) ds = Some (ds ! i))"
proof (induction ds rule: rev_induct)
  case Nil
  then show ?case by (simp add: position_index_def indexed_def)
next
  case (snoc d ds)
  have fa: "find P (xs @ [x]) = (case find P xs of None \<Rightarrow> if P x then Some x else None | r \<Rightarrow> r)"
    for P and xs :: "descriptor list" and x
    by (induction xs) auto
  have mo: "map_of (position_index (ds @ [d])) key =
      (case map_of (position_index ds) key of
         None \<Rightarrow> if desc_key d = key then Some (word_of_nat (length ds)) else None | r \<Rightarrow> r)"
    by (auto simp: position_index_snoc update_conv' split: option.splits)
  show ?case
  proof (cases "map_of (position_index ds) key")
    case None
    with snoc show ?thesis by (auto simp: mo fa)
  next
    case (Some p)
    with snoc obtain i where "i < length ds" "p = word_of_nat i"
      "find (\<lambda>d. desc_key d = key) ds = Some (ds ! i)" by auto
    with Some show ?thesis by (auto simp: mo fa nth_append intro!: exI [of _ i])
  qed
qed

definition descriptors_wf :: "descriptors \<Rightarrow> bool" where
  "descriptors_wf d \<longleftrightarrow> (case d of
     DInline ds \<Rightarrow> length ds \<le> DESCRIPTORS_INLINE_CAP
   | DOutOfLine ds idx \<Rightarrow> DESCRIPTORS_INLINE_CAP < length ds \<and> idx = position_index ds)"

lemma descriptors_push_wf [simp]:
  "descriptors_wf d \<Longrightarrow> descriptors_wf (descriptors_push d x)"
  "descriptors_as_slice (descriptors_push d x) = descriptors_as_slice d @ [x]"
  by (cases d; simp add: descriptors_wf_def indexed_pair split: if_splits)+

lemma descriptors_default_wf [simp]: "descriptors_wf descriptors_default" "descriptors_as_slice descriptors_default = []"
  by (simp_all add: descriptors_default_def descriptors_wf_def)

lemma descriptors_of_wf [simp]: "descriptors_wf (descriptors_of ds)" "descriptors_as_slice (descriptors_of ds) = ds"
  by (induction ds rule: rev_induct) (simp_all add: descriptors_of_def)

lemma descriptors_find_wf:
  assumes "descriptors_wf d" "length (descriptors_as_slice d) \<le> 2 ^ 32"
  shows "descriptors_find d key = find (\<lambda>x. desc_key x = key) (descriptors_as_slice d)"
proof (cases d)
  case (DOutOfLine ds idx)
  with assms have idx: "idx = position_index ds" by (simp add: descriptors_wf_def)
  show ?thesis
  proof (cases "map_of idx key")
    case None
    with position_index_first [of key ds] show ?thesis by (simp add: DOutOfLine idx)
  next
    case (Some p)
    with position_index_first [of key ds] obtain i where i: "i < length ds" "p = word_of_nat i"
      and f: "find (\<lambda>d. desc_key d = key) ds = Some (ds ! i)" by (auto simp: idx)
    from f have "desc_key (ds ! i) = key" by (auto simp: find_Some_iff)
    moreover have "unat p = i" using i assms(2) by (simp add: DOutOfLine unat_of_nat_small)
    ultimately show ?thesis using Some i f by (simp add: DOutOfLine list_get_def)
  qed
qed simp

text \<open>
  The position index of a large layout changes nothing but the cost: whatever descriptors
  are pushed, duplicate keys included, the list reads back in order, it is inline up to the cap
  and indexed past it, and \<open>find\<close> returns the first descriptor of the key, as the linear scan
  of the inline tier does.
\<close>

theorem descriptors_find_first:
  assumes "length ds \<le> 2 ^ 32"
  shows "descriptors_as_slice (foldl descriptors_push descriptors_default ds) = ds
    \<and> ((\<exists>xs. foldl descriptors_push descriptors_default ds = DInline xs) \<longleftrightarrow> length ds \<le> DESCRIPTORS_INLINE_CAP)
    \<and> descriptors_find (foldl descriptors_push descriptors_default ds) key = find (\<lambda>d. desc_key d = key) ds"
proof -
  have wf: "descriptors_wf (descriptors_of ds)" and sl: "descriptors_as_slice (descriptors_of ds) = ds"
    by simp_all
  have "(\<exists>xs. descriptors_of ds = DInline xs) \<longleftrightarrow> length ds \<le> DESCRIPTORS_INLINE_CAP"
    using wf sl by (cases "descriptors_of ds") (auto simp: descriptors_wf_def)
  with wf sl descriptors_find_wf [OF wf] assms show ?thesis
    by (simp add: descriptors_of_def)
qed

lemma descriptors_find_first_witness:
  "descriptors_find (foldl descriptors_push descriptors_default
     (map (\<lambda>i. Data (word_of_nat (i mod 9)) (word_of_nat i) ATTRS_DEFAULT) [0..<10])) 0
   = Some (Data 0 0 ATTRS_DEFAULT)"
  using descriptors_find_first [of "map (\<lambda>i. Data (word_of_nat (i mod 9)) (word_of_nat i) ATTRS_DEFAULT) [0..<10]" 0]
  by (simp add: upt_rec)

end
