(* ===== verification/Elements.thy ===== *)
theory Elements
  imports JsValues "HOL-Library.AList"
begin

text \<open>
  Element storage (\<open>v12-heap/src/elements.rs\<close>): the integer-indexed part of an object in
  one of seven representations, and the write path that moves between them. The hash map
  of the dictionary is an association list with distinct keys; what depends on its
  iteration order is stated up to order.
\<close>

section \<open>Kinds\<close>

definition ELEMENTS_TO_DICTIONARY_INDEX :: u32 where "ELEMENTS_TO_DICTIONARY_INDEX = 1024"
definition MAX_FAST_ELEMENT_GAP :: u32 where "MAX_FAST_ELEMENT_GAP = 64"

datatype elements_kind =
    PackedSmi | HoleySmi | PackedDouble | HoleyDouble | PackedObject | HoleyObject | Dictionary

primrec rank :: "elements_kind \<Rightarrow> nat" where
  "rank PackedSmi = 0"
| "rank HoleySmi = 1"
| "rank PackedDouble = 2"
| "rank HoleyDouble = 3"
| "rank PackedObject = 4"
| "rank HoleyObject = 5"
| "rank Dictionary = 6"

definition is_holey :: "elements_kind \<Rightarrow> bool" where
  "is_holey k \<longleftrightarrow> k \<in> {HoleySmi, HoleyDouble, HoleyObject}"

definition is_dictionary :: "elements_kind \<Rightarrow> bool" where
  "is_dictionary k \<longleftrightarrow> k = Dictionary"

fun to_holey :: "elements_kind \<Rightarrow> elements_kind" where
  "to_holey PackedSmi = HoleySmi"
| "to_holey PackedDouble = HoleyDouble"
| "to_holey PackedObject = HoleyObject"
| "to_holey other = other"

section \<open>Values on the write path\<close>

datatype value_class = VC_Hole | VC_Smi i32 | VC_Double f64 | VC_Other js_value

definition smi_value :: "i32 \<Rightarrow> js_value" where
  "smi_value n = (case from_i32_smi n of Some v \<Rightarrow> v | None \<Rightarrow> from_f64 (f64_of_int (sint n)))"

primrec to_value :: "value_class \<Rightarrow> js_value" where
  "to_value VC_Hole = js_hole"
| "to_value (VC_Smi n) = smi_value n"
| "to_value (VC_Double d) = from_f64 d"
| "to_value (VC_Other v) = v"

definition classify :: "js_value \<Rightarrow> value_class" where
  "classify v =
     (if is_hole v then VC_Hole
      else case as_smi v of Some n \<Rightarrow> VC_Smi n
      | None \<Rightarrow> (case as_f64 v of Some d \<Rightarrow> VC_Double d | None \<Rightarrow> VC_Other v))"

section \<open>The dictionary\<close>

record dict_entry =
  de_hash :: u64
  de_value :: js_value

record elements_dictionary =
  ed_entries :: "(u32 \<times> dict_entry) list"
  ed_length :: u32

definition element_key_hash :: "u32 \<Rightarrow> u64" where
  "element_key_hash index =
     (let z = ucast index XOR 0x9E3779B97F4A7C15;
          z = (z XOR drop_bit 30 z) * 0xBF58476D1CE4E5B9;
          z = (z XOR drop_bit 27 z) * 0x94D049BB133111EB
      in z XOR drop_bit 31 z)"

definition sat_succ :: "u32 \<Rightarrow> u32" where
  "sat_succ i = (if i = - 1 then i else i + 1)"

definition dict_new :: elements_dictionary where
  "dict_new = \<lparr>ed_entries = [], ed_length = 0\<rparr>"

definition dict_insert :: "u32 \<Rightarrow> js_value \<Rightarrow> elements_dictionary \<Rightarrow> elements_dictionary" where
  "dict_insert index v d =
     \<lparr>ed_entries = AList.update index \<lparr>de_hash = element_key_hash index, de_value = v\<rparr> (ed_entries d),
      ed_length = max (ed_length d) (sat_succ index)\<rparr>"

definition dict_get :: "elements_dictionary \<Rightarrow> u32 \<Rightarrow> js_value option" where
  "dict_get d index = map_option de_value (map_of (ed_entries d) index)"

definition dict_len :: "elements_dictionary \<Rightarrow> nat" where
  "dict_len d = length (ed_entries d)"

definition cached_hash :: "elements_dictionary \<Rightarrow> u32 \<Rightarrow> u64 option" where
  "cached_hash d index = map_option de_hash (map_of (ed_entries d) index)"

text \<open>The largest key plus one, \<open>0\<close> without keys.\<close>

definition top_length :: "(u32 \<times> dict_entry) list \<Rightarrow> u32" where
  "top_length es = (case map fst es of [] \<Rightarrow> 0 | k # ks \<Rightarrow> sat_succ (fold max ks k))"

definition dict_pop :: "elements_dictionary \<Rightarrow> js_value option \<times> elements_dictionary" where
  "dict_pop d =
     (if ed_length d = 0 then (None, d)
      else let last = ed_length d - 1;
               v = dict_get d last;
               es = AList.delete last (ed_entries d)
        in (v, \<lparr>ed_entries = es, ed_length = top_length es\<rparr>))"

definition dictionary_from_pairs :: "(u32 \<times> js_value) list \<Rightarrow> elements_dictionary" where
  "dictionary_from_pairs ps = fold (\<lambda>(i, v) d. dict_insert i v d) ps dict_new"

section \<open>The store\<close>

datatype elements =
    E_PackedSmi "i32 list"
  | E_HoleySmi "js_value list"
  | E_PackedDouble "f64 list"
  | E_HoleyDouble "js_value list"
  | E_PackedObject "js_value list"
  | E_HoleyObject "js_value list"
  | E_Dictionary elements_dictionary

definition elements_new :: elements where "elements_new = E_PackedSmi []"

primrec kind :: "elements \<Rightarrow> elements_kind" where
  "kind (E_PackedSmi _) = PackedSmi"
| "kind (E_HoleySmi _) = HoleySmi"
| "kind (E_PackedDouble _) = PackedDouble"
| "kind (E_HoleyDouble _) = HoleyDouble"
| "kind (E_PackedObject _) = PackedObject"
| "kind (E_HoleyObject _) = HoleyObject"
| "kind (E_Dictionary _) = Dictionary"

primrec elements_len :: "elements \<Rightarrow> nat" where
  "elements_len (E_PackedSmi v) = length v"
| "elements_len (E_HoleySmi v) = length v"
| "elements_len (E_PackedDouble v) = length v"
| "elements_len (E_HoleyDouble v) = length v"
| "elements_len (E_PackedObject v) = length v"
| "elements_len (E_HoleyObject v) = length v"
| "elements_len (E_Dictionary d) = unat (ed_length d)"

primrec fast_len :: "elements \<Rightarrow> nat" where
  "fast_len (E_PackedSmi v) = length v"
| "fast_len (E_HoleySmi v) = length v"
| "fast_len (E_PackedDouble v) = length v"
| "fast_len (E_HoleyDouble v) = length v"
| "fast_len (E_PackedObject v) = length v"
| "fast_len (E_HoleyObject v) = length v"
| "fast_len (E_Dictionary d) = 0"

text \<open>\<open>filter(|v| !v.is_hole())\<close> on the result of a read.\<close>

definition present :: "js_value option \<Rightarrow> js_value option" where
  "present x = Option.bind x (\<lambda>v. if is_hole v then None else Some v)"

fun elements_get :: "elements \<Rightarrow> u32 \<Rightarrow> js_value option" where
  "elements_get (E_PackedSmi v) i = map_option smi_value (list_get v (unat i))"
| "elements_get (E_HoleySmi v) i = present (list_get v (unat i))"
| "elements_get (E_PackedDouble v) i = map_option from_f64 (list_get v (unat i))"
| "elements_get (E_HoleyDouble v) i = present (list_get v (unat i))"
| "elements_get (E_PackedObject v) i = list_get v (unat i)"
| "elements_get (E_HoleyObject v) i = present (list_get v (unat i))"
| "elements_get (E_Dictionary d) i = dict_get d i"

text \<open>\<open>Vec::pop\<close>.\<close>

definition vec_pop :: "'a list \<Rightarrow> 'a option \<times> 'a list" where
  "vec_pop xs = (if xs = [] then (None, []) else (Some (last xs), butlast xs))"

fun elements_pop :: "elements \<Rightarrow> js_value option \<times> elements" where
  "elements_pop (E_PackedSmi v) = map_prod (map_option smi_value) E_PackedSmi (vec_pop v)"
| "elements_pop (E_HoleySmi v) = map_prod id E_HoleySmi (vec_pop v)"
| "elements_pop (E_PackedDouble v) = map_prod (map_option from_f64) E_PackedDouble (vec_pop v)"
| "elements_pop (E_HoleyDouble v) = map_prod id E_HoleyDouble (vec_pop v)"
| "elements_pop (E_PackedObject v) = map_prod id E_PackedObject (vec_pop v)"
| "elements_pop (E_HoleyObject v) = map_prod id E_HoleyObject (vec_pop v)"
| "elements_pop (E_Dictionary d) = map_prod id E_Dictionary (dict_pop d)"

text \<open>The iterator, as the list of what it yields; a dictionary's in its own order.\<close>

fun elements_iter :: "elements \<Rightarrow> js_value list" where
  "elements_iter (E_PackedSmi v) = map smi_value v"
| "elements_iter (E_PackedDouble v) = map from_f64 v"
| "elements_iter (E_HoleySmi v) = v"
| "elements_iter (E_HoleyDouble v) = v"
| "elements_iter (E_PackedObject v) = v"
| "elements_iter (E_HoleyObject v) = v"
| "elements_iter (E_Dictionary d) = map (de_value \<circ> snd) (ed_entries d)"

text \<open>\<open>enumerate\<close> with \<open>i as u32\<close>, and the same without holes.\<close>

definition indexed_values :: "js_value list \<Rightarrow> (u32 \<times> js_value) list" where
  "indexed_values vs = map (map_prod word_of_nat id) (enumerate 0 vs)"

definition indexed_present :: "js_value list \<Rightarrow> (u32 \<times> js_value) list" where
  "indexed_present vs = map (map_prod word_of_nat id) (filter (\<lambda>(_, u). \<not> is_hole u) (enumerate 0 vs))"

fun dense_entries :: "elements \<Rightarrow> (u32 \<times> js_value) list" where
  "dense_entries (E_PackedSmi v) = indexed_values (map smi_value v)"
| "dense_entries (E_PackedDouble v) = indexed_values (map from_f64 v)"
| "dense_entries (E_PackedObject v) = indexed_values v"
| "dense_entries (E_HoleySmi v) = indexed_present v"
| "dense_entries (E_HoleyDouble v) = indexed_present v"
| "dense_entries (E_HoleyObject v) = indexed_present v"
| "dense_entries (E_Dictionary d) = sort_key fst (map (map_prod id de_value) (ed_entries d))"

subsection \<open>Conversion\<close>

definition as_double :: "js_value \<Rightarrow> f64" where
  "as_double v =
     (case as_f64 v of Some d \<Rightarrow> d
      | None \<Rightarrow> (case as_smi v of Some n \<Rightarrow> f64_of_int (sint n) | None \<Rightarrow> QUIET_NAN_BITS))"

definition widen_element :: "js_value \<Rightarrow> js_value" where
  "widen_element u = (if is_hole u then u else from_f64 (as_double u))"

definition convert_storage :: "elements \<Rightarrow> elements_kind \<Rightarrow> elements" where
  "convert_storage source target =
     (if kind source = target then source
      else case source of
        E_PackedSmi v \<Rightarrow> (case target of
            HoleySmi \<Rightarrow> E_HoleySmi (map smi_value v)
          | PackedDouble \<Rightarrow> E_PackedDouble (map (f64_of_int \<circ> sint) v)
          | HoleyDouble \<Rightarrow> E_HoleyDouble (map from_f64 (map (f64_of_int \<circ> sint) v))
          | PackedObject \<Rightarrow> E_PackedObject (map smi_value v)
          | HoleyObject \<Rightarrow> E_HoleyObject (map smi_value v)
          | _ \<Rightarrow> E_Dictionary (dictionary_from_pairs (indexed_values (map smi_value v))))
      | E_HoleySmi v \<Rightarrow> (case target of
            HoleyDouble \<Rightarrow> E_HoleyDouble (map widen_element v)
          | HoleyObject \<Rightarrow> E_HoleyObject v
          | _ \<Rightarrow> E_Dictionary (dictionary_from_pairs (indexed_present v)))
      | E_PackedDouble v \<Rightarrow> (case target of
            HoleyDouble \<Rightarrow> E_HoleyDouble (map from_f64 v)
          | PackedObject \<Rightarrow> E_PackedObject (map from_f64 v)
          | HoleyObject \<Rightarrow> E_HoleyObject (map from_f64 v)
          | _ \<Rightarrow> E_Dictionary (dictionary_from_pairs (indexed_values (map from_f64 v))))
      | E_HoleyDouble v \<Rightarrow> (case target of
            HoleyObject \<Rightarrow> E_HoleyObject v
          | _ \<Rightarrow> E_Dictionary (dictionary_from_pairs (indexed_present v)))
      | E_PackedObject v \<Rightarrow> (case target of
            HoleyObject \<Rightarrow> E_HoleyObject v
          | _ \<Rightarrow> E_Dictionary (dictionary_from_pairs (indexed_values v)))
      | E_HoleyObject v \<Rightarrow> E_Dictionary (dictionary_from_pairs (indexed_present v))
      | E_Dictionary d \<Rightarrow> E_Dictionary d)"

subsection \<open>Writing\<close>

text \<open>\<open>index.saturating_sub(len as u32)\<close>.\<close>

definition sat_sub :: "u32 \<Rightarrow> u32 \<Rightarrow> u32" where
  "sat_sub a b = (if a < b then 0 else a - b)"

definition minimum_kind :: "elements_kind \<Rightarrow> value_class \<Rightarrow> elements_kind" where
  "minimum_kind current class =
     (case class of
        VC_Hole \<Rightarrow> to_holey current
      | VC_Smi _ \<Rightarrow> current
      | VC_Double _ \<Rightarrow> if is_holey current then HoleyDouble else PackedDouble
      | VC_Other _ \<Rightarrow> if is_holey current then HoleyObject else PackedObject)"

definition plan :: "elements \<Rightarrow> value_class \<Rightarrow> u32 \<Rightarrow> elements_kind option" where
  "plan a class index =
     (let current = kind a
      in if is_dictionary current then Some current
         else if ELEMENTS_TO_DICTIONARY_INDEX \<le> index
            \<or> MAX_FAST_ELEMENT_GAP < sat_sub index (word_of_nat (elements_len a)) then None
         else let needs_gap_fill = (fast_len a < unat index);
                  minimum = minimum_kind current class;
                  result = (if rank current < rank minimum then minimum else current)
           in Some (if needs_gap_fill \<and> \<not> is_dictionary result \<and> \<not> is_holey result
                    then to_holey result else result))"

text \<open>\<open>fill_gaps\<close> appends holes up to a length; its loop runs \<open>len - fast_len\<close> times.\<close>

fun fill_gaps :: "elements \<Rightarrow> nat \<Rightarrow> elements" where
  "fill_gaps (E_HoleySmi v) n = E_HoleySmi (v @ replicate (n - length v) js_hole)"
| "fill_gaps (E_HoleyDouble v) n = E_HoleyDouble (v @ replicate (n - length v) js_hole)"
| "fill_gaps (E_HoleyObject v) n = E_HoleyObject (v @ replicate (n - length v) js_hole)"
| "fill_gaps a n = a"

definition put_at :: "'a list \<Rightarrow> u32 \<Rightarrow> 'a \<Rightarrow> 'a list" where
  "put_at v index item = (if unat index < length v then v[unat index := item] else v @ [item])"

text \<open>The final match of \<open>set\<close>.\<close>

definition dict_absorb :: "elements \<Rightarrow> u32 \<Rightarrow> value_class \<Rightarrow> elements" where
  "dict_absorb a index class =
     (case convert_storage a Dictionary of
        E_Dictionary d \<Rightarrow> E_Dictionary (dict_insert index (to_value class) d)
      | b \<Rightarrow> b)"

fun write_element :: "elements \<Rightarrow> u32 \<Rightarrow> value_class \<Rightarrow> elements" where
  "write_element (E_Dictionary d) i class = E_Dictionary (dict_insert i (to_value class) d)"
| "write_element (E_PackedSmi v) i (VC_Smi n) = E_PackedSmi (put_at v i n)"
| "write_element (E_HoleySmi v) i (VC_Smi n) = E_HoleySmi (put_at v i (smi_value n))"
| "write_element (E_HoleySmi v) i VC_Hole = E_HoleySmi (put_at v i js_hole)"
| "write_element (E_PackedDouble v) i (VC_Double d) = E_PackedDouble (put_at v i d)"
| "write_element (E_PackedDouble v) i (VC_Smi n) = E_PackedDouble (put_at v i (f64_of_int (sint n)))"
| "write_element (E_HoleyDouble v) i (VC_Double d) = E_HoleyDouble (put_at v i (from_f64 d))"
| "write_element (E_HoleyDouble v) i (VC_Smi n) = E_HoleyDouble (put_at v i (from_f64 (f64_of_int (sint n))))"
| "write_element (E_HoleyDouble v) i VC_Hole = E_HoleyDouble (put_at v i js_hole)"
| "write_element (E_PackedObject v) i class = E_PackedObject (put_at v i (to_value class))"
| "write_element (E_HoleyObject v) i class = E_HoleyObject (put_at v i (to_value class))"
| "write_element a i class = dict_absorb a i class"

definition elements_set :: "elements \<Rightarrow> u32 \<Rightarrow> js_value \<Rightarrow> elements" where
  "elements_set a index v =
     (let class = classify v;
          (target, a) = (case plan a class index of
              Some k \<Rightarrow> (k, a)
            | None \<Rightarrow> (Dictionary, convert_storage a Dictionary));
          a = (if target \<noteq> kind a then convert_storage a target else a);
          a = (if fast_len a < unat index then fill_gaps a (unat index) else a)
      in write_element a index class)"

definition elements_push :: "elements \<Rightarrow> js_value \<Rightarrow> elements" where
  "elements_push a v = elements_set a (word_of_nat (elements_len a)) v"

section \<open>Specification\<close>

text \<open>
  What a reader of an element sees: nothing for a hole, a number as a double whether it is
  stored as a Smi or as a double, any other value as it is.
\<close>

definition num_norm :: "js_value \<Rightarrow> js_value" where
  "num_norm v = (case as_smi v of Some n \<Rightarrow> f64_of_int (sint n) | None \<Rightarrow> v)"

definition seen :: "js_value \<Rightarrow> js_value option" where
  "seen v = (if is_hole v then None else Some (num_norm v))"

definition elem_at :: "elements \<Rightarrow> u32 \<Rightarrow> js_value option" where
  "elem_at a i = Option.bind (elements_get a i) seen"

text \<open>The flat vector of a fast kind, as values.\<close>

fun flat :: "elements \<Rightarrow> js_value list" where
  "flat (E_PackedSmi v) = map smi_value v"
| "flat (E_PackedDouble v) = map from_f64 v"
| "flat (E_HoleySmi v) = v"
| "flat (E_HoleyDouble v) = v"
| "flat (E_PackedObject v) = v"
| "flat (E_HoleyObject v) = v"
| "flat (E_Dictionary d) = []"

definition smi_ok :: "i32 \<Rightarrow> bool" where
  "smi_ok n \<longleftrightarrow> SMI_MIN \<le> sint n \<and> sint n \<le> SMI_MAX"

text \<open>What an element of each kind may be.\<close>

fun elem_ok :: "elements_kind \<Rightarrow> js_value \<Rightarrow> bool" where
  "elem_ok PackedSmi v \<longleftrightarrow> is_canonical v \<and> is_smi v"
| "elem_ok HoleySmi v \<longleftrightarrow> is_canonical v \<and> (is_smi v \<or> is_hole v)"
| "elem_ok PackedDouble v \<longleftrightarrow> \<not> is_boxed v"
| "elem_ok HoleyDouble v \<longleftrightarrow> is_canonical v \<and> (\<not> is_boxed v \<or> is_hole v)"
| "elem_ok PackedObject v \<longleftrightarrow> is_canonical v \<and> \<not> is_hole v"
| "elem_ok HoleyObject v \<longleftrightarrow> is_canonical v"
| "elem_ok Dictionary v \<longleftrightarrow> is_canonical v"

text \<open>No array index is \<open>2 ^ 32 - 1\<close>, the word \<open>- 1\<close>.\<close>

definition dict_wf :: "elements_dictionary \<Rightarrow> bool" where
  "dict_wf d \<longleftrightarrow>
     distinct (map fst (ed_entries d)) \<and> ed_length d = top_length (ed_entries d)
   \<and> (\<forall>(k, e) \<in> set (ed_entries d). k \<noteq> - 1 \<and> de_hash e = element_key_hash k \<and> is_canonical (de_value e))"

fun raw_ok :: "elements \<Rightarrow> bool" where
  "raw_ok (E_PackedSmi v) = list_all smi_ok v"
| "raw_ok (E_PackedDouble v) = list_all (\<lambda>d. \<not> is_boxed d) v"
| "raw_ok (E_Dictionary d) = dict_wf d"
| "raw_ok _ = True"

definition elements_wf :: "elements \<Rightarrow> bool" where
  "elements_wf a \<longleftrightarrow> raw_ok a \<and> list_all (elem_ok (kind a)) (flat a) \<and> length (flat a) \<le> 1024"

section \<open>Values\<close>

lemma hole_view: "js_hole = repr VHole" by simp

lemma is_hole_iff: "is_canonical v \<Longrightarrow> is_hole v \<longleftrightarrow> v = js_hole"
proof
  assume canon: "is_canonical v" and "is_hole v"
  with repr_view_of [OF canon] have "has_tag (repr (view_of v)) TAG_HOLE" by (simp add: is_hole_def)
  then have "view_of v = VHole"
    using repr_view_of [OF canon] by (cases "view_of v") (auto simp: has_tag_view simp del: repr.simps split: if_splits)
  with repr_view_of [OF canon] show "v = js_hole" by simp
next
  assume "v = js_hole"
  then show "is_hole v" using has_tag_view [of VHole TAG_HOLE] by (simp add: is_hole_def)
qed

lemma hole_facts [simp]: "is_hole js_hole" "is_canonical js_hole" "is_boxed js_hole" "seen js_hole = None"
  using has_tag_view [of VHole] view_canonical [of VHole] boxed_view [of VHole]
  by (simp_all add: seen_def is_hole_def has_tag_def)

lemma smi_value_repr: "smi_ok n \<Longrightarrow> smi_value n = repr (VSmi n)"
  by (simp add: smi_value_def smi_ok_def from_i32_smi_def)

lemma smi_value_facts [simp]:
  assumes "smi_ok n"
  shows "as_smi (smi_value n) = Some n" "is_smi (smi_value n)" "\<not> is_hole (smi_value n)"
    "is_canonical (smi_value n)" "is_boxed (smi_value n)" "seen (smi_value n) = Some (f64_of_int (sint n))"
proof -
  have ok: "view_ok (VSmi n)" using assms by (simp add: smi_ok_def)
  show smi: "as_smi (smi_value n) = Some n"
    using as_smi_view [OF ok] by (simp add: smi_value_repr [OF assms] del: repr.simps)
  show "is_smi (smi_value n)" "is_boxed (smi_value n)" and nh: "\<not> is_hole (smi_value n)"
    and "is_canonical (smi_value n)"
    using has_tag_view [OF ok] boxed_view [OF ok] view_canonical [OF ok]
    by (simp_all add: smi_value_repr [OF assms] is_smi_def is_hole_def del: repr.simps)
  show "seen (smi_value n) = Some (f64_of_int (sint n))" using smi nh by (simp add: seen_def num_norm_def)
qed

lemma is_smi_cases:
  assumes "is_canonical v" "is_smi v"
  obtains n where "smi_ok n" "v = smi_value n" "as_smi v = Some n"
proof -
  have view: "view_ok (view_of v)" "repr (view_of v) = v" using repr_view_of [OF assms(1)] by auto
  have "has_tag (repr (view_of v)) TAG_SMI" using assms(2) view by (simp add: is_smi_def)
  then obtain n where n: "view_of v = VSmi n"
    using view by (cases "view_of v") (auto simp: has_tag_view simp del: repr.simps split: if_splits)
  with view have "smi_ok n" by (simp add: smi_ok_def)
  with n view show ?thesis using that [of n] smi_value_facts(1) [of n] smi_value_repr [of n] by metis
qed

lemma double_facts [simp]:
  assumes "\<not> is_boxed d"
  shows "from_f64 d = d" "\<not> is_hole d" "\<not> is_smi d" "as_smi d = None" "as_f64 d = Some d"
    "is_canonical d" "seen d = Some d"
  using assms by (simp_all add: from_f64_def is_boxed_def is_hole_def is_smi_def has_tag_def
      as_smi_def as_f64_def is_canonical_def seen_def num_norm_def)

lemma f64_of_smi [simp]: "\<not> is_boxed (f64_of_int (sint (n :: i32)))"
  by (rule f64_of_i32_not_boxed)

lemma classify_cases:
  assumes "is_canonical v"
  obtains (hole) "v = js_hole" "classify v = VC_Hole"
  | (smi) n where "smi_ok n" "v = smi_value n" "classify v = VC_Smi n"
  | (double) "\<not> is_boxed v" "classify v = VC_Double v"
  | (other) "is_boxed v" "\<not> is_hole v" "\<not> is_smi v" "classify v = VC_Other v"
proof -
  consider "is_hole v" | "is_smi v" | "\<not> is_boxed v" | "is_boxed v" "\<not> is_hole v" "\<not> is_smi v" by blast
  then show ?thesis
  proof cases
    case 1
    with assms have "v = js_hole" by (simp add: is_hole_iff)
    then show ?thesis by (intro hole) (simp_all add: classify_def)
  next
    case 2
    with assms obtain n where "smi_ok n" "v = smi_value n" by (metis is_smi_cases)
    then show ?thesis by (intro smi) (simp_all add: classify_def)
  next
    case 3
    then show ?thesis by (intro double) (simp_all add: classify_def)
  next
    case 4
    then show ?thesis by (intro other) (simp_all add: classify_def as_smi_def as_f64_def)
  qed
qed

lemma to_value_classify: "is_canonical v \<Longrightarrow> to_value (classify v) = v"
  by (erule classify_cases) simp_all

section \<open>The dictionary\<close>

lemma unat_sat_succ: "unat (sat_succ a) = min (unat a + 1) (2 ^ 32 - 1)"
proof (cases "a = - 1")
  case False
  then have "1 + a \<noteq> 0" by (metis add.commute add_eq_0_iff2)
  then have "unat (1 + a) = Suc (unat a)" by (rule unatSuc)
  with False unat_u32_lt [of "1 + a"] show ?thesis by (simp add: sat_succ_def add.commute)
qed (simp add: sat_succ_def unsigned_minus_1_eq_mask mask_eq_exp_minus_1)

lemma sat_succ_mono: "a \<le> b \<Longrightarrow> sat_succ a \<le> sat_succ (b :: u32)"
  by (auto simp: word_le_nat_alt unat_sat_succ)

lemma max_zero_u32 [simp]: "max 0 (x :: u32) = x"
  by (simp add: max_def)

lemma top_length_Max: "top_length es = Max (insert 0 (sat_succ ` fst ` set es))"
proof (cases es)
  case (Cons e es')
  have "top_length es = sat_succ (Max (fst ` set es))"
    using Max.set_eq_fold [of "fst e" "map fst es'"] by (simp add: top_length_def Cons)
  also have "\<dots> = Max (sat_succ ` fst ` set es)"
    by (rule mono_Max_commute) (simp_all add: Cons monoI sat_succ_mono)
  also have "\<dots> = Max (insert 0 (sat_succ ` fst ` set es))"
    by (subst Max_insert) (simp_all add: Cons)
  finally show ?thesis .
qed (simp add: top_length_def)

lemma top_length_update:
  "top_length (AList.update i e es) = max (top_length es) (sat_succ i)"
proof -
  have "Max (insert 0 (insert x S)) = max (Max (insert 0 S)) x" if "finite S" for x :: u32 and S
    using that by (subst insert_commute) (simp only: Max_insert finite_insert insert_not_empty max.commute
        not_False_eq_True)
  then show ?thesis by (simp add: top_length_Max dom_update del: Max_insert)
qed

lemma dict_wf_new: "dict_wf dict_new"
  by (simp add: dict_wf_def dict_new_def top_length_def)

lemma dict_wf_insert:
  assumes "dict_wf d" "is_canonical v" "i \<noteq> - 1"
  shows "dict_wf (dict_insert i v d)"
proof -
  have "(k, e) \<in> set (AList.update i x es) \<Longrightarrow> (k, e) \<in> set es \<or> (k = i \<and> e = x)" for k e x
    and es :: "(u32 \<times> dict_entry) list"
    by (induction es) (auto split: if_splits)
  with assms show ?thesis
    by (fastforce simp: dict_wf_def dict_insert_def distinct_update top_length_update)
qed

lemma dict_get_insert [simp]: "dict_get (dict_insert i v d) = (dict_get d)(i \<mapsto> v)"
  by (auto simp: dict_get_def dict_insert_def update_conv)

lemma dict_get_new [simp]: "dict_get dict_new i = None"
  by (simp add: dict_get_def dict_new_def)

lemma dict_get_fold: "dict_get (fold (\<lambda>(i, v) d. dict_insert i v d) ps d) = dict_get d ++ map_of (rev ps)"
  by (induction ps arbitrary: d) auto

lemma dictionary_from_pairs_get: "dict_get (dictionary_from_pairs ps) = map_of (rev ps)"
proof -
  have "dict_get dict_new = Map.empty" by auto
  then show ?thesis by (simp add: dictionary_from_pairs_def dict_get_fold)
qed

lemma dictionary_from_pairs_wf:
  assumes "\<forall>(i, v) \<in> set ps. i \<noteq> - 1 \<and> is_canonical v"
  shows "dict_wf (dictionary_from_pairs ps)"
proof -
  have "dict_wf (fold (\<lambda>(i, v) d. dict_insert i v d) ps d)" if "dict_wf d" for d
    using that assms by (induction ps arbitrary: d) (auto intro: dict_wf_insert)
  then show ?thesis by (simp add: dictionary_from_pairs_def dict_wf_new)
qed

section \<open>Enumeration\<close>

lemma map_of_enumerate_from:
  assumes "n + length vs \<le> 2 ^ 32"
  shows "map_of (map (map_prod word_of_nat id) (enumerate n vs)) (i :: u32) =
     (if n \<le> unat i \<and> unat i < n + length vs then Some (vs ! (unat i - n)) else None)"
  using assms
proof (induction vs arbitrary: n)
  case (Cons v vs)
  then have n: "unat (word_of_nat n :: u32) = n" by (intro unat_of_nat_small) simp
  have head: "(word_of_nat n :: u32) = i \<longleftrightarrow> n = unat i" using n by auto
  show ?case
  proof (cases "n = unat i")
    case True
    with head show ?thesis by simp
  next
    case False
    then have "vs ! (unat i - Suc n) = (v # vs) ! (unat i - n)" if "n < unat i"
      using that by (metis Suc_diff_Suc nth_Cons_Suc)
    with False head Cons show ?thesis by auto
  qed
qed simp

lemma map_of_indexed:
  "length vs \<le> 2 ^ 32 \<Longrightarrow> map_of (indexed_values vs) i = list_get vs (unat i)"
  using map_of_enumerate_from [of 0 vs i] by (simp add: indexed_values_def list_get_def)

lemma indexed_present_filter: "indexed_present vs = filter (\<lambda>(i, u). \<not> is_hole u) (indexed_values vs)"
  by (simp add: indexed_present_def indexed_values_def filter_map o_def split_beta')

lemma distinct_indexed:
  "length vs \<le> 2 ^ 32 \<Longrightarrow> distinct (map fst (indexed_values vs :: (u32 \<times> js_value) list))"
proof -
  assume len: "length vs \<le> 2 ^ 32"
  have keys: "map fst (indexed_values vs :: (u32 \<times> js_value) list) = map word_of_nat [0..<length vs]"
  proof -
    have "map fst (indexed_values vs :: (u32 \<times> js_value) list) = map word_of_nat (map fst (enumerate 0 vs))"
      unfolding indexed_values_def map_map by (rule map_cong) auto
    then show ?thesis unfolding map_fst_enumerate by simp
  qed
  have "inj_on (word_of_nat :: nat \<Rightarrow> u32) {0..<length vs}"
  proof (rule inj_onI)
    fix m n :: nat
    assume "m \<in> {0..<length vs}" "n \<in> {0..<length vs}"
      and eq: "(word_of_nat m :: u32) = word_of_nat n"
    then have "m < 2 ^ LENGTH(32)" "n < 2 ^ LENGTH(32)" using len by simp_all
    then have "unat (word_of_nat m :: u32) = m" "unat (word_of_nat n :: u32) = n"
      by (simp_all only: unat_of_nat_small)
    with eq show "m = n" by metis
  qed
  then show ?thesis by (simp add: keys distinct_map)
qed

lemma map_of_rev_distinct: "distinct (map fst ps) \<Longrightarrow> map_of (rev ps) = map_of ps"
  by (rule ext) (metis distinct_rev map_of_eq_None_iff map_of_eq_Some_iff not_None_eq rev_map set_rev)

lemma distinct_indexed_present:
  "length vs \<le> 2 ^ 32 \<Longrightarrow> distinct (map fst (indexed_present vs))"
  using distinct_indexed [of vs] unfolding indexed_present_filter by (rule distinct_map_filter)

lemma map_of_filter_values:
  "distinct (map fst ps) \<Longrightarrow> map_of (filter (\<lambda>(k, v). P v) ps) i =
     (case map_of ps i of None \<Rightarrow> None | Some v \<Rightarrow> if P v then Some v else None)"
proof (induction ps)
  case (Cons p ps)
  show ?case
  proof (cases "fst p = i")
    case True
    with Cons.prems have "map_of ps i = None" by (auto simp: map_of_eq_None_iff)
    with Cons True show ?thesis by (cases p) simp
  next
    case False
    with Cons show ?thesis by (cases p) simp
  qed
qed simp

lemma map_of_indexed_present:
  "length vs \<le> 2 ^ 32 \<Longrightarrow> map_of (indexed_present vs) i = present (list_get vs (unat i))"
  unfolding indexed_present_filter
  by (simp add: map_of_filter_values [OF distinct_indexed] map_of_indexed present_def list_get_def)

section \<open>The flat view\<close>

lemma bind_present [simp]: "Option.bind (present x) seen = Option.bind x seen"
  by (cases x) (simp_all add: present_def seen_def)

lemma elem_at_flat:
  "kind a \<noteq> Dictionary \<Longrightarrow>
     elem_at a i = (if unat i < length (flat a) then seen (flat a ! unat i) else None)"
  by (cases a) (simp_all add: elem_at_def list_get_def)

lemma flat_len: "kind a \<noteq> Dictionary \<Longrightarrow> fast_len a = length (flat a) \<and> elements_len a = length (flat a)"
  by (cases a) simp_all

lemma elem_at_flat_eq:
  assumes "kind a \<noteq> Dictionary" "kind b \<noteq> Dictionary" "map seen (flat a) = map seen (flat b)"
  shows "elem_at a = elem_at b"
proof
  fix i :: u32
  have "length (flat a) = length (flat b)" using assms(3) by (metis length_map)
  moreover have "seen (flat a ! unat i) = seen (flat b ! unat i)" if "unat i < length (flat a)"
    using that assms(3) calculation by (metis nth_map)
  ultimately show "elem_at a i = elem_at b i" using assms(1,2) by (simp add: elem_at_flat)
qed

text \<open>Moves between fast kinds: up in rank, and holes are never forgotten.\<close>

definition legal :: "elements_kind \<Rightarrow> elements_kind \<Rightarrow> bool" where
  "legal k k' \<longleftrightarrow> k \<noteq> Dictionary \<and> k' \<noteq> Dictionary \<and> rank k \<le> rank k' \<and> (is_holey k \<longrightarrow> is_holey k')"

lemma widen_facts:
  assumes "elem_ok HoleySmi u"
  shows "elem_ok HoleyDouble (widen_element u)" "seen (widen_element u) = seen u"
proof -
  consider "is_hole u" "u = js_hole" | n where "smi_ok n" "u = smi_value n"
    using assms is_smi_cases [of u] is_hole_iff [of u] by auto
  then have "elem_ok HoleyDouble (widen_element u) \<and> seen (widen_element u) = seen u"
    by cases (simp_all add: widen_element_def as_double_def as_f64_def)
  then show "elem_ok HoleyDouble (widen_element u)" "seen (widen_element u) = seen u" by auto
qed

lemma elem_ok_canonical: "elem_ok k v \<Longrightarrow> is_canonical v"
  by (cases k) simp_all

lemma convert_legal:
  assumes wf: "elements_wf a" and legal: "legal (kind a) k"
  shows "kind (convert_storage a k) = k \<and> elements_wf (convert_storage a k)
     \<and> map seen (flat (convert_storage a k)) = map seen (flat a)"
proof (cases "kind a = k")
  case True
  with wf show ?thesis by (simp add: convert_storage_def)
next
  case False
  show ?thesis
  proof (cases a)
    case (E_PackedSmi v)
    then have "\<forall>n \<in> set v. smi_ok n" and len: "length v \<le> 1024"
      using wf by (auto simp: elements_wf_def list_all_iff)
    with E_PackedSmi legal False show ?thesis
      by (cases k) (auto simp: convert_storage_def legal_def elements_wf_def list_all_iff)
  next
    case (E_HoleySmi v)
    then have ok: "\<forall>u \<in> set v. elem_ok HoleySmi u" and len: "length v \<le> 1024"
      using wf by (auto simp: elements_wf_def list_all_iff)
    then have "map seen (map widen_element v) = map seen v"
      and "\<forall>u \<in> set v. elem_ok HoleyDouble (widen_element u)" using widen_facts by simp_all
    with ok len E_HoleySmi legal False show ?thesis
      by (cases k) (auto simp: convert_storage_def legal_def elements_wf_def list_all_iff is_holey_def)
  next
    case (E_PackedDouble v)
    with wf legal False show ?thesis
      by (cases k) (auto simp: convert_storage_def legal_def elements_wf_def list_all_iff)
  next
    case (E_HoleyDouble v)
    with wf legal False show ?thesis
      by (cases k) (auto simp: convert_storage_def legal_def elements_wf_def list_all_iff is_holey_def)
  next
    case (E_PackedObject v)
    with wf legal False show ?thesis
      by (cases k) (auto simp: convert_storage_def legal_def elements_wf_def list_all_iff)
  next
    case (E_HoleyObject v)
    with wf legal False show ?thesis
      by (cases k) (auto simp: legal_def is_holey_def)
  next
    case (E_Dictionary d)
    with legal show ?thesis by (simp add: legal_def)
  qed
qed

section \<open>Escaping to the dictionary\<close>

lemma elem_ok_seen_smi: "list_all smi_ok v \<Longrightarrow> \<forall>u \<in> set (map smi_value v). is_canonical u"
  by (auto simp: list_all_iff)

text \<open>Index and value pairs a fast kind escapes with.\<close>

definition escape_pairs :: "elements \<Rightarrow> (u32 \<times> js_value) list" where
  "escape_pairs a = (if is_holey (kind a) then indexed_present (flat a) else indexed_values (flat a))"

lemma convert_to_dictionary:
  "kind a \<noteq> Dictionary \<Longrightarrow>
     convert_storage a Dictionary = E_Dictionary (dictionary_from_pairs (escape_pairs a))"
  by (cases a) (simp_all add: convert_storage_def escape_pairs_def is_holey_def)

lemma indexed_members:
  assumes "(i, v) \<in> set (indexed_values vs)" "length vs \<le> 1024"
  shows "v \<in> set vs \<and> i \<noteq> - 1"
proof -
  from assms(1) obtain n where n: "n < length vs" "i = word_of_nat n" "v = vs ! n"
    by (auto simp: indexed_values_def in_set_enumerate_eq)
  with assms(2) have "unat i = n" by (simp add: unat_of_nat_small)
  with n assms(2) have "unat i < 1024" by simp
  then have "i \<noteq> - 1" by (auto simp: unsigned_minus_1_eq_mask mask_eq_exp_minus_1)
  with n show ?thesis by simp
qed

lemma escape_members:
  assumes "elements_wf a" "(i, v) \<in> set (escape_pairs a)"
  shows "i \<noteq> - 1 \<and> is_canonical v"
proof -
  have "(i, v) \<in> set (indexed_values (flat a))"
    using assms(2) by (auto simp: escape_pairs_def indexed_present_filter split: if_splits)
  with indexed_members [OF this] assms(1) show ?thesis
    by (auto simp: elements_wf_def list_all_iff intro: elem_ok_canonical)
qed

lemma escape_elem_at:
  assumes "elements_wf a" "kind a \<noteq> Dictionary"
  shows "elements_wf (convert_storage a Dictionary)"
    "elem_at (convert_storage a Dictionary) = elem_at a"
proof -
  have len: "length (flat a) \<le> 2 ^ 32" using assms(1) by (simp add: elements_wf_def)
  have dist: "distinct (map fst (escape_pairs a))"
    using distinct_indexed [OF len] distinct_indexed_present [OF len] by (simp add: escape_pairs_def)
  have "dict_wf (dictionary_from_pairs (escape_pairs a))"
    using escape_members [OF assms(1)] by (intro dictionary_from_pairs_wf) auto
  then show "elements_wf (convert_storage a Dictionary)"
    by (simp add: convert_to_dictionary [OF assms(2)] elements_wf_def)
  show "elem_at (convert_storage a Dictionary) = elem_at a"
  proof
    fix i
    have "elem_at (convert_storage a Dictionary) i = Option.bind (map_of (escape_pairs a) i) seen"
      by (simp add: convert_to_dictionary [OF assms(2)] elem_at_def dictionary_from_pairs_get
          map_of_rev_distinct [OF dist])
    also have "\<dots> = Option.bind (list_get (flat a) (unat i)) seen"
      by (simp add: escape_pairs_def map_of_indexed [OF len] map_of_indexed_present [OF len])
    also have "\<dots> = elem_at a i" by (simp add: elem_at_flat [OF assms(2)] list_get_def)
    finally show "elem_at (convert_storage a Dictionary) i = elem_at a i" .
  qed
qed

section \<open>Planning and writing\<close>

fun admits :: "elements_kind \<Rightarrow> value_class \<Rightarrow> bool" where
  "admits k VC_Hole \<longleftrightarrow> is_holey k"
| "admits k (VC_Smi n) \<longleftrightarrow> True"
| "admits k (VC_Double d) \<longleftrightarrow> rank PackedDouble \<le> rank k"
| "admits k (VC_Other v) \<longleftrightarrow> rank PackedObject \<le> rank k"

lemma plan_legal:
  assumes "plan a class i = Some k" "kind a \<noteq> Dictionary"
  shows "legal (kind a) k \<and> admits k class \<and> (fast_len a < unat i \<longrightarrow> is_holey k) \<and> unat i < 1024"
proof -
  have "i < 1024" using assms
    by (simp add: plan_def Let_def is_dictionary_def ELEMENTS_TO_DICTIONARY_INDEX_def not_le split: if_splits)
  then have "unat i < 1024" by (simp add: word_less_nat_alt)
  moreover have "legal (kind a) k \<and> admits k class \<and> (fast_len a < unat i \<longrightarrow> is_holey k)"
    using assms
    by (cases "kind a"; cases "class")
      (auto simp: plan_def Let_def legal_def is_holey_def is_dictionary_def minimum_kind_def split: if_splits)
  ultimately show ?thesis by simp
qed

lemma plan_escape:
  assumes "plan a class i = None" "elements_wf a"
  shows "kind a \<noteq> Dictionary \<and> length (flat a) \<le> unat i"
proof -
  from assms(1) have fast: "kind a \<noteq> Dictionary" by (auto simp: plan_def is_dictionary_def)
  then have len: "elements_len a = length (flat a)" "length (flat a) \<le> 1024"
    using flat_len assms(2) by (auto simp: elements_wf_def)
  then have "unat (word_of_nat (elements_len a) :: u32) = length (flat a)"
    by (simp add: unat_of_nat_small)
  with assms(1) fast len show ?thesis
    by (auto simp: plan_def Let_def is_dictionary_def ELEMENTS_TO_DICTIONARY_INDEX_def
        MAX_FAST_ELEMENT_GAP_def sat_sub_def word_le_nat_alt word_less_nat_alt split: if_splits)
qed

lemma put_at_simps [simp]:
  "map f (put_at v i x) = put_at (map f v) i (f x)"
  "length (put_at v i x) = (if unat i < length v then length v else Suc (length v))"
  by (simp_all add: put_at_def map_update)

lemma list_all_put_at: "list_all P v \<Longrightarrow> P x \<Longrightarrow> list_all P (put_at v i x)"
  by (auto simp: put_at_def list_all_iff dest: subsetD [OF set_update_subset_insert])

lemma write_fast:
  assumes wf: "elements_wf a" and fast: "kind a \<noteq> Dictionary" and canon: "is_canonical v"
    and adm: "admits (kind a) (classify v)" and i: "unat i \<le> length (flat a)" "unat i < 1024"
  shows "elements_wf (write_element a i (classify v)) \<and> kind (write_element a i (classify v)) = kind a
     \<and> (\<exists>w. flat (write_element a i (classify v)) = put_at (flat a) i w \<and> seen w = seen v)"
  using canon
proof (cases rule: classify_cases)
  case hole
  with wf adm i show ?thesis
    by (cases a) (auto simp: elements_wf_def is_holey_def intro: list_all_put_at)
next
  case (smi n)
  with wf fast i show ?thesis
    by (cases a) (auto simp: elements_wf_def intro: list_all_put_at)
next
  case double
  with wf fast adm i show ?thesis
    by (cases a) (auto simp: elements_wf_def intro: list_all_put_at)
next
  case other
  with wf fast adm canon i show ?thesis
    by (cases a) (auto simp: elements_wf_def intro: list_all_put_at)
qed

lemma fill_gaps_facts:
  assumes "elements_wf a" "is_holey (kind a)" "n < 1024"
  shows "elements_wf (fill_gaps a n) \<and> kind (fill_gaps a n) = kind a
     \<and> flat (fill_gaps a n) = flat a @ replicate (n - length (flat a)) js_hole"
  using assms by (cases a) (auto simp: elements_wf_def is_holey_def list_all_iff)

lemma fill_gaps_elem_at:
  assumes "elements_wf a" "is_holey (kind a)" "n < 1024"
  shows "elem_at (fill_gaps a n) = elem_at a"
proof
  fix i :: u32
  have "kind a \<noteq> Dictionary" using assms(2) by (auto simp: is_holey_def)
  then show "elem_at (fill_gaps a n) i = elem_at a i"
    using fill_gaps_facts [OF assms] by (simp add: elem_at_flat nth_append)
qed

lemma elem_at_put_at:
  assumes "kind a \<noteq> Dictionary" "kind b \<noteq> Dictionary" "flat b = put_at (flat a) i w" "unat i \<le> length (flat a)"
  shows "elem_at b = (elem_at a)(i := seen w)"
proof
  fix j
  show "elem_at b j = ((elem_at a)(i := seen w)) j"
    using assms(3,4) unfolding elem_at_flat [OF assms(1)] elem_at_flat [OF assms(2)] fun_upd_def
    by (cases "unat i < length (flat a)")
      (auto simp: put_at_def nth_append nth_list_update less_Suc_eq simp del: unat_eq_iff
        simp flip: unat_eq_iff)
qed

lemma set_fast:
  assumes wf: "elements_wf a" and fast: "kind a \<noteq> Dictionary" and plan: "plan a (classify v) i = Some k"
    and canon: "is_canonical v"
  shows "elements_wf (elements_set a i v) \<and> elem_at (elements_set a i v) = (elem_at a)(i := seen v)
     \<and> kind (elements_set a i v) = k \<and> rank (kind a) \<le> rank k
     \<and> elements_len (elements_set a i v) = max (elements_len a) (unat i + 1)"
proof -
  note p = plan_legal [OF plan fast]
  then have legal: "legal (kind a) k" and kfast: "k \<noteq> Dictionary" by (auto simp: legal_def)
  let ?b = "convert_storage a k"
  have b: "kind ?b = k" "elements_wf ?b" "map seen (flat ?b) = map seen (flat a)"
    using convert_legal [OF wf legal] by auto
  have blen: "length (flat ?b) = length (flat a)" using b(3) by (metis length_map)
  have eb: "elem_at ?b = elem_at a" using b fast kfast by (intro elem_at_flat_eq) auto
  let ?c = "if fast_len ?b < unat i then fill_gaps ?b (unat i) else ?b"
  have flen: "fast_len ?b = length (flat ?b)" "fast_len a = length (flat a)"
    using flat_len [of ?b] flat_len [OF fast] b(1) kfast by auto
  have holey: "is_holey (kind ?b)" if "fast_len ?b < unat i"
    using that p b(1) blen flen by simp
  have c: "elements_wf ?c" "kind ?c = k" "elem_at ?c = elem_at a"
    "length (flat ?c) = max (length (flat a)) (unat i)"
    using b eb fill_gaps_facts [OF b(2) holey] fill_gaps_elem_at [OF b(2) holey] p blen flen by auto
  have set: "elements_set a i v = write_element ?c i (classify v)"
    by (simp add: elements_set_def Let_def plan convert_storage_def)
  have "unat i \<le> length (flat ?c)" using c(4) by simp
  with write_fast [OF c(1) _ canon, of i] c(2) kfast p obtain w where
    w: "elements_wf (elements_set a i v)" "kind (elements_set a i v) = k"
    "flat (elements_set a i v) = put_at (flat ?c) i w" "seen w = seen v"
    by (auto simp: set)
  have "elem_at (elements_set a i v) = (elem_at a)(i := seen v)"
    using elem_at_put_at [of ?c "elements_set a i v" i w] w c kfast \<open>unat i \<le> length (flat ?c)\<close> by simp
  moreover have "elements_len (elements_set a i v) = max (elements_len a) (unat i + 1)"
    using flat_len [of "elements_set a i v"] flat_len [OF fast] w(2,3) kfast c(4) by auto
  ultimately show ?thesis using w legal by (simp add: legal_def)
qed

lemma set_dictionary:
  assumes "dict_wf d" "is_canonical v" "i \<noteq> - 1"
  defines "d' \<equiv> dict_insert i v d"
  shows "write_element (if fast_len (E_Dictionary d) < unat i then fill_gaps (E_Dictionary d) (unat i)
      else E_Dictionary d) i (classify v) = E_Dictionary d'"
    "elements_wf (E_Dictionary d')" "elem_at (E_Dictionary d') = (elem_at (E_Dictionary d))(i := seen v)"
    "elements_len (E_Dictionary d') = max (elements_len (E_Dictionary d)) (unat i + 1)"
proof -
  have "unat i < 2 ^ 32 - 1"
  proof -
    have "unat i \<noteq> unat (- 1 :: u32)" using assms(3) by simp
    with unat_u32_lt [of i] show ?thesis by (simp add: unsigned_minus_1_eq_mask mask_eq_exp_minus_1)
  qed
  then show "elements_len (E_Dictionary d') = max (elements_len (E_Dictionary d)) (unat i + 1)"
    by (simp add: d'_def dict_insert_def unat_sat_succ max_def word_le_nat_alt)
  show "elements_wf (E_Dictionary d')"
    using dict_wf_insert [OF assms(1-3)] by (simp add: elements_wf_def d'_def)
  show "elem_at (E_Dictionary d') = (elem_at (E_Dictionary d))(i := seen v)"
    by (auto simp: elem_at_def d'_def)
qed (simp add: d'_def to_value_classify [OF assms(2)])

lemma escape_len:
  assumes "elements_wf a" "kind a \<noteq> Dictionary"
  shows "elements_len (convert_storage a Dictionary) \<le> length (flat a)"
proof -
  let ?d = "dictionary_from_pairs (escape_pairs a)"
  have len: "length (flat a) \<le> 2 ^ 32" "length (flat a) < 2 ^ 32" using assms(1) by (auto simp: elements_wf_def)
  have dist: "distinct (map fst (escape_pairs a))"
    using distinct_indexed [OF len(1)] distinct_indexed_present [OF len(1)] by (simp add: escape_pairs_def)
  have wf: "dict_wf ?d"
    using escape_elem_at(1) [OF assms] by (simp add: convert_to_dictionary [OF assms(2)] elements_wf_def)
  have "unat (sat_succ k) \<le> length (flat a)" if k: "k \<in> fst ` set (ed_entries ?d)" for k
  proof -
    from k have "dict_get ?d k \<noteq> None" by (auto simp: dict_get_def map_of_eq_None_iff)
    then have "map_of (escape_pairs a) k \<noteq> None"
      by (simp add: dictionary_from_pairs_get map_of_rev_distinct [OF dist])
    then have "unat k < length (flat a)"
      by (auto simp: escape_pairs_def
          map_of_indexed [OF len(1)] map_of_indexed_present [OF len(1)] present_def list_get_def
          split: if_splits)
    then show ?thesis by (simp add: unat_sat_succ)
  qed
  then have "\<forall>m \<in> insert 0 (sat_succ ` fst ` set (ed_entries ?d)). unat m \<le> length (flat a)" by auto
  moreover have "Max (insert 0 (sat_succ ` fst ` set (ed_entries ?d)))
      \<in> insert 0 (sat_succ ` fst ` set (ed_entries ?d))" by (rule Max_in) auto
  ultimately have "unat (top_length (ed_entries ?d)) \<le> length (flat a)"
    unfolding top_length_Max by (rule bspec)
  moreover have "ed_length ?d = top_length (ed_entries ?d)" using wf by (simp add: dict_wf_def)
  ultimately have "unat (ed_length ?d) \<le> length (flat a)" by simp
  then show ?thesis by (simp add: convert_to_dictionary [OF assms(2)])
qed

lemma elements_set_all:
  assumes wf: "elements_wf a" and canon: "is_canonical v" and i: "i \<noteq> - 1"
  shows "elements_wf (elements_set a i v) \<and> elem_at (elements_set a i v) = (elem_at a)(i := seen v)
     \<and> rank (kind a) \<le> rank (kind (elements_set a i v))
     \<and> elements_len (elements_set a i v) = max (elements_len a) (unat i + 1)"
proof (cases "kind a = Dictionary")
  case True
  then obtain d where d: "a = E_Dictionary d" by (cases a) auto
  with wf have "dict_wf d" by (simp add: elements_wf_def)
  note s = set_dictionary [OF this canon i]
  have "elements_set a i v = E_Dictionary (dict_insert i v d)"
    using s(1) by (simp add: elements_set_def Let_def plan_def is_dictionary_def d
        to_value_classify [OF canon])
  with s(2-4) d show ?thesis by simp
next
  case fast: False
  show ?thesis
  proof (cases "plan a (classify v) i")
    case (Some k)
    from set_fast [OF wf fast Some canon] show ?thesis by simp
  next
    case None
    let ?d = "dictionary_from_pairs (escape_pairs a)"
    have conv: "convert_storage a Dictionary = E_Dictionary ?d" by (rule convert_to_dictionary [OF fast])
    have "dict_wf ?d" using escape_elem_at(1) [OF wf fast] by (simp add: conv elements_wf_def)
    note s = set_dictionary [OF this canon i]
    have "elements_set a i v = E_Dictionary (dict_insert i v ?d)"
      using s(1) by (simp add: elements_set_def Let_def None conv to_value_classify [OF canon])
    moreover have "elements_len a \<le> unat i" "elements_len (E_Dictionary ?d) \<le> elements_len a"
      using plan_escape [OF None wf] escape_len [OF wf fast] flat_len [OF fast] by (auto simp: conv)
    moreover have "rank (kind a) \<le> 6" by (cases "kind a") simp_all
    ultimately show ?thesis using s(2-4) escape_elem_at(2) [OF wf fast] by (simp add: conv)
  qed
qed

section \<open>A store that behaves like a map\<close>

text \<open>
  What a client of an indexed store relies on: a write is seen at its index and nowhere
  else, and keeps the store well formed.
\<close>

locale indexed_store =
  fixes upd :: "'s \<Rightarrow> 'i \<Rightarrow> 'v \<Rightarrow> 's"
    and obs :: "'s \<Rightarrow> 'i \<Rightarrow> 'w option"
    and invar :: "'s \<Rightarrow> bool"
    and good :: "'i \<Rightarrow> 'v \<Rightarrow> bool"
    and shown :: "'v \<Rightarrow> 'w option"
  assumes invar_upd: "invar s \<Longrightarrow> good i v \<Longrightarrow> invar (upd s i v)"
    and obs_upd: "invar s \<Longrightarrow> good i v \<Longrightarrow> obs (upd s i v) = (obs s)(i := shown v)"
begin

definition upd_all :: "'s \<Rightarrow> ('i \<times> 'v) list \<Rightarrow> 's" where
  "upd_all s ws = fold (\<lambda>(i, v) s. upd s i v) ws s"

lemma history:
  "invar s \<Longrightarrow> \<forall>(i, v) \<in> set ws. good i v \<Longrightarrow>
     invar (upd_all s ws) \<and> obs (upd_all s ws) = fold (\<lambda>(i, v) m. m(i := shown v)) ws (obs s)"
  unfolding upd_all_def by (induction ws arbitrary: s) (auto simp: invar_upd obs_upd)

text \<open>Writes to different indices commute, as far as a reader can tell.\<close>

lemma upd_commute:
  "invar s \<Longrightarrow> good i v \<Longrightarrow> good j w \<Longrightarrow> i \<noteq> j \<Longrightarrow>
     obs (upd (upd s i v) j w) = obs (upd (upd s j w) i v)"
  by (simp add: invar_upd obs_upd fun_upd_twist)

end

interpretation elements_store: indexed_store elements_set elem_at elements_wf
    "\<lambda>i v. i \<noteq> - 1 \<and> is_canonical v" seen
  by unfold_locales (use elements_set_all in blast)+

lemma elements_new_wf: "elements_wf elements_new" and elements_new_empty: "elem_at elements_new = Map.empty"
  by (auto simp: elements_wf_def elements_new_def elem_at_def list_get_def)



text \<open>
  Any history of writes to a new store: what is read is the map the writes describe,
  later writes winning and holes erasing.
\<close>

theorem elements_history:
  assumes "\<forall>(i, v) \<in> set ws. i \<noteq> - 1 \<and> is_canonical v"
  shows "elem_at (fold (\<lambda>(i, v) a. elements_set a i v) ws elements_new) =
     fold (\<lambda>(i, v) m. m(i := seen v)) ws Map.empty"
  using elements_store.history [OF elements_new_wf assms]
  by (simp add: elements_store.upd_all_def elements_new_empty)

theorem elements_history_witness:
  "elem_at (fold (\<lambda>(i, v) a. elements_set a i v) [(0, js_true), (2000, js_true), (0, js_hole)] elements_new)
     = [2000 \<mapsto> js_true]"
proof -
  have "view_ok (VBool True)" by simp
  note t = view_canonical [OF this] has_tag_view [OF this] as_smi_view [OF this]
  then have "is_canonical js_true" "seen js_true = Some js_true"
    by (simp_all add: from_bool_def seen_def is_hole_def num_norm_def)
  with elements_history [of "[(0, js_true), (2000, js_true), (0, js_hole)]"] show ?thesis
    by (auto simp: fun_eq_iff)
qed

section \<open>Popping and listing\<close>

lemma butlast_list_all [simp]: "list_all P v \<Longrightarrow> list_all P (butlast v)"
  by (auto simp: list_all_iff dest: in_set_butlastD)

lemma butlast_map_all: "list_all P (map f v) \<Longrightarrow> list_all P (map f (butlast v))"
  by (metis butlast_list_all map_butlast)

lemma pop_fast:
  assumes "elements_wf a" "kind a \<noteq> Dictionary" "elements_pop a = (r, a')"
  shows "elements_wf a' \<and> kind a' = kind a \<and> flat a' = butlast (flat a)
     \<and> r = (if flat a = [] then None else Some (last (flat a)))"
  using assms
  by (cases a) (auto simp: vec_pop_def elements_wf_def last_map map_butlast butlast_map_all)

lemma top_key:
  assumes "dict_wf d" "ed_entries d \<noteq> []"
  shows "ed_length d - 1 \<in> fst ` set (ed_entries d)" "ed_length d \<noteq> 0"
proof -
  let ?K = "fst ` set (ed_entries d)"
  have ne: "?K \<noteq> {}" using assms(2) by simp
  have "ed_length d = Max (sat_succ ` ?K)"
    using assms ne by (simp add: dict_wf_def top_length_Max Max_insert)
  then have "ed_length d = sat_succ (Max ?K)"
    using mono_Max_commute [of sat_succ ?K] ne by (simp add: monoI sat_succ_mono)
  moreover have k: "Max ?K \<in> ?K" using ne by (intro Max_in) auto
  moreover have "Max ?K \<noteq> - 1" using k assms(1) by (force simp: dict_wf_def)
  ultimately have "ed_length d = Max ?K + 1" by (simp add: sat_succ_def)
  with k \<open>Max ?K \<noteq> - 1\<close> show "ed_length d - 1 \<in> ?K" "ed_length d \<noteq> 0"
    by (auto simp: eq_neg_iff_add_eq_0)
qed

lemma delete_members: "x \<in> set (AList.delete k es) \<Longrightarrow> x \<in> set es"
  by (simp add: AList.delete_eq)

lemma pop_dictionary:
  assumes "dict_wf d" "dict_pop d = (r, d')" "ed_length d \<noteq> 0"
  shows "dict_wf d' \<and> r = dict_get d (ed_length d - 1) \<and> r \<noteq> None
     \<and> dict_get d' = (dict_get d)(ed_length d - 1 := None)"
proof -
  have ne: "ed_entries d \<noteq> []" using assms(1,3) by (auto simp: dict_wf_def top_length_def)
  have "dict_get d (ed_length d - 1) \<noteq> None"
    using top_key(1) [OF assms(1) ne] by (simp add: dict_get_def map_of_eq_None_iff)
  with assms show ?thesis
    by (auto simp: dict_pop_def Let_def dict_get_def dict_wf_def delete_conv distinct_delete fun_eq_iff
        dest!: delete_members split: if_splits)
qed

lemma word_of_nat_unat_u32: "word_of_nat (unat (w :: u32)) = w"
  by simp

lemma index_pred: "L \<noteq> 0 \<Longrightarrow> (word_of_nat (unat L - 1) :: u32) = L - 1"
  by (metis One_nat_def unat_minus_one word_of_nat_unat_u32)

text \<open>
  Popping: a store of length zero is left alone, otherwise the element at the last
  index is what is returned, it is gone afterwards, and no other element changes.
\<close>

theorem elements_pop_refines:
  assumes "elements_wf a" "elements_pop a = (r, a')"
  shows "elements_wf a' \<and>
     (if elements_len a = 0 then r = None \<and> elem_at a' = elem_at a
      else Option.bind r seen = elem_at a (word_of_nat (elements_len a - 1))
         \<and> elem_at a' = (elem_at a)(word_of_nat (elements_len a - 1) := None))"
proof (cases "kind a = Dictionary")
  case True
  then obtain d where d: "a = E_Dictionary d" by (cases a) auto
  with assms obtain d' where d': "dict_pop d = (r, d')" "a' = E_Dictionary d'" and wf: "dict_wf d"
    by (cases "dict_pop d") (auto simp: elements_wf_def)
  show ?thesis
  proof (cases "ed_length d = 0")
    case True
    with assms(1) d d' show ?thesis by (simp add: dict_pop_def)
  next
    case False
    with pop_dictionary [OF wf d'(1)] index_pred [of "ed_length d"] show ?thesis
      by (auto simp: d d'(2) elem_at_def elements_wf_def)
  qed
next
  case False
  note p = pop_fast [OF assms(1) False assms(2)] and len = flat_len [OF False]
  show ?thesis
  proof (cases "flat a = []")
    case True
    with p len False show ?thesis by (auto simp: elem_at_flat)
  next
    case ne: False
    let ?n = "length (flat a) - 1"
    have "?n < 2 ^ LENGTH(32)" using assms(1) by (auto simp: elements_wf_def)
    moreover define L :: u32 where "L = word_of_nat ?n"
    ultimately have n: "unat L = ?n" by (simp only: unat_of_nat_small L_def)
    have last: "?n < length (flat a)" using ne by simp
    have "elem_at a' = (elem_at a)(L := None)"
    proof
      fix j :: u32
      have "j = L \<longleftrightarrow> unat j = ?n" using n by (metis unat_eq_iff)
      then show "elem_at a' j = ((elem_at a)(L := None)) j"
        using p False by (auto simp: elem_at_flat nth_butlast)
    qed
    moreover have "Option.bind r seen = elem_at a L"
      using p False ne n last by (simp add: elem_at_flat last_conv_nth)
    ultimately show ?thesis using p len ne unfolding L_def by simp
  qed
qed

theorem elements_pop_refines_witness:
  "elements_wf (snd (elements_pop (elements_set elements_new 5000 js_true)))"
proof -
  have "view_ok (VBool True)" by simp
  then have "is_canonical js_true" using view_canonical by (fastforce simp: from_bool_def)
  then have "elements_wf (elements_set elements_new 5000 js_true)"
    using elements_set_all [OF elements_new_wf, of js_true 5000] by simp
  from elements_pop_refines [OF this prod.collapse [symmetric]] show ?thesis by blast
qed

lemma sorted_indexed: "length vs \<le> 1024 \<Longrightarrow> sorted_wrt (<) (map fst (indexed_values vs))"
proof -
  assume len: "length vs \<le> 1024"
  have "map fst (indexed_values vs) = map (word_of_nat :: nat \<Rightarrow> u32) (map fst (enumerate 0 vs))"
    unfolding indexed_values_def map_map by (rule map_cong) auto
  then have keys: "map fst (indexed_values vs) = map (word_of_nat :: nat \<Rightarrow> u32) [0..<length vs]"
    unfolding map_fst_enumerate by simp
  have "(word_of_nat m :: u32) < word_of_nat n" if "m < n" "n < length vs" for m n
    using that len by (simp add: word_less_nat_alt unat_of_nat_small)
  then show ?thesis unfolding keys sorted_wrt_map
    by (auto simp: sorted_wrt_iff_nth_less)
qed

lemma sorted_indexed_present: "length vs \<le> 1024 \<Longrightarrow> sorted_wrt (<) (map fst (indexed_present vs))"
  using sorted_indexed [of vs] unfolding indexed_present_filter sorted_wrt_map
  by (rule sorted_wrt_filter)

lemma map_of_sort_key:
  assumes "distinct (map fst es)"
  shows "map_of (sort_key fst es) = map_of es"
proof (rule map_of_eqI)
  show "set (map fst (sort_key fst es)) = set (map fst es)" by simp
  have "distinct (map fst (sort_key fst es))" using assms by (simp add: distinct_map inj_on_def distinct_sort)
  then show "\<forall>k \<in> set (map fst (sort_key fst es)). map_of (sort_key fst es) k = map_of es k"
    using assms by (auto simp: map_of_eq_Some_iff)
qed

text \<open>
  \<open>dense_entries\<close> lists, in ascending index order, exactly what \<open>get\<close> returns.
\<close>

theorem dense_entries_exact:
  assumes "elements_wf a"
  shows "sorted_wrt (<) (map fst (dense_entries a)) \<and> map_of (dense_entries a) = elements_get a"
proof (cases a)
  case (E_Dictionary d)
  let ?es = "map (map_prod id de_value) (ed_entries d)"
  have keys: "map fst ?es = map fst (ed_entries d)" by simp
  then have dist: "distinct (map fst ?es)" using assms E_Dictionary by (simp add: elements_wf_def dict_wf_def)
  moreover have "set (map fst (sort_key fst ?es)) = set (map fst ?es)"
    by (simp add: image_image)
  ultimately have "distinct (map fst (sort_key fst ?es))"
    by (metis card_distinct distinct_card length_map length_sort)
  then have "sorted_wrt (<) (map fst (sort_key fst ?es))"
    by (simp add: strict_sorted_iff)
  moreover have "map_of ?es k = dict_get d k" for k
    using map_of_map [of de_value "ed_entries d"] by (simp add: dict_get_def map_prod_def)
  ultimately show ?thesis using map_of_sort_key [OF dist] by (simp add: E_Dictionary fun_eq_iff)
qed (use assms in \<open>auto simp: elements_wf_def sorted_indexed sorted_indexed_present map_of_indexed
    map_of_indexed_present fun_eq_iff list_get_def\<close>)

theorem dense_entries_exact_witness:
  "map_of (dense_entries (elements_set elements_new 5000 js_true)) 5000 \<noteq> None"
proof -
  let ?a = "elements_set elements_new 5000 js_true"
  have ok: "view_ok (VBool True)" by simp
  then have "is_canonical js_true" "seen js_true \<noteq> None"
    using view_canonical [OF ok] has_tag_view [OF ok] by (simp_all add: from_bool_def seen_def is_hole_def)
  then have wf: "elements_wf ?a" and at: "elem_at ?a = Map.empty(5000 := seen js_true)"
    using elements_set_all [OF elements_new_wf, of js_true 5000] elements_new_empty by simp_all
  have "elements_get ?a 5000 \<noteq> None" using fun_cong [OF at, of 5000] \<open>seen js_true \<noteq> None\<close>
    by (cases "elements_get ?a 5000") (simp_all add: elem_at_def)
  then show ?thesis using dense_entries_exact [OF wf] by simp
qed

end
