(* ===== verification/HeapObjects.thy ===== *)
theory HeapObjects
  imports Shapes Elements
begin

text \<open>
  The payload types of the heap's five spaces (\<open>object.rs\<close>, \<open>string.rs\<close>, \<open>function.rs\<close>,
  \<open>shape.rs\<close>) and their \<open>Trace\<close> implementations: a payload's trace is the list of the
  \<open>(space, index)\<close> pairs it reports to the mark sink, in order. A \<open>SmallVec\<close> or \<open>Vec\<close> is a
  list, a hash map an association list in its iteration order, and a raw function pointer its
  address.
\<close>

section \<open>Payloads\<close>

datatype object_kind =
    K_Ordinary | K_Function | K_Array | K_Arguments | K_Generator | K_Promise | K_Error | K_Map | K_Set
  | K_Iterator | K_RegExp | K_Date | K_ModuleNamespace | K_BindingCell | K_Proxy | K_StringPrim
  | K_NumberPrim | K_BooleanPrim | K_SymbolPrim

primrec kind_to_u8 :: "object_kind \<Rightarrow> u8" where
  "kind_to_u8 K_Ordinary = 0"
| "kind_to_u8 K_Function = 1"
| "kind_to_u8 K_Array = 2"
| "kind_to_u8 K_Arguments = 3"
| "kind_to_u8 K_Generator = 4"
| "kind_to_u8 K_Promise = 5"
| "kind_to_u8 K_Error = 6"
| "kind_to_u8 K_Map = 7"
| "kind_to_u8 K_Set = 8"
| "kind_to_u8 K_Iterator = 9"
| "kind_to_u8 K_RegExp = 10"
| "kind_to_u8 K_Date = 11"
| "kind_to_u8 K_ModuleNamespace = 12"
| "kind_to_u8 K_BindingCell = 13"
| "kind_to_u8 K_Proxy = 99"
| "kind_to_u8 K_StringPrim = 0xFF"
| "kind_to_u8 K_NumberPrim = 0xFE"
| "kind_to_u8 K_BooleanPrim = 0xFD"
| "kind_to_u8 K_SymbolPrim = 0xFC"

datatype integrity_level = Sealed | Frozen

datatype function_target =
  FT_Bytecode u32 | FT_Native u64 | FT_Host u64 | FT_RealmEval handle | FT_Bound handle

definition bytecode_index :: "function_target \<Rightarrow> u32 option" where
  "bytecode_index ft = (case ft of FT_Bytecode idx \<Rightarrow> Some idx | _ \<Rightarrow> None)"

record binding_cell_data =
  bc_value :: js_value
  bc_initialized :: bool
  bc_owner_module_id :: u32

datatype namespace_variant = NV_Eager | NV_Deferred

record module_namespace_record =
  mn_owner_module_id :: u32
  mn_variant :: namespace_variant
  mn_cells :: "handle list"

datatype private_name_kind = PN_Field | PN_Method | PN_Accessor

record private_name =
  pn_kind :: private_name_kind
  pn_description :: string
  pn_method :: js_value
  pn_setter :: js_value

record named_entry =
  ne_slot :: u32
  ne_attrs :: attrs
  ne_getter :: "handle option"
  ne_setter :: "handle option"
  ne_is_accessor :: bool
  ne_seq :: u32

record js_obj =
  obj_kind :: object_kind
  flags :: u8
  callable :: function_target
  program_id :: u32
  captured_env :: "handle option"
  obj_shape :: handle
  properties :: "js_value list"
  property_keys :: "prop_key option list"
  obj_elements :: "js_value list"
  elements_array :: elements
  prototype :: "handle option"
  proxy_target :: "handle option"
  proxy_handler :: "handle option"
  binding_cell :: "binding_cell_data option"
  module_namespace :: "module_namespace_record option"
  validity_cell :: validity_cell_id
  obj_private_name :: "private_name option"
  private_elements :: "(handle \<times> js_value) list option"
  dictionary :: "(prop_key \<times> named_entry) list option"
  dict_seq :: u32
  arguments_mapped :: "u32 option list option"
  arguments_callee :: "js_value option"
  arguments_strict :: bool

definition js_obj_default :: js_obj where
  "js_obj_default =
     \<lparr>obj_kind = K_Ordinary, flags = 0, callable = FT_Bytecode 0, program_id = 0, captured_env = None,
      obj_shape = 0, properties = [], property_keys = [], obj_elements = [],
      elements_array = elements_new, prototype = None, proxy_target = None, proxy_handler = None,
      binding_cell = None, module_namespace = None, validity_cell = VALIDITY_NONE,
      obj_private_name = None, private_elements = None, dictionary = None, dict_seq = 0,
      arguments_mapped = None, arguments_callee = None, arguments_strict = False\<rparr>"

datatype str_storage =
  Latin1 "u8 list" | Utf16 "u16 list" | Cons_str handle handle u32 | Sliced handle u32 u32

record v12_str =
  storage :: str_storage
  cached_hash :: "u32 option"

definition v12_str_default :: v12_str where
  "v12_str_default = \<lparr>storage = Latin1 [], cached_hash = None\<rparr>"

record v12_bigint =
  sign :: bool
  magnitude_le :: "u8 list"

definition v12_bigint_default :: v12_bigint where
  "v12_bigint_default = \<lparr>sign = False, magnitude_le = []\<rparr>"

section \<open>Tracing\<close>

type_synonym slot_ref = "space \<times> handle"

definition trace_value :: "js_value \<Rightarrow> slot_ref list" where
  "trace_value v = (case as_slot v of Some s \<Rightarrow> [s] | None \<Rightarrow> [])"

definition trace_values :: "js_value list \<Rightarrow> slot_ref list" where
  "trace_values vs = concat (map trace_value vs)"

definition trace_handle :: "space \<Rightarrow> handle option \<Rightarrow> slot_ref list" where
  "trace_handle sp h = (case h of Some i \<Rightarrow> [(sp, i)] | None \<Rightarrow> [])"

definition trace_prop_key :: "prop_key \<Rightarrow> slot_ref list" where
  "trace_prop_key k = []"

fun trace_target :: "function_target \<Rightarrow> slot_ref list" where
  "trace_target (FT_RealmEval global) = [(Objects, global)]"
| "trace_target (FT_Bound state) = [(Objects, state)]"
| "trace_target _ = []"

fun trace_elements :: "elements \<Rightarrow> slot_ref list" where
  "trace_elements (E_PackedSmi _) = []"
| "trace_elements (E_PackedDouble _) = []"
| "trace_elements (E_HoleySmi v) = trace_values v"
| "trace_elements (E_HoleyDouble v) = trace_values v"
| "trace_elements (E_PackedObject v) = trace_values v"
| "trace_elements (E_HoleyObject v) = trace_values v"
| "trace_elements (E_Dictionary d) = trace_values (map (de_value \<circ> snd) (ed_entries d))"

definition opt_trace :: "('a \<Rightarrow> slot_ref list) \<Rightarrow> 'a option \<Rightarrow> slot_ref list" where
  "opt_trace f x = (case x of Some y \<Rightarrow> f y | None \<Rightarrow> [])"

definition trace_object :: "js_obj \<Rightarrow> slot_ref list" where
  "trace_object ob =
     trace_values (properties ob)
     @ concat (map (opt_trace trace_prop_key) (property_keys ob))
     @ trace_values (obj_elements ob)
     @ trace_elements (elements_array ob)
     @ trace_handle Objects (prototype ob)
     @ opt_trace trace_value (arguments_callee ob)
     @ trace_handle Objects (proxy_target ob)
     @ trace_handle Objects (proxy_handler ob)
     @ trace_handle Objects (captured_env ob)
     @ opt_trace (\<lambda>cell. trace_value (bc_value cell)) (binding_cell ob)
     @ opt_trace (\<lambda>rec. map (Pair Objects) (mn_cells rec)) (module_namespace ob)
     @ trace_target (callable ob)
     @ opt_trace (\<lambda>nm. trace_value (pn_method nm) @ trace_value (pn_setter nm)) (obj_private_name ob)
     @ opt_trace (\<lambda>es. concat (map (\<lambda>(nm, v). (Objects, nm) # trace_value v) es)) (private_elements ob)
     @ opt_trace (\<lambda>d. concat (map (\<lambda>(k, e). trace_handle Objects (ne_getter e) @ trace_handle Objects (ne_setter e)) d))
         (dictionary ob)"

definition trace_string :: "v12_str \<Rightarrow> slot_ref list" where
  "trace_string s = (case storage s of
     Cons_str left right _ \<Rightarrow> [(Strings, left), (Strings, right)]
   | Sliced par _ _ \<Rightarrow> [(Strings, par)]
   | Latin1 _ \<Rightarrow> [] | Utf16 _ \<Rightarrow> [])"

definition trace_symbol :: "unit \<Rightarrow> slot_ref list" where "trace_symbol s = []"
definition trace_bigint :: "v12_bigint \<Rightarrow> slot_ref list" where "trace_bigint b = []"

definition trace_descriptor :: "descriptor \<Rightarrow> slot_ref list" where
  "trace_descriptor d =
     (case pk_parts (desc_key d) of
        (False, index) \<Rightarrow> [(Strings, index)]
      | (True, index) \<Rightarrow> [(Symbols, index)])
     @ (case d of Accessor _ g s _ \<Rightarrow> trace_handle Objects g @ trace_handle Objects s | Data _ _ _ \<Rightarrow> [])"

definition trace_shape :: "shape \<Rightarrow> slot_ref list" where
  "trace_shape sh =
     trace_handle Shapes (parent sh) @ concat (map trace_descriptor (descriptors_as_slice (descriptors sh)))"

section \<open>Which references are traced\<close>

lemma in_trace_value [simp]: "r \<in> set (trace_value v) \<longleftrightarrow> as_slot v = Some r"
  by (cases r) (auto simp: trace_value_def split: option.splits)

lemma in_trace_values [simp]: "r \<in> set (trace_values vs) \<longleftrightarrow> (\<exists>v \<in> set vs. as_slot v = Some r)"
  by (auto simp: trace_values_def)

lemma in_trace_handle [simp]: "r \<in> set (trace_handle sp h) \<longleftrightarrow> (\<exists>i. h = Some i \<and> r = (sp, i))"
  by (auto simp: trace_handle_def split: option.splits)

lemma in_opt_trace [simp]: "r \<in> set (opt_trace f x) \<longleftrightarrow> (\<exists>y. x = Some y \<and> r \<in> set (f y))"
  by (auto simp: opt_trace_def split: option.splits)

text \<open>An object's trace reports no shape and no property key: those are held by other roots.\<close>

lemma trace_object_spaces: "(sp, i) \<in> set (trace_object ob) \<Longrightarrow> sp \<noteq> Shapes"
proof -
  have vals: "as_slot v = Some (sp, i) \<Longrightarrow> sp \<noteq> Shapes" for v :: js_value and sp i
    by (auto simp: as_slot_def Let_def split: if_splits)
  have elems: "(sp, i) \<in> set (trace_elements es) \<Longrightarrow> sp \<noteq> Shapes" for es sp i
    by (cases es) (auto dest: vals)
  have target: "(sp, i) \<in> set (trace_target ft) \<Longrightarrow> sp \<noteq> Shapes" for ft sp i
    by (cases ft) auto
  show "(sp, i) \<in> set (trace_object ob) \<Longrightarrow> sp \<noteq> Shapes"
    by (auto simp: trace_object_def trace_prop_key_def dest: vals elems target)
qed

end
