(* ===== verification/StubCache.thy ===== *)
theory StubCache
  imports Shapes
begin

text \<open>
  The stub cache (\<open>v12-heap/src/stub_cache.rs\<close>): a 1024-slot, two-probe, generation-stamped
  memo of property lookups keyed by \<open>(shape, key)\<close>, with own entries and prototype-chain
  entries. A \<open>usize\<close> is 64 bits wide.
\<close>

section \<open>State\<close>

definition STUB_CACHE_CAPACITY :: nat where "STUB_CACHE_CAPACITY = 1024"
definition CAPACITY_MASK :: u64 where "CAPACITY_MASK = 1023"
definition EMPTY_STAMP :: u64 where "EMPTY_STAMP = 0"
definition FIRST_GENERATION :: u64 where "FIRST_GENERATION = EMPTY_STAMP + 1"
definition U32_MAX :: u32 where "U32_MAX = 0xFFFFFFFF"

record proto_hit =
  hit_target :: handle
  hit_slot :: u32
  hit_holder_shape :: handle
  hit_is_own :: bool

record stub_slot =
  stamp :: u64
  stub_shape :: handle
  stub_key :: prop_key
  stub_index :: u32
  holder :: handle
  holder_shape :: handle
  link0 :: "handle option"
  link1 :: "handle option"
  mid_shape :: handle
  proto_gen :: u64

record stub_cache =
  stub_slots :: "stub_slot list"
  generation :: u64

definition stub_hash :: "handle \<Rightarrow> prop_key \<Rightarrow> u64" where
  "stub_hash sh key =
     (let z = push_bit 32 (ucast sh) OR ucast key;
          z = (z XOR drop_bit 30 z) * 0xBF58476D1CE4E5B9;
          z = (z XOR drop_bit 27 z) * 0x94D049BB133111EB
      in z XOR drop_bit 31 z)"

definition probe_step :: "u64 \<Rightarrow> nat" where
  "probe_step hash = unat ((drop_bit 32 hash OR 1) AND CAPACITY_MASK)"

definition home_of :: "u64 \<Rightarrow> nat" where "home_of hash = unat (hash AND CAPACITY_MASK)"
definition alt_of :: "u64 \<Rightarrow> nat" where
  "alt_of hash = unat ((word_of_nat (home_of hash + probe_step hash) :: u64) AND CAPACITY_MASK)"

definition vacant_slot :: stub_slot where
  "vacant_slot =
     \<lparr>stamp = EMPTY_STAMP, stub_shape = U32_MAX, stub_key = 0, stub_index = 0, holder = U32_MAX,
      holder_shape = U32_MAX, link0 = None, link1 = None, mid_shape = U32_MAX, proto_gen = 0\<rparr>"

definition stub_new :: stub_cache where
  "stub_new = \<lparr>stub_slots = replicate STUB_CACHE_CAPACITY vacant_slot, generation = FIRST_GENERATION\<rparr>"

section \<open>Operations\<close>

definition matching_slot :: "stub_cache \<Rightarrow> nat \<Rightarrow> handle \<Rightarrow> prop_key \<Rightarrow> u32 option" where
  "matching_slot c idx sh key =
     (let entry = stub_slots c ! idx
      in if stamp entry = generation c \<and> stub_shape entry = sh \<and> stub_key entry = key
         then Some (stub_index entry) else None)"

definition stub_lookup :: "stub_cache \<Rightarrow> handle \<Rightarrow> prop_key \<Rightarrow> u32 option" where
  "stub_lookup c sh key =
     (let hash = stub_hash sh key; home = home_of hash
      in case matching_slot c home sh key of
           Some slot \<Rightarrow> Some slot
         | None \<Rightarrow> if stamp (stub_slots c ! home) = generation c then matching_slot c (alt_of hash) sh key else None)"

definition own_entry :: "u64 \<Rightarrow> handle \<Rightarrow> prop_key \<Rightarrow> u32 \<Rightarrow> stub_slot" where
  "own_entry gen sh key slot =
     \<lparr>stamp = gen, stub_shape = sh, stub_key = key, stub_index = slot, holder = U32_MAX,
      holder_shape = sh, link0 = None, link1 = None, mid_shape = U32_MAX, proto_gen = 0\<rparr>"

definition place :: "stub_cache \<Rightarrow> u64 \<Rightarrow> stub_slot \<Rightarrow> stub_cache" where
  "place c hash written =
     (let home = home_of hash; alt = alt_of hash;
          takes = (\<lambda>idx. stamp (stub_slots c ! idx) \<noteq> generation c
                       \<or> (stub_shape (stub_slots c ! idx) = stub_shape written
                          \<and> stub_key (stub_slots c ! idx) = stub_key written))
      in if takes home then c\<lparr>stub_slots := (stub_slots c)[home := written]\<rparr>
         else if takes alt then c\<lparr>stub_slots := (stub_slots c)[alt := written]\<rparr>
         else c\<lparr>stub_slots := (stub_slots c)[home := written]\<rparr>)"

definition stub_record :: "stub_cache \<Rightarrow> handle \<Rightarrow> prop_key \<Rightarrow> u32 \<Rightarrow> stub_cache" where
  "stub_record c sh key slot = place c (stub_hash sh key) (own_entry (generation c) sh key slot)"

definition record_proto :: "stub_cache \<Rightarrow> handle \<Rightarrow> prop_key \<Rightarrow> handle \<Rightarrow> handle \<Rightarrow> u32
    \<Rightarrow> handle option \<Rightarrow> handle option \<Rightarrow> handle \<Rightarrow> u64 \<Rightarrow> stub_cache" where
  "record_proto c sh key hold hold_shape hold_slot l0 l1 mid gen =
     place c (stub_hash sh key)
       \<lparr>stamp = generation c, stub_shape = sh, stub_key = key, stub_index = hold_slot, holder = hold,
        holder_shape = hold_shape, link0 = l0, link1 = l1, mid_shape = mid, proto_gen = gen\<rparr>"

definition matching_proto :: "stub_cache \<Rightarrow> nat \<Rightarrow> handle \<Rightarrow> handle \<Rightarrow> prop_key \<Rightarrow> u64
    \<Rightarrow> handle option \<Rightarrow> handle option \<Rightarrow> handle \<Rightarrow> proto_hit option" where
  "matching_proto c idx receiver sh key gen l0 l1 mid =
     (let entry = stub_slots c ! idx
      in if stamp entry \<noteq> generation c \<or> stub_shape entry \<noteq> sh \<or> stub_key entry \<noteq> key then None
         else if proto_gen entry \<noteq> gen then None
         else let is_own = link0 entry = None
           in if (case link0 entry of
                    Some recorded0 \<Rightarrow> l0 \<noteq> Some recorded0 \<or> link1 entry \<noteq> l1 \<or> mid_shape entry \<noteq> mid
                  | None \<Rightarrow> False)
              then None
              else Some \<lparr>hit_target = (if is_own then receiver else holder entry), hit_slot = stub_index entry,
                         hit_holder_shape = holder_shape entry, hit_is_own = is_own\<rparr>)"

definition lookup_proto :: "stub_cache \<Rightarrow> handle \<Rightarrow> handle \<Rightarrow> prop_key \<Rightarrow> u64
    \<Rightarrow> handle option \<Rightarrow> handle option \<Rightarrow> handle \<Rightarrow> proto_hit option" where
  "lookup_proto c receiver sh key gen l0 l1 mid =
     (let hash = stub_hash sh key; home = home_of hash
      in case matching_proto c home receiver sh key gen l0 l1 mid of
           Some hit \<Rightarrow> Some hit
         | None \<Rightarrow>
             if stamp (stub_slots c ! home) = generation c
             then matching_proto c (alt_of hash) receiver sh key gen l0 l1 mid else None)"

definition stub_clear :: "stub_cache \<Rightarrow> stub_cache" where
  "stub_clear c = c\<lparr>generation := generation c + 1\<rparr>"

section \<open>Probe addresses\<close>

lemma masked_lt: "unat (w AND CAPACITY_MASK) < STUB_CACHE_CAPACITY"
proof -
  have "w AND CAPACITY_MASK \<le> CAPACITY_MASK" by (rule word_and_le1)
  then show ?thesis by (simp add: word_le_nat_alt CAPACITY_MASK_def STUB_CACHE_CAPACITY_def)
qed

lemma masked_mod: "unat (w AND CAPACITY_MASK) = unat w mod STUB_CACHE_CAPACITY"
proof -
  have "CAPACITY_MASK = mask 10" by (simp add: CAPACITY_MASK_def mask_eq_exp_minus_1)
  then have "w AND CAPACITY_MASK = take_bit 10 w" by (simp only: take_bit_eq_mask)
  then show ?thesis
    by (simp only: unsigned_take_bit_eq) (simp add: STUB_CACHE_CAPACITY_def take_bit_eq_mod)
qed

lemma probe_step_odd: "odd (probe_step hash)"
proof -
  have "bit ((drop_bit 32 hash OR 1) AND CAPACITY_MASK) 0"
    by (simp add: bit_simps CAPACITY_MASK_def)
  then have "bit (unat ((drop_bit 32 hash OR 1) AND CAPACITY_MASK)) 0"
    by (simp only: bit_unsigned_iff) simp
  then show ?thesis unfolding probe_step_def by (simp only: bit_0 not_False_eq_True)
qed

lemma alt_mod: "alt_of hash = (home_of hash + probe_step hash) mod STUB_CACHE_CAPACITY"
proof -
  have "home_of hash + probe_step hash < 2 ^ 64"
    using masked_lt [of hash] masked_lt [of "drop_bit 32 hash OR 1"]
    by (simp add: home_of_def probe_step_def STUB_CACHE_CAPACITY_def)
  then show ?thesis unfolding alt_of_def masked_mod by (subst unat_of_nat_small) simp_all
qed

lemma probe_addresses [simp]:
  "home_of hash < STUB_CACHE_CAPACITY" "alt_of hash < STUB_CACHE_CAPACITY" "alt_of hash \<noteq> home_of hash"
proof -
  show "home_of hash < STUB_CACHE_CAPACITY" "alt_of hash < STUB_CACHE_CAPACITY"
    by (simp_all add: home_of_def alt_of_def masked_lt)
  show "alt_of hash \<noteq> home_of hash"
  proof
    assume "alt_of hash = home_of hash"
    then have "even (home_of hash + probe_step hash) = even (home_of hash)"
      unfolding alt_mod STUB_CACHE_CAPACITY_def
      by (metis dvd_mod_iff even_numeral)
    with probe_step_odd [of hash] show False by simp
  qed
qed

section \<open>Current entries\<close>

text \<open>\<open>current c i\<close> is the entry at \<open>i\<close> if it was written under the current generation.\<close>

definition current :: "stub_cache \<Rightarrow> nat \<Rightarrow> stub_slot option" where
  "current c i = (let e = stub_slots c ! i in if stamp e = generation c then Some e else None)"

definition names :: "handle \<Rightarrow> prop_key \<Rightarrow> stub_slot \<Rightarrow> bool" where
  "names sh key e \<longleftrightarrow> stub_shape e = sh \<and> stub_key e = key"

definition entry_hash :: "stub_slot \<Rightarrow> u64" where
  "entry_hash e = stub_hash (stub_shape e) (stub_key e)"

text \<open>
  The invariant: no stamp is ahead of the generation; a current entry sits at its home, or at
  its secondary address while its home is current; no pair has two current entries.
\<close>

definition stub_wf :: "stub_cache \<Rightarrow> bool" where
  "stub_wf c \<longleftrightarrow>
     length (stub_slots c) = STUB_CACHE_CAPACITY \<and>
     (\<forall>e \<in> set (stub_slots c). stamp e \<le> generation c) \<and>
     (\<forall>i < STUB_CACHE_CAPACITY. \<forall>e. current c i = Some e \<longrightarrow>
        i = home_of (entry_hash e) \<or> (i = alt_of (entry_hash e) \<and> current c (home_of (entry_hash e)) \<noteq> None)) \<and>
     (\<forall>i < STUB_CACHE_CAPACITY. \<forall>j < STUB_CACHE_CAPACITY. \<forall>e f. current c i = Some e \<longrightarrow>
        current c j = Some f \<longrightarrow> names (stub_shape f) (stub_key f) e \<longrightarrow> i = j)"

text \<open>The current entry of a pair, found by the two probes.\<close>

definition probe :: "stub_cache \<Rightarrow> handle \<Rightarrow> prop_key \<Rightarrow> stub_slot option" where
  "probe c sh key =
     (let hash = stub_hash sh key in
      case current c (home_of hash) of
        Some e \<Rightarrow> if names sh key e then Some e
                   else (case current c (alt_of hash) of
                      Some f \<Rightarrow> if names sh key f then Some f else None | None \<Rightarrow> None)
      | None \<Rightarrow> None)"

lemma probe_iff:
  assumes "stub_wf c"
  shows "probe c sh key = Some e \<longleftrightarrow> (\<exists>i < STUB_CACHE_CAPACITY. current c i = Some e \<and> names sh key e)"
proof
  assume "probe c sh key = Some e"
  then show "\<exists>i < STUB_CACHE_CAPACITY. current c i = Some e \<and> names sh key e"
    by (auto simp: probe_def Let_def split: option.splits if_splits intro: probe_addresses)
next
  assume "\<exists>i < STUB_CACHE_CAPACITY. current c i = Some e \<and> names sh key e"
  then obtain i where i: "i < STUB_CACHE_CAPACITY" "current c i = Some e" "names sh key e" by blast
  let ?h = "stub_hash sh key"
  have h: "entry_hash e = ?h" using i(3) by (simp add: entry_hash_def names_def)
  from assms i h have pos: "i = home_of ?h \<or> (i = alt_of ?h \<and> current c (home_of ?h) \<noteq> None)"
    unfolding stub_wf_def by metis
  have uniq: "j = i" if "j < STUB_CACHE_CAPACITY" "current c j = Some f" "names sh key f" for j f
    using assms i that unfolding stub_wf_def names_def by metis
  show "probe c sh key = Some e"
  proof (cases "i = home_of ?h")
    case True
    with i show ?thesis by (simp add: probe_def Let_def)
  next
    case False
    with pos obtain f where f: "current c (home_of ?h) = Some f" and ai: "i = alt_of ?h" by auto
    have "\<not> names sh key f" using uniq [OF _ f] False by auto
    with f ai i show ?thesis by (simp add: probe_def Let_def)
  qed
qed

lemma matching_slot_current:
  "matching_slot c i sh key =
     (case current c i of Some e \<Rightarrow> if names sh key e then Some (stub_index e) else None | None \<Rightarrow> None)"
  by (simp add: matching_slot_def current_def names_def Let_def)

lemma stub_lookup_probe: "stub_lookup c sh key = map_option stub_index (probe c sh key)"
proof -
  have "stamp (stub_slots c ! i) = generation c \<longleftrightarrow> current c i \<noteq> None" for i
    by (simp add: current_def Let_def)
  then show ?thesis
    by (auto simp: stub_lookup_def probe_def Let_def matching_slot_current split: option.splits)
qed

text \<open>The verifies of a proto lookup, over the entry the caller's pair names.\<close>

definition verified :: "stub_slot \<Rightarrow> u64 \<Rightarrow> handle option \<Rightarrow> handle option \<Rightarrow> handle \<Rightarrow> bool" where
  "verified e gen l0 l1 mid \<longleftrightarrow>
     proto_gen e = gen \<and> (link0 e \<noteq> None \<longrightarrow> l0 = link0 e \<and> l1 = link1 e \<and> mid = mid_shape e)"

definition hit_of :: "stub_slot \<Rightarrow> handle \<Rightarrow> proto_hit" where
  "hit_of e receiver =
     \<lparr>hit_target = (if link0 e = None then receiver else holder e), hit_slot = stub_index e,
      hit_holder_shape = holder_shape e, hit_is_own = (link0 e = None)\<rparr>"

lemma matching_proto_current:
  "matching_proto c i receiver sh key gen l0 l1 mid =
     (case current c i of
        Some e \<Rightarrow> if names sh key e \<and> verified e gen l0 l1 mid then Some (hit_of e receiver) else None
      | None \<Rightarrow> None)"
  by (auto simp: matching_proto_def current_def names_def verified_def hit_of_def Let_def split: option.splits)

lemma lookup_proto_probe:
  assumes "stub_wf c"
  shows "lookup_proto c receiver sh key gen l0 l1 mid =
    (case probe c sh key of
       Some e \<Rightarrow> if verified e gen l0 l1 mid then Some (hit_of e receiver) else None
     | None \<Rightarrow> None)"
proof -
  let ?h = "stub_hash sh key"
  have cur: "stamp (stub_slots c ! i) = generation c \<longleftrightarrow> current c i \<noteq> None" for i
    by (simp add: current_def Let_def)
  have once: "\<not> names sh key f"
    if "current c (home_of ?h) = Some e" "names sh key e" "current c (alt_of ?h) = Some f" for e f
  proof
    assume "names sh key f"
    with assms that probe_addresses [of ?h] show False unfolding stub_wf_def names_def by metis
  qed
  show ?thesis
    using once
    by (auto simp: lookup_proto_def probe_def Let_def matching_proto_current cur split: option.splits)
qed

section \<open>Recording and clearing\<close>

definition write_at :: "stub_cache \<Rightarrow> nat \<Rightarrow> stub_slot \<Rightarrow> stub_cache" where
  "write_at c i e = c\<lparr>stub_slots := (stub_slots c)[i := e]\<rparr>"

lemma write_at_sel [simp]:
  "generation (write_at c i e) = generation c" "length (stub_slots (write_at c i e)) = length (stub_slots c)"
  by (simp_all add: write_at_def)

lemma current_write_at:
  "i < length (stub_slots c) \<Longrightarrow> stamp e = generation c \<Longrightarrow>
     current (write_at c i e) j = (if j = i then Some e else current c j)"
  by (simp add: current_def write_at_def Let_def)

lemma stub_wf_length: "stub_wf c \<Longrightarrow> length (stub_slots c) = STUB_CACHE_CAPACITY"
  by (simp add: stub_wf_def)

lemma write_at_wf:
  assumes wf: "stub_wf c" and i: "i < STUB_CACHE_CAPACITY" and st: "stamp e = generation c"
    and pos: "i = home_of (entry_hash e) \<or> (i = alt_of (entry_hash e) \<and> current c (home_of (entry_hash e)) \<noteq> None)"
    and sole: "\<And>j f. j < STUB_CACHE_CAPACITY \<Longrightarrow> j \<noteq> i \<Longrightarrow> current c j = Some f \<Longrightarrow>
      \<not> names (stub_shape e) (stub_key e) f"
  shows "stub_wf (write_at c i e)"
proof -
  have cur: "current (write_at c i e) j = (if j = i then Some e else current c j)" for j
    using current_write_at [of i c e] i st stub_wf_length [OF wf] by simp
  have sym: "names (stub_shape f) (stub_key f) g \<longleftrightarrow> names (stub_shape g) (stub_key g) f" for f g
    by (auto simp: names_def)
  have "\<forall>x \<in> set (stub_slots (write_at c i e)). stamp x \<le> generation (write_at c i e)"
    using wf st by (auto simp: write_at_def stub_wf_def dest!: set_update_subset_insert [THEN subsetD])
  moreover have "j = home_of (entry_hash x) \<or>
      (j = alt_of (entry_hash x) \<and> current (write_at c i e) (home_of (entry_hash x)) \<noteq> None)"
    if "j < STUB_CACHE_CAPACITY" "current (write_at c i e) j = Some x" for j x
  proof (cases "j = i")
    case True
    with that have "x = e" by (simp add: cur)
    with True pos cur show ?thesis by metis
  next
    case False
    with that have "current c j = Some x" by (simp add: cur)
    with wf that(1) have "j = home_of (entry_hash x) \<or> (j = alt_of (entry_hash x) \<and> current c (home_of (entry_hash x)) \<noteq> None)"
      unfolding stub_wf_def by metis
    then show ?thesis by (auto simp: cur)
  qed
  moreover have "j = k" if jk: "j < STUB_CACHE_CAPACITY" "k < STUB_CACHE_CAPACITY"
    and x: "current (write_at c i e) j = Some x" and y: "current (write_at c i e) k = Some y"
    and n: "names (stub_shape y) (stub_key y) x" for j k x y
  proof (rule ccontr)
    assume ne: "j \<noteq> k"
    consider "j = i" "k \<noteq> i" | "k = i" "j \<noteq> i" | "j \<noteq> i" "k \<noteq> i" using ne by blast
    then show False
    proof cases
      case 1
      with x y cur have "x = e" "current c k = Some y" by simp_all
      with sole [OF jk(2) 1(2)] n sym show False by metis
    next
      case 2
      with x y cur have "y = e" "current c j = Some x" by simp_all
      with sole [OF jk(1) 2(2)] n show False by metis
    next
      case 3
      with x y have "current c j = Some x" "current c k = Some y" by (simp_all add: cur)
      with wf jk n ne show False unfolding stub_wf_def by metis
    qed
  qed
  ultimately show ?thesis
    unfolding stub_wf_def using stub_wf_length [OF wf] by simp
qed

text \<open>Where an entry is placed: an address of its own, holding no other entry of its pair.\<close>

lemma place_spec:
  assumes wf: "stub_wf c" and st: "stamp e = generation c"
  obtains i where "place c (entry_hash e) e = write_at c i e" "i < STUB_CACHE_CAPACITY"
    "i = home_of (entry_hash e) \<or> (i = alt_of (entry_hash e) \<and> current c (home_of (entry_hash e)) \<noteq> None)"
    "\<And>j f. j < STUB_CACHE_CAPACITY \<Longrightarrow> j \<noteq> i \<Longrightarrow> current c j = Some f \<Longrightarrow>
       \<not> names (stub_shape e) (stub_key e) f"
proof -
  let ?h = "entry_hash e"
  define takes where "takes idx \<longleftrightarrow> current c idx = None \<or> (\<exists>f. current c idx = Some f \<and> names (stub_shape e) (stub_key e) f)" for idx
  have place: "place c ?h e =
      (if takes (home_of ?h) then write_at c (home_of ?h) e
       else if takes (alt_of ?h) then write_at c (alt_of ?h) e else write_at c (home_of ?h) e)"
    by (auto simp: place_def Let_def write_at_def takes_def current_def names_def)
  have at: "(j = home_of ?h \<or> (j = alt_of ?h \<and> current c (home_of ?h) \<noteq> None))"
    if "j < STUB_CACHE_CAPACITY" "current c j = Some f" "names (stub_shape e) (stub_key e) f" for j f
  proof -
    from that(3) have "entry_hash f = ?h" by (simp add: entry_hash_def names_def)
    with wf that(1,2) show ?thesis unfolding stub_wf_def by metis
  qed
  have uniq: "j = k" if "j < STUB_CACHE_CAPACITY" "k < STUB_CACHE_CAPACITY" "current c j = Some f"
    "current c k = Some g" "names (stub_shape e) (stub_key e) f" "names (stub_shape e) (stub_key e) g" for j k f g
    using wf that unfolding stub_wf_def names_def by metis
  show thesis
  proof (cases "takes (home_of ?h)")
    case True
    show thesis
    proof (rule that [of "home_of ?h"])
      show "\<not> names (stub_shape e) (stub_key e) f"
        if "j < STUB_CACHE_CAPACITY" "j \<noteq> home_of ?h" "current c j = Some f" for j f
        using True at [OF that(1,3)] uniq [OF that(1) probe_addresses(1) that(3)] that(2)
        by (auto simp: takes_def)
    qed (use True place in auto)
  next
    case nh: False
    then have ch: "current c (home_of ?h) \<noteq> None"
      and hn: "\<And>f. current c (home_of ?h) = Some f \<Longrightarrow> \<not> names (stub_shape e) (stub_key e) f"
      by (auto simp: takes_def)
    show thesis
    proof (cases "takes (alt_of ?h)")
      case True
      show thesis
      proof (rule that [of "alt_of ?h"])
        show "\<not> names (stub_shape e) (stub_key e) f"
          if "j < STUB_CACHE_CAPACITY" "j \<noteq> alt_of ?h" "current c j = Some f" for j f
          using at [OF that(1,3)] that(2,3) hn by auto
      qed (use True nh place ch in auto)
    next
      case False
      show thesis
      proof (rule that [of "home_of ?h"])
        show "\<not> names (stub_shape e) (stub_key e) f"
          if "j < STUB_CACHE_CAPACITY" "j \<noteq> home_of ?h" "current c j = Some f" for j f
          using at [OF that(1,3)] that(2,3) False by (auto simp: takes_def)
      qed (use False nh place in auto)
    qed
  qed
qed

lemma place_wf:
  assumes wf: "stub_wf c" and st: "stamp e = generation c"
  shows "stub_wf (place c (entry_hash e) e)" "generation (place c (entry_hash e) e) = generation c"
    "probe (place c (entry_hash e) e) (stub_shape e) (stub_key e) = Some e"
    "probe (place c (entry_hash e) e) sh key = Some x \<Longrightarrow> \<not> names sh key e \<Longrightarrow> probe c sh key = Some x"
    "\<exists>old. \<forall>sh key. \<not> names sh key e \<longrightarrow> probe c sh key \<noteq> None \<longrightarrow>
       probe (place c (entry_hash e) e) sh key = None \<longrightarrow> (sh, key) = old"
proof -
  obtain i where p: "place c (entry_hash e) e = write_at c i e" "i < STUB_CACHE_CAPACITY"
    "i = home_of (entry_hash e) \<or> (i = alt_of (entry_hash e) \<and> current c (home_of (entry_hash e)) \<noteq> None)"
    "\<And>j f. j < STUB_CACHE_CAPACITY \<Longrightarrow> j \<noteq> i \<Longrightarrow> current c j = Some f \<Longrightarrow>
       \<not> names (stub_shape e) (stub_key e) f"
    by (rule place_spec [OF assms]) (rule that, assumption+)
  show wf': "stub_wf (place c (entry_hash e) e)" and "generation (place c (entry_hash e) e) = generation c"
    using write_at_wf [OF wf p(2) st p(3,4)] by (simp_all add: p(1))
  have cur: "current (write_at c i e) j = (if j = i then Some e else current c j)" for j
    using current_write_at [of i c e] p(2) st stub_wf_length [OF wf] by simp
  note iff = probe_iff [OF wf', unfolded p(1)] probe_iff [OF wf]
  show "probe (place c (entry_hash e) e) (stub_shape e) (stub_key e) = Some e"
    unfolding p(1) iff using p(2) by (auto simp: cur names_def intro!: exI [of _ i])
  show "probe (place c (entry_hash e) e) sh key = Some x \<Longrightarrow> \<not> names sh key e \<Longrightarrow> probe c sh key = Some x"
    unfolding p(1) iff by (auto simp: cur split: if_splits)
  have "(sh, key) = (case current c i of Some f \<Rightarrow> (stub_shape f, stub_key f) | None \<Rightarrow> (0, 0))"
    if "\<not> names sh key e" "probe c sh key = Some y" "probe (write_at c i e) sh key = None" for sh key y
  proof -
    from that(2) obtain j where j: "j < STUB_CACHE_CAPACITY" "current c j = Some y" "names sh key y"
      unfolding iff by blast
    have "j = i"
    proof (rule ccontr)
      assume "j \<noteq> i"
      with j have "probe (write_at c i e) sh key = Some y" unfolding iff by (auto simp: cur)
      with that(3) show False by simp
    qed
    with j show ?thesis by (simp add: names_def)
  qed
  then show "\<exists>old. \<forall>sh key. \<not> names sh key e \<longrightarrow> probe c sh key \<noteq> None \<longrightarrow>
       probe (place c (entry_hash e) e) sh key = None \<longrightarrow> (sh, key) = old"
    unfolding p(1) by blast
qed

lemma stub_new_wf [simp]: "stub_wf stub_new" "probe stub_new sh key = None"
proof -
  have "current stub_new i = None" if "i < STUB_CACHE_CAPACITY" for i
    using that by (simp add: current_def stub_new_def vacant_slot_def EMPTY_STAMP_def FIRST_GENERATION_def)
  then show "stub_wf stub_new" "probe stub_new sh key = None"
    by (auto simp: stub_wf_def probe_def Let_def)
      (auto simp: stub_new_def vacant_slot_def EMPTY_STAMP_def)
qed

lemma stub_clear_wf:
  assumes wf: "stub_wf c" and gen: "generation c \<noteq> - 1"
  shows "stub_wf (stub_clear c)" "probe (stub_clear c) sh key = None"
proof -
  have lt: "generation c < generation (stub_clear c)"
  proof -
    have "1 + generation c \<noteq> 0" using gen by (metis add.commute eq_neg_iff_add_eq_0)
    from unatSuc [OF this] show ?thesis by (simp add: stub_clear_def word_less_nat_alt add.commute)
  qed
  have old: "stamp e < generation (stub_clear c)" if "e \<in> set (stub_slots c)" for e
    using wf that lt by (auto simp: stub_wf_def)
  have "current (stub_clear c) i = None" if "i < STUB_CACHE_CAPACITY" for i
    using old [of "stub_slots c ! i"] that stub_wf_length [OF wf]
    by (auto simp: current_def stub_clear_def Let_def)
  with old wf show "stub_wf (stub_clear c)" "probe (stub_clear c) sh key = None"
    by (auto simp: stub_wf_def probe_def Let_def stub_clear_def less_imp_le)
qed

section \<open>Histories\<close>

datatype stub_op =
    RecordOwn handle prop_key u32
  | RecordProto handle prop_key handle handle u32 "handle option" "handle option" handle u64
  | ClearStubs

fun stub_run :: "stub_op \<Rightarrow> stub_cache \<Rightarrow> stub_cache" where
  "stub_run (RecordOwn sh key slot) c = stub_record c sh key slot"
| "stub_run (RecordProto sh key h hs slot l0 l1 mid gen) c = record_proto c sh key h hs slot l0 l1 mid gen"
| "stub_run ClearStubs c = stub_clear c"

text \<open>What a cache with no capacity limit would remember: the last record of each pair.\<close>

fun op_entry :: "u64 \<Rightarrow> stub_op \<Rightarrow> stub_slot option" where
  "op_entry gen (RecordOwn sh key slot) = Some (own_entry gen sh key slot)"
| "op_entry gen (RecordProto sh key h hs slot l0 l1 mid pg) =
     Some \<lparr>stamp = gen, stub_shape = sh, stub_key = key, stub_index = slot, holder = h,
           holder_shape = hs, link0 = l0, link1 = l1, mid_shape = mid, proto_gen = pg\<rparr>"
| "op_entry gen ClearStubs = None"

definition stub_spec :: "stub_op \<Rightarrow> (handle \<times> prop_key \<rightharpoonup> stub_slot) \<Rightarrow> (handle \<times> prop_key \<rightharpoonup> stub_slot)" where
  "stub_spec op m = (case op_entry EMPTY_STAMP op of Some e \<Rightarrow> m((stub_shape e, stub_key e) \<mapsto> e) | None \<Rightarrow> Map.empty)"

lemma stub_run_record:
  "op_entry (generation c) op = Some e \<Longrightarrow> stub_run op c = place c (entry_hash e) e \<and> stamp e = generation c"
  by (cases op) (auto simp: stub_record_def record_proto_def entry_hash_def own_entry_def)

lemma op_entry_stamp:
  "op_entry gen op = Some e \<Longrightarrow> op_entry gen' op = Some (e\<lparr>stamp := gen'\<rparr>)"
  by (cases op) (auto simp: own_entry_def)

definition remembers :: "stub_cache \<Rightarrow> (handle \<times> prop_key \<rightharpoonup> stub_slot) \<Rightarrow> bool" where
  "remembers c m \<longleftrightarrow>
     (\<forall>sh key e. probe c sh key = Some e \<longrightarrow> m (sh, key) = Some (e\<lparr>stamp := EMPTY_STAMP\<rparr>))"

lemma stub_run_remembers:
  assumes wf: "stub_wf c" and rem: "remembers c m" and gen: "op = ClearStubs \<longrightarrow> generation c \<noteq> - 1"
  shows "stub_wf (stub_run op c) \<and> remembers (stub_run op c) (stub_spec op m)"
proof (cases "op_entry (generation c) op")
  case None
  then have "op = ClearStubs" by (cases op) auto
  with gen stub_clear_wf [OF wf] show ?thesis by (auto simp: remembers_def)
next
  case (Some e)
  from stub_run_record [OF Some] have st: "stamp e = generation c"
    and run: "stub_run op c = place c (entry_hash e) e" by auto
  note p = place_wf [OF wf st]
  have spec: "stub_spec op m = m((stub_shape e, stub_key e) \<mapsto> e\<lparr>stamp := EMPTY_STAMP\<rparr>)"
    by (simp add: stub_spec_def op_entry_stamp [OF Some])
  have "m' (sh, key) = Some (x\<lparr>stamp := EMPTY_STAMP\<rparr>)"
    if m': "m' = stub_spec op m" and x: "probe (place c (entry_hash e) e) sh key = Some x" for m' sh key x
  proof (cases "names sh key e")
    case True
    with p(3) x have "x = e" by (simp add: names_def)
    with True show ?thesis by (simp add: m' spec names_def)
  next
    case False
    with p(4) [OF x] rem have "m (sh, key) = Some (x\<lparr>stamp := EMPTY_STAMP\<rparr>)" by (simp add: remembers_def)
    with False show ?thesis by (auto simp: m' spec names_def)
  qed
  with p(1) show ?thesis by (simp add: run remembers_def)
qed

lemma generation_run:
  "generation (stub_run op c) = (if op = ClearStubs then generation c + 1 else generation c)"
  by (cases op) (auto simp: stub_record_def record_proto_def place_def Let_def stub_clear_def)

lemma stub_history:
  assumes "length (filter (\<lambda>op. op = ClearStubs) ops) < 2 ^ 64 - 1"
  shows "stub_wf (fold stub_run ops stub_new) \<and> remembers (fold stub_run ops stub_new) (fold stub_spec ops Map.empty)
    \<and> unat (generation (fold stub_run ops stub_new)) = 1 + length (filter (\<lambda>op. op = ClearStubs) ops)"
  using assms
proof (induction ops rule: rev_induct)
  case Nil
  then show ?case
    by (simp add: remembers_def) (simp add: stub_new_def FIRST_GENERATION_def EMPTY_STAMP_def)
next
  case (snoc op ops)
  let ?c = "fold stub_run ops stub_new"
  from snoc have IH: "stub_wf ?c" "remembers ?c (fold stub_spec ops Map.empty)"
    "unat (generation ?c) = 1 + length (filter (\<lambda>op. op = ClearStubs) ops)" by auto
  have gen: "generation ?c \<noteq> - 1" if "op = ClearStubs"
  proof
    assume "generation ?c = - 1"
    then have "unat (generation ?c) = 2 ^ 64 - 1" by (simp add: unsigned_minus_1_eq_mask mask_eq_exp_minus_1)
    with IH(3) snoc.prems that show False by simp
  qed
  have "unat (generation (stub_run op ?c)) = 1 + length (filter (\<lambda>op. op = ClearStubs) (ops @ [op]))"
  proof (cases "op = ClearStubs")
    case True
    have "1 + generation ?c \<noteq> 0" using gen [OF True] by (metis add.commute eq_neg_iff_add_eq_0)
    from unatSuc [OF this] IH(3) True show ?thesis by (simp add: generation_run stub_clear_def add.commute)
  next
    case False
    with IH(3) show ?thesis by (simp add: generation_run)
  qed
  with stub_run_remembers [OF IH(1,2)] gen show ?case by auto
qed

text \<open>
  C37. The stub cache never answers wrongly. After any history of own records, proto records
  and clears (fewer clears than a 64-bit generation can count), a lookup either misses or
  returns the slot of the most recent record of that very \<open>(shape, key)\<close> pair since the last
  clear; a proto lookup hits only when in addition every link the record observed still
  holds, and then names the current receiver for an own entry and the recorded holder
  otherwise. Evictions and collisions only lose answers.
\<close>

theorem stub_cache_sound:
  assumes "length (filter (\<lambda>op. op = ClearStubs) ops) < 2 ^ 64 - 1"
  shows "(let c = fold stub_run ops stub_new; m = fold stub_spec ops Map.empty in
     (\<forall>sh key slot. stub_lookup c sh key = Some slot \<longrightarrow> (\<exists>e. m (sh, key) = Some e \<and> stub_index e = slot)) \<and>
     (\<forall>r sh key pg l0 l1 mid hit. lookup_proto c r sh key pg l0 l1 mid = Some hit \<longrightarrow>
        (\<exists>e. m (sh, key) = Some e \<and> verified e pg l0 l1 mid \<and> hit = hit_of e r)))"
proof -
  let ?c = "fold stub_run ops stub_new"
  from stub_history [OF assms] have wf: "stub_wf ?c" and rem: "remembers ?c (fold stub_spec ops Map.empty)"
    by auto
  have st: "verified (e\<lparr>stamp := s\<rparr>) = verified e" "hit_of (e\<lparr>stamp := s\<rparr>) = hit_of e" for e s
    by (intro ext, simp add: verified_def) (intro ext, simp add: hit_of_def)
  show ?thesis
    using rem unfolding Let_def stub_lookup_probe lookup_proto_probe [OF wf] remembers_def
    by (fastforce simp: st split: option.splits if_splits)
qed

lemma stub_cache_sound_witness:
  "stub_lookup (fold stub_run [RecordOwn 3 4 5, RecordOwn 3 4 6] stub_new) 3 4 \<noteq> Some 5"
proof
  let ?ops = "[RecordOwn 3 4 5, RecordOwn 3 4 6]"
  assume hit: "stub_lookup (fold stub_run ?ops stub_new) 3 4 = Some 5"
  have "length (filter (\<lambda>op. op = ClearStubs) ?ops) < 2 ^ 64 - 1" by simp
  from stub_cache_sound [OF this, unfolded Let_def, THEN conjunct1, rule_format, OF hit]
  show False by (auto simp: stub_spec_def own_entry_def)
qed

text \<open>
  A record takes effect at once and costs at most one other stub. In a reachable cache
  (\<open>stub_wf\<close>, which holds of the new cache and is kept by every operation), the pair just
  recorded answers its slot; any other pair answers as before or misses, and at most one
  pair that answered before misses now.
\<close>

theorem stub_record_effect:
  assumes "stub_wf c"
  shows "stub_wf (stub_record c sh key slot) \<and> stub_lookup (stub_record c sh key slot) sh key = Some slot \<and>
    (\<forall>sh' key'. (sh', key') \<noteq> (sh, key) \<longrightarrow>
       stub_lookup (stub_record c sh key slot) sh' key' \<in> {None, stub_lookup c sh' key'}) \<and>
    (\<exists>old. \<forall>sh' key'. (sh', key') \<noteq> (sh, key) \<longrightarrow> (sh', key') \<noteq> old \<longrightarrow>
       stub_lookup (stub_record c sh key slot) sh' key' = stub_lookup c sh' key')"
proof -
  let ?e = "own_entry (generation c) sh key slot"
  have n: "names sh' key' ?e \<longleftrightarrow> (sh', key') = (sh, key)" for sh' key'
    by (auto simp: names_def own_entry_def)
  have e: "stamp ?e = generation c" "entry_hash ?e = stub_hash sh key" "stub_shape ?e = sh"
    "stub_key ?e = key" "stub_index ?e = slot"
    by (simp_all add: own_entry_def entry_hash_def)
  note p = place_wf [OF assms e(1), unfolded e(2-4)]
  let ?c = "place c (stub_hash sh key) ?e"
  have other: "probe ?c sh' key' = None \<or> probe ?c sh' key' = probe c sh' key'"
    if "(sh', key') \<noteq> (sh, key)" for sh' key'
    using p(4) [of sh' key'] that n by (cases "probe ?c sh' key'") auto
  from p(5) obtain old where old: "\<And>sh' key'. (sh', key') \<noteq> (sh, key) \<Longrightarrow> probe c sh' key' \<noteq> None \<Longrightarrow>
      probe ?c sh' key' = None \<Longrightarrow> (sh', key') = old"
    unfolding n by metis
  have same: "probe ?c sh' key' = probe c sh' key'" if "(sh', key') \<noteq> (sh, key)" "(sh', key') \<noteq> old" for sh' key'
    using other [OF that(1)] old [OF that(1)] that(2) by metis
  show ?thesis
    unfolding stub_record_def stub_lookup_probe
  proof (intro conjI allI impI exI [of _ old])
    show "stub_wf ?c" by (rule p(1))
    show "map_option stub_index (probe ?c sh key) = Some slot" by (simp add: p(3) e(5))
  next
    fix sh' key' assume "(sh', key') \<noteq> (sh, key)"
    from other [OF this]
    show "map_option stub_index (probe ?c sh' key') \<in> {None, map_option stub_index (probe c sh' key')}" by auto
  next
    fix sh' key' assume "(sh', key') \<noteq> (sh, key)" "(sh', key') \<noteq> old"
    from same [OF this]
    show "map_option stub_index (probe ?c sh' key') = map_option stub_index (probe c sh' key')" by simp
  qed
qed

lemma stub_record_effect_witness: "stub_lookup (stub_record stub_new 7 8 9) 7 8 = Some 9"
  using stub_record_effect [OF stub_new_wf(1), of 7 8 9] by blast

end
