(* ===== verification/Heap.thy ===== *)
theory Heap
  imports GcSpaces HeapObjects StubCache
begin

text \<open>
  The heap and its collector (\<open>v12-heap/src/gc.rs\<close>): five spaces, the root registries, the
  mark phase with its explicit worklist, the prune of shape transitions and \<open>force_collect\<close>.
  The byte accounting that decides when to collect (\<open>approx_size\<close>, capacities) is not part of
  the state.
\<close>

section \<open>State\<close>

record heap =
  objects :: "js_obj space_state"
  strings :: "v12_str space_state"
  symbols :: "unit space_state"
  bigints :: "v12_bigint space_state"
  shapes :: "shape space_state"
  roots :: "js_value list"
  shape_roots :: "handle list"
  root_shape :: handle
  promise_shape :: handle
  validity_cells :: "u32 list"
  interned_strings :: "(u32 \<times> handle list) list"
  realm_globals :: "handle list"
  module_roots :: "handle list"
  pinned_roots :: "handle list"
  symbol_registry :: "(string \<times> handle) list"
  symbol_registry_reverse :: "(u32 \<times> string) list"
  well_known :: "handle option list"
  stubs :: stub_cache
  proto_generation :: u64
  collections :: u64

definition PROMISE_INTERNAL_SLOTS :: u32 where "PROMISE_INTERNAL_SLOTS = 3"

definition heap_new :: heap where
  "heap_new =
     \<lparr>objects = space_new [], strings = space_new [], symbols = space_new [], bigints = space_new [],
      shapes = space_new [shape_root, shape_reserved PROMISE_INTERNAL_SLOTS],
      roots = [], shape_roots = [0, 1], root_shape = 0, promise_shape = 1, validity_cells = [],
      interned_strings = [], realm_globals = [], module_roots = [], pinned_roots = [],
      symbol_registry = [], symbol_registry_reverse = [], well_known = [], stubs = stub_new,
      proto_generation = 0, collections = 0\<rparr>"

section \<open>The collector\<close>

record collector =
  marked :: "space \<Rightarrow> bool list"
  work :: "(space \<times> nat) list"

definition collector_new :: "(space \<Rightarrow> nat) \<Rightarrow> collector" where
  "collector_new counts = \<lparr>marked = (\<lambda>sp. replicate (counts sp) False), work = []\<rparr>"

definition mark :: "space \<Rightarrow> u32 \<Rightarrow> collector \<Rightarrow> collector" where
  "mark sp index c =
     (let i = unat index; bits = marked c sp
      in if i < length bits \<and> \<not> bits ! i
         then c\<lparr>marked := (marked c)(sp := bits[i := True]), work := work c @ [(sp, i)]\<rparr>
         else c)"

definition mark_value :: "js_value \<Rightarrow> collector \<Rightarrow> collector" where
  "mark_value v c = (case as_slot v of Some (sp, index) \<Rightarrow> mark sp index c | None \<Rightarrow> c)"

text \<open>What a payload reports to the sink, marked one after the other.\<close>

definition mark_refs :: "slot_ref list \<Rightarrow> collector \<Rightarrow> collector" where
  "mark_refs refs c = fold (\<lambda>(sp, i). mark sp i) refs c"

definition space_len :: "heap \<Rightarrow> space \<Rightarrow> nat" where
  "space_len h sp = (case sp of
     Objects \<Rightarrow> length (slots (objects h)) | Strings \<Rightarrow> length (slots (strings h))
   | Symbols \<Rightarrow> length (slots (symbols h)) | Bigints \<Rightarrow> length (slots (bigints h))
   | Shapes \<Rightarrow> length (slots (shapes h)))"

definition slot_refs :: "heap \<Rightarrow> space \<Rightarrow> nat \<Rightarrow> slot_ref list" where
  "slot_refs h sp index = (case sp of
     Objects \<Rightarrow> trace_object (slots (objects h) ! index)
   | Strings \<Rightarrow> trace_string (slots (strings h) ! index)
   | Symbols \<Rightarrow> trace_symbol (slots (symbols h) ! index)
   | Bigints \<Rightarrow> trace_bigint (slots (bigints h) ! index)
   | Shapes \<Rightarrow> trace_shape (slots (shapes h) ! index))"

definition trace_referents :: "heap \<Rightarrow> space \<Rightarrow> nat \<Rightarrow> collector \<Rightarrow> collector" where
  "trace_referents h sp index c = mark_refs (slot_refs h sp index) c"

definition mark_roots :: "heap \<Rightarrow> collector \<Rightarrow> collector" where
  "mark_roots h c =
     (let c = fold mark_value (roots h) c;
          c = fold (mark Shapes) (shape_roots h) c;
          c = fold (mark Objects) (realm_globals h) c;
          c = fold (mark Objects) (module_roots h) c;
          c = fold (mark Objects) (pinned_roots h) c;
          c = fold (\<lambda>(_, bucket). fold (mark Strings) bucket) (interned_strings h) c;
          c = fold (\<lambda>(_, s). mark Symbols s) (symbol_registry h) c;
          c = fold (mark Symbols) (List.map_filter id (well_known h)) c
      in c)"

text \<open>
  The slots a collector has not marked yet: each iteration of the worklist loop pops one entry
  and pushes one per slot it marks.
\<close>

definition unmarked :: "collector \<Rightarrow> nat" where
  "unmarked c = sum_list (map (\<lambda>sp. length (filter Not (marked c sp))) [Objects, Strings, Symbols, Bigints, Shapes])"

lemma filter_Not_update:
  "i < length bits \<Longrightarrow> \<not> bits ! i \<Longrightarrow> Suc (length (filter Not (bits[i := True]))) = length (filter Not bits)"
  by (induction bits arbitrary: i) (auto simp: nth_Cons split: nat.splits)

lemma unmarked_mark: "unmarked (mark sp i c) + length (work (mark sp i c)) = unmarked c + length (work c)"
  by (cases sp) (auto simp: mark_def Let_def unmarked_def dest!: filter_Not_update)

lemma unmarked_refs: "unmarked (mark_refs refs c) + length (work (mark_refs refs c)) = unmarked c + length (work c)"
  unfolding mark_refs_def
  by (induction refs arbitrary: c) (auto simp: unmarked_mark)

lemma unmarked_work [simp]: "unmarked (c\<lparr>work := w\<rparr>) = unmarked c"
  by (simp add: unmarked_def)

function mark_loop :: "heap \<Rightarrow> collector \<Rightarrow> collector" where
  "mark_loop h c =
     (if work c = [] then c
      else case last (work c) of (sp, i) \<Rightarrow>
        mark_loop h (trace_referents h sp i (c\<lparr>work := butlast (work c)\<rparr>)))"
  by pat_completeness auto
termination
proof (relation "measure (\<lambda>(h, c). unmarked c + length (work c))")
  fix h :: heap and c :: collector and p sp i
  assume ne: "work c \<noteq> []"
  have "length (butlast (work c)) < length (work c)" using ne by simp
  then show "((h, trace_referents h sp i (c\<lparr>work := butlast (work c)\<rparr>)), h, c)
      \<in> measure (\<lambda>(h, c). unmarked c + length (work c))"
    using unmarked_refs [of "slot_refs h sp i" "c\<lparr>work := butlast (work c)\<rparr>"]
    by (simp add: trace_referents_def)
qed simp

declare mark_loop.simps [simp del]

text \<open>
  \<open>None\<close> is the index panic of a transition whose child lies outside the mark bitmap.
\<close>

definition prune_shape_transitions :: "bool list \<Rightarrow> shape list \<Rightarrow> shape list option" where
  "prune_shape_transitions m shs =
     (if list_all (\<lambda>(i, sh). m ! i \<longrightarrow> list_all (\<lambda>(_, _, child). unat child < length m) (transitions_iter (transitions sh)))
           (enumerate 0 shs)
      then Some (map (\<lambda>(i, sh). if \<not> m ! i then sh
                       else sh\<lparr>transitions := transitions_retain (\<lambda>_ _ child. m ! unat child) (transitions sh)\<rparr>)
                   (enumerate 0 shs))
      else None)"

definition sweep_all :: "heap \<Rightarrow> heap" where
  "sweep_all h =
     h\<lparr>objects := finish_sweep js_obj_default (objects h),
       strings := finish_sweep v12_str_default (strings h),
       symbols := finish_sweep () (symbols h),
       bigints := finish_sweep v12_bigint_default (bigints h),
       shapes := finish_sweep shape_default (shapes h)\<rparr>"

definition mark_phase :: "heap \<Rightarrow> space \<Rightarrow> bool list" where
  "mark_phase h = marked (mark_loop h (mark_roots h (collector_new (space_len h))))"

definition publish_all :: "(space \<Rightarrow> bool list) \<Rightarrow> heap \<Rightarrow> heap" where
  "publish_all m h =
     h\<lparr>objects := publish_mark (m Objects) (objects h),
       strings := publish_mark (m Strings) (strings h),
       symbols := publish_mark (m Symbols) (symbols h),
       bigints := publish_mark (m Bigints) (bigints h),
       shapes := publish_mark (m Shapes) (shapes h)\<rparr>"

definition force_collect :: "heap \<Rightarrow> heap option" where
  "force_collect h =
     (let h = h\<lparr>stubs := stub_clear (stubs h)\<rparr>;
          h = sweep_all h;
          m = mark_phase h
      in Option.bind (prune_shape_transitions (m Shapes) (slots (shapes h))) (\<lambda>shs.
           let h = h\<lparr>shapes := (shapes h)\<lparr>slots := shs\<rparr>\<rparr>;
               h = publish_all m h
           in Some (h\<lparr>collections := collections h + 1\<rparr>)))"

section \<open>Marking reaches exactly the reachable slots\<close>

definition root_refs :: "heap \<Rightarrow> slot_ref list" where
  "root_refs h =
     trace_values (roots h) @ map (Pair Shapes) (shape_roots h) @ map (Pair Objects) (realm_globals h)
     @ map (Pair Objects) (module_roots h) @ map (Pair Objects) (pinned_roots h)
     @ concat (map (\<lambda>(_, bucket). map (Pair Strings) bucket) (interned_strings h))
     @ map (\<lambda>(_, s). (Symbols, s)) (symbol_registry h)
     @ map (Pair Symbols) (List.map_filter id (well_known h))"

text \<open>
  The slots reachable from the roots by references that lie inside their space; a forged
  reference past the end is no reference.
\<close>

inductive_set reachable :: "heap \<Rightarrow> (space \<times> nat) set" for h where
  root: "(sp, i) \<in> set (root_refs h) \<Longrightarrow> unat i < space_len h sp \<Longrightarrow> (sp, unat i) \<in> reachable h"
| step: "(sp, n) \<in> reachable h \<Longrightarrow> (sp', i) \<in> set (slot_refs h sp n) \<Longrightarrow> unat i < space_len h sp' \<Longrightarrow>
    (sp', unat i) \<in> reachable h"

definition marked_at :: "collector \<Rightarrow> space \<times> nat \<Rightarrow> bool" where
  "marked_at c x \<longleftrightarrow> snd x < length (marked c (fst x)) \<and> marked c (fst x) ! snd x"

definition targets :: "collector \<Rightarrow> slot_ref list \<Rightarrow> (space \<times> nat) set" where
  "targets c rs = {(sp, unat i) | sp i. (sp, i) \<in> set rs \<and> unat i < length (marked c sp)}"

lemma mark_length [simp]: "length (marked (mark sp i c) sp') = length (marked c sp')"
  by (simp add: mark_def Let_def)

lemma marked_at_mark:
  "marked_at (mark sp i c) x \<longleftrightarrow> marked_at c x \<or> (x = (sp, unat i) \<and> unat i < length (marked c sp))"
  by (cases x) (auto simp: marked_at_def mark_def Let_def nth_list_update)

lemma work_mark: "set (work (mark sp i c)) = set (work c) \<union> {x. marked_at (mark sp i c) x \<and> \<not> marked_at c x}"
  unfolding marked_at_mark by (auto simp: mark_def Let_def marked_at_def)

lemma mark_refs_simps [simp]:
  "mark_refs [] c = c" "mark_refs ((sp, i) # rs) c = mark_refs rs (mark sp i c)"
  "mark_refs (rs @ rs') c = mark_refs rs' (mark_refs rs c)"
  by (simp_all add: mark_refs_def)

lemma mark_refs_effect:
  "length (marked (mark_refs rs c) sp) = length (marked c sp)"
  "marked_at (mark_refs rs c) x \<longleftrightarrow> marked_at c x \<or> x \<in> targets c rs"
  "set (work (mark_refs rs c)) = set (work c) \<union> {x. marked_at (mark_refs rs c) x \<and> \<not> marked_at c x}"
proof (induction rs arbitrary: c sp x)
  case Nil
  { case 1 then show ?case by simp next
    case 2 then show ?case by (simp add: targets_def) next
    case 3 then show ?case by simp }
next
  case (Cons r rs)
  obtain sp' i where r: "r = (sp', i)" by (cases r)
  { case 1 then show ?case by (simp add: r Cons) next
    case 2 then show ?case by (auto simp: r Cons marked_at_mark targets_def) next
    case 3
    have "marked_at d x \<Longrightarrow> marked_at (mark_refs rs d) x" for d x using Cons(2) by simp
    moreover have "marked_at c x \<Longrightarrow> marked_at (mark sp' i c) x" for x by (simp add: marked_at_mark)
    ultimately show ?case unfolding r mark_refs_simps Cons(3) work_mark by blast }
qed

lemma mark_roots_refs: "mark_roots h c = mark_refs (root_refs h) c"
proof -
  have v: "fold mark_value vs c = mark_refs (trace_values vs) c" for vs c
    by (induction vs arbitrary: c)
      (auto simp: trace_values_def trace_value_def mark_value_def split: option.splits)
  have p: "fold (mark sp) is c = mark_refs (map (Pair sp) is) c" for sp "is" c
    by (induction "is" arbitrary: c) auto
  have b: "fold (\<lambda>(_, bucket). fold (mark Strings) bucket) bs c
      = mark_refs (concat (map (\<lambda>(_, bucket). map (Pair Strings) bucket) bs)) c" for bs :: "(u32 \<times> handle list) list" and c
    by (induction bs arbitrary: c) (auto simp: p)
  have y: "fold (\<lambda>(_, s). mark Symbols s) ss c = mark_refs (map (\<lambda>(_, s). (Symbols, s)) ss) c"
    for ss :: "(string \<times> handle) list" and c
    by (induction ss arbitrary: c) auto
  show ?thesis by (simp add: mark_roots_def root_refs_def v p b y)
qed

text \<open>The loop invariant: what is marked is reachable, and closed but for the pending work.\<close>

definition mark_inv :: "heap \<Rightarrow> collector \<Rightarrow> bool" where
  "mark_inv h c \<longleftrightarrow>
     (\<forall>sp. length (marked c sp) = space_len h sp) \<and>
     targets c (root_refs h) \<subseteq> {x. marked_at c x} \<and> {x. marked_at c x} \<subseteq> reachable h \<and>
     set (work c) \<subseteq> {x. marked_at c x} \<and>
     (\<forall>sp n. marked_at c (sp, n) \<longrightarrow> (sp, n) \<in> set (work c) \<or> targets c (slot_refs h sp n) \<subseteq> {x. marked_at c x})"

lemma targets_cong: "(\<And>sp. length (marked c sp) = length (marked d sp)) \<Longrightarrow> targets c rs = targets d rs"
  by (simp add: targets_def)

lemma mark_inv_start: "mark_inv h (mark_roots h (collector_new (space_len h)))"
proof -
  let ?c = "collector_new (space_len h)"
  have "\<not> marked_at ?c x" for x by (auto simp: marked_at_def collector_new_def)
  moreover have "targets ?c (root_refs h) \<subseteq> reachable h"
    by (auto simp: targets_def collector_new_def intro: reachable.root)
  moreover have "targets (mark_refs rs ?c) rs' = targets ?c rs'" for rs rs'
    by (rule targets_cong) (simp add: mark_refs_effect)
  moreover have "length (marked ?c sp) = space_len h sp" "work ?c = []" for sp
    by (simp_all add: collector_new_def)
  ultimately show ?thesis
    unfolding mark_roots_refs mark_inv_def by (auto simp: mark_refs_effect)
qed

lemma mark_inv_step:
  assumes inv: "mark_inv h c" and ne: "work c \<noteq> []" and l: "last (work c) = (sp, n)"
  shows "mark_inv h (trace_referents h sp n (c\<lparr>work := butlast (work c)\<rparr>))"
proof -
  let ?d = "c\<lparr>work := butlast (work c)\<rparr>"
  let ?e = "trace_referents h sp n ?d"
  have e: "?e = mark_refs (slot_refs h sp n) ?d" by (simp add: trace_referents_def)
  have len: "length (marked ?e sp') = length (marked c sp')" for sp' by (simp add: e mark_refs_effect)
  then have tg: "targets ?e rs = targets c rs" for rs by (rule targets_cong)
  have dm: "marked_at ?d x \<longleftrightarrow> marked_at c x" for x by (simp add: marked_at_def)
  have td: "targets ?d rs = targets c rs" for rs by (rule targets_cong) simp
  have em: "marked_at ?e x \<longleftrightarrow> marked_at c x \<or> x \<in> targets c (slot_refs h sp n)" for x
    by (simp add: e mark_refs_effect(2) dm td)
  have ew: "set (work ?e) = set (butlast (work c)) \<union> {x. marked_at ?e x \<and> \<not> marked_at c x}"
    using mark_refs_effect(3) [of "slot_refs h sp n" ?d] by (simp add: e dm)
  have "set (work c) = set (butlast (work c) @ [(sp, n)])" using ne l by (metis append_butlast_last_id)
  then have wc: "set (work c) = insert (sp, n) (set (butlast (work c)))" by simp
  have mn: "marked_at c (sp, n)" using inv wc by (auto simp: mark_inv_def)
  have reach: "targets c (slot_refs h sp n) \<subseteq> reachable h"
  proof -
    have "(sp, n) \<in> reachable h" using inv mn by (auto simp: mark_inv_def)
    with inv show ?thesis by (auto simp: targets_def mark_inv_def intro: reachable.step)
  qed
  have "(sp', m) \<in> set (work ?e) \<or> targets ?e (slot_refs h sp' m) \<subseteq> {x. marked_at ?e x}"
    if m: "marked_at ?e (sp', m)" for sp' m
  proof (cases "marked_at c (sp', m)")
    case True
    with inv have "(sp', m) \<in> set (work c) \<or> targets c (slot_refs h sp' m) \<subseteq> {x. marked_at c x}"
      unfolding mark_inv_def by metis
    then consider "(sp', m) = (sp, n)" | "(sp', m) \<in> set (butlast (work c))"
      | "targets c (slot_refs h sp' m) \<subseteq> {x. marked_at c x}"
      unfolding wc by blast
    then show ?thesis
    proof cases
      case 1
      then show ?thesis unfolding tg using em by auto
    next
      case 2
      then show ?thesis unfolding ew by blast
    next
      case 3
      then show ?thesis unfolding tg using em by blast
    qed
  next
    case False
    with m show ?thesis by (simp add: ew)
  qed
  moreover have "length (marked ?e sp') = space_len h sp'" for sp'
    using inv by (simp add: len mark_inv_def)
  moreover have "targets ?e (root_refs h) \<subseteq> {x. marked_at ?e x}"
    using inv unfolding tg em mark_inv_def by blast
  moreover have "{x. marked_at ?e x} \<subseteq> reachable h"
    using inv reach unfolding em mark_inv_def by blast
  moreover have "set (work ?e) \<subseteq> {x. marked_at ?e x}"
  proof -
    have "set (butlast (work c)) \<subseteq> {x. marked_at c x}" using inv wc unfolding mark_inv_def by blast
    then show ?thesis unfolding ew em by blast
  qed
  ultimately show ?thesis unfolding mark_inv_def by blast
qed

lemma mark_loop_inv: "mark_inv h c \<Longrightarrow> mark_inv h (mark_loop h c) \<and> work (mark_loop h c) = []"
proof (induction h c rule: mark_loop.induct)
  case (1 h c)
  show ?case
  proof (cases "work c = []")
    case True
    with 1 show ?thesis by (simp add: mark_loop.simps)
  next
    case False
    obtain sp n where l: "last (work c) = (sp, n)" by fastforce
    with False have "mark_loop h c = mark_loop h (trace_referents h sp n (c\<lparr>work := butlast (work c)\<rparr>))"
      by (subst mark_loop.simps) simp
    with "1.IH" [OF False l [symmetric]] mark_inv_step [OF "1.prems" False l] show ?thesis by simp
  qed
qed

lemma mark_phase_reach:
  "length (mark_phase h sp) = space_len h sp"
  "n < space_len h sp \<Longrightarrow> mark_phase h sp ! n \<longleftrightarrow> (sp, n) \<in> reachable h"
proof -
  let ?c = "mark_loop h (mark_roots h (collector_new (space_len h)))"
  from mark_loop_inv [OF mark_inv_start] have inv: "mark_inv h ?c" and w: "work ?c = []" by auto
  then show len: "length (mark_phase h sp) = space_len h sp" for sp
    by (simp add: mark_phase_def mark_inv_def)
  have sub: "(sp, n) \<in> reachable h \<Longrightarrow> marked_at ?c (sp, n)" for sp n
  proof (induction rule: reachable.induct)
    case (root sp i)
    then have "(sp, unat i) \<in> targets ?c (root_refs h)" using inv by (auto simp: targets_def mark_inv_def)
    with inv show ?case by (auto simp: mark_inv_def)
  next
    case (step sp n sp' i)
    then have "(sp', unat i) \<in> targets ?c (slot_refs h sp n)" using inv by (auto simp: targets_def mark_inv_def)
    moreover have "targets ?c (slot_refs h sp n) \<subseteq> {x. marked_at ?c x}"
      using inv w step.IH unfolding mark_inv_def by auto
    ultimately show ?case by blast
  qed
  show "mark_phase h sp ! n \<longleftrightarrow> (sp, n) \<in> reachable h" if "n < space_len h sp"
    using sub [of sp n] inv that len [of sp]
    by (auto simp: mark_inv_def marked_at_def mark_phase_def)
qed

end
