(* ===== verification/Collect.thy ===== *)
theory Collect
  imports Heap
begin

text \<open>
  What a collection guarantees over the whole heap, and the mutator's side of the contract: a
  step relation whose steps are the allocations, stores, root updates and collections, with
  the invariant that no live payload and no root names a dead slot.
\<close>

section \<open>Payloads of any space\<close>

datatype payload =
  P_Object js_obj | P_String v12_str | P_Symbol | P_Bigint v12_bigint | P_Shape shape

fun payload_space :: "payload \<Rightarrow> space" where
  "payload_space (P_Object _) = Objects"
| "payload_space (P_String _) = Strings"
| "payload_space P_Symbol = Symbols"
| "payload_space (P_Bigint _) = Bigints"
| "payload_space (P_Shape _) = Shapes"

fun payload_refs :: "payload \<Rightarrow> slot_ref list" where
  "payload_refs (P_Object x) = trace_object x"
| "payload_refs (P_String x) = trace_string x"
| "payload_refs P_Symbol = trace_symbol ()"
| "payload_refs (P_Bigint x) = trace_bigint x"
| "payload_refs (P_Shape x) = trace_shape x"

definition payload_at :: "heap \<Rightarrow> space \<Rightarrow> nat \<Rightarrow> payload" where
  "payload_at h sp n = (case sp of
     Objects \<Rightarrow> P_Object (slots (objects h) ! n) | Strings \<Rightarrow> P_String (slots (strings h) ! n)
   | Symbols \<Rightarrow> P_Symbol | Bigints \<Rightarrow> P_Bigint (slots (bigints h) ! n)
   | Shapes \<Rightarrow> P_Shape (slots (shapes h) ! n))"

definition live_in :: "heap \<Rightarrow> space \<Rightarrow> nat set" where
  "live_in h sp = (case sp of
     Objects \<Rightarrow> live (objects h) | Strings \<Rightarrow> live (strings h) | Symbols \<Rightarrow> live (symbols h)
   | Bigints \<Rightarrow> live (bigints h) | Shapes \<Rightarrow> live (shapes h))"

lemma slot_refs_payload: "slot_refs h sp n = payload_refs (payload_at h sp n)"
  by (cases sp) (simp_all add: slot_refs_def payload_at_def)

lemma live_in_len: "n \<in> live_in h sp \<Longrightarrow> n < space_len h sp"
  by (cases sp) (auto simp: live_in_def space_len_def live_def)

definition spaces_wf :: "heap \<Rightarrow> bool" where
  "spaces_wf h \<longleftrightarrow>
     space_wf js_obj_default (objects h) \<and> space_wf v12_str_default (strings h) \<and> space_wf () (symbols h) \<and>
     space_wf v12_bigint_default (bigints h) \<and> space_wf shape_default (shapes h)"

lemma reachable_in_range: "(sp, n) \<in> reachable h \<Longrightarrow> n < space_len h sp"
  by (induction rule: reachable.induct) auto

lemma reachable_subset:
  assumes rts: "\<And>r. r \<in> set (root_refs h) \<Longrightarrow> r \<in> set (root_refs h')"
    and len: "\<And>sp. space_len h sp \<le> space_len h' sp"
    and refs: "\<And>sp n r. (sp, n) \<in> reachable h \<Longrightarrow> r \<in> set (slot_refs h sp n) \<Longrightarrow> r \<in> set (slot_refs h' sp n)"
  shows "reachable h \<subseteq> reachable h'"
proof (rule subrelI)
  fix sp n assume "(sp, n) \<in> reachable h"
  then show "(sp, n) \<in> reachable h'"
  proof (induction rule: reachable.induct)
    case (root sp i)
    with rts len [of sp] show ?case by (intro reachable.root) (auto intro: order_less_le_trans)
  next
    case (step sp n sp' i)
    with refs len [of sp'] show ?case
      by (intro reachable.step [of sp n]) (auto intro: order_less_le_trans)
  qed
qed

lemma reachable_cong:
  assumes "root_refs h' = root_refs h" "\<And>sp. space_len h' sp = space_len h sp"
    and "\<And>sp n. (sp, n) \<in> reachable h \<Longrightarrow> slot_refs h' sp n = slot_refs h sp n"
  shows "reachable h' = reachable h"
proof
  show "reachable h \<subseteq> reachable h'" using assms by (intro reachable_subset) auto
  show "reachable h' \<subseteq> reachable h"
  proof (rule subrelI)
    fix sp n assume "(sp, n) \<in> reachable h'"
    then show "(sp, n) \<in> reachable h"
      by (induction rule: reachable.induct) (use assms in \<open>auto intro: reachable.intros\<close>)
  qed
qed

section \<open>The invariant\<close>

definition edges_ok :: "heap \<Rightarrow> shape \<Rightarrow> bool" where
  "edges_ok h sh \<longleftrightarrow> transitions_wf (transitions sh) \<and>
     (\<forall>(k, a, c) \<in> set (transitions_iter (transitions sh)). unat c < space_len h Shapes)"

definition refs_live :: "heap \<Rightarrow> slot_ref list \<Rightarrow> bool" where
  "refs_live h rs \<longleftrightarrow> (\<forall>(sp, i) \<in> set rs. unat i < space_len h sp \<longrightarrow> unat i \<in> live_in h sp)"

text \<open>
  A safe heap: every space is well-formed, the roots and the live payloads name no dead slot,
  and the transition edges of the live shapes lie inside the shape space.
\<close>

definition heap_safe :: "heap \<Rightarrow> bool" where
  "heap_safe h \<longleftrightarrow>
     spaces_wf h \<and> (\<forall>n \<in> live_in h Shapes. edges_ok h (slots (shapes h) ! n)) \<and> refs_live h (root_refs h) \<and>
     (\<forall>sp n. n \<in> live_in h sp \<longrightarrow> refs_live h (slot_refs h sp n))"

lemma heap_safe_reach:
  assumes "heap_safe h"
  shows "(sp, n) \<in> reachable h \<Longrightarrow> n \<in> live_in h sp"
proof (induction rule: reachable.induct)
  case (root sp i)
  with assms show ?case by (auto simp: heap_safe_def refs_live_def)
next
  case (step sp n sp' i)
  with assms have "refs_live h (slot_refs h sp n)" by (simp add: heap_safe_def)
  with step show ?case by (auto simp: refs_live_def)
qed

section \<open>The phases of a collection\<close>

lemma sweep_all_keeps:
  assumes "spaces_wf h"
  shows "spaces_wf (sweep_all h)" "space_len (sweep_all h) sp = space_len h sp"
    "live_in (sweep_all h) sp = live_in h sp" "n \<in> live_in h sp \<Longrightarrow> payload_at (sweep_all h) sp n = payload_at h sp n"
    "root_refs (sweep_all h) = root_refs h" "stubs (sweep_all h) = stubs h" "collections (sweep_all h) = collections h"
proof -
  note f = finish_sweep_wf
  from assms have k: "sweep_keeps (objects h) (objects (sweep_all h))" "sweep_keeps (strings h) (strings (sweep_all h))"
    "sweep_keeps (symbols h) (symbols (sweep_all h))" "sweep_keeps (bigints h) (bigints (sweep_all h))"
    "sweep_keeps (shapes h) (shapes (sweep_all h))"
    by (simp_all add: spaces_wf_def sweep_all_def f)
  show "spaces_wf (sweep_all h)" using assms by (simp add: spaces_wf_def sweep_all_def f)
  show "space_len (sweep_all h) sp = space_len h sp"
    using k by (cases sp) (auto simp: space_len_def sweep_keeps_def)
  show "live_in (sweep_all h) sp = live_in h sp"
    using k by (cases sp) (auto simp: live_in_def dest: sweep_keeps_live)
  show "n \<in> live_in h sp \<Longrightarrow> payload_at (sweep_all h) sp n = payload_at h sp n"
    using k by (cases sp) (auto simp: payload_at_def live_in_def sweep_keeps_def)
  show "root_refs (sweep_all h) = root_refs h" "stubs (sweep_all h) = stubs h"
    "collections (sweep_all h) = collections h"
    by (simp_all add: sweep_all_def root_refs_def)
qed

lemma publish_mark_slots: "slots (publish_mark mk st) = slots st"
  by (simp add: publish_mark_def Let_def)

lemma publish_all_exact:
  assumes "spaces_wf h" "\<And>sp. length (m sp) = space_len h sp"
  shows "spaces_wf (publish_all m h)" "space_len (publish_all m h) sp = space_len h sp"
    "live_in (publish_all m h) sp = {n. n < space_len h sp \<and> m sp ! n}"
    "payload_at (publish_all m h) sp n = payload_at h sp n" "root_refs (publish_all m h) = root_refs h"
    "stubs (publish_all m h) = stubs h" "slots (shapes (publish_all m h)) = slots (shapes h)"
proof -
  have len: "length (m Objects) = length (slots (objects h))" "length (m Strings) = length (slots (strings h))"
    "length (m Symbols) = length (slots (symbols h))" "length (m Bigints) = length (slots (bigints h))"
    "length (m Shapes) = length (slots (shapes h))"
    using assms(2) [of Objects] assms(2) [of Strings] assms(2) [of Symbols] assms(2) [of Bigints] assms(2) [of Shapes]
    by (simp_all add: space_len_def)
  note p = publish_mark_wf
  show "spaces_wf (publish_all m h)"
    using assms(1) len by (simp add: spaces_wf_def publish_all_def p)
  note sl = publish_mark_slots
  show "space_len (publish_all m h) sp = space_len h sp"
    by (cases sp) (simp_all add: space_len_def publish_all_def sl)
  show "live_in (publish_all m h) sp = {n. n < space_len h sp \<and> m sp ! n}"
    using assms(1) p(2) [OF _ len(1), of js_obj_default] p(2) [OF _ len(2), of v12_str_default] p(2) [OF _ len(3), of "()"]
      p(2) [OF _ len(4), of v12_bigint_default] p(2) [OF _ len(5), of shape_default]
    by (cases sp) (simp_all add: live_in_def publish_all_def spaces_wf_def space_len_def)
  show "payload_at (publish_all m h) sp n = payload_at h sp n"
    by (cases sp) (simp_all add: payload_at_def publish_all_def sl)
  show "root_refs (publish_all m h) = root_refs h" "stubs (publish_all m h) = stubs h"
    "slots (shapes (publish_all m h)) = slots (shapes h)"
    by (simp_all add: root_refs_def publish_all_def sl)
qed

section \<open>Pruning\<close>

lemma transitions_ext:
  assumes "transitions_wf t" "transitions_wf t'" "edges_of t = edges_of t'"
    "(\<exists>es n. t = TInline es n) \<longleftrightarrow> (\<exists>es n. t' = TInline es n)"
  shows "t = t'"
  using assms(1)
proof (cases t rule: transitions_wf_cases)
  case ts: (Inline ts)
  from assms(2) show ?thesis
    by (cases t' rule: transitions_wf_cases) (use assms(3,4) ts in auto)
next
  case m: (Map m)
  from assms(2) show ?thesis
    by (cases t' rule: transitions_wf_cases) (use assms(3,4) m in auto)
qed

lemma transitions_retain_cong:
  assumes wf: "transitions_wf t"
    and eq: "\<And>k a c. (k, a, c) \<in> set (transitions_iter t) \<Longrightarrow> keep k a c = keep' k a c"
  shows "transitions_retain keep t = transitions_retain keep' t"
proof (rule transitions_ext)
  show "transitions_wf (transitions_retain keep t)" "transitions_wf (transitions_retain keep' t)"
    by (simp_all add: transitions_retain_edges wf)
  have "entry_edge e \<in> set (transitions_iter t)" if "e \<in> set (edges_of t)" for e
    using that by (simp add: iter_edges [OF wf])
  with eq have "keep k a c = keep' k a c" if "((k, a), c) \<in> set (edges_of t)" for k a c
    using that by fastforce
  then show "edges_of (transitions_retain keep t) = edges_of (transitions_retain keep' t)"
    unfolding transitions_retain_edges(2) [OF wf] by (intro filter_cong) auto
  show "(\<exists>es n. transitions_retain keep t = TInline es n) \<longleftrightarrow> (\<exists>es n. transitions_retain keep' t = TInline es n)"
    by (cases t) (simp_all split: prod.splits)
qed

lemma iter_retain:
  assumes wf: "transitions_wf t"
  shows "set (transitions_iter (transitions_retain keep t)) = {(k, a, c) \<in> set (transitions_iter t). keep k a c}"
proof -
  have "(k, a, c) \<in> set (transitions_iter t') \<longleftrightarrow> ((k, a), c) \<in> set (edges_of t')"
    if "transitions_wf t'" for t' k a c
    unfolding iter_edges [OF that] set_map image_iff
    by (metis edge_entry.simps entry_edge.simps entry_edge_inv(2))
  then show ?thesis
    using wf by (auto simp: transitions_retain_edges)
qed

text \<open>A shape whose edges into unreachable children are dropped.\<close>

definition prune_shape :: "(nat \<Rightarrow> bool) \<Rightarrow> shape \<Rightarrow> shape" where
  "prune_shape keep sh = sh\<lparr>transitions := transitions_retain (\<lambda>_ _ c. keep (unat c)) (transitions sh)\<rparr>"

lemma prune_exact:
  assumes len: "length m = length shs"
    and ok: "\<And>i. i < length shs \<Longrightarrow> m ! i \<Longrightarrow>
      \<forall>(k, a, c) \<in> set (transitions_iter (transitions (shs ! i))). unat c < length m"
  shows "prune_shape_transitions m shs =
    Some (map (\<lambda>i. if m ! i then prune_shape (\<lambda>j. m ! j) (shs ! i) else shs ! i) [0..<length shs])"
proof -
  have "i < length shs \<and> sh = shs ! i" if "(i, sh) \<in> set (enumerate 0 shs)" for i sh
    using that by (auto simp: enumerate_eq_zip set_zip)
  then have "list_all (\<lambda>(i, sh). m ! i \<longrightarrow> list_all (\<lambda>(_, _, child). unat child < length m) (transitions_iter (transitions sh)))
      (enumerate 0 shs)"
    using ok by (fastforce simp: list_all_iff)
  moreover have "map f (enumerate 0 shs) = map (\<lambda>i. f (i, shs ! i)) [0..<length shs]"
    for f :: "nat \<times> shape \<Rightarrow> shape"
    by (rule nth_equalityI) (simp_all add: nth_enumerate_eq)
  ultimately show ?thesis
    by (simp add: prune_shape_transitions_def prune_shape_def cong: if_cong)
qed

section \<open>The collection\<close>

definition pruned :: "heap \<Rightarrow> payload \<Rightarrow> payload" where
  "pruned h p = (case p of
     P_Shape sh \<Rightarrow> P_Shape (prune_shape (\<lambda>n. (Shapes, n) \<in> reachable h) sh) | _ \<Rightarrow> p)"

lemma pruned_refs [simp]: "payload_refs (pruned h p) = payload_refs p"
  by (cases p) (simp_all add: pruned_def prune_shape_def trace_shape_def)

text \<open>
  The heap between the prune and the publication, for any mark \<open>m\<close> that is the reachable set.
\<close>

lemma prune_phase:
  assumes wf: "spaces_wf h" and live: "\<And>sp n. (sp, n) \<in> reachable h \<Longrightarrow> n \<in> live_in h sp"
    and eo: "\<And>n. (Shapes, n) \<in> reachable h \<Longrightarrow> edges_ok h (slots (shapes h) ! n)"
  defines "m \<equiv> mark_phase h Shapes"
  obtains shs where "prune_shape_transitions m (slots (shapes h)) = Some shs"
    "length shs = length (slots (shapes h))"
    "\<And>n. n < length shs \<Longrightarrow> shs ! n = (if (Shapes, n) \<in> reachable h
       then prune_shape (\<lambda>n. (Shapes, n) \<in> reachable h) (slots (shapes h) ! n) else slots (shapes h) ! n)"
    "space_wf shape_default ((shapes h)\<lparr>slots := shs\<rparr>)"
proof -
  let ?ss = "slots (shapes h)"
  have len: "length m = length ?ss" by (simp add: m_def mark_phase_reach space_len_def)
  have bit: "n < length ?ss \<Longrightarrow> m ! n \<longleftrightarrow> (Shapes, n) \<in> reachable h" for n
    by (simp add: m_def mark_phase_reach space_len_def)
  have rng: "\<forall>(k, a, c) \<in> set (transitions_iter (transitions (?ss ! n))). unat c < length ?ss"
    and twf: "transitions_wf (transitions (?ss ! n))" if "(Shapes, n) \<in> reachable h" for n
    using eo [OF that] by (auto simp: edges_ok_def space_len_def)
  define shs where "shs = map (\<lambda>i. if m ! i then prune_shape (\<lambda>j. m ! j) (?ss ! i) else ?ss ! i) [0..<length ?ss]"
  have l: "length shs = length ?ss" by (simp add: shs_def)
  have at: "shs ! n = (if (Shapes, n) \<in> reachable h then prune_shape (\<lambda>n. (Shapes, n) \<in> reachable h) (?ss ! n) else ?ss ! n)"
    if "n < length shs" for n
  proof (cases "(Shapes, n) \<in> reachable h")
    case True
    have "prune_shape (\<lambda>j. m ! j) (?ss ! n) = prune_shape (\<lambda>n. (Shapes, n) \<in> reachable h) (?ss ! n)"
      unfolding prune_shape_def using rng [OF True] bit
      by (subst transitions_retain_cong [OF twf [OF True]]) auto
    with True that l bit show ?thesis by (simp add: shs_def)
  next
    case False
    with that l bit show ?thesis by (simp add: shs_def)
  qed
  show thesis
  proof (rule that [of shs])
    show "prune_shape_transitions m ?ss = Some shs"
      unfolding shs_def using len rng bit by (intro prune_exact) auto
    show "length shs = length ?ss" by (rule l)
    show "space_wf shape_default ((shapes h)\<lparr>slots := shs\<rparr>)"
    proof -
      have "slots (shapes h) ! i = shape_default \<Longrightarrow> shs ! i = shape_default"
        if "i < length ?ss" "released (shapes h) ! i" for i
      proof -
        have "\<not> alive (shapes h) ! i" using wf that by (auto simp: spaces_wf_def space_wf_def)
        then have "(Shapes, i) \<notin> reachable h" using live [of Shapes i] by (auto simp: live_in_def live_def)
        moreover assume "slots (shapes h) ! i = shape_default"
        ultimately show ?thesis using at that l by simp
      qed
      moreover have "dead ((shapes h)\<lparr>slots := shs\<rparr>) = dead (shapes h)" by (simp add: dead_def l)
      ultimately show ?thesis using wf l by (simp add: spaces_wf_def space_wf_def)
    qed
  qed (rule at)
qed

text \<open>The collection as a whole.\<close>

lemma collect_spec:
  assumes safe: "heap_safe h"
  obtains h' where "force_collect h = Some h'" "spaces_wf h'" "root_refs h' = root_refs h"
    "\<And>sp. space_len h' sp = space_len h sp" "\<And>sp. live_in h' sp = {n. (sp, n) \<in> reachable h}"
    "\<And>sp n. (sp, n) \<in> reachable h \<Longrightarrow> payload_at h' sp n = pruned h (payload_at h sp n)"
    "stubs h' = stub_clear (stubs h)"
proof -
  define h0 where "h0 = h\<lparr>stubs := stub_clear (stubs h)\<rparr>"
  define h1 where "h1 = sweep_all h0"
  define m where "m = mark_phase h1"
  have h0: "spaces_wf h0" "\<And>sp. space_len h0 sp = space_len h sp" "\<And>sp. live_in h0 sp = live_in h sp"
    "\<And>sp n. payload_at h0 sp n = payload_at h sp n" "root_refs h0 = root_refs h" "stubs h0 = stub_clear (stubs h)"
    using safe by (simp_all add: h0_def heap_safe_def spaces_wf_def space_len_def live_in_def payload_at_def
        root_refs_def cong: space.case_cong)
  note h1 = sweep_all_keeps [OF h0(1), folded h1_def, unfolded h0]
  have reach: "reachable h1 = reachable h"
    using heap_safe_reach [OF safe] h1(2,4,5) by (intro reachable_cong) (auto simp: slot_refs_payload)
  have live: "n \<in> live_in h1 sp" if "(sp, n) \<in> reachable h1" for sp n
    using heap_safe_reach [OF safe, of sp n] that by (simp add: reach h1(3))
  have eo: "edges_ok h1 (slots (shapes h1) ! n)" if "(Shapes, n) \<in> reachable h1" for n
  proof -
    have n: "n \<in> live_in h Shapes" using live [OF that] by (simp add: h1(3))
    then have "slots (shapes h1) ! n = slots (shapes h) ! n"
      using h1(4) [OF n] by (simp add: payload_at_def)
    moreover have "edges_ok h (slots (shapes h) ! n)" using safe n by (simp add: heap_safe_def)
    ultimately show ?thesis by (simp add: edges_ok_def h1(2))
  qed
  obtain shs where shs: "prune_shape_transitions (m Shapes) (slots (shapes h1)) = Some shs"
    "length shs = length (slots (shapes h1))"
    "\<And>n. n < length shs \<Longrightarrow> shs ! n = (if (Shapes, n) \<in> reachable h1
       then prune_shape (\<lambda>n. (Shapes, n) \<in> reachable h1) (slots (shapes h1) ! n) else slots (shapes h1) ! n)"
    "space_wf shape_default ((shapes h1)\<lparr>slots := shs\<rparr>)"
    using prune_phase [OF h1(1) live eo] unfolding m_def by metis
  define h2 where "h2 = h1\<lparr>shapes := (shapes h1)\<lparr>slots := shs\<rparr>\<rparr>"
  have h2: "spaces_wf h2" "\<And>sp. space_len h2 sp = space_len h1 sp" "root_refs h2 = root_refs h1"
    "stubs h2 = stubs h1"
    using h1(1) shs(2,4) by (simp_all add: h2_def spaces_wf_def space_len_def root_refs_def split: space.splits)
  have p2: "payload_at h2 sp n = pruned h1 (payload_at h1 sp n)" if "(sp, n) \<in> reachable h1" for sp n
  proof (cases "sp = Shapes")
    case True
    then have "n < length shs" using reachable_in_range [OF that] shs(2) by (simp add: space_len_def)
    with True that show ?thesis by (simp add: payload_at_def h2_def shs(3) pruned_def)
  qed (cases sp; simp add: payload_at_def h2_def pruned_def)
  have lm: "length (m sp) = space_len h2 sp" for sp by (simp add: m_def h2 mark_phase_reach)
  note h3 = publish_all_exact [of h2 m, OF h2(1) lm]
  let ?h' = "(publish_all m h2)\<lparr>collections := collections (publish_all m h2) + 1\<rparr>"
  have sel: "spaces_wf (g\<lparr>collections := c\<rparr>) = spaces_wf g" "root_refs (g\<lparr>collections := c\<rparr>) = root_refs g"
    "space_len (g\<lparr>collections := c\<rparr>) = space_len g" "live_in (g\<lparr>collections := c\<rparr>) = live_in g"
    "payload_at (g\<lparr>collections := c\<rparr>) = payload_at g" for g c
    by (auto simp: spaces_wf_def root_refs_def space_len_def live_in_def payload_at_def fun_eq_iff split: space.splits)
  show thesis
  proof (rule that [of ?h'])
    show "force_collect h = Some ?h'"
      by (simp add: force_collect_def Let_def flip: h0_def, simp flip: h1_def, simp flip: m_def, simp add: shs(1) flip: h2_def)
    show "spaces_wf ?h'" "root_refs ?h' = root_refs h" "\<And>sp. space_len ?h' sp = space_len h sp"
      using h1(2,5) by (simp_all add: sel h3 h2)
    show "live_in ?h' sp = {n. (sp, n) \<in> reachable h}" for sp
    proof -
      have "live_in ?h' sp = {n. n < space_len h1 sp \<and> m sp ! n}" by (simp add: sel h3 h2)
      also have "\<dots> = {n. (sp, n) \<in> reachable h1}"
        using reachable_in_range [of sp _ h1] by (auto simp: m_def mark_phase_reach)
      finally show ?thesis by (simp add: reach)
    qed
    show "payload_at ?h' sp n = pruned h (payload_at h sp n)" if "(sp, n) \<in> reachable h" for sp n
    proof -
      have "n \<in> live_in h sp" using live [of sp n] that by (simp add: reach h1(3))
      moreover have "pruned h1 p = pruned h p" for p unfolding pruned_def reach ..
      ultimately show ?thesis using p2 [of sp n] that h1(4) by (simp add: sel h3 reach)
    qed
    show "stubs ?h' = stub_clear (stubs h)" by (simp add: h3 h2 h1(6))
  qed
qed

lemma closed_safe:
  assumes wf: "spaces_wf h" and live: "\<And>sp. live_in h sp = {n. (sp, n) \<in> reachable h}"
    and eo: "\<And>n. n \<in> live_in h Shapes \<Longrightarrow> edges_ok h (slots (shapes h) ! n)"
  shows "heap_safe h"
proof -
  have "refs_live h (root_refs h)" by (auto simp: refs_live_def live intro: reachable.root)
  moreover have "refs_live h (slot_refs h sp n)" if "n \<in> live_in h sp" for sp n
    using that by (auto simp: refs_live_def live intro: reachable.step)
  ultimately show ?thesis using wf eo by (simp add: heap_safe_def)
qed

lemma collect_safe:
  assumes safe: "heap_safe h" and c: "force_collect h = Some h'"
  shows "heap_safe h'" "reachable h' = reachable h"
    "n \<in> live_in h' Shapes \<Longrightarrow> transitions_get (transitions (slots (shapes h') ! n)) k a = Some child \<Longrightarrow>
       unat child \<in> live_in h' Shapes"
proof -
  from collect_spec [OF safe] c have h': "spaces_wf h'" "root_refs h' = root_refs h"
    "\<And>sp. space_len h' sp = space_len h sp" "\<And>sp. live_in h' sp = {n. (sp, n) \<in> reachable h}"
    "\<And>sp n. (sp, n) \<in> reachable h \<Longrightarrow> payload_at h' sp n = pruned h (payload_at h sp n)"
    by (metis option.inject)+
  show reach: "reachable h' = reachable h"
    using h' by (intro reachable_cong) (auto simp: slot_refs_payload)
  have sh: "slots (shapes h') ! n = prune_shape (\<lambda>n. (Shapes, n) \<in> reachable h) (slots (shapes h) ! n)"
    and ok: "edges_ok h (slots (shapes h) ! n)" if "n \<in> live_in h' Shapes" for n
  proof -
    have r: "(Shapes, n) \<in> reachable h" using that by (simp add: h'(4))
    from h'(5) [OF r] show "slots (shapes h') ! n = prune_shape (\<lambda>n. (Shapes, n) \<in> reachable h) (slots (shapes h) ! n)"
      by (simp add: payload_at_def pruned_def)
    show "edges_ok h (slots (shapes h) ! n)"
      using heap_safe_reach [OF safe r] safe by (simp add: heap_safe_def)
  qed
  show "heap_safe h'"
  proof (rule closed_safe)
    show "spaces_wf h'" by (rule h'(1))
    show "live_in h' sp = {n. (sp, n) \<in> reachable h'}" for sp by (simp add: h'(4) reach)
    show "edges_ok h' (slots (shapes h') ! n)" if "n \<in> live_in h' Shapes" for n
      using ok [OF that]
      by (auto simp: sh [OF that] edges_ok_def prune_shape_def transitions_retain_edges iter_retain h'(3))
  qed
  assume n: "n \<in> live_in h' Shapes"
    and g: "transitions_get (transitions (slots (shapes h') ! n)) k a = Some child"
  have "transitions_wf (transitions (slots (shapes h) ! n))" using ok [OF n] by (simp add: edges_ok_def)
  with g have "(Shapes, unat child) \<in> reachable h"
    by (auto simp: sh [OF n] prune_shape_def transitions_get_retain split: option.splits if_splits)
  then show "unat child \<in> live_in h' Shapes" by (simp add: h'(4))
qed

section \<open>Theorems about a collection\<close>

text \<open>
  C25. Marking is exact. The mark bitmaps have one bit per slot, and the slots they mark are
  exactly those reachable from the root registries by in-range references: the worklist loop
  terminates, misses nothing and marks no garbage, cycles and forged references included.
\<close>

theorem mark_phase_exact:
  "length (mark_phase h sp) = space_len h sp \<and>
   {n. n < space_len h sp \<and> mark_phase h sp ! n} = {n. (sp, n) \<in> reachable h}"
  using reachable_in_range [of sp _ h] by (auto simp: mark_phase_reach)

text \<open>
  C2. A collection keeps everything reachable and nothing else. On a safe heap
  \<open>force_collect\<close> does not panic; afterwards the heap is safe, the live slots of every space
  are exactly the slots that were reachable, reachability is unchanged, every reachable
  payload is what it was (a shape but for its edges into unreachable children), a transition
  hit on a live shape yields a live shape, and every stub lookup misses.
\<close>

theorem collect_exact:
  assumes "heap_safe h" "stub_wf (stubs h)" "generation (stubs h) \<noteq> - 1"
  shows "\<exists>h'. force_collect h = Some h' \<and> heap_safe h' \<and> reachable h' = reachable h \<and>
    (\<forall>sp. live_in h' sp = {n. (sp, n) \<in> reachable h}) \<and>
    (\<forall>(sp, n) \<in> reachable h. payload_at h' sp n = pruned h (payload_at h sp n)) \<and>
    (\<forall>n \<in> live_in h' Shapes. \<forall>k a child.
       transitions_get (transitions (slots (shapes h') ! n)) k a = Some child \<longrightarrow> unat child \<in> live_in h' Shapes) \<and>
    (\<forall>sh key. stub_lookup (stubs h') sh key = None)"
proof -
  obtain h' where h': "force_collect h = Some h'" "\<And>sp. live_in h' sp = {n. (sp, n) \<in> reachable h}"
    "\<And>sp n. (sp, n) \<in> reachable h \<Longrightarrow> payload_at h' sp n = pruned h (payload_at h sp n)"
    "stubs h' = stub_clear (stubs h)"
    by (rule collect_spec [OF assms(1)]) (rule that, assumption+)
  have "\<forall>sh key. stub_lookup (stubs h') sh key = None"
    by (simp add: h'(4) stub_lookup_probe stub_clear_wf [OF assms(2,3)])
  with collect_safe [OF assms(1) h'(1)] h' show ?thesis
    by (intro exI [of _ h']) auto
qed

section \<open>The mutator\<close>

definition heap_alloc :: "heap \<Rightarrow> payload \<Rightarrow> (handle \<times> heap) option" where
  "heap_alloc h p = (case p of
     P_Object x \<Rightarrow> map_option (\<lambda>(i, st). (i, h\<lparr>objects := st\<rparr>)) (alloc js_obj_default x (objects h))
   | P_String x \<Rightarrow> map_option (\<lambda>(i, st). (i, h\<lparr>strings := st\<rparr>)) (alloc v12_str_default x (strings h))
   | P_Symbol \<Rightarrow> map_option (\<lambda>(i, st). (i, h\<lparr>symbols := st\<rparr>)) (alloc () () (symbols h))
   | P_Bigint x \<Rightarrow> map_option (\<lambda>(i, st). (i, h\<lparr>bigints := st\<rparr>)) (alloc v12_bigint_default x (bigints h))
   | P_Shape x \<Rightarrow> map_option (\<lambda>(i, st). (i, h\<lparr>shapes := st\<rparr>)) (alloc shape_default x (shapes h)))"

text \<open>\<open>*get_mut(h) = p\<close>: overwriting the payload of a slot.\<close>

definition slot_put :: "'a space_state \<Rightarrow> nat \<Rightarrow> 'a \<Rightarrow> 'a space_state" where
  "slot_put st n v = st\<lparr>slots := (slots st)[n := v]\<rparr>"

definition heap_put :: "heap \<Rightarrow> nat \<Rightarrow> payload \<Rightarrow> heap" where
  "heap_put h n p = (case p of
     P_Object x \<Rightarrow> h\<lparr>objects := slot_put (objects h) n x\<rparr>
   | P_String x \<Rightarrow> h\<lparr>strings := slot_put (strings h) n x\<rparr>
   | P_Symbol \<Rightarrow> h\<lparr>symbols := slot_put (symbols h) n ()\<rparr>
   | P_Bigint x \<Rightarrow> h\<lparr>bigints := slot_put (bigints h) n x\<rparr>
   | P_Shape x \<Rightarrow> h\<lparr>shapes := slot_put (shapes h) n x\<rparr>)"

definition add_root :: "js_value \<Rightarrow> heap \<Rightarrow> heap" where
  "add_root v h = h\<lparr>roots := roots h @ [v]\<rparr>"

definition remove_root :: "js_value \<Rightarrow> heap \<Rightarrow> heap" where
  "remove_root v h = h\<lparr>roots := filter (\<lambda>r. r \<noteq> v) (roots h)\<rparr>"

definition add_shape_root :: "handle \<Rightarrow> heap \<Rightarrow> heap" where
  "add_shape_root sh h = h\<lparr>shape_roots := shape_roots h @ [sh]\<rparr>"

definition add_module_root :: "handle \<Rightarrow> heap \<Rightarrow> heap" where
  "add_module_root ob h =
     (if ob \<in> set (module_roots h) then h else h\<lparr>module_roots := module_roots h @ [ob]\<rparr>)"

definition add_pinned_root :: "handle \<Rightarrow> heap \<Rightarrow> heap" where
  "add_pinned_root ob h =
     (if ob \<in> set (pinned_roots h) then h else h\<lparr>pinned_roots := pinned_roots h @ [ob]\<rparr>)"

text \<open>
  A payload the mutator may store: it names no dead slot, and a shape's transition table is
  one the shape operations build, with its children in range.
\<close>

definition storable :: "heap \<Rightarrow> payload \<Rightarrow> bool" where
  "storable h p \<longleftrightarrow> refs_live h (payload_refs p) \<and> (case p of P_Shape sh \<Rightarrow> edges_ok h sh | _ \<Rightarrow> True)"

inductive heap_step :: "heap \<Rightarrow> heap \<Rightarrow> bool" where
  Alloc: "storable h p \<Longrightarrow> heap_alloc h p = Some (i, h') \<Longrightarrow> heap_step h h'"
| Put: "storable h p \<Longrightarrow> n \<in> live_in h (payload_space p) \<Longrightarrow> heap_step h (heap_put h n p)"
| Root: "refs_live h (trace_value v) \<Longrightarrow> heap_step h (add_root v h)"
| Unroot: "heap_step h (remove_root v h)"
| Root_shape: "unat sh \<in> live_in h Shapes \<Longrightarrow> heap_step h (add_shape_root sh h)"
| Root_module: "unat ob \<in> live_in h Objects \<Longrightarrow> heap_step h (add_module_root ob h)"
| Pin: "unat ob \<in> live_in h Objects \<Longrightarrow> heap_step h (add_pinned_root ob h)"
| Collect: "force_collect h = Some h' \<Longrightarrow> heap_step h h'"

text \<open>A change that keeps the heap safe: one slot (re)written, every other live slot as it was.\<close>

lemma heap_safe_write:
  assumes safe: "heap_safe h" and wf: "spaces_wf h'" and ok: "storable h p"
    and rts: "root_refs h' = root_refs h"
    and live: "\<And>sp. live_in h' sp = (if sp = payload_space p then insert n (live_in h sp) else live_in h sp)"
    and len: "\<And>sp. space_len h sp \<le> space_len h' sp"
      "\<And>sp m. space_len h sp \<le> m \<Longrightarrow> m < space_len h' sp \<Longrightarrow> sp = payload_space p \<and> m = n"
    and pay: "payload_at h' (payload_space p) n = p"
      "\<And>sp m. m \<in> live_in h sp \<Longrightarrow> (sp, m) \<noteq> (payload_space p, n) \<Longrightarrow> payload_at h' sp m = payload_at h sp m"
  shows "heap_safe h'"
proof -
  have rl: "refs_live h rs \<Longrightarrow> refs_live h' rs" for rs
    using len live by (fastforce simp: refs_live_def not_less dest: leI split: if_splits)
  have eo: "edges_ok h sh \<Longrightarrow> edges_ok h' sh" for sh
    using len(1) [of Shapes] by (fastforce simp: edges_ok_def intro: order_less_le_trans)
  have "refs_live h' (slot_refs h' sp m)" if m: "m \<in> live_in h' sp" for sp m
  proof (cases "(sp, m) = (payload_space p, n)")
    case True
    with ok rl show ?thesis by (simp add: slot_refs_payload pay(1) storable_def)
  next
    case False
    with m live have "m \<in> live_in h sp" by (auto split: if_splits)
    with pay(2) [OF this False] safe rl show ?thesis by (simp add: slot_refs_payload heap_safe_def)
  qed
  moreover have "edges_ok h' (slots (shapes h') ! m)" if m: "m \<in> live_in h' Shapes" for m
  proof (cases "(Shapes, m) = (payload_space p, n)")
    case True
    then obtain sh where "p = P_Shape sh" by (cases p) auto
    with True pay(1) ok eo show ?thesis by (auto simp: payload_at_def storable_def)
  next
    case False
    with m live have "m \<in> live_in h Shapes" by (auto split: if_splits)
    with pay(2) [OF this False] safe eo show ?thesis by (simp add: payload_at_def heap_safe_def)
  qed
  ultimately show ?thesis using safe wf rl by (simp add: heap_safe_def rts)
qed

lemma alloc_facts:
  assumes "space_wf d st" "alloc d v st = Some (i, st')"
  shows "space_wf d st'" "live st' = insert (unat i) (live st)" "slots st' ! unat i = v"
    "\<And>j. j \<in> live st \<Longrightarrow> slots st' ! j = slots st ! j" "length (slots st) \<le> length (slots st')"
    "\<And>m. length (slots st) \<le> m \<Longrightarrow> m < length (slots st') \<Longrightarrow> m = unat i"
proof -
  note a = alloc_allocates [OF assms]
  from a show "space_wf d st'" "live st' = insert (unat i) (live st)" "slots st' ! unat i = v"
    "\<And>j. j \<in> live st \<Longrightarrow> slots st' ! j = slots st ! j" "length (slots st) \<le> length (slots st')"
    by (auto simp: allocates_def)
  have "unat i \<in> live st'" "unat i \<notin> live st" using a by (auto simp: allocates_def)
  moreover have "unat i < length (slots st')" using \<open>unat i \<in> live st'\<close> by (simp add: live_def)
  ultimately show "m = unat i" if "length (slots st) \<le> m" "m < length (slots st')" for m
    using a that by (auto simp: allocates_def split: if_splits)
qed

lemma slot_put_facts:
  assumes "space_wf d st" "n \<in> live st"
  shows "space_wf d (slot_put st n v)" "live (slot_put st n v) = live st" "slots (slot_put st n v) ! n = v"
    "\<And>m. m \<noteq> n \<Longrightarrow> slots (slot_put st n v) ! m = slots st ! m"
    "length (slots (slot_put st n v)) = length (slots st)"
proof -
  have "dead (slot_put st n v) = dead st" by (simp add: slot_put_def dead_def)
  then show "space_wf d (slot_put st n v)"
    using assms by (auto simp: space_wf_def slot_put_def live_def nth_list_update)
  show "live (slot_put st n v) = live st" "slots (slot_put st n v) ! n = v"
    "\<And>m. m \<noteq> n \<Longrightarrow> slots (slot_put st n v) ! m = slots st ! m"
    "length (slots (slot_put st n v)) = length (slots st)"
    using assms(2) by (auto simp: slot_put_def live_def)
qed

lemmas heap_views = payload_at_def live_in_def space_len_def spaces_wf_def root_refs_def

lemma heap_alloc_safe:
  assumes safe: "heap_safe h" and ok: "storable h p" and a: "heap_alloc h p = Some (i, h')"
  shows "heap_safe h'" "unat i \<notin> live_in h (payload_space p)" "payload_at h' (payload_space p) (unat i) = p"
    "\<And>sp n. n \<in> live_in h sp \<Longrightarrow> payload_at h' sp n = payload_at h sp n"
proof -
  have wf: "space_wf js_obj_default (objects h)" "space_wf v12_str_default (strings h)" "space_wf () (symbols h)"
    "space_wf v12_bigint_default (bigints h)" "space_wf shape_default (shapes h)"
    using safe by (simp_all add: heap_safe_def spaces_wf_def)
  have all: "spaces_wf h' \<and> root_refs h' = root_refs h \<and>
    (\<forall>sp. live_in h' sp = (if sp = payload_space p then insert (unat i) (live_in h sp) else live_in h sp)) \<and>
    (\<forall>sp. space_len h sp \<le> space_len h' sp) \<and>
    (\<forall>sp m. space_len h sp \<le> m \<longrightarrow> m < space_len h' sp \<longrightarrow> sp = payload_space p \<and> m = unat i) \<and>
    payload_at h' (payload_space p) (unat i) = p \<and>
    (\<forall>sp m. m \<in> live_in h sp \<longrightarrow> payload_at h' sp m = payload_at h sp m) \<and> unat i \<notin> live_in h (payload_space p)"
  proof (cases p)
    case (P_Object x)
    with a obtain st where st: "alloc js_obj_default x (objects h) = Some (i, st)" "h' = h\<lparr>objects := st\<rparr>"
      by (auto simp: heap_alloc_def)
    from alloc_facts [OF wf(1) st(1)] alloc_allocates [OF wf(1) st(1)] wf show ?thesis
      by (auto simp: heap_views st(2) P_Object allocates_def split: space.splits)
  next
    case (P_String x)
    with a obtain st where st: "alloc v12_str_default x (strings h) = Some (i, st)" "h' = h\<lparr>strings := st\<rparr>"
      by (auto simp: heap_alloc_def)
    from alloc_facts [OF wf(2) st(1)] alloc_allocates [OF wf(2) st(1)] wf show ?thesis
      by (auto simp: heap_views st(2) P_String allocates_def split: space.splits)
  next
    case P_Symbol
    with a obtain st where st: "alloc () () (symbols h) = Some (i, st)" "h' = h\<lparr>symbols := st\<rparr>"
      by (auto simp: heap_alloc_def)
    from alloc_facts [OF wf(3) st(1)] alloc_allocates [OF wf(3) st(1)] wf show ?thesis
      by (auto simp: heap_views st(2) P_Symbol allocates_def split: space.splits)
  next
    case (P_Bigint x)
    with a obtain st where st: "alloc v12_bigint_default x (bigints h) = Some (i, st)" "h' = h\<lparr>bigints := st\<rparr>"
      by (auto simp: heap_alloc_def)
    from alloc_facts [OF wf(4) st(1)] alloc_allocates [OF wf(4) st(1)] wf show ?thesis
      by (auto simp: heap_views st(2) P_Bigint allocates_def split: space.splits)
  next
    case (P_Shape x)
    with a obtain st where st: "alloc shape_default x (shapes h) = Some (i, st)" "h' = h\<lparr>shapes := st\<rparr>"
      by (auto simp: heap_alloc_def)
    from alloc_facts [OF wf(5) st(1)] alloc_allocates [OF wf(5) st(1)] wf show ?thesis
      by (auto simp: heap_views st(2) P_Shape allocates_def split: space.splits)
  qed
  then show "heap_safe h'" by (intro heap_safe_write [OF safe _ ok]) auto
  from all show "unat i \<notin> live_in h (payload_space p)" "payload_at h' (payload_space p) (unat i) = p"
    "\<And>sp n. n \<in> live_in h sp \<Longrightarrow> payload_at h' sp n = payload_at h sp n" by auto
qed

lemma heap_put_safe:
  assumes safe: "heap_safe h" and ok: "storable h p" and n: "n \<in> live_in h (payload_space p)"
  shows "heap_safe (heap_put h n p)"
proof -
  have wf: "space_wf js_obj_default (objects h)" "space_wf v12_str_default (strings h)" "space_wf () (symbols h)"
    "space_wf v12_bigint_default (bigints h)" "space_wf shape_default (shapes h)"
    using safe by (simp_all add: heap_safe_def spaces_wf_def)
  let ?h = "heap_put h n p"
  have "spaces_wf ?h \<and> root_refs ?h = root_refs h \<and> (\<forall>sp. live_in ?h sp = live_in h sp) \<and>
    (\<forall>sp. space_len ?h sp = space_len h sp) \<and> payload_at ?h (payload_space p) n = p \<and>
    (\<forall>sp m. (sp, m) \<noteq> (payload_space p, n) \<longrightarrow> payload_at ?h sp m = payload_at h sp m)"
  proof (cases p)
    case (P_Object x)
    with n slot_put_facts [OF wf(1), where n = n and v = x] wf show ?thesis
      by (auto simp: heap_put_def heap_views split: space.splits)
  next
    case (P_String x)
    with n slot_put_facts [OF wf(2), where n = n and v = x] wf show ?thesis
      by (auto simp: heap_put_def heap_views split: space.splits)
  next
    case P_Symbol
    with n slot_put_facts [OF wf(3), where n = n and v = "()"] wf show ?thesis
      by (auto simp: heap_put_def heap_views split: space.splits)
  next
    case (P_Bigint x)
    with n slot_put_facts [OF wf(4), where n = n and v = x] wf show ?thesis
      by (auto simp: heap_put_def heap_views split: space.splits)
  next
    case (P_Shape x)
    with n slot_put_facts [OF wf(5), where n = n and v = x] wf show ?thesis
      by (auto simp: heap_put_def heap_views split: space.splits)
  qed
  with n show ?thesis by (intro heap_safe_write [OF safe _ ok]) auto
qed

text \<open>A change of the root registries alone.\<close>

lemma heap_safe_roots:
  assumes "heap_safe h" "objects h' = objects h" "strings h' = strings h" "symbols h' = symbols h"
    "bigints h' = bigints h" "shapes h' = shapes h" "refs_live h (root_refs h')"
  shows "heap_safe h'"
proof -
  have "space_len h' = space_len h" "live_in h' = live_in h" "slot_refs h' = slot_refs h"
    using assms by (simp_all add: space_len_def live_in_def slot_refs_def fun_eq_iff split: space.splits)
  then show ?thesis
    using assms by (simp add: heap_safe_def spaces_wf_def edges_ok_def refs_live_def)
qed

lemma refs_live_root: "heap_safe h \<Longrightarrow> refs_live h (root_refs h)"
  by (simp add: heap_safe_def)

lemma refs_live_append [simp]: "refs_live h (rs @ rs') \<longleftrightarrow> refs_live h rs \<and> refs_live h rs'"
  by (auto simp: refs_live_def)

lemma refs_live_mono: "refs_live h rs \<Longrightarrow> set rs' \<subseteq> set rs \<Longrightarrow> refs_live h rs'"
  by (auto simp: refs_live_def)

lemma trace_values_append [simp]: "trace_values (vs @ vs') = trace_values vs @ trace_values vs'"
  "trace_values [v] = trace_value v"
  by (simp_all add: trace_values_def)

lemma refs_live_simps [simp]:
  "refs_live h []"
  "refs_live h ((sp, i) # rs) \<longleftrightarrow> (unat i < space_len h sp \<longrightarrow> unat i \<in> live_in h sp) \<and> refs_live h rs"
  by (auto simp: refs_live_def)

lemma trace_values_filter: "set (trace_values (filter P vs)) \<subseteq> set (trace_values vs)"
  by (induction vs) (auto simp: trace_values_def)

lemma root_refs_remove: "set (root_refs (remove_root v h)) \<subseteq> set (root_refs h)"
  unfolding root_refs_def remove_root_def set_append
  by (intro Un_mono) (simp_all add: trace_values_filter del: in_trace_values)

lemma heap_step_safe: "heap_step h h' \<Longrightarrow> heap_safe h \<Longrightarrow> heap_safe h'"
proof (induction rule: heap_step.induct)
  case (Alloc h p i h')
  then show ?case by (blast intro: heap_alloc_safe(1))
next
  case (Put h p n)
  then show ?case using heap_put_safe by blast
next
  case (Root h v)
  then have R: "refs_live h (root_refs (add_root v h))"
    using refs_live_root [of h] by (simp add: root_refs_def add_root_def)
  show ?case by (rule heap_safe_roots [of h]) (use R Root in \<open>simp_all add: add_root_def\<close>)
next
  case (Unroot h v)
  then have R: "refs_live h (root_refs (remove_root v h))"
    using refs_live_root [of h] root_refs_remove refs_live_mono by blast
  show ?case by (rule heap_safe_roots [of h]) (use R Unroot in \<open>simp_all add: remove_root_def\<close>)
next
  case (Root_shape sh h)
  then have R: "refs_live h (root_refs (add_shape_root sh h))"
    using refs_live_root [of h] by (simp add: root_refs_def add_shape_root_def)
  show ?case by (rule heap_safe_roots [of h]) (use R Root_shape in \<open>simp_all add: add_shape_root_def\<close>)
next
  case (Root_module ob h)
  then have R: "refs_live h (root_refs (add_module_root ob h))"
    using refs_live_root [of h] by (simp add: root_refs_def add_module_root_def)
  show ?case by (rule heap_safe_roots [of h]) (use R Root_module in \<open>simp_all add: add_module_root_def\<close>)
next
  case (Pin ob h)
  then have R: "refs_live h (root_refs (add_pinned_root ob h))"
    using refs_live_root [of h] by (simp add: root_refs_def add_pinned_root_def)
  show ?case by (rule heap_safe_roots [of h]) (use R Pin in \<open>simp_all add: add_pinned_root_def\<close>)
next
  case (Collect h h')
  then show ?case using collect_safe(1) by blast
qed

lemma heap_new_safe: "heap_safe heap_new"
proof -
  have new: "space_wf d (space_new xs)" "live (space_new xs) = {..<length xs}" for d :: 'x and xs
    by (auto simp: space_wf_def space_new_def dead_def live_def)
  have wf: "spaces_wf heap_new" by (simp add: spaces_wf_def heap_new_def new)
  have live: "live_in heap_new sp = (if sp = Shapes then {0, 1} else {})" for sp
    by (auto simp: live_in_def heap_new_def new less_Suc_eq split: space.splits)
  have "root_refs heap_new = [(Shapes, 0), (Shapes, 1)]"
    by (simp add: root_refs_def heap_new_def trace_values_def List.map_filter_def)
  then have "refs_live heap_new (root_refs heap_new)" by (simp add: refs_live_def live)
  moreover have "edges_ok heap_new sh \<and> trace_shape sh = []"
    if "sh \<in> {shape_root, shape_reserved PROMISE_INTERNAL_SLOTS}" for sh
    using that by (auto simp: edges_ok_def shape_root_def shape_reserved_def shape_default_def trace_shape_def
        trace_handle_def iter_edges)
  moreover have "slots (shapes heap_new) = [shape_root, shape_reserved PROMISE_INTERNAL_SLOTS]"
    by (simp add: heap_new_def space_new_def)
  ultimately show ?thesis
    using wf by (auto simp: heap_safe_def live slot_refs_def refs_live_def)
qed


definition demo_heap :: heap where
  "demo_heap = add_root (js_string 0)
     (heap_new\<lparr>strings := \<lparr>slots = [v12_str_default], free = [], alive = [True], released = [False],
                         sweep_cursor = 0, pending_dead = 0\<rparr>\<rparr>)"

lemma demo_string_alloc:
  "heap_alloc heap_new (P_String v12_str_default) =
     Some (0, heap_new\<lparr>strings := \<lparr>slots = [v12_str_default], free = [], alive = [True], released = [False],
                         sweep_cursor = 0, pending_dead = 0\<rparr>\<rparr>)"
  by (simp add: heap_alloc_def heap_new_def alloc_def space_new_def alloc_loop.simps sweep_step_def Let_def)

lemma demo_steps: "heap_step\<^sup>*\<^sup>* heap_new demo_heap"
proof -
  let ?h = "heap_new\<lparr>strings := \<lparr>slots = [v12_str_default], free = [], alive = [True], released = [False],
                         sweep_cursor = 0, pending_dead = 0\<rparr>\<rparr>"
  have "storable heap_new (P_String v12_str_default)"
    by (simp add: storable_def trace_string_def v12_str_default_def refs_live_def)
  from heap_step.Alloc [OF this demo_string_alloc] have 1: "heap_step heap_new ?h" .
  have "as_slot (js_string 0) = Some (Strings, 0)" by code_simp
  then have "refs_live ?h (trace_value (js_string 0))"
    by (simp add: refs_live_def trace_value_def live_in_def live_def)
  from heap_step.Root [OF this] have "heap_step ?h demo_heap" by (simp add: demo_heap_def)
  with 1 show ?thesis by (meson r_into_rtranclp rtranclp_trans)
qed


lemma collect_exact_witness:
  "\<exists>h'. force_collect heap_new = Some h' \<and> live_in h' Shapes = {n. (Shapes, n) \<in> reachable heap_new}"
proof -
  have "stub_wf (stubs heap_new)" "generation (stubs heap_new) \<noteq> - 1"
    by (simp add: heap_new_def) (simp add: heap_new_def stub_new_def FIRST_GENERATION_def EMPTY_STAMP_def)
  from collect_exact [OF heap_new_safe this] show ?thesis by blast
qed

end
