(* ===== verification/Strings.thy ===== *)
theory Strings
  imports Collect
begin

text \<open>
  Heap strings (\<open>string.rs\<close> and the string operations of \<open>gc.rs\<close>): flat Latin-1 and UTF-16
  leaves, lazy concatenations and slices, the leaf walk with its explicit stack,
  materialisation, the content hash and textual equality. The specification is the
  UTF-16 text of a string, defined by recursion over its tree (\<open>has_text\<close>): every operation is
  proved to compute the text it names and to leave every other text alone.
\<close>

section \<open>String values\<close>

definition CONCAT_EAGER_FLATTEN_MAX_UNITS :: nat where "CONCAT_EAGER_FLATTEN_MAX_UNITS = 128"
definition ROPE_MAX_DEPTH :: nat where "ROPE_MAX_DEPTH = 64"
definition FNV_OFFSET_BASIS_32 :: u32 where "FNV_OFFSET_BASIS_32 = 0x811C9DC5"
definition FNV_PRIME_32 :: u32 where "FNV_PRIME_32 = 0x01000193"

fun storage_eq :: "str_storage \<Rightarrow> str_storage \<Rightarrow> bool" where
  "storage_eq (Latin1 a) (Latin1 b) \<longleftrightarrow> a = b"
| "storage_eq (Utf16 a) (Utf16 b) \<longleftrightarrow> a = b"
| "storage_eq (Cons_str l r n) (Cons_str l2 r2 n2) \<longleftrightarrow> (l, r, n) = (l2, r2, n2)"
| "storage_eq (Sliced p s n) (Sliced p2 s2 n2) \<longleftrightarrow> (p, s, n) = (p2, s2, n2)"
| "storage_eq _ _ \<longleftrightarrow> False"

definition latin1 :: "u8 list \<Rightarrow> v12_str" where
  "latin1 bytes = \<lparr>storage = Latin1 bytes, cached_hash = None\<rparr>"

definition latin1_slice :: "u8 list \<Rightarrow> v12_str" where "latin1_slice bytes = latin1 bytes"

definition utf16 :: "u16 list \<Rightarrow> v12_str" where
  "utf16 units = \<lparr>storage = Utf16 units, cached_hash = None\<rparr>"

definition str_len :: "v12_str \<Rightarrow> nat" where
  "str_len s = (case storage s of
     Latin1 v \<Rightarrow> length v | Utf16 v \<Rightarrow> length v | Cons_str _ _ n \<Rightarrow> unat n | Sliced _ _ n \<Rightarrow> unat n)"

text \<open>\<open>None\<close> is the panic of the failed conversion.\<close>

definition len_u32 :: "v12_str \<Rightarrow> u32 option" where
  "len_u32 s = (if str_len s < 2 ^ 32 then Some (word_of_nat (str_len s)) else None)"

definition str_is_empty :: "v12_str \<Rightarrow> bool" where "str_is_empty s \<longleftrightarrow> str_len s = 0"

definition is_latin1 :: "v12_str \<Rightarrow> bool" where
  "is_latin1 s = (case storage s of Latin1 _ \<Rightarrow> True | _ \<Rightarrow> False)"

fun flat_storage :: "str_storage \<Rightarrow> bool" where
  "flat_storage (Latin1 _) \<longleftrightarrow> True"
| "flat_storage (Utf16 _) \<longleftrightarrow> True"
| "flat_storage _ \<longleftrightarrow> False"

definition is_flat :: "v12_str \<Rightarrow> bool" where "is_flat s = flat_storage (storage s)"

definition get_string :: "heap \<Rightarrow> handle \<Rightarrow> v12_str option" where
  "get_string h s = slot_get (strings h) s"

definition modify_string :: "heap \<Rightarrow> handle \<Rightarrow> (v12_str \<Rightarrow> v12_str) \<Rightarrow> heap option" where
  "modify_string h s f = map_option (\<lambda>x. heap_put h (unat s) (P_String (f x))) (get_string h s)"

section \<open>Walking the leaves\<close>

datatype seed = Resident handle | Owned v12_str

record walk_task =
  t_node :: handle
  t_skip :: u32
  t_take :: u32

datatype leaf_run = Run8 "u8 list" | Run16 "u16 list"

definition leaf_window :: "'a list \<Rightarrow> u32 \<Rightarrow> u32 \<Rightarrow> 'a list option" where
  "leaf_window leaf skip tk =
     (let start = unat skip; stop = start + unat tk
      in if stop \<le> length leaf then Some (take (stop - start) (drop start leaf)) else None)"

definition saturating_sub :: "u32 \<Rightarrow> u32 \<Rightarrow> u32" where
  "saturating_sub a b = (if b \<le> a then a - b else 0)"

text \<open>A stack is listed from its top. Offsets are added as a release build adds them.\<close>

definition queue_cons_range :: "heap \<Rightarrow> walk_task list \<Rightarrow> handle \<Rightarrow> handle \<Rightarrow> u32 \<Rightarrow> u32 \<Rightarrow> walk_task list option" where
  "queue_cons_range h stack left right skip tk =
     map_option (\<lambda>left_len.
       let stop = skip + tk;
           stack = (if left_len < stop
                    then \<lparr>t_node = right, t_skip = saturating_sub skip left_len, t_take = stop - max left_len skip\<rparr> # stack
                    else stack);
           left_end = min left_len stop
       in if skip < left_end then \<lparr>t_node = left, t_skip = skip, t_take = left_end - skip\<rparr> # stack else stack)
     (Option.bind (get_string h left) len_u32)"

text \<open>\<open>None\<close> is a panic or a walk that never ends, on a string that contains itself.\<close>

partial_function (option) walk_loop :: "heap \<Rightarrow> (leaf_run \<Rightarrow> 's \<Rightarrow> 's) \<Rightarrow> walk_task list \<Rightarrow> 's \<Rightarrow> 's option" where
  "walk_loop h visit stack st = (case stack of
     [] \<Rightarrow> Some st
   | task # stack \<Rightarrow> Option.bind (get_string h (t_node task)) (\<lambda>s. case storage s of
       Latin1 bytes \<Rightarrow> Option.bind (leaf_window bytes (t_skip task) (t_take task))
                         (\<lambda>w. walk_loop h visit stack (visit (Run8 w) st))
     | Utf16 units \<Rightarrow> Option.bind (leaf_window units (t_skip task) (t_take task))
                         (\<lambda>w. walk_loop h visit stack (visit (Run16 w) st))
     | Cons_str left right _ \<Rightarrow> Option.bind (queue_cons_range h stack left right (t_skip task) (t_take task))
                         (\<lambda>stack. walk_loop h visit stack st)
     | Sliced par start _ \<Rightarrow>
         walk_loop h visit (\<lparr>t_node = par, t_skip = start + t_skip task, t_take = t_take task\<rparr> # stack) st))"

declare walk_loop.simps [simp del]

text \<open>What a walk visits at once, and the tasks it starts with.\<close>

definition walk_start :: "heap \<Rightarrow> seed \<Rightarrow> (leaf_run list \<times> walk_task list) option" where
  "walk_start h seed = (case seed of
     Resident s \<Rightarrow>
       map_option (\<lambda>n. ([], if 0 < n then [\<lparr>t_node = s, t_skip = 0, t_take = n\<rparr>] else []))
         (Option.bind (get_string h s) len_u32)
   | Owned v \<Rightarrow> (case storage v of
       Latin1 bytes \<Rightarrow> Some (if bytes = [] then [] else [Run8 bytes], [])
     | Utf16 units \<Rightarrow> Some (if units = [] then [] else [Run16 units], [])
     | Cons_str left right _ \<Rightarrow> Option.bind (len_u32 v) (\<lambda>n.
         if 0 < n then map_option (Pair []) (queue_cons_range h [] left right 0 n) else Some ([], []))
     | Sliced par start n \<Rightarrow>
         Some ([], if 0 < n then [\<lparr>t_node = par, t_skip = start, t_take = n\<rparr>] else [])))"

definition walk_leaves :: "heap \<Rightarrow> seed \<Rightarrow> (leaf_run \<Rightarrow> 's \<Rightarrow> 's) \<Rightarrow> 's \<Rightarrow> 's option" where
  "walk_leaves h seed visit st =
     Option.bind (walk_start h seed) (\<lambda>(runs, stack). walk_loop h visit stack (fold visit runs st))"

section \<open>Materialisation, hashing and equality\<close>

record mat =
  all_latin1 :: bool
  mat8 :: "u8 list"
  mat16 :: "u16 list"

fun mat_visit :: "leaf_run \<Rightarrow> mat \<Rightarrow> mat" where
  "mat_visit (Run8 bytes) m =
     (if all_latin1 m then m\<lparr>mat8 := mat8 m @ bytes\<rparr> else m\<lparr>mat16 := mat16 m @ map ucast bytes\<rparr>)"
| "mat_visit (Run16 units) m =
     (let m = (if all_latin1 m then m\<lparr>all_latin1 := False, mat16 := mat16 m @ map ucast (mat8 m), mat8 := []\<rparr> else m)
      in m\<lparr>mat16 := mat16 m @ units\<rparr>)"

definition mat_finish :: "mat \<Rightarrow> str_storage" where
  "mat_finish m = (if all_latin1 m then Latin1 (mat8 m) else Utf16 (mat16 m))"

definition materialize :: "heap \<Rightarrow> seed \<Rightarrow> str_storage option" where
  "materialize h seed =
     map_option mat_finish (walk_leaves h seed mat_visit \<lparr>all_latin1 = True, mat8 = [], mat16 = []\<rparr>)"

definition feed_fnv :: "u16 \<Rightarrow> u32 \<Rightarrow> u32" where
  "feed_fnv unit state = (state XOR ucast unit) * FNV_PRIME_32"

fun hash_visit :: "leaf_run \<Rightarrow> u32 \<Rightarrow> u32" where
  "hash_visit (Run8 bytes) state = fold (\<lambda>b. feed_fnv (ucast b)) bytes state"
| "hash_visit (Run16 units) state = fold feed_fnv units state"

definition content_hash :: "heap \<Rightarrow> seed \<Rightarrow> u32 option" where
  "content_hash h seed = walk_leaves h seed hash_visit FNV_OFFSET_BASIS_32"

fun hash_flat :: "str_storage \<Rightarrow> u32 option" where
  "hash_flat (Latin1 bytes) = Some (fold (\<lambda>b. feed_fnv (ucast b)) bytes FNV_OFFSET_BASIS_32)"
| "hash_flat (Utf16 units) = Some (fold feed_fnv units FNV_OFFSET_BASIS_32)"
| "hash_flat _ = None"

fun flat_units_equal :: "str_storage \<Rightarrow> str_storage \<Rightarrow> bool" where
  "flat_units_equal (Latin1 x) (Latin1 y) \<longleftrightarrow> x = y"
| "flat_units_equal (Utf16 x) (Utf16 y) \<longleftrightarrow> x = y"
| "flat_units_equal (Latin1 x) (Utf16 y) \<longleftrightarrow> map ucast x = y"
| "flat_units_equal (Utf16 y) (Latin1 x) \<longleftrightarrow> map ucast x = y"
| "flat_units_equal _ _ \<longleftrightarrow> False"

section \<open>The heap's string operations\<close>

definition with_pinned_string_roots :: "handle list \<Rightarrow> (heap \<Rightarrow> ('r \<times> heap) option) \<Rightarrow> heap \<Rightarrow> ('r \<times> heap) option" where
  "with_pinned_string_roots vs build h =
     map_option (\<lambda>(r, h'). (r, h'\<lparr>roots := take (length (roots h)) (roots h')\<rparr>))
       (build (fold (\<lambda>v. add_root (js_string v)) vs h))"

partial_function (option) rope_loop :: "heap \<Rightarrow> (handle \<times> nat) list \<Rightarrow> nat \<Rightarrow> nat option" where
  "rope_loop h stack max_depth = (case stack of
     [] \<Rightarrow> Some max_depth
   | (s, depth) # stack \<Rightarrow> Option.bind (get_string h s) (\<lambda>x.
       let max_depth = (if max_depth < depth then depth else max_depth)
       in case storage x of
            Cons_str left right _ \<Rightarrow> rope_loop h ((right, depth + 1) # (left, depth + 1) # stack) max_depth
          | Sliced par _ _ \<Rightarrow> rope_loop h ((par, depth + 1) # stack) max_depth
          | Latin1 _ \<Rightarrow> rope_loop h stack max_depth
          | Utf16 _ \<Rightarrow> rope_loop h stack max_depth))"

declare rope_loop.simps [simp del]

definition rope_depth :: "heap \<Rightarrow> handle \<Rightarrow> nat option" where
  "rope_depth h s = rope_loop h [(s, 1)] 0"

definition flatten :: "heap \<Rightarrow> handle \<Rightarrow> heap option" where
  "flatten h s = Option.bind (get_string h s) (\<lambda>x.
     if is_flat x then Some h
     else Option.bind (materialize h (Resident s)) (\<lambda>fl.
            modify_string h s (\<lambda>slot. slot\<lparr>storage := fl, cached_hash := cached_hash x\<rparr>)))"

definition concat_str :: "heap \<Rightarrow> handle \<Rightarrow> handle \<Rightarrow> (handle \<times> heap) option" where
  "concat_str h left right =
     Option.bind (Option.bind (get_string h left) len_u32) (\<lambda>ll.
     Option.bind (Option.bind (get_string h right) len_u32) (\<lambda>rl.
       if unat ll + unat rl < 2 ^ 32
       then Option.bind (with_pinned_string_roots [left, right]
              (\<lambda>h. heap_alloc h (P_String \<lparr>storage = Cons_str left right (ll + rl), cached_hash = None\<rparr>)) h) (\<lambda>(s, h').
            if ll + rl \<le> word_of_nat CONCAT_EAGER_FLATTEN_MAX_UNITS then map_option (Pair s) (flatten h' s)
            else Option.bind (rope_depth h' s) (\<lambda>d.
              if ROPE_MAX_DEPTH < d then map_option (Pair s) (flatten h' s) else Some (s, h')))
       else None))"

text \<open>The inner option is the function's own, the outer one a panic.\<close>

definition slice_string :: "heap \<Rightarrow> handle \<Rightarrow> u32 \<Rightarrow> u32 \<Rightarrow> (handle option \<times> heap) option" where
  "slice_string h par start n =
     (if unat start + unat n < 2 ^ 32
      then Option.bind (Option.bind (get_string h par) len_u32) (\<lambda>pl.
             if pl < start + n then Some (None, h)
             else map_option (\<lambda>(s, h). (Some s, h)) (with_pinned_string_roots [par]
                    (\<lambda>h. heap_alloc h (P_String \<lparr>storage = Sliced par start n, cached_hash = None\<rparr>)) h))
      else Some (None, h))"

definition string_hash :: "heap \<Rightarrow> handle \<Rightarrow> (u32 \<times> heap) option" where
  "string_hash h s = Option.bind (get_string h s) (\<lambda>x. case cached_hash x of
     Some hash \<Rightarrow> Some (hash, h)
   | None \<Rightarrow> Option.bind (content_hash h (Resident s)) (\<lambda>hash.
       map_option (Pair hash) (modify_string h s (\<lambda>x. x\<lparr>cached_hash := Some hash\<rparr>))))"

definition strings_equal :: "heap \<Rightarrow> handle \<Rightarrow> handle \<Rightarrow> bool option" where
  "strings_equal h a b =
     (if a = b then Some True
      else Option.bind (get_string h a) (\<lambda>sa. Option.bind (get_string h b) (\<lambda>sb.
        if str_len sa \<noteq> str_len sb then Some False
        else if is_flat sa \<and> is_flat sb then Some (flat_units_equal (storage sa) (storage sb))
        else Option.bind (materialize h (Resident a)) (\<lambda>fa.
             map_option (flat_units_equal fa) (materialize h (Resident b))))))"

section \<open>The text of a string\<close>

fun flat_units :: "str_storage \<Rightarrow> u16 list" where
  "flat_units (Latin1 bytes) = map ucast bytes"
| "flat_units (Utf16 units) = units"
| "flat_units _ = []"

fun run_units :: "leaf_run \<Rightarrow> u16 list" where
  "run_units (Run8 bytes) = map ucast bytes"
| "run_units (Run16 units) = units"

definition runs_units :: "leaf_run list \<Rightarrow> u16 list" where
  "runs_units runs = concat (map run_units runs)"

lemma runs_units_simps [simp]:
  "runs_units [] = []" "runs_units (r # rs) = run_units r @ runs_units rs"
  "runs_units (rs @ rs') = runs_units rs @ runs_units rs'"
  by (simp_all add: runs_units_def)

definition live_string :: "heap \<Rightarrow> handle \<Rightarrow> v12_str \<Rightarrow> bool" where
  "live_string h s x \<longleftrightarrow> unat s \<in> live_in h Strings \<and> slots (strings h) ! unat s = x"

text \<open>
  The text of a live string: a derivation exists exactly when the tree below it is finite, its
  leaves fit the length type, the stored lengths are right and every slice lies in its parent.
\<close>

inductive has_text :: "heap \<Rightarrow> handle \<Rightarrow> u16 list \<Rightarrow> bool" for h where
  Flat: "live_string h s x \<Longrightarrow> is_flat x \<Longrightarrow> str_len x < 2 ^ 32 \<Longrightarrow> has_text h s (flat_units (storage x))"
| Concat: "live_string h s x \<Longrightarrow> storage x = Cons_str l r n \<Longrightarrow> has_text h l tl1 \<Longrightarrow> has_text h r tr \<Longrightarrow>
    length tl1 + length tr = unat n \<Longrightarrow> has_text h s (tl1 @ tr)"
| Slice: "live_string h s x \<Longrightarrow> storage x = Sliced p start n \<Longrightarrow> has_text h p tp \<Longrightarrow>
    unat start + unat n \<le> length tp \<Longrightarrow> has_text h s (take (unat n) (drop (unat start) tp))"

inductive_cases has_textE: "has_text h s t"

lemma live_string_get [simp]: "live_string h s x \<Longrightarrow> get_string h s = Some x"
  by (auto simp: live_string_def get_string_def slot_get_def live_in_def live_def)

lemma live_string_fun: "live_string h s x \<Longrightarrow> live_string h s y \<Longrightarrow> x = y"
  by (simp add: live_string_def)

lemma flat_storage_cases: "flat_storage st \<longleftrightarrow> (\<exists>bs. st = Latin1 bs) \<or> (\<exists>us. st = Utf16 us)"
  by (cases st) auto

lemma length_flat_units: "is_flat x \<Longrightarrow> length (flat_units (storage x)) = str_len x"
  by (auto simp: is_flat_def str_len_def flat_storage_cases)

lemma has_text_node: "has_text h s t \<Longrightarrow> \<exists>x. live_string h s x \<and> str_len x = length t \<and> length t < 2 ^ 32"
proof (induction rule: has_text.induct)
  case (Flat s x)
  then show ?case by (auto simp: length_flat_units)
next
  case (Concat s x l r n tl1 tr)
  then show ?case using unsigned_less [of n] by (auto simp: str_len_def)
next
  case (Slice s x p start n tp)
  then show ?case using unsigned_less [of n] by (auto simp: str_len_def)
qed

text \<open>The text of a node, whether it is resident or held by the caller.\<close>

definition node_text :: "heap \<Rightarrow> v12_str \<Rightarrow> u16 list \<Rightarrow> bool" where
  "node_text h x t = (case storage x of
      Cons_str l r n \<Rightarrow> \<exists>t1 t2. has_text h l t1 \<and> has_text h r t2 \<and> length t1 + length t2 = unat n \<and> t = t1 @ t2
    | Sliced p start n \<Rightarrow> \<exists>tp. has_text h p tp \<and> unat start + unat n \<le> length tp \<and> t = take (unat n) (drop (unat start) tp)
    | fl \<Rightarrow> t = flat_units fl)"

lemma has_text_cases:
  assumes "live_string h s x" "has_text h s t"
  shows "node_text h x t"
  using assms(2)
proof (cases rule: has_text.cases)
  case (Flat y)
  with live_string_fun [OF assms(1) Flat(2)] show ?thesis by (auto simp: node_text_def is_flat_def flat_storage_cases)
next
  case (Concat y l r n t1 t2)
  with live_string_fun [OF assms(1) Concat(2)] show ?thesis by (auto simp: node_text_def)
next
  case (Slice y p start n tp)
  with live_string_fun [OF assms(1) Slice(2)] show ?thesis by (auto simp: node_text_def)
qed

lemma has_text_fun: "has_text h s t \<Longrightarrow> has_text h s t' \<Longrightarrow> t = t'"
proof (induction arbitrary: t' rule: has_text.induct)
  case (Flat s x)
  from has_text_cases [OF Flat(1,4)] Flat(2) show ?case by (auto simp: node_text_def is_flat_def flat_storage_cases)
next
  case (Concat s x l r n t1 t2)
  from has_text_cases [OF Concat(1,8)] Concat(2,6,7) show ?case by (auto simp: node_text_def)
next
  case (Slice s x p start n tp)
  from has_text_cases [OF Slice(1,6)] Slice(2,5) show ?case by (auto simp: node_text_def)
qed

lemma has_text_node_iff:
  "live_string h s x \<Longrightarrow> has_text h s t \<longleftrightarrow> node_text h x t \<and> (is_flat x \<longrightarrow> str_len x < 2 ^ 32)"
proof
  assume x: "live_string h s x" and t: "has_text h s t"
  from has_text_node [OF t] obtain y where "live_string h s y" "str_len y < 2 ^ 32" by auto
  with has_text_cases [OF x t] live_string_fun [OF x] show "node_text h x t \<and> (is_flat x \<longrightarrow> str_len x < 2 ^ 32)" by blast
next
  assume x: "live_string h s x" and t: "node_text h x t \<and> (is_flat x \<longrightarrow> str_len x < 2 ^ 32)"
  then show "has_text h s t"
    using Flat [OF x] Concat [OF x] Slice [OF x]
    by (cases "storage x") (fastforce simp: node_text_def is_flat_def)+
qed

lemma has_text_len: "has_text h s t \<Longrightarrow> Option.bind (get_string h s) len_u32 = Some (word_of_nat (length t))"
  using has_text_node [of h s t] by (auto simp: len_u32_def)

section \<open>The walk visits the text\<close>

lemma unat_add_small: "unat (a :: u32) + unat b < 2 ^ 32 \<Longrightarrow> unat (a + b) = unat a + unat b"
  by (simp add: unat_word_ariths)

lemma unat_sub_le: "(b :: u32) \<le> a \<Longrightarrow> unat (a - b) = unat a - unat b"
  by (simp add: unat_sub)

lemma unat_order: "(a :: u32) \<le> b \<longleftrightarrow> unat a \<le> unat b" "a < b \<longleftrightarrow> unat a < unat b"
  by (simp_all add: word_le_nat_alt word_less_nat_alt)

lemma unat_min_max: "unat (min a b :: u32) = min (unat a) (unat b)" "unat (max a b :: u32) = max (unat a) (unat b)"
  by (simp_all add: min_def max_def unat_order)

lemma window_append:
  "take k (drop sk (xs @ ys)) =
     take (min (length xs) (sk + k) - sk) (drop sk xs) @ take (sk + k - max (length xs) sk) (drop (sk - length xs) ys)"
proof -
  have "take k (drop sk xs) = take (min (length xs) (sk + k) - sk) (drop sk xs)"
    by (cases "length xs \<le> sk + k") (simp_all add: min_def)
  moreover have "k - (length xs - sk) = sk + k - max (length xs) sk" by (auto simp: max_def)
  ultimately show ?thesis by simp
qed

text \<open>The windows a concatenation is split into, with their runs.\<close>

lemma queue_cons_windows:
  assumes l: "has_text h l t1" and r: "has_text h r t2" and w: "unat skip + unat tk \<le> length t1 + length t2"
    and len: "length t1 + length t2 < 2 ^ 32"
    and wl: "\<And>skip tk. unat skip + unat tk \<le> length t1 \<Longrightarrow> \<exists>runs. runs_units runs = take (unat tk) (drop (unat skip) t1) \<and>
      (\<forall>stack st. walk_loop h visit (\<lparr>t_node = l, t_skip = skip, t_take = tk\<rparr> # stack) st = walk_loop h visit stack (fold visit runs st))"
    and wr: "\<And>skip tk. unat skip + unat tk \<le> length t2 \<Longrightarrow> \<exists>runs. runs_units runs = take (unat tk) (drop (unat skip) t2) \<and>
      (\<forall>stack st. walk_loop h visit (\<lparr>t_node = r, t_skip = skip, t_take = tk\<rparr> # stack) st = walk_loop h visit stack (fold visit runs st))"
  obtains runs where "runs_units runs = take (unat tk) (drop (unat skip) (t1 @ t2))"
    "\<And>stack st. Option.bind (queue_cons_range h stack l r skip tk) (\<lambda>stack. walk_loop h visit stack st) =
       walk_loop h visit stack (fold visit runs st)"
proof -
  define n where "n = (word_of_nat (length t1) :: u32)"
  have n: "unat n = length t1" using len by (simp add: n_def unat_of_nat_small)
  have stop: "unat (skip + tk) = unat skip + unat tk" using w len by (intro unat_add_small) simp
  let ?rt = "\<lparr>t_node = r, t_skip = saturating_sub skip n, t_take = skip + tk - max n skip\<rparr>"
  let ?lt = "\<lparr>t_node = l, t_skip = skip, t_take = min n (skip + tk) - skip\<rparr>"
  have q: "queue_cons_range h stack l r skip tk = Some
     ((if skip < min n (skip + tk) then [?lt] else []) @ (if n < skip + tk then [?rt] else []) @ stack)" for stack
    by (simp add: queue_cons_range_def has_text_len [OF l] Let_def n_def)
  have rs: "unat (saturating_sub skip n) = unat skip - length t1"
    by (simp add: saturating_sub_def unat_order unat_sub_le n)
  have "n < skip + tk \<Longrightarrow> max n skip \<le> skip + tk" by (auto simp: unat_order stop unat_min_max)
  then have rt: "n < skip + tk \<Longrightarrow> unat (skip + tk - max n skip) = unat skip + unat tk - max (length t1) (unat skip)"
    by (simp add: unat_sub_le unat_min_max stop n)
  have lt: "skip < min n (skip + tk) \<Longrightarrow> unat (min n (skip + tk) - skip) = min (length t1) (unat skip + unat tk) - unat skip"
    by (simp add: unat_sub_le unat_min_max stop n unat_order)
  obtain left where left: "runs_units left = take (min (length t1) (unat skip + unat tk) - unat skip) (drop (unat skip) t1)"
    "\<And>stack st. walk_loop h visit ((if skip < min n (skip + tk) then [?lt] else []) @ stack) st = walk_loop h visit stack (fold visit left st)"
  proof (cases "skip < min n (skip + tk)")
    case True
    then have "unat skip + unat (min n (skip + tk) - skip) \<le> length t1"
      unfolding lt [OF True] by (simp add: unat_order unat_min_max n stop)
    from wl [OF this] True that show thesis by (auto simp: lt)
  next
    case False
    then have "min (length t1) (unat skip + unat tk) - unat skip = 0"
      unfolding unat_order unat_min_max n stop by linarith
    with that [of "[]"] show thesis unfolding if_not_P [OF False] by simp
  qed
  obtain right where right: "runs_units right = take (unat skip + unat tk - max (length t1) (unat skip)) (drop (unat skip - length t1) t2)"
    "\<And>stack st. walk_loop h visit ((if n < skip + tk then [?rt] else []) @ stack) st = walk_loop h visit stack (fold visit right st)"
  proof (cases "n < skip + tk")
    case True
    have "unat (saturating_sub skip n) + unat (skip + tk - max n skip) \<le> length t2"
      unfolding rs rt [OF True] using w True by (auto simp: max_def)
    from wr [OF this] True that show thesis by (auto simp: rt rs)
  next
    case False
    then have "unat skip + unat tk - max (length t1) (unat skip) = 0" by (simp add: unat_order n stop)
    with that [of "[]"] show thesis unfolding if_not_P [OF False] by simp
  qed
  show thesis
  proof (rule that [of "left @ right"])
    show "runs_units (left @ right) = take (unat tk) (drop (unat skip) (t1 @ t2))"
      unfolding window_append by (simp only: runs_units_simps left right)
    show "Option.bind (queue_cons_range h stack l r skip tk) (\<lambda>stack. walk_loop h visit stack st) =
       walk_loop h visit stack (fold visit (left @ right) st)" for stack st
      using left(2) [of "(if n < skip + tk then [?rt] else []) @ stack" st] right(2) [of stack "fold visit left st"]
      by (simp add: q)
  qed
qed

lemma walk_loop_step:
  assumes "live_string h s x"
  shows "walk_loop h visit (\<lparr>t_node = s, t_skip = skip, t_take = tk\<rparr> # stack) st = (case storage x of
       Latin1 bytes \<Rightarrow> Option.bind (leaf_window bytes skip tk) (\<lambda>w. walk_loop h visit stack (visit (Run8 w) st))
     | Utf16 units \<Rightarrow> Option.bind (leaf_window units skip tk) (\<lambda>w. walk_loop h visit stack (visit (Run16 w) st))
     | Cons_str left right _ \<Rightarrow> Option.bind (queue_cons_range h stack left right skip tk) (\<lambda>stack. walk_loop h visit stack st)
     | Sliced par start _ \<Rightarrow> walk_loop h visit (\<lparr>t_node = par, t_skip = start + skip, t_take = tk\<rparr> # stack) st)"
  using assms by (subst walk_loop.simps) (simp split: str_storage.split)

text \<open>Walking a window of a string ends, and visits that window of its text in order.\<close>

lemma has_text_walk:
  "has_text h s t \<Longrightarrow> unat skip + unat tk \<le> length t \<Longrightarrow>
   \<exists>runs. runs_units runs = take (unat tk) (drop (unat skip) t) \<and>
     (\<forall>stack st. walk_loop h visit (\<lparr>t_node = s, t_skip = skip, t_take = tk\<rparr> # stack) st =
        walk_loop h visit stack (fold visit runs st))"
proof (induction arbitrary: skip tk rule: has_text.induct)
  case (Flat s x)
  then consider (B) bs where "storage x = Latin1 bs" | (U) us where "storage x = Utf16 us"
    by (auto simp: is_flat_def flat_storage_cases)
  then show ?case
  proof cases
    case B
    with Flat show ?thesis
      by (intro exI [of _ "[Run8 (take (unat tk) (drop (unat skip) bs))]"])
        (simp add: walk_loop_step leaf_window_def take_map drop_map)
  next
    case U
    with Flat show ?thesis
      by (intro exI [of _ "[Run16 (take (unat tk) (drop (unat skip) us))]"])
        (simp add: walk_loop_step leaf_window_def)
  qed
next
  case (Concat s x l r n t1 t2)
  have "length t1 + length t2 < 2 ^ 32" using Concat(5) unsigned_less [of n] by simp
  then obtain runs where "runs_units runs = take (unat tk) (drop (unat skip) (t1 @ t2))"
    "\<And>stack st. Option.bind (queue_cons_range h stack l r skip tk) (\<lambda>stack. walk_loop h visit stack st) =
       walk_loop h visit stack (fold visit runs st)"
    by (rule queue_cons_windows [OF Concat(3,4) Concat(8) [unfolded length_append] _ Concat(6,7)]) auto
  with Concat(1,2) show ?case
    by (intro exI [of _ runs]) (simp add: walk_loop_step)
next
  case (Slice s x p start n tp)
  from has_text_node [OF Slice(3)] have len: "length tp < 2 ^ 32" by auto
  from Slice(4,6) have w: "unat skip + unat tk \<le> unat n" by (simp add: min_def split: if_splits)
  with Slice(4) len have add: "unat (start + skip) = unat start + unat skip" by (intro unat_add_small) simp
  from w Slice(4) Slice(5) [of "start + skip" tk] obtain runs where
    "runs_units runs = take (unat tk) (drop (unat start + unat skip) tp)"
    "\<And>stack st. walk_loop h visit (\<lparr>t_node = p, t_skip = start + skip, t_take = tk\<rparr> # stack) st =
       walk_loop h visit stack (fold visit runs st)"
    unfolding add by auto
  with Slice(1,2) w show ?case
    by (intro exI [of _ runs]) (simp add: walk_loop_step drop_take min_def add.commute)
qed

section \<open>What the walks compute\<close>

definition seed_text :: "heap \<Rightarrow> seed \<Rightarrow> u16 list \<Rightarrow> bool" where
  "seed_text h seed t = (case seed of Resident s \<Rightarrow> has_text h s t | Owned v \<Rightarrow> node_text h v t)"

lemma walk_loop_Nil [simp]: "walk_loop h visit [] st = Some st"
  by (simp add: walk_loop.simps)

lemma walk_leaves_text:
  assumes "seed_text h seed t"
  shows "\<exists>runs. runs_units runs = t \<and> walk_leaves h seed visit st = Some (fold visit runs st)"
proof (cases seed)
  case (Resident s)
  with assms have t: "has_text h s t" by (simp add: seed_text_def)
  note n = has_text_len [OF t]
  from has_text_node [OF t] have len: "length t < 2 ^ 32" by auto
  have "t = [] \<or> 0 < (word_of_nat (length t) :: u32)"
    using len by (auto simp: unat_order(2) unat_of_nat_small)
  moreover obtain runs where "runs_units runs = t"
    "\<And>stack st. walk_loop h visit (\<lparr>t_node = s, t_skip = 0, t_take = word_of_nat (length t)\<rparr> # stack) st =
       walk_loop h visit stack (fold visit runs st)"
    using has_text_walk [OF t, of 0 "word_of_nat (length t)" visit] len by (auto simp: unat_of_nat_small)
  ultimately show ?thesis
    using n by (auto simp: walk_leaves_def walk_start_def Resident intro: exI [of _ "[]"] exI [of _ runs])
next
  case (Owned v)
  with assms have t: "node_text h v t" by (simp add: seed_text_def)
  show ?thesis
  proof (cases "storage v")
    case (Latin1 bs)
    with t show ?thesis
      by (intro exI [of _ "if bs = [] then [] else [Run8 bs]"])
        (simp add: Owned walk_leaves_def walk_start_def node_text_def)
  next
    case (Utf16 us)
    with t show ?thesis
      by (intro exI [of _ "if us = [] then [] else [Run16 us]"])
        (simp add: Owned walk_leaves_def walk_start_def node_text_def)
  next
    case (Cons_str l r n)
    with t obtain t1 t2 where lr: "has_text h l t1" "has_text h r t2" "length t1 + length t2 = unat n" "t = t1 @ t2"
      by (auto simp: node_text_def)
    have l32: "len_u32 v = Some n" using unsigned_less [of n] by (simp add: len_u32_def str_len_def Cons_str)
    show ?thesis
    proof (cases "0 < n")
      case True
      obtain runs where runs: "runs_units runs = take (unat n) (drop (unat 0) (t1 @ t2))"
        "\<And>stack st. Option.bind (queue_cons_range h stack l r 0 n) (\<lambda>stack. walk_loop h visit stack st) =
           walk_loop h visit stack (fold visit runs st)"
        using queue_cons_windows [OF lr(1,2), of 0 n visit] has_text_walk [OF lr(1), of _ _ visit]
          has_text_walk [OF lr(2), of _ _ visit] lr(3) unsigned_less [of n] by (auto simp: lr(3))
      from runs(2) [of "[]" st] True lr l32 runs(1) show ?thesis
        by (intro exI [of _ runs]) (auto simp: Owned walk_leaves_def walk_start_def Cons_str bind_eq_Some_conv)
    next
      case False
      with lr have "t = []" by (simp add: unat_order)
      with False l32 show ?thesis
        by (intro exI [of _ "[]"]) (simp add: Owned walk_leaves_def walk_start_def Cons_str)
    qed
  next
    case (Sliced p start n)
    with t obtain tp where tp: "has_text h p tp" "unat start + unat n \<le> length tp" "t = take (unat n) (drop (unat start) tp)"
      by (auto simp: node_text_def)
    from has_text_walk [OF tp(1,2), of visit] tp(3) obtain runs where "runs_units runs = t"
      "\<And>stack st. walk_loop h visit (\<lparr>t_node = p, t_skip = start, t_take = n\<rparr> # stack) st = walk_loop h visit stack (fold visit runs st)"
      by auto
    moreover have "\<not> 0 < n \<Longrightarrow> t = []" using tp(3) by (simp add: unat_order)
    ultimately show ?thesis
      by (auto simp: Owned walk_leaves_def walk_start_def Sliced intro: exI [of _ "[]"] exI [of _ runs])
  qed
qed

definition mat_units :: "mat \<Rightarrow> u16 list" where
  "mat_units m = (if all_latin1 m then map ucast (mat8 m) else mat16 m)"

lemma mat_visit_units:
  "all_latin1 m \<longrightarrow> mat16 m = [] \<Longrightarrow>
   (all_latin1 (mat_visit r m) \<longrightarrow> mat16 (mat_visit r m) = []) \<and> mat_units (mat_visit r m) = mat_units m @ run_units r"
  by (cases r) (auto simp: mat_units_def)

lemma mat_fold_units:
  "all_latin1 m \<longrightarrow> mat16 m = [] \<Longrightarrow> mat_units (fold mat_visit runs m) = mat_units m @ runs_units runs"
proof (induction runs arbitrary: m)
  case (Cons r runs)
  from mat_visit_units [OF Cons(2), of r] Cons(1) [of "mat_visit r m"] show ?case by simp
qed simp

lemma mat_finish_flat: "flat_storage (mat_finish m)" "flat_units (mat_finish m) = mat_units m"
  by (simp_all add: mat_finish_def mat_units_def)

lemma materialize_text:
  assumes "seed_text h seed t"
  obtains fl where "materialize h seed = Some fl" "flat_storage fl" "flat_units fl = t"
proof -
  obtain runs where "runs_units runs = t"
    "walk_leaves h seed mat_visit \<lparr>all_latin1 = True, mat8 = [], mat16 = []\<rparr> =
       Some (fold mat_visit runs \<lparr>all_latin1 = True, mat8 = [], mat16 = []\<rparr>)"
    using walk_leaves_text [OF assms, of mat_visit "\<lparr>all_latin1 = True, mat8 = [], mat16 = []\<rparr>"] by metis
  then show thesis
    by (intro that [of "mat_finish (fold mat_visit runs \<lparr>all_latin1 = True, mat8 = [], mat16 = []\<rparr>)"])
      (simp_all add: materialize_def mat_finish_flat mat_fold_units, simp add: mat_units_def)
qed

definition text_hash :: "u16 list \<Rightarrow> u32" where
  "text_hash t = fold feed_fnv t FNV_OFFSET_BASIS_32"

lemma hash_visit_units: "hash_visit r st = fold feed_fnv (run_units r) st"
  by (cases r) (simp_all add: fold_map comp_def)

lemma hash_fold_units: "fold hash_visit runs st = fold feed_fnv (runs_units runs) st"
  by (induction runs arbitrary: st) (simp_all add: hash_visit_units)

lemma content_hash_text: "seed_text h seed t \<Longrightarrow> content_hash h seed = Some (text_hash t)"
  using walk_leaves_text [of h seed t hash_visit FNV_OFFSET_BASIS_32]
  by (auto simp: content_hash_def hash_fold_units text_hash_def)

lemma hash_flat_units: "flat_storage fl \<Longrightarrow> hash_flat fl = Some (text_hash (flat_units fl))"
  by (cases fl) (simp_all add: text_hash_def fold_map comp_def)

lemma map_ucast_inj: "map (ucast :: u8 \<Rightarrow> u16) xs = map ucast ys \<longleftrightarrow> xs = ys"
proof -
  have "inj (ucast :: u8 \<Rightarrow> u16)" by (rule injI) (simp add: word_unat_eq_iff [where ?'a = 16] word_unat_eq_iff [where ?'a = 8] del: unat_eq_iff)
  then show ?thesis by (rule inj_map_eq_map)
qed

lemma flat_units_equal_iff:
  "flat_storage a \<Longrightarrow> flat_storage b \<Longrightarrow> flat_units_equal a b \<longleftrightarrow> flat_units a = flat_units b"
  by (cases a; cases b) (auto simp: map_ucast_inj)

section \<open>Writing a string slot\<close>

lemma live_string_put:
  "unat s0 \<in> live_in h Strings \<Longrightarrow>
   live_string (heap_put h (unat s0) (P_String y)) s x \<longleftrightarrow> (if s = s0 then x = y else live_string h s x)"
  by (auto simp: live_string_def heap_put_def slot_put_def live_in_def live_def)

text \<open>A text survives when every node is carried over, up to one node whose text is known to be.\<close>

lemma has_text_transfer:
  assumes same: "\<And>s x. s \<noteq> s0 \<Longrightarrow> live_string h s x \<Longrightarrow> live_string h' s x"
    and at: "\<And>t. has_text h s0 t \<Longrightarrow> has_text h' s0 t"
  shows "has_text h s t \<Longrightarrow> has_text h' s t"
proof (induction rule: has_text.induct)
  case (Flat s x)
  then show ?case using same at [of "flat_units (storage x)"] by (metis has_text.Flat)
next
  case (Concat s x l r n t1 t2)
  then show ?case using same at [of "t1 @ t2"] by (metis has_text.Concat)
next
  case (Slice s x p start n tp)
  then show ?case using same at [of "take (unat n) (drop (unat start) tp)"] by (metis has_text.Slice)
qed

lemma has_text_storage:
  assumes same: "\<And>s x. live_string h s x \<Longrightarrow> \<exists>y. live_string h' s y \<and> storage y = storage x"
  shows "has_text h s t \<Longrightarrow> has_text h' s t"
proof (induction rule: has_text.induct)
  case (Flat s x)
  with same [OF Flat(1)] show ?case by (metis has_text.Flat is_flat_def length_flat_units)
next
  case (Concat s x l r n t1 t2)
  with same [OF Concat(1)] show ?case by (metis has_text.Concat)
next
  case (Slice s x p start n tp)
  with same [OF Slice(1)] show ?case by (metis has_text.Slice)
qed

lemma flatten_keeps_text:
  assumes t0: "has_text h s0 t0" and y: "is_flat y" "flat_units (storage y) = t0"
  defines "h' \<equiv> heap_put h (unat s0) (P_String y)"
  shows "has_text h' s t \<longleftrightarrow> has_text h s t"
proof -
  from has_text_node [OF t0] have len: "length t0 < 2 ^ 32" and live: "unat s0 \<in> live_in h Strings"
    by (auto simp: live_string_def)
  have ls: "live_string h' s x \<longleftrightarrow> (if s = s0 then x = y else live_string h s x)" for s x
    unfolding h'_def by (rule live_string_put [OF live])
  have at: "has_text h' s0 t0"
    using Flat [of h' s0 y] len y by (simp add: ls length_flat_units [symmetric])
  show ?thesis
  proof
    show "has_text h s t \<Longrightarrow> has_text h' s t"
      by (rule has_text_transfer [of s0]) (use ls at has_text_fun [OF t0] in auto)
    show "has_text h' s t \<Longrightarrow> has_text h s t"
      by (rule has_text_transfer [of s0]) (use ls t0 has_text_fun [OF at] in auto)
  qed
qed

lemma rehash_keeps_text:
  assumes x0: "live_string h s0 x0" and y: "storage y = storage x0"
  defines "h' \<equiv> heap_put h (unat s0) (P_String y)"
  shows "has_text h' s t \<longleftrightarrow> has_text h s t"
proof -
  from x0 have live: "unat s0 \<in> live_in h Strings" by (simp add: live_string_def)
  have ls: "live_string h' s x \<longleftrightarrow> (if s = s0 then x = y else live_string h s x)" for s x
    unfolding h'_def by (rule live_string_put [OF live])
  show ?thesis
  proof
    show "has_text h s t \<Longrightarrow> has_text h' s t"
      by (erule has_text_storage [rotated]) (metis ls x0 y live_string_fun)
    show "has_text h' s t \<Longrightarrow> has_text h s t"
      by (erule has_text_storage [rotated]) (metis ls x0 y)
  qed
qed

section \<open>Flattening, concatenation and slicing\<close>

lemma storable_flat: "is_flat y \<Longrightarrow> storable h (P_String y)"
  by (auto simp: storable_def trace_string_def is_flat_def flat_storage_cases)

lemma heap_put_string_parts:
  "roots (heap_put h n (P_String y)) = roots h" "interned_strings (heap_put h n (P_String y)) = interned_strings h"
  "length (slots (strings (heap_put h n (P_String y)))) = length (slots (strings h))"
  by (simp_all add: heap_put_def slot_put_def)

lemma flatten_spec:
  assumes safe: "heap_safe h" and t: "has_text h s t"
  obtains h' y where "flatten h s = Some h'" "heap_safe h'" "live_string h' s y" "is_flat y" "flat_units (storage y) = t"
    "\<And>s' t'. has_text h' s' t' \<longleftrightarrow> has_text h s' t'" "roots h' = roots h"
    "\<And>x. live_string h s x \<Longrightarrow> cached_hash y = cached_hash x" "\<And>s' x. s' \<noteq> s \<Longrightarrow> live_string h' s' x \<longleftrightarrow> live_string h s' x"
proof -
  from has_text_node [OF t] obtain x where x: "live_string h s x" by auto
  then have live: "unat s \<in> live_in h (payload_space (P_String y))" for y by (simp add: live_string_def)
  show thesis
  proof (cases "is_flat x")
    case True
    with has_text_cases [OF x t] have "flat_units (storage x) = t"
      by (auto simp: node_text_def is_flat_def flat_storage_cases)
    with True x safe show thesis by (intro that [of h x]) (auto simp: flatten_def dest: live_string_fun)
  next
    case False
    have "seed_text h (Resident s) t" using t by (simp add: seed_text_def)
    then obtain fl where fl: "materialize h (Resident s) = Some fl" "flat_storage fl" "flat_units fl = t"
      by (rule materialize_text)
    define y where "y = x\<lparr>storage := fl, cached_hash := cached_hash x\<rparr>"
    have y: "is_flat y" "flat_units (storage y) = t" "cached_hash y = cached_hash x" using fl by (simp_all add: y_def is_flat_def)
    have "flatten h s = Some (heap_put h (unat s) (P_String y))"
      using x False fl by (simp add: flatten_def modify_string_def y_def)
    moreover have "heap_safe (heap_put h (unat s) (P_String y))"
      by (rule heap_put_safe [OF safe storable_flat [OF y(1)] live])
    moreover have "live_string (heap_put h (unat s) (P_String y)) s' z \<longleftrightarrow> (if s' = s then z = y else live_string h s' z)" for s' z
      using live by (intro live_string_put) simp
    ultimately show thesis
      using y flatten_keeps_text [OF t y(1,2)] live_string_fun [OF x]
      by (intro that [of "heap_put h (unat s) (P_String y)" y]) (auto simp: heap_put_string_parts)
  qed
qed

text \<open>
  C39. Flattening changes how one string is stored and no text. On a string with a text
  \<open>flatten\<close> returns, whatever tree lies below it; afterwards that string is flat and holds its
  text, every string of the heap has the text it had, and the heap is still safe.
\<close>

theorem flatten_exact:
  assumes "heap_safe h" "has_text h s t"
  shows "\<exists>h' y. flatten h s = Some h' \<and> heap_safe h' \<and> live_string h' s y \<and> is_flat y \<and> flat_units (storage y) = t \<and>
    (\<forall>s' t'. has_text h' s' t' \<longleftrightarrow> has_text h s' t')"
  by (rule flatten_spec [OF assms]) blast

text \<open>Pinning the operands around an allocation leaves the registries as they were.\<close>

lemma pinned_alloc:
  "with_pinned_string_roots vs (\<lambda>h. heap_alloc h (P_String x)) h = heap_alloc h (P_String x)"
proof -
  have "fold (\<lambda>v. add_root (js_string v)) vs h = h\<lparr>roots := roots h @ map js_string vs\<rparr>"
    by (induction vs arbitrary: h) (simp_all add: add_root_def)
  then show ?thesis
    by (auto simp: with_pinned_string_roots_def heap_alloc_def option.map_comp comp_def intro!: option.map_cong)
qed

lemma string_alloc_at:
  assumes safe: "heap_safe h" and ok: "storable h (P_String x)" and a: "heap_alloc h (P_String x) = Some (s, h')"
  shows "heap_safe h'" "unat s \<notin> live_in h Strings"
    "live_string h' s' y \<longleftrightarrow> (if s' = s then y = x else live_string h s' y)"
    "has_text h s' t' \<Longrightarrow> has_text h' s' t'" "roots h' = roots h" "interned_strings h' = interned_strings h"
proof -
  have wf: "space_wf v12_str_default (strings h)" using safe by (simp add: heap_safe_def spaces_wf_def)
  from a obtain st where st: "alloc v12_str_default x (strings h) = Some (s, st)" and h': "h' = h\<lparr>strings := st\<rparr>"
    by (auto simp: heap_alloc_def)
  note f = alloc_facts [OF wf st]
  show fresh: "unat s \<notin> live_in h Strings" using heap_alloc_safe(2) [OF safe ok a] by simp
  have ls: "live_string h' s' y \<longleftrightarrow> (if s' = s then y = x else live_string h s' y)" for s' y
    using f(2,3) f(4) [of "unat s'"] by (auto simp: h' live_string_def live_in_def)
  then show "live_string h' s' y \<longleftrightarrow> (if s' = s then y = x else live_string h s' y)" .
  show "heap_safe h'" by (rule heap_alloc_safe(1) [OF safe ok a])
  show "has_text h s' t' \<Longrightarrow> has_text h' s' t'"
    by (erule has_text_storage [rotated]) (metis ls fresh live_string_def)
  show "roots h' = roots h" "interned_strings h' = interned_strings h" by (simp_all add: h')
qed

lemma string_alloc_room:
  assumes safe: "heap_safe h" and room: "length (slots (strings h)) < 2 ^ 32"
  shows "\<exists>s h'. heap_alloc h (P_String x) = Some (s, h')"
proof -
  have wf: "space_wf v12_str_default (strings h)" using safe by (simp add: heap_safe_def spaces_wf_def)
  obtain i st where "alloc_loop v12_str_default x (strings h) = (i, st)" by fastforce
  with alloc_loop_index(1) [OF wf this] room show ?thesis by (auto simp: alloc_def heap_alloc_def)
qed

lemma string_alloc:
  assumes safe: "heap_safe h" and ok: "storable h (P_String x)" and room: "length (slots (strings h)) < 2 ^ 32"
  obtains s h' where "heap_alloc h (P_String x) = Some (s, h')" "heap_safe h'" "unat s \<notin> live_in h Strings"
    "\<And>s' y. live_string h' s' y \<longleftrightarrow> (if s' = s then y = x else live_string h s' y)"
    "\<And>s' t'. has_text h s' t' \<Longrightarrow> has_text h' s' t'" "roots h' = roots h"
proof -
  obtain s h' where a: "heap_alloc h (P_String x) = Some (s, h')" using string_alloc_room [OF safe room] by blast
  from string_alloc_at [OF safe ok a] show thesis by (intro that [OF a])
qed

lemma rope_loop_ends: "has_text h s t \<Longrightarrow> \<exists>f. \<forall>d stack m. rope_loop h ((s, d) # stack) m = rope_loop h stack (f d m)"
proof (induction rule: has_text.induct)
  case (Flat s x)
  then show ?case
    by (intro exI [of _ "\<lambda>d m. if m < d then d else m"])
      (auto simp: rope_loop.simps [of h "_ # _"] is_flat_def flat_storage_cases)
next
  case (Concat s x l r n t1 t2)
  then obtain f g where "\<And>d stack m. rope_loop h ((l, d) # stack) m = rope_loop h stack (f d m)"
    "\<And>d stack m. rope_loop h ((r, d) # stack) m = rope_loop h stack (g d m)" by metis
  with Concat(1,2) show ?case
    by (intro exI [of _ "\<lambda>d m. f (d + 1) (g (d + 1) (if m < d then d else m))"])
      (simp add: rope_loop.simps [of h "(s, _) # _"] Let_def)
next
  case (Slice s x p start n tp)
  then obtain f where "\<And>d stack m. rope_loop h ((p, d) # stack) m = rope_loop h stack (f d m)" by metis
  with Slice(1,2) show ?case
    by (intro exI [of _ "\<lambda>d m. f (d + 1) (if m < d then d else m)"])
      (simp add: rope_loop.simps [of h "(s, _) # _"] Let_def)
qed

lemma rope_depth_ends: "has_text h s t \<Longrightarrow> \<exists>d. rope_depth h s = Some d"
  using rope_loop_ends [of h s t] by (auto simp: rope_depth_def rope_loop.simps [of h "[]"])

lemma rope_depth_flat: "live_string h s x \<Longrightarrow> is_flat x \<Longrightarrow> rope_depth h s = Some 1"
  by (auto simp: rope_depth_def rope_loop.simps is_flat_def flat_storage_cases)

lemma has_text_live: "has_text h s t \<Longrightarrow> unat s \<in> live_in h Strings"
  using has_text_node [of h s t] by (auto simp: live_string_def)

text \<open>The node a concatenation allocates, before it decides whether to flatten it.\<close>

lemma concat_node:
  assumes safe: "heap_safe h" and l: "has_text h l t1" and r: "has_text h r t2"
    and room: "length (slots (strings h)) < 2 ^ 32" and len: "length t1 + length t2 < 2 ^ 32"
  defines "n \<equiv> word_of_nat (length t1) + word_of_nat (length t2) :: u32"
  obtains s h' where
    "heap_alloc h (P_String \<lparr>storage = Cons_str l r n, cached_hash = None\<rparr>) = Some (s, h')"
    "heap_safe h'" "unat s \<notin> live_in h Strings" "has_text h' s (t1 @ t2)"
    "\<And>s' t'. has_text h s' t' \<Longrightarrow> has_text h' s' t'" "roots h' = roots h"
proof -
  let ?x = "\<lparr>storage = Cons_str l r n, cached_hash = None\<rparr>"
  have n: "unat n = length t1 + length t2"
    using len unat_add_small [of "word_of_nat (length t1)" "word_of_nat (length t2)"]
    by (simp add: n_def unat_of_nat_small)
  have "storable h (P_String ?x)"
    using has_text_live [OF l] has_text_live [OF r] by (simp add: storable_def trace_string_def trace_handle_def)
  then obtain s h' where
    a: "heap_alloc h (P_String ?x) = Some (s, h')" "heap_safe h'" "unat s \<notin> live_in h Strings"
    "\<And>s' y. live_string h' s' y \<longleftrightarrow> (if s' = s then y = ?x else live_string h s' y)"
    "\<And>s' t'. has_text h s' t' \<Longrightarrow> has_text h' s' t'" "roots h' = roots h"
    by (rule string_alloc [OF safe _ room]) (rule that, assumption+)
  have "has_text h' s (t1 @ t2)"
    using a(4) [of s ?x] a(5) [OF l] a(5) [OF r] n by (intro has_text.Concat [of h' s ?x l r n]) simp_all
  with a that show thesis by blast
qed

text \<open>
  C23. Concatenation. Two strings with texts are concatenated into a fresh string whose text is
  the first text followed by the second, no other text changes, the registries and the heap's
  safety are kept, and the result's tree is at most \<open>ROPE_MAX_DEPTH\<close> deep; a combined length
  beyond 32 bits is the only panic.
\<close>

theorem concat_exact:
  assumes safe: "heap_safe h" and l: "has_text h l t1" and r: "has_text h r t2"
    and room: "length (slots (strings h)) < 2 ^ 32"
  shows "if length t1 + length t2 < 2 ^ 32
    then \<exists>s h' d. concat_str h l r = Some (s, h') \<and> heap_safe h' \<and> unat s \<notin> live_in h Strings \<and>
      has_text h' s (t1 @ t2) \<and> (\<forall>s' t'. has_text h s' t' \<longrightarrow> has_text h' s' t') \<and> roots h' = roots h \<and>
      rope_depth h' s = Some d \<and> d \<le> ROPE_MAX_DEPTH
    else concat_str h l r = None"
proof (cases "length t1 + length t2 < 2 ^ 32")
  case True
  let ?n = "word_of_nat (length t1) + word_of_nat (length t2) :: u32"
  obtain s h1 where
    a: "heap_alloc h (P_String \<lparr>storage = Cons_str l r ?n, cached_hash = None\<rparr>) = Some (s, h1)"
    "heap_safe h1" "unat s \<notin> live_in h Strings" "has_text h1 s (t1 @ t2)"
    "\<And>s' t'. has_text h s' t' \<Longrightarrow> has_text h1 s' t'" "roots h1 = roots h"
    by (rule concat_node [OF safe l r room True]) (rule that, assumption+)
  obtain d where d: "rope_depth h1 s = Some d" using rope_depth_ends [OF a(4)] by blast
  have step: "concat_str h l r =
      (if ?n \<le> word_of_nat CONCAT_EAGER_FLATTEN_MAX_UNITS \<or> ROPE_MAX_DEPTH < d
       then map_option (Pair s) (flatten h1 s) else Some (s, h1))"
    using True has_text_node [OF l] has_text_node [OF r] a(1) d
    by (simp add: concat_str_def has_text_len [OF l] has_text_len [OF r] pinned_alloc unat_of_nat_small)
  from flatten_spec [OF a(2,4)] obtain h2 y where
    f: "flatten h1 s = Some h2" "heap_safe h2" "live_string h2 s y" "is_flat y"
      "\<And>s' t'. has_text h2 s' t' \<longleftrightarrow> has_text h1 s' t'" "roots h2 = roots h1" by metis
  show ?thesis
  proof (cases "?n \<le> word_of_nat CONCAT_EAGER_FLATTEN_MAX_UNITS \<or> ROPE_MAX_DEPTH < d")
    case True
    with step f a \<open>length t1 + length t2 < 2 ^ 32\<close> rope_depth_flat [OF f(3,4)] show ?thesis
      by (auto simp: ROPE_MAX_DEPTH_def)
  next
    case False
    with step d a \<open>length t1 + length t2 < 2 ^ 32\<close> show ?thesis by (auto simp: not_less)
  qed
next
  case False
  have "unat (word_of_nat (length t1) :: u32) = length t1" "unat (word_of_nat (length t2) :: u32) = length t2"
    using has_text_node [OF l] has_text_node [OF r] by (auto simp: unat_of_nat_small)
  with False show ?thesis
    by (simp add: concat_str_def has_text_len [OF l] has_text_len [OF r])
qed

text \<open>
  Slicing. A window inside a string's text yields a fresh string with exactly that
  part of the text, and changes no other text; a window that leaves the text yields \<open>None\<close> and
  changes nothing.
\<close>

theorem slice_exact:
  assumes safe: "heap_safe h" and t: "has_text h p t" and room: "length (slots (strings h)) < 2 ^ 32"
  shows "if unat start + unat n \<le> length t
    then \<exists>s h'. slice_string h p start n = Some (Some s, h') \<and> heap_safe h' \<and> unat s \<notin> live_in h Strings \<and>
      has_text h' s (take (unat n) (drop (unat start) t)) \<and> (\<forall>s' t'. has_text h s' t' \<longrightarrow> has_text h' s' t') \<and>
      roots h' = roots h
    else slice_string h p start n = Some (None, h)"
proof -
  from has_text_node [OF t] have len: "length t < 2 ^ 32" by auto
  have out: "word_of_nat (length t) < start + n \<longleftrightarrow> length t < unat start + unat n"
    if "unat start + unat n < 2 ^ 32"
    using len unat_add_small [OF that] by (simp add: unat_order unat_of_nat_small)
  show ?thesis
  proof (cases "unat start + unat n \<le> length t")
    case True
    let ?x = "\<lparr>storage = Sliced p start n, cached_hash = None\<rparr>"
    have "storable h (P_String ?x)"
      using has_text_live [OF t] by (simp add: storable_def trace_string_def trace_handle_def)
    then obtain s h' where
      a: "heap_alloc h (P_String ?x) = Some (s, h')" "heap_safe h'" "unat s \<notin> live_in h Strings"
      "\<And>s' y. live_string h' s' y \<longleftrightarrow> (if s' = s then y = ?x else live_string h s' y)"
      "\<And>s' t'. has_text h s' t' \<Longrightarrow> has_text h' s' t'" "roots h' = roots h"
      by (rule string_alloc [OF safe _ room]) (rule that, assumption+)
    have "has_text h' s (take (unat n) (drop (unat start) t))"
      using a(4) [of s ?x] a(5) [OF t] True by (intro has_text.Slice [of h' s ?x p start n t]) simp_all
    moreover have "slice_string h p start n = Some (Some s, h')"
      using True len out a(1) by (simp add: slice_string_def has_text_len [OF t] pinned_alloc)
    ultimately show ?thesis using True a by auto
  next
    case False
    with out show ?thesis by (simp add: slice_string_def has_text_len [OF t])
  qed
qed

section \<open>Equality and hashing\<close>

text \<open>
  Textual equality. On two strings with texts, \<open>strings_equal\<close> returns, and says whether
  the texts are the same, whatever the representations: flat, mixed encodings, ropes or slices.
\<close>

theorem strings_equal_exact:
  assumes a: "has_text h a ta" and b: "has_text h b tb"
  shows "strings_equal h a b = Some (ta = tb)"
proof -
  obtain xa xb where x: "live_string h a xa" "live_string h b xb"
    and len: "str_len xa = length ta" "str_len xb = length tb"
    using has_text_node [OF a] has_text_node [OF b] by blast
  have fl: "flat_units (storage x) = t" if "live_string h s x" "has_text h s t" "is_flat x" for s x t
    using has_text_cases [OF that(1,2)] that(3) by (auto simp: node_text_def is_flat_def flat_storage_cases)
  have "seed_text h (Resident a) ta" "seed_text h (Resident b) tb" using a b by (simp_all add: seed_text_def)
  then obtain fa fb where m: "materialize h (Resident a) = Some fa" "flat_storage fa" "flat_units fa = ta"
    "materialize h (Resident b) = Some fb" "flat_storage fb" "flat_units fb = tb"
    using materialize_text by metis
  show ?thesis
  proof (cases "a = b")
    case True
    with has_text_fun [OF a] b show ?thesis by (simp add: strings_equal_def)
  next
    case False
    have "length ta \<noteq> length tb \<Longrightarrow> ta \<noteq> tb" by auto
    with False x len m fl [OF x(1) a] fl [OF x(2) b] show ?thesis
      by (simp add: strings_equal_def flat_units_equal_iff is_flat_def)
  qed
qed

text \<open>Cached hashes are hashes of the text.\<close>

definition hashes_ok :: "heap \<Rightarrow> bool" where
  "hashes_ok h \<longleftrightarrow> (\<forall>s x t v. live_string h s x \<longrightarrow> has_text h s t \<longrightarrow> cached_hash x = Some v \<longrightarrow> v = text_hash t)"

text \<open>
  Hashing. The content hash of a string with a text is a function of the text alone, so
  equal texts hash equally across encodings and trees; computing it caches it, changes no text
  and keeps every cached hash right, and so does flattening.
\<close>

theorem string_hash_exact:
  assumes safe: "heap_safe h" and ok: "hashes_ok h" and t: "has_text h s t"
  shows "(\<exists>h'. string_hash h s = Some (text_hash t, h') \<and> heap_safe h' \<and> hashes_ok h' \<and>
      (\<forall>s' t'. has_text h' s' t' \<longleftrightarrow> has_text h s' t')) \<and>
    (\<exists>h'. flatten h s = Some h' \<and> hashes_ok h')"
proof
  from has_text_node [OF t] obtain x where x: "live_string h s x" by auto
  have c: "content_hash h (Resident s) = Some (text_hash t)" using t by (intro content_hash_text) (simp add: seed_text_def)
  let ?y = "x\<lparr>cached_hash := Some (text_hash t)\<rparr>"
  let ?h = "heap_put h (unat s) (P_String ?y)"
  have live: "unat s \<in> live_in h Strings" using x by (simp add: live_string_def)
  have keep: "has_text ?h s' t' \<longleftrightarrow> has_text h s' t'" for s' t'
    by (rule rehash_keeps_text [OF x]) simp
  have "refs_live h (slot_refs h Strings (unat s))" using safe live by (simp add: heap_safe_def)
  then have "storable h (P_String ?y)"
    using x by (simp add: storable_def slot_refs_payload payload_at_def live_string_def trace_string_def)
  then have "heap_safe ?h" using safe live by (intro heap_put_safe) simp_all
  moreover have "hashes_ok ?h"
    using ok has_text_fun [OF t] unfolding hashes_ok_def keep live_string_put [OF live] by auto
  ultimately show "\<exists>h'. string_hash h s = Some (text_hash t, h') \<and> heap_safe h' \<and> hashes_ok h' \<and>
      (\<forall>s' t'. has_text h' s' t' \<longleftrightarrow> has_text h s' t')"
    using x c safe ok t keep by (cases "cached_hash x") (auto simp: string_hash_def modify_string_def hashes_ok_def)
  from flatten_spec [OF safe t] obtain h' y where
    f: "flatten h s = Some h'" "live_string h' s y" "\<And>s' t'. has_text h' s' t' \<longleftrightarrow> has_text h s' t'"
      "\<And>x. live_string h s x \<Longrightarrow> cached_hash y = cached_hash x" "\<And>s' x. s' \<noteq> s \<Longrightarrow> live_string h' s' x \<longleftrightarrow> live_string h s' x"
    by metis
  have "hashes_ok h'"
    unfolding hashes_ok_def
  proof (intro allI impI)
    fix s' x' t' v
    assume h: "live_string h' s' x'" "has_text h' s' t'" "cached_hash x' = Some v"
    show "v = text_hash t'"
    proof (cases "s' = s")
      case True
      with h f(2) have "x' = y" by (simp add: live_string_fun)
      with h f(3,4) x ok True show ?thesis by (auto simp: hashes_ok_def)
    next
      case False
      with h f(3,5) ok show ?thesis by (auto simp: hashes_ok_def)
    qed
  qed
  with f(1) show "\<exists>h'. flatten h s = Some h' \<and> hashes_ok h'" by blast
qed

section \<open>Examples\<close>

text \<open>Two leaves of different encodings in a heap, and what follows for them.\<close>

definition demo_strings :: heap where
  "demo_strings = heap_new\<lparr>strings := \<lparr>slots = [latin1 [104, 105], utf16 [0xE9]], free = [], alive = [True, True],
     released = [False, False], sweep_cursor = 1, pending_dead = 0\<rparr>\<rparr>"

lemma demo_strings_safe: "heap_safe demo_strings"
proof -
  let ?h = "heap_new\<lparr>strings := \<lparr>slots = [latin1 [104, 105]], free = [], alive = [True],
     released = [False], sweep_cursor = 0, pending_dead = 0\<rparr>\<rparr>"
  have 1: "heap_alloc heap_new (P_String (latin1 [104, 105])) = Some (0, ?h)"
    by (simp add: heap_alloc_def heap_new_def alloc_def space_new_def alloc_loop.simps sweep_step_def Let_def)
  have 2: "heap_alloc ?h (P_String (utf16 [0xE9])) = Some (1, demo_strings)"
    by (simp add: demo_strings_def heap_alloc_def heap_new_def alloc_def space_new_def alloc_loop.simps
        sweep_step_def sweep_scan.simps Let_def)
  have "is_flat (latin1 [104, 105])" "is_flat (utf16 [0xE9])" by (simp_all add: is_flat_def latin1_def utf16_def)
  then show ?thesis
    using string_alloc_at(1) [OF heap_new_safe storable_flat 1] string_alloc_at(1) [OF _ storable_flat 2] by blast
qed

lemma demo_texts: "has_text demo_strings 0 [104, 105]" "has_text demo_strings 1 [0xE9]"
proof -
  have "live_string demo_strings 0 (latin1 [104, 105])" "live_string demo_strings 1 (utf16 [0xE9])"
    by (simp_all add: live_string_def live_in_def demo_strings_def live_def)
  from has_text.Flat [OF this(1)] has_text.Flat [OF this(2)]
  show "has_text demo_strings 0 [104, 105]" "has_text demo_strings 1 [0xE9]"
    by (simp_all add: latin1_def utf16_def is_flat_def str_len_def)
qed

lemma demo_room: "length (slots (strings demo_strings)) < 2 ^ 32"
  by (simp add: demo_strings_def)

lemma flatten_exact_witness: "\<exists>h'. flatten demo_strings 0 = Some h' \<and> has_text h' 0 [104, 105]"
  using flatten_exact [OF demo_strings_safe demo_texts(1)] demo_texts(1) by blast

lemma concat_exact_witness:
  "\<exists>s h' d. concat_str demo_strings 0 1 = Some (s, h') \<and> has_text h' s [104, 105, 0xE9] \<and> rope_depth h' s = Some d \<and> d \<le> 64"
  using concat_exact [OF demo_strings_safe demo_texts demo_room] by (auto simp: ROPE_MAX_DEPTH_def)

lemma slice_exact_witness:
  "(\<exists>s h'. slice_string demo_strings 0 1 1 = Some (Some s, h') \<and> has_text h' s [105])
    \<and> slice_string demo_strings 0 1 2 = Some (None, demo_strings)"
  using slice_exact [OF demo_strings_safe demo_texts(1) demo_room, of 1 1]
    slice_exact [OF demo_strings_safe demo_texts(1) demo_room, of 1 2] by auto

lemma strings_equal_exact_witness: "strings_equal demo_strings 0 1 = Some False"
  using strings_equal_exact [OF demo_texts] by simp

lemma string_hash_exact_witness: "\<exists>h'. string_hash demo_strings 0 = Some (text_hash [104, 105], h')"
proof -
  have "cached_hash x = None" if "live_string demo_strings s x" for s x
    using that by (auto simp: live_string_def live_in_def live_def demo_strings_def latin1_def utf16_def less_Suc_eq)
  then have "hashes_ok demo_strings" by (simp add: hashes_ok_def)
  from string_hash_exact [OF demo_strings_safe this demo_texts(1)] show ?thesis by blast
qed

end
