(* ===== verification/Interning.thy ===== *)
theory Interning
  imports Strings ConstPool
begin

text \<open>
  The canonical string table (\<open>Heap::intern_string\<close>, \<open>Heap::intern_text\<close>): lookup by content
  hash, the table as a one-to-one map from texts to handles, its survival of collections, and
  the identity of property names it gives.
\<close>

section \<open>Operations\<close>

text \<open>The first candidate of a bucket that holds the text.\<close>

fun find_canonical :: "heap \<Rightarrow> str_storage \<Rightarrow> handle list \<Rightarrow> handle option option" where
  "find_canonical h fl [] = Some None"
| "find_canonical h fl (c # cs) = Option.bind (get_string h c) (\<lambda>x.
     if flat_units_equal fl (storage x) then Some (Some c) else find_canonical h fl cs)"

definition bucket :: "heap \<Rightarrow> u32 \<Rightarrow> handle list" where
  "bucket h hash = (case map_of (interned_strings h) hash of Some cs \<Rightarrow> cs | None \<Rightarrow> [])"

definition intern_string :: "heap \<Rightarrow> v12_str \<Rightarrow> (handle \<times> heap) option" where
  "intern_string h text =
     Option.bind (materialize h (Owned text)) (\<lambda>fl. Option.bind (hash_flat fl) (\<lambda>hash.
     Option.bind (find_canonical h fl (bucket h hash)) (\<lambda>found. case found of
       Some existing \<Rightarrow> Some (existing, h)
     | None \<Rightarrow> map_option (\<lambda>(s, h).
         (s, h\<lparr>interned_strings := AList.update hash (bucket h hash @ [s]) (interned_strings h)\<rparr>))
         (heap_alloc h (P_String \<lparr>storage = fl, cached_hash = Some hash\<rparr>)))))"

text \<open>A \<open>&str\<close> is its list of Unicode scalar values, which \<open>encode_utf16\<close> turns into units.\<close>

definition scalar_value :: "nat \<Rightarrow> bool" where
  "scalar_value c \<longleftrightarrow> c < 0xD800 \<or> (0xE000 \<le> c \<and> c < 0x110000)"

definition encode_char :: "nat \<Rightarrow> u16 list" where
  "encode_char c =
     (if c < 0x10000 then [word_of_nat c]
      else [word_of_nat (0xD800 + (c - 0x10000) div 0x400), word_of_nat (0xDC00 + (c - 0x10000) mod 0x400)])"

definition encode_utf16 :: "nat list \<Rightarrow> u16 list" where
  "encode_utf16 text = concat (map encode_char text)"

definition intern_text :: "heap \<Rightarrow> nat list \<Rightarrow> (handle \<times> heap) option" where
  "intern_text h text =
     (if \<forall>c \<in> set text. c < 128 then intern_string h (latin1 (map word_of_nat text))
      else intern_string h (utf16 (encode_utf16 text)))"

section \<open>The table\<close>

definition interned :: "heap \<Rightarrow> handle set" where
  "interned h = (\<Union>(hash, cs) \<in> set (interned_strings h). set cs)"

text \<open>\<open>canonical h s t\<close>: the table's instance of the text \<open>t\<close> is \<open>s\<close>.\<close>

definition canonical :: "heap \<Rightarrow> handle \<Rightarrow> u16 list \<Rightarrow> bool" where
  "canonical h s t \<longleftrightarrow> s \<in> interned h \<and> (\<exists>x. live_string h s x \<and> flat_units (storage x) = t)"

text \<open>
  The table in order: one bucket per hash, every member a flat live string filed under the hash
  of its text with that hash cached, and one member per text.
\<close>

definition interned_ok :: "heap \<Rightarrow> bool" where
  "interned_ok h \<longleftrightarrow> distinct (map fst (interned_strings h)) \<and>
     (\<forall>(hash, cs) \<in> set (interned_strings h). \<forall>c \<in> set cs. \<exists>x. live_string h c x \<and> is_flat x \<and>
        cached_hash x = Some hash \<and> hash = text_hash (flat_units (storage x))) \<and>
     (\<forall>c c' t. canonical h c t \<longrightarrow> canonical h c' t \<longrightarrow> c = c')"

lemma in_bucket: "c \<in> set (bucket h v) \<longleftrightarrow> (\<exists>cs. map_of (interned_strings h) v = Some cs \<and> c \<in> set cs)"
  by (cases "map_of (interned_strings h) v") (simp_all add: bucket_def)

lemma interned_bucket:
  assumes "distinct (map fst (interned_strings h))"
  shows "s \<in> interned h \<longleftrightarrow> (\<exists>hash. s \<in> set (bucket h hash))"
proof
  assume "s \<in> interned h"
  then obtain hash cs where "(hash, cs) \<in> set (interned_strings h)" "s \<in> set cs" by (auto simp: interned_def)
  moreover from this(1) assms have "map_of (interned_strings h) hash = Some cs" by simp
  ultimately show "\<exists>hash. s \<in> set (bucket h hash)" by (auto simp: in_bucket)
qed (auto simp: interned_def in_bucket dest!: map_of_SomeD)

lemma bucket_member:
  assumes ok: "interned_ok h" and c: "c \<in> set (bucket h hash)"
  obtains x where "live_string h c x" "is_flat x" "cached_hash x = Some hash" "hash = text_hash (flat_units (storage x))"
    "canonical h c (flat_units (storage x))"
proof -
  from c obtain cs where "(hash, cs) \<in> set (interned_strings h)" "c \<in> set cs"
    by (auto simp: in_bucket dest!: map_of_SomeD)
  with ok obtain x where x: "live_string h c x" "is_flat x" "cached_hash x = Some hash" "hash = text_hash (flat_units (storage x))"
    by (fastforce simp: interned_ok_def)
  moreover have "c \<in> interned h" using \<open>(hash, cs) \<in> _\<close> \<open>c \<in> set cs\<close> by (auto simp: interned_def)
  ultimately show thesis by (intro that) (auto simp: canonical_def)
qed

lemma find_canonical_eq:
  "(\<And>c. c \<in> set cs \<Longrightarrow> \<exists>x. live_string h c x \<and> is_flat x) \<Longrightarrow> flat_storage fl \<Longrightarrow>
   find_canonical h fl cs = Some (find (\<lambda>c. flat_units (storage (slots (strings h) ! unat c)) = flat_units fl) cs)"
proof (induction cs)
  case (Cons c cs)
  then obtain x where x: "live_string h c x" "is_flat x" by auto
  then have "storage (slots (strings h) ! unat c) = storage x" by (simp add: live_string_def)
  with Cons x show ?case by (auto simp: flat_units_equal_iff is_flat_def)
qed simp

lemma find_canonical_bucket:
  assumes ok: "interned_ok h" and fl: "flat_storage fl"
  obtains (Hit) c where "find_canonical h fl (bucket h (text_hash (flat_units fl))) = Some (Some c)"
      "canonical h c (flat_units fl)"
  | (Miss) "find_canonical h fl (bucket h (text_hash (flat_units fl))) = Some None" "\<And>c. \<not> canonical h c (flat_units fl)"
proof -
  let ?cs = "bucket h (text_hash (flat_units fl))" and ?P = "\<lambda>c. flat_units (storage (slots (strings h) ! unat c)) = flat_units fl"
  have e: "find_canonical h fl ?cs = Some (find ?P ?cs)"
    by (rule find_canonical_eq [OF _ fl]) (blast elim: bucket_member [OF ok])
  show thesis
  proof (cases "find ?P ?cs")
    case None
    have "c \<in> set ?cs" if c: "canonical h c (flat_units fl)" for c
    proof -
      have "distinct (map fst (interned_strings h))" using ok by (simp add: interned_ok_def)
      with c obtain hash x where hash: "c \<in> set (bucket h hash)" "live_string h c x" "flat_units (storage x) = flat_units fl"
        by (auto simp: canonical_def interned_bucket)
      from bucket_member [OF ok hash(1)] hash(2,3) have "hash = text_hash (flat_units fl)"
        by (metis live_string_fun)
      with hash(1) show ?thesis by simp
    qed
    with None have "\<not> canonical h c (flat_units fl)" for c
      by (auto simp: find_None_iff canonical_def live_string_def)
    with e None show thesis by (intro Miss) simp_all
  next
    case (Some c)
    then have c: "c \<in> set ?cs" "?P c" by (auto simp: find_Some_iff)
    with bucket_member [OF ok c(1)] have "canonical h c (flat_units fl)" by (metis live_string_def)
    with e Some show thesis by (intro Hit) simp_all
  qed
qed

lemma set_AList_update: "set (AList.update k v al) \<subseteq> insert (k, v) (set al)"
  by (induction al) auto

lemma map_fst_AList_update: "distinct (map fst al) \<Longrightarrow> distinct (map fst (AList.update k v al))"
  by (rule AList.distinct_update)

lemma interned_refs: "set (concat (map (\<lambda>(_, b). map (Pair Strings) b) (interned_strings h))) = Pair Strings ` interned h"
  by (force simp: interned_def)

lemma root_refs_interned:
  "set (root_refs (h\<lparr>interned_strings := al\<rparr>)) \<subseteq> Pair Strings ` interned (h\<lparr>interned_strings := al\<rparr>) \<union> set (root_refs h)"
  unfolding root_refs_def set_append interned_refs by simp blast

lemma interned_rooted: "Pair Strings ` interned h \<subseteq> set (root_refs h)"
  unfolding root_refs_def set_append interned_refs by blast

text \<open>Filing a fresh member.\<close>

lemma intern_fresh:
  assumes safe: "heap_safe h" and ok: "interned_ok h" and fl: "flat_storage fl"
    and miss: "\<And>c. \<not> canonical h c (flat_units fl)" and hash: "hash = text_hash (flat_units fl)"
    and alloc: "heap_alloc h (P_String \<lparr>storage = fl, cached_hash = Some hash\<rparr>) = Some (s, h')"
    and h2_def: "h2 = h'\<lparr>interned_strings := AList.update hash (bucket h' hash @ [s]) (interned_strings h')\<rparr>"
  shows "heap_safe h2" "interned_ok h2" "canonical h2 c u \<longleftrightarrow> canonical h c u \<or> (c, u) = (s, flat_units fl)"
    "has_text h s' t' \<Longrightarrow> has_text h2 s' t'" "bucket h' = bucket h"
proof -
  let ?x = "\<lparr>storage = fl, cached_hash = Some hash\<rparr>"
  have x: "is_flat ?x" using fl by (simp add: is_flat_def)
  note a = alloc string_alloc_at [OF safe storable_flat [OF x] alloc]
  have dist: "distinct (map fst (interned_strings h))" using ok by (simp add: interned_ok_def)
  show bk: "bucket h' = bucket h" by (simp add: fun_eq_iff bucket_def a(7))
  have bk2: "set (bucket h2 v) = (if v = hash then insert s (set (bucket h v)) else set (bucket h v))" for v
    by (rule set_eqI) (auto simp: in_bucket h2_def AList.update_conv' a(7) bk)
  have dist2: "distinct (map fst (interned_strings h2))" by (simp add: h2_def a(7) dist map_fst_AList_update)
  have mem: "c \<in> interned h2 \<longleftrightarrow> c \<in> interned h \<or> c = s" for c
    by (auto simp: interned_bucket dist dist2 bk2)
  have ls: "live_string h2 = live_string h'" by (simp add: h2_def live_string_def live_in_def fun_eq_iff)
  have sn: "s \<notin> interned h"
  proof
    assume "s \<in> interned h"
    then obtain v where "s \<in> set (bucket h v)" by (auto simp: interned_bucket dist)
    then show False using a(3) by (auto elim!: bucket_member [OF ok] simp: live_string_def)
  qed
  have can: "canonical h2 c u \<longleftrightarrow> canonical h c u \<or> (c, u) = (s, flat_units fl)" for c u
    using sn by (auto simp: canonical_def mem ls a(4))
  have texts: "has_text h2 s' t'" if "has_text h s' t'" for s' t'
    using a(5) [OF that] by (rule has_text_storage [rotated]) (simp add: ls, blast)
  have mk: "\<exists>y. live_string h2 c y \<and> is_flat y \<and> cached_hash y = Some v \<and> v = text_hash (flat_units (storage y))"
    if "c \<in> set (bucket h2 v)" for c v
  proof (cases "c = s")
    case True
    with that bk2 sn have "v = hash" by (auto simp: interned_bucket dist split: if_splits)
    with True x show ?thesis by (auto simp: ls a(4) hash)
  next
    case False
    with that bk2 have "c \<in> set (bucket h v)" by (auto split: if_splits)
    with False show ?thesis by (auto elim!: bucket_member [OF ok] simp: ls a(4))
  qed
  have ok2: "interned_ok h2"
    unfolding interned_ok_def
  proof (intro conjI dist2)
    show "\<forall>(v, cs) \<in> set (interned_strings h2). \<forall>c \<in> set cs. \<exists>x. live_string h2 c x \<and> is_flat x \<and>
        cached_hash x = Some v \<and> v = text_hash (flat_units (storage x))"
      using mk dist2 by (fastforce simp: bucket_def)
    show "\<forall>c c' t. canonical h2 c t \<longrightarrow> canonical h2 c' t \<longrightarrow> c = c'"
      using ok miss by (auto simp: can interned_ok_def)
  qed
  have "set (root_refs h2) \<subseteq> Pair Strings ` interned h2 \<union> set (root_refs h')"
    unfolding h2_def by (rule root_refs_interned)
  also have "interned h2 \<subseteq> insert s (interned h')" using mem by (auto simp: interned_def a(7))
  finally have "set (root_refs h2) \<subseteq> insert (Strings, s) (set (root_refs h'))"
    using interned_rooted [of h'] by blast
  then have sub: "set (root_refs h2) \<subseteq> set ((Strings, s) # root_refs h')" by simp
  have "unat s \<in> live_in h' Strings" using a(4) [of s ?x] by (simp add: live_string_def)
  then have "refs_live h' ((Strings, s) # root_refs h')" using refs_live_root [OF a(2)] by simp
  from refs_live_mono [OF this sub] show "heap_safe h2"
    by (rule heap_safe_roots [OF a(2), rotated 5]) (simp_all add: h2_def)
  show "interned_ok h2" "canonical h2 c u \<longleftrightarrow> canonical h c u \<or> (c, u) = (s, flat_units fl)"
    "has_text h s' t' \<Longrightarrow> has_text h2 s' t'" by (fact ok2 can texts)+
qed

lemma intern_done:
  assumes safe: "heap_safe h" and ok: "interned_ok h" and t: "node_text h v t"
    and run: "intern_string h v = Some (s, h')"
  shows "heap_safe h'" "interned_ok h'" "canonical h' c u \<longleftrightarrow> canonical h c u \<or> (c, u) = (s, t)"
    "canonical h c t \<Longrightarrow> h' = h" "has_text h s' t' \<Longrightarrow> has_text h' s' t'"
proof -
  have "seed_text h (Owned v) t" using t by (simp add: seed_text_def)
  then obtain fl where fl: "materialize h (Owned v) = Some fl" "flat_storage fl" "flat_units fl = t"
    by (rule materialize_text)
  note step = intern_string_def fl(1) hash_flat_units [OF fl(2)]
  have "heap_safe h' \<and> interned_ok h' \<and> (\<forall>c u. canonical h' c u \<longleftrightarrow> canonical h c u \<or> (c, u) = (s, t)) \<and>
    (\<forall>c. canonical h c t \<longrightarrow> h' = h) \<and> (\<forall>s' t'. has_text h s' t' \<longrightarrow> has_text h' s' t')"
  proof (cases rule: find_canonical_bucket [OF ok fl(2)])
    case (1 c)
    with run have "s = c" "h' = h" by (auto simp: step)
    with 1 safe ok fl(3) show ?thesis by auto
  next
    case 2
    with run obtain h1 where a: "heap_alloc h (P_String \<lparr>storage = fl, cached_hash = Some (text_hash t)\<rparr>) = Some (s, h1)"
      and h': "h' = h1\<lparr>interned_strings := AList.update (text_hash t) (bucket h1 (text_hash t) @ [s]) (interned_strings h1)\<rparr>"
      by (auto simp: step fl(3))
    from intern_fresh [OF safe ok fl(2) 2(2) _ a h'] 2(2) fl(3) show ?thesis by auto
  qed
  then show "heap_safe h'" "interned_ok h'" "canonical h' c u \<longleftrightarrow> canonical h c u \<or> (c, u) = (s, t)"
    "canonical h c t \<Longrightarrow> h' = h" "has_text h s' t' \<Longrightarrow> has_text h' s' t'" by blast+
qed

lemma intern_returns:
  assumes safe: "heap_safe h" and ok: "interned_ok h" and t: "node_text h v t"
    and room: "length (slots (strings h)) < 2 ^ 32 \<or> canonical h c t"
  shows "\<exists>s h'. intern_string h v = Some (s, h')"
proof -
  have "seed_text h (Owned v) t" using t by (simp add: seed_text_def)
  then obtain fl where fl: "materialize h (Owned v) = Some fl" "flat_storage fl" "flat_units fl = t"
    by (rule materialize_text)
  note step = intern_string_def fl(1) hash_flat_units [OF fl(2)]
  show ?thesis
  proof (cases rule: find_canonical_bucket [OF ok fl(2)])
    case 2
    with room fl(3) string_alloc_room [OF safe] show ?thesis by (auto simp: step fl(3))
  qed (simp add: step)
qed

text \<open>
  Interning. The table is a one-to-one map from texts to handles, and interning a value,
  flat or composite, looks its text up in that map: a known text yields the one handle it has
  and changes nothing, a new text yields a handle for it and leaves every other entry and
  every text of the heap alone.
\<close>

theorem intern_exact:
  assumes "heap_safe h" "interned_ok h" "node_text h v t" "length (slots (strings h)) < 2 ^ 32"
  shows "\<exists>s h'. intern_string h v = Some (s, h') \<and> heap_safe h' \<and> interned_ok h' \<and>
    (\<forall>c u. canonical h' c u \<longleftrightarrow> canonical h c u \<or> (c, u) = (s, t)) \<and> ((\<exists>c. canonical h c t) \<longrightarrow> h' = h) \<and>
    (\<forall>s' t'. has_text h s' t' \<longrightarrow> has_text h' s' t')"
proof -
  from intern_returns [OF assms(1-3)] assms(4) obtain s h' where i: "intern_string h v = Some (s, h')" by blast
  from intern_done [OF assms(1-3) i] i show ?thesis by (intro exI [of _ s] exI [of _ h']) blast
qed

section \<open>Strings across a collection\<close>

lemma string_refs: "live_string h s x \<Longrightarrow> slot_refs h Strings (unat s) = trace_string x"
  by (simp add: slot_refs_payload payload_at_def live_string_def)

lemma live_string_len: "live_string h s x \<Longrightarrow> unat s < space_len h Strings"
  using live_in_len [of "unat s" h Strings] by (simp add: live_string_def)

lemma reachable_text:
  assumes keep: "\<And>s x. (Strings, unat s) \<in> reachable h \<Longrightarrow> live_string h s x \<Longrightarrow> live_string h' s x"
  shows "has_text h s t \<Longrightarrow> (Strings, unat s) \<in> reachable h \<Longrightarrow> has_text h' s t"
proof (induction rule: has_text.induct)
  case (Flat s x)
  with keep show ?case by (blast intro: has_text.Flat)
next
  case (Concat s x l r n t1 t2)
  have "set (slot_refs h Strings (unat s)) = {(Strings, l), (Strings, r)}"
    using Concat(2) by (auto simp: string_refs [OF Concat(1)] trace_string_def trace_handle_def)
  then have "(Strings, unat l) \<in> reachable h" "(Strings, unat r) \<in> reachable h"
    using Concat(8) live_in_len [OF has_text_live [OF Concat(3)]] live_in_len [OF has_text_live [OF Concat(4)]]
    by (auto intro: reachable.step [OF Concat(8)])
  with Concat keep [OF Concat(8,1)] show ?case by (intro has_text.Concat) simp_all
next
  case (Slice s x p start n tp)
  have "set (slot_refs h Strings (unat s)) = {(Strings, p)}"
    using Slice(2) by (auto simp: string_refs [OF Slice(1)] trace_string_def trace_handle_def)
  then have "(Strings, unat p) \<in> reachable h"
    using Slice(6) live_in_len [OF has_text_live [OF Slice(3)]] by (auto intro: reachable.step [OF Slice(6)])
  with Slice keep [OF Slice(6,1)] show ?case by (intro has_text.Slice) simp_all
qed

lemma collect_strings:
  assumes safe: "heap_safe h" and c: "force_collect h = Some h'"
  shows "live_string h' s x \<longleftrightarrow> (Strings, unat s) \<in> reachable h \<and> live_string h s x"
    "interned_strings h' = interned_strings h"
proof -
  from collect_spec [OF safe] c have live: "\<And>sp. live_in h' sp = {n. (sp, n) \<in> reachable h}"
    and pay: "\<And>sp n. (sp, n) \<in> reachable h \<Longrightarrow> payload_at h' sp n = pruned h (payload_at h sp n)"
    by (metis option.inject)+
  show "live_string h' s x \<longleftrightarrow> (Strings, unat s) \<in> reachable h \<and> live_string h s x"
    using pay [of Strings "unat s"] heap_safe_reach [OF safe, of Strings "unat s"]
    by (auto simp: live_string_def live payload_at_def pruned_def)
  show "interned_strings h' = interned_strings h"
    using c by (auto simp: force_collect_def Let_def bind_eq_Some_conv publish_all_def sweep_all_def)
qed

lemma collect_interned:
  assumes safe: "heap_safe h" and ok: "interned_ok h" and c: "force_collect h = Some h'"
  shows "interned_ok h'" "canonical h' s t \<longleftrightarrow> canonical h s t"
proof -
  note k = collect_strings [OF safe c]
  have mem: "interned h' = interned h" by (simp add: interned_def k(2))
  have reach: "(Strings, unat d) \<in> reachable h" if "d \<in> interned h" "live_string h d x" for d x
    using that(1) interned_rooted [of h] live_string_len [OF that(2)] by (intro reachable.root) auto
  have can: "canonical h' s t \<longleftrightarrow> canonical h s t" for s t
    using reach by (auto simp: canonical_def mem k(1))
  then show "canonical h' s t \<longleftrightarrow> canonical h s t" .
  have "\<exists>x. live_string h' d x \<and> is_flat x \<and> cached_hash x = Some v \<and> v = text_hash (flat_units (storage x))"
    if m: "(v, cs) \<in> set (interned_strings h)" "d \<in> set cs" for v cs d
  proof -
    from ok m obtain x where x: "live_string h d x \<and> is_flat x \<and> cached_hash x = Some v \<and> v = text_hash (flat_units (storage x))"
      by (fastforce simp: interned_ok_def)
    moreover have "d \<in> interned h" using m by (auto simp: interned_def)
    ultimately show ?thesis using reach by (auto simp: k(1))
  qed
  with ok show "interned_ok h'" by (auto simp: interned_ok_def k(2) can)
qed

text \<open>
  C38. Texts survive collections. A collection keeps the text of every reachable string, the
  pieces of ropes and slices included, and the intern table keeps mapping the same texts to the
  same handles.
\<close>

theorem texts_survive_collection:
  assumes "heap_safe h" "force_collect h = Some h'"
  shows "(\<forall>s t. (Strings, unat s) \<in> reachable h \<longrightarrow> has_text h s t \<longrightarrow> has_text h' s t) \<and>
    (interned_ok h \<longrightarrow> interned_ok h' \<and> (\<forall>s t. canonical h' s t \<longleftrightarrow> canonical h s t))"
  using collect_interned [OF assms(1) _ assms(2)] reachable_text [of h h'] collect_strings(1) [OF assms] by blast

section \<open>The intern table as an interner\<close>

definition intern_units :: "heap \<Rightarrow> u16 list \<Rightarrow> unit + handle \<times> heap" where
  "intern_units h t = ok_or (intern_string h (utf16 t)) ()"

definition interned_text :: "heap \<Rightarrow> handle \<Rightarrow> u16 list option" where
  "interned_text h s = (if s \<in> interned h then Some (flat_units (storage (slots (strings h) ! unat s))) else None)"

lemma interned_live:
  assumes "interned_ok h" "s \<in> interned h"
  shows "\<exists>x. live_string h s x"
proof -
  from assms obtain v cs where "(v, cs) \<in> set (interned_strings h)" "s \<in> set cs" by (auto simp: interned_def)
  with assms(1) show ?thesis by (fastforce simp: interned_ok_def)
qed

lemma interned_text_canonical:
  assumes ok: "interned_ok h"
  shows "interned_text h s = Some t \<longleftrightarrow> canonical h s t"
proof -
  have "\<exists>x. live_string h s x" if "s \<in> interned h" using interned_live [OF ok that] .
  then show ?thesis by (auto simp: interned_text_def canonical_def live_string_def)
qed

lemma node_text_utf16 [simp]: "node_text h (utf16 t) t" "node_text h (latin1 bs) (map ucast bs)"
  by (simp_all add: node_text_def utf16_def latin1_def)

interpretation strs: interner intern_units interned_text "\<lambda>h. heap_safe h \<and> interned_ok h"
proof unfold_locales
  fix h v s h'
  assume inv: "heap_safe h \<and> interned_ok h" and run: "intern_units h v = Inr (s, h')"
  from run have i: "intern_string h (utf16 v) = Some (s, h')" by (simp add: intern_units_def)
  note d = intern_done [OF inv [THEN conjunct1] inv [THEN conjunct2] node_text_utf16(1) i]
  show inv': "heap_safe h' \<and> interned_ok h'" using d(1,2) by simp
  show get: "interned_text h' s = Some v" using d(2,3) by (simp add: interned_text_canonical)
  show "interned_text h' j = Some w" if "interned_text h j = Some w" for j w
    using that d(2,3) inv by (simp add: interned_text_canonical)
  have c: "canonical h' s v" using d(3) by simp
  from intern_returns [OF d(1,2) node_text_utf16(1)] c obtain s2 h2 where r: "intern_string h' (utf16 v) = Some (s2, h2)" by blast
  note d2 = intern_done [OF d(1,2) node_text_utf16(1) r]
  have "canonical h' s2 v" using d2(3) d2(4) [OF c] by metis
  with c d(2) have "s2 = s" unfolding interned_ok_def by blast
  with r d2(4) [OF c] show "intern_units h' v = Inr (s, h')" by (simp add: intern_units_def)
next
  fix h i v j
  assume "heap_safe h \<and> interned_ok h" "interned_text h i = Some v" "interned_text h j = Some v"
  then show "i = j" by (simp add: interned_text_canonical) (auto simp: interned_ok_def)
qed

text \<open>A sequence of internings, with the handles it hands out.\<close>

fun intern_units_all :: "heap \<Rightarrow> u16 list list \<Rightarrow> unit + handle list \<times> heap" where
  "intern_units_all h [] = Inr ([], h)"
| "intern_units_all h (t # ts) =
     rbind (intern_units h t) (\<lambda>(s, h1). rbind (intern_units_all h1 ts) (\<lambda>(ss, h2). Inr (s # ss, h2)))"

lemma intern_units_all_eq: "intern_units_all h ts = strs.ins_all h ts"
  by (induction ts arbitrary: h) simp_all

lemma interned_same_iff:
  assumes "heap_safe h" "interned_ok h" "intern_units_all h ts = Inr (ss, h')" "m < length ts" "n < length ts"
  shows "ss ! m = ss ! n \<longleftrightarrow> ts ! m = ts ! n"
  using strs.ins_all_same_iff [of h ts ss h' m n] assms by (simp add: intern_units_all_eq)

section \<open>Interning source text\<close>

lemma encode_char_cases:
  assumes "scalar_value c"
  obtains (One) u where "encode_char c = [u]" "unat u = c" "c < 0xD800 \<or> 0xE000 \<le> c" "c < 0x10000"
  | (Two) u v where "encode_char c = [u, v]" "unat u = 0xD800 + (c - 0x10000) div 0x400"
      "unat v = 0xDC00 + (c - 0x10000) mod 0x400" "0x10000 \<le> c" "unat u < 0xDC00"
proof (cases "c < 0x10000")
  case True
  with assms show thesis by (intro One [of "word_of_nat c"]) (auto simp: encode_char_def scalar_value_def unat_of_nat_small)
next
  case False
  with assms have d: "(c - 0x10000) div 0x400 < 0x400" by (auto simp: scalar_value_def)
  have m: "(c - 0x10000) mod 0x400 < 0x400" by simp
  have "unat (word_of_nat n :: u16) = n" if "n < 0x10000" for n
    using that by (simp add: unat_of_nat_small)
  from this [of "0xD800 + (c - 0x10000) div 0x400"] this [of "0xDC00 + (c - 0x10000) mod 0x400"] d m
  have u: "unat (word_of_nat (0xD800 + (c - 0x10000) div 0x400) :: u16) = 0xD800 + (c - 0x10000) div 0x400"
    "unat (word_of_nat (0xDC00 + (c - 0x10000) mod 0x400) :: u16) = 0xDC00 + (c - 0x10000) mod 0x400"
    "0xD800 + (c - 0x10000) div 0x400 < 0xDC00"
    by linarith+
  show thesis
  proof (rule Two [OF _ u(1,2)])
    show "encode_char c = [word_of_nat (0xD800 + (c - 0x10000) div 0x400), word_of_nat (0xDC00 + (c - 0x10000) mod 0x400)]"
      using False unfolding encode_char_def by (rule if_not_P)
  qed (use False u(1,3) in linarith)+
qed

lemma encode_char_ne [simp]: "encode_char c \<noteq> []"
  by (simp add: encode_char_def)

lemma encode_char_prefix:
  assumes "scalar_value c" "scalar_value d" "encode_char c @ xs = encode_char d @ ys"
  shows "c = d"
  using assms(1)
proof (cases rule: encode_char_cases)
  case c: (One u)
  from assms(2) show ?thesis
  proof (cases rule: encode_char_cases)
    case (One v)
    with c assms(3) show ?thesis by auto
  next
    case (Two v w)
    with c assms(3) have "u = v" by simp
    with c Two show ?thesis by simp
  qed
next
  case c: (Two u v)
  from assms(2) show ?thesis
  proof (cases rule: encode_char_cases)
    case (One w)
    with c assms(3) have "u = w" by simp
    with c One show ?thesis by simp
  next
    case (Two w z)
    with c assms(3) have "u = w" "v = z" by auto
    with c Two have "(c - 0x10000) div 0x400 = (d - 0x10000) div 0x400" "(c - 0x10000) mod 0x400 = (d - 0x10000) mod 0x400" by auto
    then have "c - 0x10000 = d - 0x10000" by (metis div_mult_mod_eq)
    with c(4) Two(4) show ?thesis by arith
  qed
qed

lemma encode_utf16_inj:
  "list_all scalar_value a \<Longrightarrow> list_all scalar_value b \<Longrightarrow> encode_utf16 a = encode_utf16 b \<Longrightarrow> a = b"
proof (induction a arbitrary: b)
  case Nil
  then show ?case by (cases b) (simp_all add: encode_utf16_def)
next
  case (Cons c cs)
  from Cons.prems(3) have "b \<noteq> []" by (auto simp: encode_utf16_def)
  then obtain d ds where b: "b = d # ds" by (cases b) auto
  with Cons.prems(3) have e: "encode_char c @ encode_utf16 cs = encode_char d @ encode_utf16 ds"
    by (simp add: encode_utf16_def)
  from Cons.prems b have ok: "scalar_value c" "scalar_value d" "list_all scalar_value cs" "list_all scalar_value ds" by simp_all
  have cd: "c = d" by (rule encode_char_prefix [OF ok(1,2) e])
  with e have "encode_utf16 cs = encode_utf16 ds" by simp
  from Cons.IH [OF ok(3,4) this] cd b show ?case by simp
qed

text \<open>The value \<open>intern_text\<close> interns has the UTF-16 view of the text, ASCII or not.\<close>

lemma intern_text_value:
  obtains v where "intern_text h tx = intern_string h v" "\<And>h. node_text h v (encode_utf16 tx)"
proof (cases "\<forall>c \<in> set tx. c < 128")
  case True
  have "ucast (word_of_nat c :: u8) = (word_of_nat c :: u16)" if "c < 128" for c
    using that by (simp add: word_unat_eq_iff unat_of_nat_small del: unat_eq_iff)
  moreover have "encode_utf16 tx = map word_of_nat tx" using True
    by (induction tx) (auto simp: encode_utf16_def encode_char_def)
  ultimately have "map ucast (map word_of_nat tx :: u8 list) = encode_utf16 tx" using True by simp
  with True show thesis
    using node_text_utf16(2) [of _ "map word_of_nat tx"]
    by (intro that [of "latin1 (map word_of_nat tx)"]) (simp_all add: intern_text_def)
next
  case False
  then show thesis by (intro that [of "utf16 (encode_utf16 tx)"]) (auto simp: intern_text_def)
qed

text \<open>
  C7. Property names are identified by handle. Two source texts interned one after the other,
  with a collection in between, get the same handle if and only if they are the same text: the
  ASCII shortcut, the surrogate encoding, the hash buckets and the collector never split one
  text over two handles nor merge two texts into one.
\<close>

theorem intern_text_identity:
  assumes "heap_safe h" "interned_ok h" "list_all scalar_value a" "list_all scalar_value b"
    "intern_text h a = Some (sa, h1)" "force_collect h1 = Some h2" "intern_text h2 b = Some (sb, h3)"
  shows "sa = sb \<longleftrightarrow> a = b"
proof -
  obtain va where va: "intern_text h a = intern_string h va" "\<And>h. node_text h va (encode_utf16 a)"
    using intern_text_value [of h a] by metis
  obtain vb where vb: "intern_text h2 b = intern_string h2 vb" "\<And>h. node_text h vb (encode_utf16 b)"
    using intern_text_value [of h2 b] by metis
  note d1 = intern_done [OF assms(1,2) va(2) assms(5) [unfolded va(1)]]
  note c = collect_safe(1) [OF d1(1) assms(6)] collect_interned [OF d1(1,2) assms(6)]
  note d2 = intern_done [OF c(1,2) vb(2) assms(7) [unfolded vb(1)]]
  have "canonical h3 sa (encode_utf16 a)" "canonical h3 sb (encode_utf16 b)" using d1(3) c(3) d2(3) by auto
  then have "interned_text h3 sa = Some (encode_utf16 a)" "interned_text h3 sb = Some (encode_utf16 b)"
    by (simp_all add: interned_text_canonical [OF d2(2)])
  moreover have "sa = sb" if "encode_utf16 a = encode_utf16 b"
    using calculation that d2(1,2) by (intro strs.get_inj [of h3 sa "encode_utf16 a" sb]) simp_all
  ultimately have "sa = sb \<longleftrightarrow> encode_utf16 a = encode_utf16 b" by fastforce
  with encode_utf16_inj [OF assms(3,4)] show ?thesis by metis
qed

section \<open>Examples\<close>

lemma demo_interned_ok: "interned_ok demo_strings"
  by (simp add: interned_ok_def demo_strings_def heap_new_def canonical_def interned_def)

lemma intern_exact_witness: "\<exists>s h'. intern_string demo_strings (utf16 [104, 105]) = Some (s, h') \<and> canonical h' s [104, 105]"
  using intern_exact [OF demo_strings_safe demo_interned_ok node_text_utf16(1) demo_room] by blast

lemma texts_survive_collection_witness:
  "\<exists>h'. force_collect demo_strings = Some h' \<and> interned_ok h' \<and> (\<forall>s t. canonical h' s t \<longleftrightarrow> canonical demo_strings s t)"
proof -
  obtain h' where c: "force_collect demo_strings = Some h'" using collect_spec [OF demo_strings_safe] by metis
  from texts_survive_collection [OF demo_strings_safe c] demo_interned_ok c show ?thesis by blast
qed

lemma intern_text_identity_witness:
  "\<exists>h1 h2 h3 sa sb. intern_text demo_strings [104] = Some (sa, h1) \<and> force_collect h1 = Some h2 \<and>
     intern_text h2 [104] = Some (sb, h3) \<and> sa = sb"
proof -
  have v: "intern_text h [104] = intern_string h (latin1 [104])" "node_text h (latin1 [104]) [104]" for h
    by (simp_all add: intern_text_def node_text_def latin1_def)
  from intern_returns [OF demo_strings_safe demo_interned_ok v(2)] demo_room obtain sa h1 where
    1: "intern_string demo_strings (latin1 [104]) = Some (sa, h1)" by blast
  note d1 = intern_done [OF demo_strings_safe demo_interned_ok v(2) 1]
  obtain h2 where 2: "force_collect h1 = Some h2" using collect_spec [OF d1(1)] by metis
  note c = collect_safe(1) [OF d1(1) 2] collect_interned [OF d1(1,2) 2]
  have "canonical h2 sa [104]" using d1(3) c(3) by simp
  with intern_returns [OF c(1,2) v(2)] obtain sb h3 where 3: "intern_string h2 (latin1 [104]) = Some (sb, h3)" by blast
  have "list_all scalar_value [104]" by (simp add: scalar_value_def)
  from intern_text_identity [OF demo_strings_safe demo_interned_ok this this 1 [folded v(1)] 2 3 [folded v(1)]]
  have "sa = sb" by simp
  with 1 2 3 show ?thesis unfolding v(1) by blast
qed

end
