(* ===== verification/ShapeTree.thy ===== *)
theory ShapeTree
  imports Collect
begin

text \<open>
  The heap's operations on shapes and objects (\<open>gc.rs\<close>): growing the transition tree,
  reconfiguring properties, binding shapes to objects, validity cells, the guarded stub
  probes and the symbol registries. An operation returns \<open>None\<close> where the code panics on an
  index or on an exhausted space.
\<close>

section \<open>Access to payloads\<close>

definition get_shape :: "heap \<Rightarrow> handle \<Rightarrow> shape option" where
  "get_shape h s = slot_get (shapes h) s"

definition get_object :: "heap \<Rightarrow> handle \<Rightarrow> js_obj option" where
  "get_object h ob = slot_get (objects h) ob"

definition modify_shape :: "heap \<Rightarrow> handle \<Rightarrow> (shape \<Rightarrow> shape) \<Rightarrow> heap option" where
  "modify_shape h s f = map_option (\<lambda>sh. heap_put h (unat s) (P_Shape (f sh))) (get_shape h s)"

definition modify_object :: "heap \<Rightarrow> handle \<Rightarrow> (js_obj \<Rightarrow> js_obj) \<Rightarrow> heap option" where
  "modify_object h ob f = map_option (\<lambda>x. heap_put h (unat ob) (P_Object (f x))) (get_object h ob)"

section \<open>The transition tree\<close>

text \<open>The child a parent shape gets for one more descriptor, and its publication under an edge.\<close>

definition child_shape :: "handle \<Rightarrow> shape \<Rightarrow> descriptor \<Rightarrow> shape" where
  "child_shape par ps d =
     \<lparr>parent = Some par, transitions = transitions_default,
      descriptors = descriptors_push (descriptors ps) d, proto_cell = proto_cell ps, num_own = num_own ps + 1\<rparr>"

definition publish_child :: "heap \<Rightarrow> handle \<Rightarrow> prop_key \<Rightarrow> attrs \<Rightarrow> shape \<Rightarrow> (handle \<times> heap) option" where
  "publish_child h par key at child =
     Option.bind (heap_alloc h (P_Shape child)) (\<lambda>(c, h').
       map_option (Pair c)
         (modify_shape h' par (\<lambda>s. s\<lparr>transitions := transitions_insert (transitions s) key at c\<rparr>)))"

definition add_property :: "heap \<Rightarrow> handle \<Rightarrow> prop_key \<Rightarrow> attrs \<Rightarrow> (handle \<times> heap) option" where
  "add_property h par key at =
     Option.bind (get_shape h par) (\<lambda>ps.
       case transitions_get (transitions ps) key at of
         Some existing \<Rightarrow> Some (existing, h)
       | None \<Rightarrow> publish_child h par key at (child_shape par ps (Data key (num_own ps) at)))"

text \<open>\<open>for d in list.iter_mut() { if d.key() == key { *d = \<dots>; break } }\<close>\<close>

fun replace_first :: "prop_key \<Rightarrow> (descriptor \<Rightarrow> descriptor) \<Rightarrow> descriptor list \<Rightarrow> descriptor list" where
  "replace_first key f [] = []"
| "replace_first key f (d # ds) = (if desc_key d = key then f d # ds else d # replace_first key f ds)"

definition reconfigured :: "shape \<Rightarrow> prop_key \<Rightarrow> attrs \<Rightarrow> descriptor list \<times> u32" where
  "reconfigured ps key at =
     (let list = descriptors_as_slice (descriptors ps);
          to_data = (\<lambda>d. Data key (case desc_slot d of Some s \<Rightarrow> s | None \<Rightarrow> num_own ps) at)
      in if key \<in> desc_key ` set list then (replace_first key to_data list, num_own ps)
         else (list @ [Data key (num_own ps) at], num_own ps + 1))"

definition update_data_attrs :: "heap \<Rightarrow> handle \<Rightarrow> prop_key \<Rightarrow> attrs \<Rightarrow> (handle \<times> heap) option" where
  "update_data_attrs h par key at =
     Option.bind (get_shape h par) (\<lambda>ps.
       case transitions_get (transitions ps) key at of
         Some existing \<Rightarrow> Some (existing, h)
       | None \<Rightarrow> (case reconfigured ps key at of (list, n) \<Rightarrow>
           publish_child h par key at
             \<lparr>parent = Some par, transitions = transitions_default, descriptors = descriptors_of list,
              proto_cell = proto_cell ps, num_own = n\<rparr>))"

definition opt_or :: "'a option \<Rightarrow> 'a option \<Rightarrow> 'a option" where
  "opt_or x y = (case x of Some v \<Rightarrow> Some v | None \<Rightarrow> y)"

text \<open>Merging a half into an accessor that is already described: \<open>None\<close> when nothing is new.\<close>

definition merge_accessor :: "shape \<Rightarrow> prop_key \<Rightarrow> handle option \<Rightarrow> handle option \<Rightarrow> handle option \<Rightarrow> handle option
    \<Rightarrow> attrs \<Rightarrow> shape option" where
  "merge_accessor sh key g s getter setter at =
     (let mg = opt_or getter g; ms = opt_or setter s
      in if mg = g \<and> ms = s then None
         else Some (sh\<lparr>descriptors := descriptors_of
                (replace_first key (\<lambda>_. Accessor key mg ms at) (descriptors_as_slice (descriptors sh)))\<rparr>))"

definition merge_into :: "heap \<Rightarrow> handle \<Rightarrow> shape option \<Rightarrow> (handle \<times> heap) option" where
  "merge_into h s merged = (case merged of
     None \<Rightarrow> Some (s, h)
   | Some sh \<Rightarrow> map_option (Pair s) (modify_shape h s (\<lambda>_. sh)))"

definition define_accessor :: "heap \<Rightarrow> handle \<Rightarrow> prop_key \<Rightarrow> handle option \<Rightarrow> handle option \<Rightarrow> attrs
    \<Rightarrow> (handle \<times> heap) option" where
  "define_accessor h par key getter setter at =
     Option.bind (get_shape h par) (\<lambda>ps.
       let fresh = publish_child h par key at (child_shape par ps (Accessor key getter setter at))
       in case transitions_get (transitions ps) key at of
            Some existing \<Rightarrow>
              Option.bind (get_shape h existing) (\<lambda>es.
                case descriptors_find (descriptors es) key of
                  Some (Accessor _ g s _) \<Rightarrow> merge_into h existing (merge_accessor es key g s getter setter at)
                | _ \<Rightarrow> fresh)
          | None \<Rightarrow>
              (case descriptors_find (descriptors ps) key of
                 Some (Accessor _ g s _) \<Rightarrow> merge_into h par (merge_accessor ps key g s getter setter at)
               | _ \<Rightarrow> fresh))"

definition lookup_property :: "heap \<Rightarrow> handle \<Rightarrow> prop_key \<Rightarrow> descriptor option option" where
  "lookup_property h start key = map_option (\<lambda>sh. find_descriptor sh key) (get_shape h start)"

section \<open>Objects and their shapes\<close>

definition shape_of :: "heap \<Rightarrow> handle \<Rightarrow> handle option" where
  "shape_of h ob = map_option obj_shape (get_object h ob)"

definition bind_shape :: "heap \<Rightarrow> handle \<Rightarrow> handle \<Rightarrow> heap option" where
  "bind_shape h ob sh = map_option (add_shape_root sh) (modify_object h ob (\<lambda>x. x\<lparr>obj_shape := sh\<rparr>))"

text \<open>\<open>Vec::resize\<close> on the growing side.\<close>

definition grow :: "'a list \<Rightarrow> nat \<Rightarrow> 'a \<Rightarrow> 'a list" where
  "grow xs n v = (if length xs < n then xs @ replicate (n - length xs) v else xs)"

definition pad_properties_to_num_own :: "heap \<Rightarrow> handle \<Rightarrow> heap option" where
  "pad_properties_to_num_own h ob =
     Option.bind (shape_of h ob) (\<lambda>s. Option.bind (get_shape h s) (\<lambda>sh.
       modify_object h ob (\<lambda>x.
         x\<lparr>properties := grow (properties x) (unat (num_own sh)) js_hole,
           property_keys := grow (property_keys x) (unat (num_own sh)) None\<rparr>)))"

definition alloc_promise :: "heap \<Rightarrow> js_obj \<Rightarrow> (handle \<times> heap) option" where
  "alloc_promise h promise = heap_alloc h (P_Object (promise\<lparr>obj_shape := promise_shape h\<rparr>))"

definition REALM_GLOBAL_FLAG :: u8 where "REALM_GLOBAL_FLAG = 8"

definition is_realm_global :: "heap \<Rightarrow> handle \<Rightarrow> bool option" where
  "is_realm_global h ob = map_option (\<lambda>x. flags x AND REALM_GLOBAL_FLAG \<noteq> 0) (get_object h ob)"

definition register_realm_global :: "heap \<Rightarrow> handle \<Rightarrow> heap option" where
  "register_realm_global h g =
     map_option (\<lambda>h. if g \<in> set (realm_globals h) then h else h\<lparr>realm_globals := realm_globals h @ [g]\<rparr>)
       (modify_object h g (\<lambda>x. x\<lparr>flags := flags x OR REALM_GLOBAL_FLAG\<rparr>))"

definition deregister_realm_global :: "heap \<Rightarrow> handle \<Rightarrow> heap option" where
  "deregister_realm_global h g =
     (if g \<in> set (realm_globals h)
      then modify_object (h\<lparr>realm_globals := remove1 g (realm_globals h)\<rparr>) g
             (\<lambda>x. x\<lparr>flags := flags x AND NOT REALM_GLOBAL_FLAG\<rparr>)
      else Some h)"

section \<open>Validity cells\<close>

definition new_validity_cell :: "heap \<Rightarrow> (validity_cell_id \<times> heap) option" where
  "new_validity_cell h =
     (let id = length (validity_cells h) + 1; h' = h\<lparr>validity_cells := validity_cells h @ [0]\<rparr>
      in if id < 2 ^ 32 then Some (word_of_nat id, h') else None)"

definition validity_cell_of :: "heap \<Rightarrow> handle \<Rightarrow> (validity_cell_id \<times> heap) option" where
  "validity_cell_of h ob =
     Option.bind (get_object h ob) (\<lambda>x.
       if validity_cell x \<noteq> VALIDITY_NONE then Some (validity_cell x, h)
       else Option.bind (new_validity_cell h) (\<lambda>(cell, h').
              map_option (Pair cell) (modify_object h' ob (\<lambda>x. x\<lparr>validity_cell := cell\<rparr>))))"

definition validity_serial :: "heap \<Rightarrow> validity_cell_id \<Rightarrow> u32 option" where
  "validity_serial h cell =
     (if cell = VALIDITY_NONE then None else list_get (validity_cells h) (unat cell - 1))"

definition guard_holds :: "heap \<Rightarrow> validity_cell_id \<Rightarrow> u32 \<Rightarrow> bool" where
  "guard_holds h cell serial \<longleftrightarrow> validity_serial h cell = Some serial"

definition bump_validity :: "validity_cell_id \<Rightarrow> heap \<Rightarrow> heap" where
  "bump_validity cell h = (case validity_serial h cell of
     Some serial \<Rightarrow> h\<lparr>validity_cells := (validity_cells h)[unat cell - 1 := serial + 1]\<rparr>
   | None \<Rightarrow> h)"

definition bump_proto_generation :: "heap \<Rightarrow> heap" where
  "bump_proto_generation h = h\<lparr>proto_generation := proto_generation h + 1\<rparr>"

definition FLAG_NOT_EXTENSIBLE :: u8 where "FLAG_NOT_EXTENSIBLE = 1"
definition FLAG_SEALED :: u8 where "FLAG_SEALED = 2"
definition FLAG_FROZEN :: u8 where "FLAG_FROZEN = 4"

definition is_sealed :: "js_obj \<Rightarrow> bool" where "is_sealed x \<longleftrightarrow> flags x AND FLAG_SEALED \<noteq> 0"
definition is_frozen :: "js_obj \<Rightarrow> bool" where "is_frozen x \<longleftrightarrow> flags x AND FLAG_FROZEN \<noteq> 0"

definition integrity_bits :: "integrity_level \<Rightarrow> u8" where
  "integrity_bits level = (case level of
     Sealed \<Rightarrow> FLAG_NOT_EXTENSIBLE OR FLAG_SEALED
   | Frozen \<Rightarrow> FLAG_NOT_EXTENSIBLE OR FLAG_SEALED OR FLAG_FROZEN)"

definition set_integrity_level :: "heap \<Rightarrow> handle \<Rightarrow> integrity_level \<Rightarrow> heap option" where
  "set_integrity_level h ob level =
     Option.bind (modify_object h ob (\<lambda>x. x\<lparr>flags := flags x OR integrity_bits level\<rparr>)) (\<lambda>h.
       map_option (\<lambda>(cell, h). bump_proto_generation (bump_validity cell h)) (validity_cell_of h ob))"

section \<open>Guarded stub probes\<close>

text \<open>The chain as observed from a receiver: its link, the next link, the intermediate shape.\<close>

definition observe_chain :: "heap \<Rightarrow> handle \<Rightarrow> (handle option \<times> handle option \<times> handle) option" where
  "observe_chain h receiver =
     Option.bind (get_object h receiver) (\<lambda>r.
       case prototype r of
         Some p0 \<Rightarrow> map_option (\<lambda>p. (Some p0, prototype p, obj_shape p)) (get_object h p0)
       | None \<Rightarrow> Some (None, None, U32_MAX))"

text \<open>The inner option is the probe's answer, the outer one a panic.\<close>

definition stub_lookup_proto :: "heap \<Rightarrow> handle \<Rightarrow> handle \<Rightarrow> prop_key \<Rightarrow> (handle \<times> u32) option option" where
  "stub_lookup_proto h receiver sh key =
     Option.bind (observe_chain h receiver) (\<lambda>(l0, l1, mid).
       case lookup_proto (stubs h) receiver sh key (proto_generation h) l0 l1 mid of
         None \<Rightarrow> Some None
       | Some hit \<Rightarrow>
           if hit_is_own hit then Some (Some (hit_target hit, hit_slot hit))
           else map_option (\<lambda>t. if obj_shape t \<noteq> hit_holder_shape hit then None
                                else Some (hit_target hit, hit_slot hit)) (get_object h (hit_target hit)))"

definition stub_record_proto :: "heap \<Rightarrow> handle \<Rightarrow> handle \<Rightarrow> prop_key \<Rightarrow> handle \<Rightarrow> handle \<Rightarrow> u32
    \<Rightarrow> (bool \<times> heap) option" where
  "stub_record_proto h receiver sh key owner owner_shape slot =
     (if owner = receiver
      then Some (True, h\<lparr>stubs := record_proto (stubs h) sh key owner owner_shape slot None None U32_MAX
                                    (proto_generation h)\<rparr>)
      else Option.bind (observe_chain h receiver) (\<lambda>(l0, l1, mid).
        if l0 = Some owner \<or> l1 = Some owner
        then Some (True, h\<lparr>stubs := record_proto (stubs h) sh key owner owner_shape slot l0 l1 mid
                                      (proto_generation h)\<rparr>)
        else Some (False, h)))"

section \<open>Symbols\<close>

definition symbol_for_key :: "heap \<Rightarrow> string \<Rightarrow> (handle \<times> heap) option" where
  "symbol_for_key h key = (case map_of (symbol_registry h) key of
     Some s \<Rightarrow> Some (s, h)
   | None \<Rightarrow> map_option (\<lambda>(s, h).
       (s, (add_root (js_symbol s) h)
             \<lparr>symbol_registry := AList.update key s (symbol_registry h),
              symbol_registry_reverse := AList.update s key (symbol_registry_reverse h)\<rparr>))
       (heap_alloc h P_Symbol))"

definition symbol_key_for :: "heap \<Rightarrow> handle \<Rightarrow> string option" where
  "symbol_key_for h s = map_of (symbol_registry_reverse h) s"

datatype wk_symbol =
    WK_AsyncIterator | WK_HasInstance | WK_IsConcatSpreadable | WK_Iterator | WK_Match | WK_MatchAll | WK_Replace
  | WK_Search | WK_Species | WK_Split | WK_ToPrimitive | WK_ToStringTag | WK_Unscopables | WK_Dispose | WK_AsyncDispose

definition WK_ALL :: "wk_symbol list" where
  "WK_ALL =
     [WK_AsyncIterator, WK_HasInstance, WK_IsConcatSpreadable, WK_Iterator, WK_Match, WK_MatchAll, WK_Replace,
      WK_Search, WK_Species, WK_Split, WK_ToPrimitive, WK_ToStringTag, WK_Unscopables, WK_Dispose, WK_AsyncDispose]"

primrec wk_index :: "wk_symbol \<Rightarrow> nat" where
  "wk_index WK_AsyncIterator = 0" | "wk_index WK_HasInstance = 1" | "wk_index WK_IsConcatSpreadable = 2"
| "wk_index WK_Iterator = 3" | "wk_index WK_Match = 4" | "wk_index WK_MatchAll = 5" | "wk_index WK_Replace = 6"
| "wk_index WK_Search = 7" | "wk_index WK_Species = 8" | "wk_index WK_Split = 9" | "wk_index WK_ToPrimitive = 10"
| "wk_index WK_ToStringTag = 11" | "wk_index WK_Unscopables = 12" | "wk_index WK_Dispose = 13"
| "wk_index WK_AsyncDispose = 14"

primrec wk_name :: "wk_symbol \<Rightarrow> string" where
  "wk_name WK_AsyncIterator = ''asyncIterator''" | "wk_name WK_HasInstance = ''hasInstance''"
| "wk_name WK_IsConcatSpreadable = ''isConcatSpreadable''" | "wk_name WK_Iterator = ''iterator''"
| "wk_name WK_Match = ''match''" | "wk_name WK_MatchAll = ''matchAll''" | "wk_name WK_Replace = ''replace''"
| "wk_name WK_Search = ''search''" | "wk_name WK_Species = ''species''" | "wk_name WK_Split = ''split''"
| "wk_name WK_ToPrimitive = ''toPrimitive''" | "wk_name WK_ToStringTag = ''toStringTag''"
| "wk_name WK_Unscopables = ''unscopables''" | "wk_name WK_Dispose = ''dispose''"
| "wk_name WK_AsyncDispose = ''asyncDispose''"

definition wk_from_name :: "string \<Rightarrow> wk_symbol option" where
  "wk_from_name nm = find (\<lambda>w. wk_name w = nm) WK_ALL"

definition well_known_symbol :: "heap \<Rightarrow> wk_symbol \<Rightarrow> (handle \<times> heap) option" where
  "well_known_symbol h which =
     (let idx = wk_index which; h = h\<lparr>well_known := grow (well_known h) (idx + 1) None\<rparr>
      in case well_known h ! idx of
           Some s \<Rightarrow> Some (s, h)
         | None \<Rightarrow> map_option (\<lambda>(s, h). (s, h\<lparr>well_known := (well_known h)[idx := Some s]\<rparr>)) (heap_alloc h P_Symbol))"

section \<open>Publishing a child\<close>

definition shape_at :: "heap \<Rightarrow> nat \<Rightarrow> shape" where
  "shape_at h n = slots (shapes h) ! n"

lemma payload_shape: "payload_at h Shapes n = P_Shape (shape_at h n)"
  by (simp add: payload_at_def shape_at_def)

lemma get_shape_live: "unat s \<in> live_in h Shapes \<Longrightarrow> get_shape h s = Some (shape_at h (unat s))"
  by (auto simp: get_shape_def slot_get_def live_in_def live_def shape_at_def list_get_def)

lemma iter_get:
  assumes "transitions_wf t"
  shows "(k, a, c) \<in> set (transitions_iter t) \<longleftrightarrow> transitions_get t k a = Some c"
proof -
  have "(k, a, c) \<in> set (transitions_iter t) \<longleftrightarrow> ((k, a), c) \<in> set (edges_of t)"
    unfolding iter_edges [OF assms] set_map image_iff
    by (metis edge_entry.simps entry_edge.simps entry_edge_inv(2))
  also have "\<dots> \<longleftrightarrow> map_of (edges_of t) (k, a) = Some c"
    using transitions_wf_distinct [OF assms] by simp
  finally show ?thesis by (simp add: transitions_get_edges)
qed

lemma edges_ok_get:
  "edges_ok h sh \<longleftrightarrow> transitions_wf (transitions sh) \<and>
     (\<forall>k a c. transitions_get (transitions sh) k a = Some c \<longrightarrow> unat c < space_len h Shapes)"
proof (cases "transitions_wf (transitions sh)")
  case True
  have "(\<forall>(k, a, c) \<in> set (transitions_iter (transitions sh)). unat c < space_len h Shapes) \<longleftrightarrow>
      (\<forall>k a c. (k, a, c) \<in> set (transitions_iter (transitions sh)) \<longrightarrow> unat c < space_len h Shapes)"
    by blast
  with True show ?thesis by (simp add: edges_ok_def iter_get)
qed (simp add: edges_ok_def)

lemma heap_safe_shape:
  assumes "heap_safe h" "n \<in> live_in h Shapes"
  shows "edges_ok h (shape_at h n)" "refs_live h (trace_shape (shape_at h n))"
proof -
  show "edges_ok h (shape_at h n)" using assms by (simp add: heap_safe_def shape_at_def)
  have "refs_live h (slot_refs h Shapes n)" using assms by (simp add: heap_safe_def)
  then show "refs_live h (trace_shape (shape_at h n))" by (simp add: slot_refs_payload payload_shape)
qed

lemma heap_put_shape:
  assumes "n \<in> live_in h Shapes"
  shows "shape_at (heap_put h n (P_Shape sh)) m = (if m = n then sh else shape_at h m)"
    "live_in (heap_put h n (P_Shape sh)) = live_in h" "space_len (heap_put h n (P_Shape sh)) = space_len h"
    "sp \<noteq> Shapes \<Longrightarrow> payload_at (heap_put h n (P_Shape sh)) sp k = payload_at h sp k"
    "root_refs (heap_put h n (P_Shape sh)) = root_refs h"
proof -
  have n: "n < length (slots (shapes h))" using assms by (simp add: live_in_def live_def)
  then show "shape_at (heap_put h n (P_Shape sh)) m = (if m = n then sh else shape_at h m)"
    by (simp add: heap_put_def slot_put_def shape_at_def)
  show "live_in (heap_put h n (P_Shape sh)) = live_in h" "space_len (heap_put h n (P_Shape sh)) = space_len h"
    by (auto simp: heap_put_def slot_put_def live_in_def live_def space_len_def fun_eq_iff split: space.splits)
  show "sp \<noteq> Shapes \<Longrightarrow> payload_at (heap_put h n (P_Shape sh)) sp k = payload_at h sp k"
    by (cases sp) (simp_all add: heap_put_def payload_at_def)
  show "root_refs (heap_put h n (P_Shape sh)) = root_refs h"
    by (simp add: heap_put_def root_refs_def)
qed

lemma heap_alloc_shape:
  assumes safe: "heap_safe h" and ok: "storable h (P_Shape sh)" and a: "heap_alloc h (P_Shape sh) = Some (c, h')"
  shows "heap_safe h'" "unat c \<notin> live_in h Shapes"
    "live_in h' sp = (if sp = Shapes then insert (unat c) (live_in h sp) else live_in h sp)"
    "shape_at h' (unat c) = sh" "n \<in> live_in h Shapes \<Longrightarrow> shape_at h' n = shape_at h n"
    "space_len h sp \<le> space_len h' sp" "root_refs h' = root_refs h"
    "sp \<noteq> Shapes \<Longrightarrow> payload_at h' sp k = payload_at h sp k"
proof -
  from a obtain st where st: "alloc shape_default sh (shapes h) = Some (c, st)" "h' = h\<lparr>shapes := st\<rparr>"
    by (auto simp: heap_alloc_def)
  have wf: "space_wf shape_default (shapes h)" using safe by (simp add: heap_safe_def spaces_wf_def)
  show "heap_safe h'" by (rule heap_alloc_safe(1) [OF safe ok a])
  show "unat c \<notin> live_in h Shapes" using heap_alloc_safe(2) [OF safe ok a] by simp
  show "shape_at h' (unat c) = sh" using heap_alloc_safe(3) [OF safe ok a] by (simp add: payload_shape)
  show "n \<in> live_in h Shapes \<Longrightarrow> shape_at h' n = shape_at h n"
    using heap_alloc_safe(4) [OF safe ok a, of n Shapes] by (simp add: payload_shape)
  show "live_in h' sp = (if sp = Shapes then insert (unat c) (live_in h sp) else live_in h sp)"
    using alloc_facts(2) [OF wf st(1)] by (simp add: st(2) live_in_def split: space.splits)
  show "space_len h sp \<le> space_len h' sp"
    using alloc_facts(5) [OF wf st(1)] by (simp add: st(2) space_len_def split: space.splits)
  show "root_refs h' = root_refs h" "sp \<noteq> Shapes \<Longrightarrow> payload_at h' sp k = payload_at h sp k"
    by (simp_all add: st(2) root_refs_def payload_at_def split: space.splits)
qed

lemma publish_child_spec:
  assumes safe: "heap_safe h" and par: "unat par \<in> live_in h Shapes" and ok: "storable h (P_Shape child)"
    and p: "publish_child h par key at child = Some (c, h2)"
  shows "heap_safe h2" "unat c \<notin> live_in h Shapes"
    "live_in h2 sp = (if sp = Shapes then insert (unat c) (live_in h sp) else live_in h sp)"
    "shape_at h2 (unat c) = child"
    "shape_at h2 (unat par) = (shape_at h (unat par))
       \<lparr>transitions := transitions_insert (transitions (shape_at h (unat par))) key at c\<rparr>"
    "n \<in> live_in h Shapes \<Longrightarrow> n \<noteq> unat par \<Longrightarrow> shape_at h2 n = shape_at h n" "root_refs h2 = root_refs h"
    "sp \<noteq> Shapes \<Longrightarrow> payload_at h2 sp k = payload_at h sp k"
proof -
  let ?ps = "shape_at h (unat par)"
  let ?new = "?ps\<lparr>transitions := transitions_insert (transitions ?ps) key at c\<rparr>"
  from p obtain h1 where a: "heap_alloc h (P_Shape child) = Some (c, h1)"
    and m: "modify_shape h1 par (\<lambda>s. s\<lparr>transitions := transitions_insert (transitions s) key at c\<rparr>) = Some h2"
    by (auto simp: publish_child_def bind_eq_Some_conv)
  note al = heap_alloc_shape [OF safe ok a]
  have par1: "unat par \<in> live_in h1 Shapes" using par by (simp add: al)
  have s1: "shape_at h1 (unat par) = ?ps" by (rule al(5) [OF par])
  have h2: "h2 = heap_put h1 (unat par) (P_Shape ?new)"
    using m by (simp add: modify_shape_def get_shape_live [OF par1] s1)
  note put = heap_put_shape [OF par1, where sh = ?new, folded h2]
  have ne: "unat c \<noteq> unat par" using al(2) par by auto
  have e: "edges_ok h ?ps" by (rule heap_safe_shape(1) [OF safe par])
  have "unat c < space_len h1 Shapes" by (rule live_in_len) (simp add: al)
  then have "edges_ok h1 ?new"
    using e al(6) [of Shapes]
    by (fastforce simp: edges_ok_get transitions_insert_edges transitions_get_insert split: if_splits)
  moreover have "refs_live h1 (payload_refs (P_Shape ?new))"
    using heap_safe_shape(2) [OF al(1) par1] by (simp add: s1 trace_shape_def)
  ultimately have "storable h1 (P_Shape ?new)" by (simp add: storable_def)
  then show "heap_safe h2" unfolding h2 using par1 by (intro heap_put_safe al(1)) simp_all
  show "unat c \<notin> live_in h Shapes" by (rule al(2))
  show "live_in h2 sp = (if sp = Shapes then insert (unat c) (live_in h sp) else live_in h sp)"
    by (simp add: put al)
  show "shape_at h2 (unat c) = child" "shape_at h2 (unat par) = ?new" using ne by (simp_all add: put al)
  show "n \<in> live_in h Shapes \<Longrightarrow> n \<noteq> unat par \<Longrightarrow> shape_at h2 n = shape_at h n" by (simp add: put al)
  show "root_refs h2 = root_refs h" by (simp add: put al)
  show "sp \<noteq> Shapes \<Longrightarrow> payload_at h2 sp k = payload_at h sp k" by (simp add: put al)
qed

section \<open>The coherent tree\<close>

text \<open>
  An edge \<open>(k, a)\<close> from the shape at \<open>n\<close> leads to a live shape that extends it by exactly one
  data property at the next slot.
\<close>

definition edge_extends :: "heap \<Rightarrow> nat \<Rightarrow> prop_key \<Rightarrow> attrs \<Rightarrow> handle \<Rightarrow> bool" where
  "edge_extends h n k a c \<longleftrightarrow>
     unat c \<in> live_in h Shapes \<and>
     (let ps = shape_at h n; cs = shape_at h (unat c) in
        parent cs = Some (word_of_nat n) \<and>
        descriptors_as_slice (descriptors cs) = descriptors_as_slice (descriptors ps) @ [Data k (num_own ps) a] \<and>
        num_own cs = num_own ps + 1 \<and> proto_cell cs = proto_cell ps)"

definition tree_ok :: "heap \<Rightarrow> bool" where
  "tree_ok h \<longleftrightarrow> (\<forall>n \<in> live_in h Shapes. descriptors_wf (descriptors (shape_at h n)) \<and>
     (\<forall>k a c. transitions_get (transitions (shape_at h n)) k a = Some c \<longrightarrow> edge_extends h n k a c))"

lemma edge_extends_cong:
  assumes "edge_extends h n k a c" "n \<in> live_in h Shapes" "live_in h Shapes \<subseteq> live_in h' Shapes"
    and "\<And>m. m \<in> live_in h Shapes \<Longrightarrow> \<exists>t. shape_at h' m = (shape_at h m)\<lparr>transitions := t\<rparr>"
  shows "edge_extends h' n k a c"
proof -
  from assms(1) have c: "unat c \<in> live_in h Shapes" by (simp add: edge_extends_def)
  from assms(4) [OF c] assms(4) [OF assms(2)] assms(1,3) c show ?thesis
    by (auto simp: edge_extends_def Let_def)
qed

lemma refs_live_child:
  assumes safe: "heap_safe h" and par: "unat par \<in> live_in h Shapes" and wf: "descriptors_wf (descriptors (shape_at h (unat par)))"
    and d: "refs_live h (trace_descriptor d)"
  shows "storable h (P_Shape (child_shape par (shape_at h (unat par)) d))"
proof -
  have "refs_live h (concat (map trace_descriptor (descriptors_as_slice (descriptors (shape_at h (unat par))))))"
    using heap_safe_shape(2) [OF safe par] by (simp add: trace_shape_def)
  with par d wf show ?thesis
    by (simp add: storable_def trace_shape_def child_shape_def trace_handle_def edges_ok_get transitions_get_edges)
qed

lemma find_push:
  assumes "descriptors_wf ds" "descriptors_len ds < 2 ^ 32"
  shows "descriptors_find (descriptors_push ds d) k =
    (case descriptors_find ds k of Some x \<Rightarrow> Some x | None \<Rightarrow> if desc_key d = k then Some d else None)"
proof -
  have fa: "find P (xs @ [x]) = (case find P xs of None \<Rightarrow> if P x then Some x else None | r \<Rightarrow> r)"
    for P and xs :: "descriptor list" and x
    by (induction xs) auto
  show ?thesis
    using assms by (simp add: descriptors_find_wf descriptors_len_def fa split: option.splits)
qed

lemma add_property_fresh:
  assumes safe: "heap_safe h" and tree: "tree_ok h" and par: "unat par \<in> live_in h Shapes"
    and key: "refs_live h (trace_descriptor (Data key (num_own (shape_at h (unat par))) at))"
    and new: "transitions_get (transitions (shape_at h (unat par))) key at = None"
    and p: "add_property h par key at = Some (c, h')"
  shows "heap_safe h'" "tree_ok h'" "unat c \<in> live_in h' Shapes" "live_in h sp \<subseteq> live_in h' sp"
    "shape_at h' (unat c) = child_shape par (shape_at h (unat par)) (Data key (num_own (shape_at h (unat par))) at)"
    "n \<in> live_in h Shapes \<Longrightarrow> \<exists>t. shape_at h' n = (shape_at h n)\<lparr>transitions := t\<rparr>"
    "transitions_get (transitions (shape_at h' (unat par))) key at = Some c"
proof -
  let ?ps = "shape_at h (unat par)" and ?d = "Data key (num_own (shape_at h (unat par))) at"
  let ?child = "child_shape par ?ps ?d"
  have dwf: "descriptors_wf (descriptors ?ps)" using tree par by (simp add: tree_ok_def)
  have st: "storable h (P_Shape ?child)" by (rule refs_live_child [OF safe par dwf key])
  from p new have pub: "publish_child h par key at ?child = Some (c, h')"
    by (simp add: add_property_def get_shape_live [OF par])
  note P = publish_child_spec [OF safe par st pub]
  have twf: "transitions_wf (transitions ?ps)" using heap_safe_shape(1) [OF safe par] by (simp add: edges_ok_def)
  show "heap_safe h'" "shape_at h' (unat c) = ?child" by (rule P)+
  show "unat c \<in> live_in h' Shapes" "live_in h sp \<subseteq> live_in h' sp" by (auto simp: P(3))
  show same: "\<exists>t. shape_at h' n = (shape_at h n)\<lparr>transitions := t\<rparr>" if "n \<in> live_in h Shapes" for n
  proof (cases "n = unat par")
    case True
    then show ?thesis using P(5) by blast
  next
    case False
    then have "shape_at h' n = (shape_at h n)\<lparr>transitions := transitions (shape_at h n)\<rparr>"
      by (simp add: P(6) [OF that])
    then show ?thesis by blast
  qed
  show "transitions_get (transitions (shape_at h' (unat par))) key at = Some c"
    by (simp add: P(5) transitions_get_insert [OF twf])
  have lv: "live_in h Shapes \<subseteq> live_in h' Shapes" by (auto simp: P(3))
  have ext: "edge_extends h' (unat par) key at c"
    using P(4,5) par dwf by (simp add: edge_extends_def Let_def P(3) child_shape_def)
  show "tree_ok h'"
    unfolding tree_ok_def
  proof
    fix n assume n: "n \<in> live_in h' Shapes"
    show "descriptors_wf (descriptors (shape_at h' n)) \<and>
     (\<forall>k a c. transitions_get (transitions (shape_at h' n)) k a = Some c \<longrightarrow> edge_extends h' n k a c)"
    proof (cases "n = unat c")
      case True
      then show ?thesis using dwf by (simp add: P(4) child_shape_def transitions_get_edges)
    next
      case False
      with n have nl: "n \<in> live_in h Shapes" by (simp add: P(3))
      have old: "edge_extends h' n k a x" if "transitions_get (transitions (shape_at h n)) k a = Some x" for k a x
        using tree nl that by (intro edge_extends_cong [OF _ nl lv same]) (auto simp: tree_ok_def)
      have "edge_extends h' n k a x" if g: "transitions_get (transitions (shape_at h' n)) k a = Some x" for k a x
      proof (cases "n = unat par")
        case True
        with g ext old show ?thesis by (auto simp: P(5) transitions_get_insert [OF twf] split: if_splits)
      next
        case False
        with g old nl show ?thesis by (simp add: P(6))
      qed
      moreover have "descriptors_wf (descriptors (shape_at h' n))"
        using same [OF nl] tree nl by (auto simp: tree_ok_def)
      ultimately show ?thesis by blast
    qed
  qed
qed


lemma heap_new_shapes: "slots (shapes heap_new) = [shape_root, shape_reserved PROMISE_INTERNAL_SLOTS]"
  "live_in heap_new Shapes = {0, 1}"
  by (auto simp: heap_new_def space_new_def live_in_def live_def less_Suc_eq)

lemma heap_new_tree: "tree_ok heap_new"
  by (auto simp: tree_ok_def heap_new_shapes shape_at_def shape_root_def shape_reserved_def shape_default_def
      transitions_get_edges)

lemma demo_add: "\<exists>c h'. add_property heap_new 0 0 ATTRS_DEFAULT = Some (c, h')"
proof -
  have get: "get_shape heap_new 0 = Some shape_root"
    by (simp add: get_shape_def slot_get_def list_get_def heap_new_shapes)
  have "\<exists>c h'. publish_child heap_new 0 0 ATTRS_DEFAULT (child_shape 0 shape_root (Data 0 0 ATTRS_DEFAULT)) = Some (c, h')"
    by (simp add: publish_child_def heap_alloc_def heap_new_def alloc_def space_new_def alloc_loop.simps
        sweep_step_def Let_def modify_shape_def get_shape_def slot_get_def list_get_def)
  then show ?thesis
    by (simp add: add_property_def get shape_root_def shape_default_def transitions_get_edges)
qed




section \<open>Slots of a layout\<close>

definition slots_of :: "descriptor list \<Rightarrow> u32 list" where
  "slots_of ds = List.map_filter desc_slot ds"

text \<open>The data properties of a layout have distinct slots below \<open>num_own\<close>.\<close>

definition layout_ok :: "descriptor list \<Rightarrow> u32 \<Rightarrow> bool" where
  "layout_ok ds n \<longleftrightarrow> distinct (slots_of ds) \<and> (\<forall>s \<in> set (slots_of ds). s < n)"

lemma slots_of_simps [simp]:
  "slots_of [] = []" "slots_of (Data k s a # ds) = s # slots_of ds" "slots_of (Accessor k g t a # ds) = slots_of ds"
  "slots_of (ds @ ds') = slots_of ds @ slots_of ds'"
  by (simp_all add: slots_of_def List.map_filter_def)

lemma word_less_suc: "n \<noteq> - 1 \<Longrightarrow> s < n + 1 \<longleftrightarrow> s \<le> n" for n :: "'a::len word"
proof -
  assume "n \<noteq> - 1"
  then have "1 + n \<noteq> 0" by (metis add.commute eq_neg_iff_add_eq_0)
  from unatSuc [OF this] show ?thesis by (simp add: word_less_nat_alt word_le_nat_alt add.commute less_Suc_eq_le)
qed

lemma layout_ok_push:
  assumes "layout_ok ds n" "n \<noteq> - 1"
  shows "layout_ok (ds @ [Data k n a]) (n + 1)" "layout_ok (ds @ [Accessor k g s a]) (n + 1)"
  using assms by (auto simp: layout_ok_def word_less_suc)

lemma slots_of_replace:
  assumes "find (\<lambda>d. desc_key d = key) ds = Some d" "desc_slot (f d) = desc_slot d"
  shows "slots_of (replace_first key f ds) = slots_of ds"
  using assms
proof (induction ds)
  case (Cons x ds)
  have one: "slots_of (y # ds) = (case desc_slot y of Some s \<Rightarrow> s # slots_of ds | None \<Rightarrow> slots_of ds)" for y
    by (cases y) simp_all
  have one': "slots_of (y # replace_first key f ds)
      = (case desc_slot y of Some s \<Rightarrow> s # slots_of (replace_first key f ds) | None \<Rightarrow> slots_of (replace_first key f ds))" for y
    by (cases y) simp_all
  show ?case
  proof (cases "desc_key x = key")
    case True
    with Cons.prems show ?thesis by (simp add: one)
  next
    case False
    with Cons show ?thesis by (simp add: one one' split: option.splits)
  qed
qed simp

lemma reconfigured_layout:
  assumes "layout_ok (descriptors_as_slice (descriptors ps)) (num_own ps)" "num_own ps \<noteq> - 1"
    and "\<And>k g s a. find (\<lambda>d. desc_key d = key) (descriptors_as_slice (descriptors ps)) \<noteq> Some (Accessor k g s a)"
  shows "layout_ok (fst (reconfigured ps key at)) (snd (reconfigured ps key at))"
proof (cases "find (\<lambda>d. desc_key d = key) (descriptors_as_slice (descriptors ps))")
  case None
  then have "key \<notin> desc_key ` set (descriptors_as_slice (descriptors ps))" by (auto simp: find_None_iff)
  with assms(1,2) show ?thesis by (simp add: reconfigured_def Let_def layout_ok_push)
next
  case (Some d)
  with assms(3) obtain k s a where d: "d = Data k s a" by (cases d) auto
  from Some have "d \<in> set (descriptors_as_slice (descriptors ps))" "desc_key d = key"
    by (auto simp: find_Some_iff)
  then have mem: "key \<in> desc_key ` set (descriptors_as_slice (descriptors ps))" by force
  let ?f = "\<lambda>x. Data key (case desc_slot x of Some s \<Rightarrow> s | None \<Rightarrow> num_own ps) at"
  have "slots_of (replace_first key ?f (descriptors_as_slice (descriptors ps))) = slots_of (descriptors_as_slice (descriptors ps))"
    by (rule slots_of_replace [OF Some]) (simp add: d)
  with mem assms(1) show ?thesis by (simp add: reconfigured_def Let_def layout_ok_def)
qed

text \<open>
  Reconfiguring an accessor into a data property takes slot \<open>num_own\<close> without advancing it, so
  the next property added to the result is given the same slot.
\<close>

lemma update_data_attrs_slot_collision:
  assumes "find (\<lambda>d. desc_key d = key) (descriptors_as_slice (descriptors ps)) = Some (Accessor k g s a)"
    and "reconfigured ps key at = (list, n)"
  shows "n = num_own ps \<and> n \<in> set (slots_of list) \<and> \<not> distinct (slots_of (list @ [Data key' n at']))"
proof -
  let ?ds = "descriptors_as_slice (descriptors ps)"
  from assms(1) have mem: "Accessor k g s a \<in> set ?ds" and "desc_key (Accessor k g s a) = key"
    unfolding find_Some_iff by (metis nth_mem)+
  then have "k = key" by simp
  with mem have "key \<in> desc_key ` set ?ds" by force
  with assms(2) have l: "list = replace_first key (\<lambda>d. Data key (case desc_slot d of Some s \<Rightarrow> s | None \<Rightarrow> num_own ps) at) ?ds"
    "n = num_own ps" by (simp_all add: reconfigured_def Let_def)
  have one: "set (slots_of ds) \<subseteq> set (slots_of (y # ds))" for y ds by (cases y) auto
  have "find (\<lambda>d. desc_key d = key) ds = Some (Accessor k g s a) \<Longrightarrow>
      m \<in> set (slots_of (replace_first key (\<lambda>d. Data key (case desc_slot d of Some s \<Rightarrow> s | None \<Rightarrow> m) at) ds))" for ds m
    using one by (induction ds) (auto split: if_splits)
  from this [OF assms(1)] have "n \<in> set (slots_of list)" by (simp add: l)
  then show ?thesis by (simp add: l(2))
qed

text \<open>
  Slots stay distinct. If the data properties of a shape have distinct slots below
  \<open>num_own\<close> and \<open>num_own\<close> is not exhausted, then so do those of every shape derived from it by
  adding a property, by defining an accessor (fresh, or merged into an existing one), and by
  reconfiguring attributes of a key that is absent or described as data.
\<close>

theorem layout_slots_distinct:
  assumes "layout_ok (descriptors_as_slice (descriptors ps)) (num_own ps)" "num_own ps \<noteq> - 1"
    "descriptors_wf (descriptors ps)"
  shows "(\<forall>par key at. let cs = child_shape par ps (Data key (num_own ps) at) in
       layout_ok (descriptors_as_slice (descriptors cs)) (num_own cs)) \<and>
    (\<forall>par key g s at. let cs = child_shape par ps (Accessor key g s at) in
       layout_ok (descriptors_as_slice (descriptors cs)) (num_own cs)) \<and>
    (\<forall>key k g s a getter setter at cs. find (\<lambda>d. desc_key d = key) (descriptors_as_slice (descriptors ps)) = Some (Accessor k g s a) \<longrightarrow>
       merge_accessor ps key g s getter setter at = Some cs \<longrightarrow>
       layout_ok (descriptors_as_slice (descriptors cs)) (num_own cs)) \<and>
    (\<forall>key at. (\<forall>k g s a. find (\<lambda>d. desc_key d = key) (descriptors_as_slice (descriptors ps)) \<noteq> Some (Accessor k g s a)) \<longrightarrow>
       layout_ok (fst (reconfigured ps key at)) (snd (reconfigured ps key at)))"
proof (intro conjI allI impI)
  show "let cs = child_shape par ps (Data key (num_own ps) at) in
       layout_ok (descriptors_as_slice (descriptors cs)) (num_own cs)" for par key at
    using assms by (simp add: child_shape_def layout_ok_push)
  show "let cs = child_shape par ps (Accessor key g s at) in
       layout_ok (descriptors_as_slice (descriptors cs)) (num_own cs)" for par key g s at
    using assms by (simp add: child_shape_def layout_ok_push)
  show "layout_ok (descriptors_as_slice (descriptors cs)) (num_own cs)"
    if f: "find (\<lambda>d. desc_key d = key) (descriptors_as_slice (descriptors ps)) = Some (Accessor k g s a)"
      and m: "merge_accessor ps key g s getter setter at = Some cs" for key k g s a getter setter at cs
  proof -
    have "slots_of (replace_first key (\<lambda>_. Accessor key x y at) (descriptors_as_slice (descriptors ps)))
        = slots_of (descriptors_as_slice (descriptors ps))" for x y
      by (rule slots_of_replace [OF f]) simp
    with m assms(1) show ?thesis by (auto simp: merge_accessor_def Let_def layout_ok_def split: if_splits)
  qed
  show "layout_ok (fst (reconfigured ps key at)) (snd (reconfigured ps key at))"
    if "\<forall>k g s a. find (\<lambda>d. desc_key d = key) (descriptors_as_slice (descriptors ps)) \<noteq> Some (Accessor k g s a)" for key at
    using that by (intro reconfigured_layout assms) blast
qed

lemma layout_slots_distinct_witness:
  "let cs = child_shape 0 (shape_reserved 3) (Data 5 3 ATTRS_DEFAULT) in
     layout_ok (descriptors_as_slice (descriptors cs)) (num_own cs)"
proof -
  have "layout_ok (descriptors_as_slice (descriptors (shape_reserved 3))) (num_own (shape_reserved 3))"
    "num_own (shape_reserved 3) \<noteq> - 1" "descriptors_wf (descriptors (shape_reserved 3))"
    "num_own (shape_reserved 3) = 3"
    by (simp_all add: shape_reserved_def shape_default_def layout_ok_def)
  from layout_slots_distinct [OF this(1-3)] this(4) show ?thesis by metis
qed

section \<open>Validity guards\<close>

lemma validity_serial_bump:
  "validity_serial (bump_validity b h) cell =
     (if b = cell then map_option (\<lambda>s. s + 1) (validity_serial h cell) else validity_serial h cell)"
proof -
  have pos: "unat c \<noteq> 0" if "c \<noteq> 0" for c :: u32 using that by (simp add: unsigned_eq_0_iff)
  have inj: "unat b - 1 \<noteq> unat cell - 1" if "b \<noteq> cell" "b \<noteq> 0" "cell \<noteq> 0"
  proof
    assume "unat b - 1 = unat cell - 1"
    then have "unat b = unat cell" using pos [of b] pos [of cell] that by linarith
    with that(1) show False by simp
  qed
  show ?thesis
    using inj
    by (auto simp: bump_validity_def validity_serial_def VALIDITY_NONE_def list_get_def nth_list_update split: option.splits)
qed

lemma validity_serial_bumps:
  "validity_serial (fold bump_validity bs h) cell =
     map_option (\<lambda>s. s + of_nat (count_list bs cell)) (validity_serial h cell)"
proof (induction bs arbitrary: h)
  case (Cons b bs)
  show ?case by (cases "validity_serial h cell") (auto simp: Cons validity_serial_bump algebra_simps)
qed (simp add: option.map_ident)

text \<open>
  A guard fails exactly when its cell was bumped. A guard that holds still holds after
  any sequence of bumps if and only if the number of bumps of its own cell is a multiple of
  \<open>2 ^ 32\<close>: bumps of other cells never fail it, and one bump always does; the null cell's guard
  never holds.
\<close>

theorem guard_tracks_bumps:
  assumes "guard_holds h cell serial"
  shows "(guard_holds (fold bump_validity bs h) cell serial \<longleftrightarrow> 2 ^ 32 dvd count_list bs cell)
    \<and> cell \<noteq> VALIDITY_NONE"
proof -
  have "guard_holds (fold bump_validity bs h) cell serial \<longleftrightarrow> (of_nat (count_list bs cell) :: u32) = 0"
    using assms by (simp add: guard_holds_def validity_serial_bumps)
  also have "\<dots> \<longleftrightarrow> 2 ^ 32 dvd count_list bs cell"
    by (simp add: word_of_nat_eq_0_iff)
  finally show ?thesis using assms by (auto simp: guard_holds_def validity_serial_def)
qed

lemma guard_tracks_bumps_witness:
  "\<not> guard_holds (fold bump_validity [2, 1] (heap_new\<lparr>validity_cells := [7, 9]\<rparr>)) 1 7"
proof -
  have "guard_holds (heap_new\<lparr>validity_cells := [7, 9]\<rparr>) 1 7"
    by (simp add: guard_holds_def validity_serial_def VALIDITY_NONE_def)
  from guard_tracks_bumps [OF this, of "[2, 1]"] show ?thesis by simp
qed

section \<open>The guarded probe answers from the live chain\<close>

text \<open>Every proto entry's holder is one of the links it recorded.\<close>

definition chain_entries :: "stub_cache \<Rightarrow> bool" where
  "chain_entries c \<longleftrightarrow> (\<forall>sh key e. probe c sh key = Some e \<longrightarrow> link0 e \<noteq> None \<longrightarrow>
     link0 e = Some (holder e) \<or> link1 e = Some (holder e))"

definition stubs_ok :: "heap \<Rightarrow> bool" where
  "stubs_ok h \<longleftrightarrow> stub_wf (stubs h) \<and> chain_entries (stubs h)"

lemma place_chain:
  assumes wf: "stub_wf c" and ch: "chain_entries c" and st: "stamp e = generation c"
    and e: "link0 e \<noteq> None \<longrightarrow> link0 e = Some (holder e) \<or> link1 e = Some (holder e)"
  shows "chain_entries (place c (entry_hash e) e)"
  unfolding chain_entries_def
proof (intro allI impI)
  fix sh key x
  assume x: "probe (place c (entry_hash e) e) sh key = Some x" "link0 x \<noteq> None"
  show "link0 x = Some (holder x) \<or> link1 x = Some (holder x)"
  proof (cases "names sh key e")
    case True
    with place_wf(3) [OF wf st] x(1) have "x = e" by (simp add: names_def)
    with e x(2) show ?thesis by simp
  next
    case False
    from place_wf(4) [OF wf st x(1) False] ch x(2) show ?thesis by (simp add: chain_entries_def)
  qed
qed

lemma record_proto_place:
  "record_proto c sh key hold hs slot l0 l1 mid gen =
     place c (entry_hash \<lparr>stamp = generation c, stub_shape = sh, stub_key = key, stub_index = slot, holder = hold,
        holder_shape = hs, link0 = l0, link1 = l1, mid_shape = mid, proto_gen = gen\<rparr>)
      \<lparr>stamp = generation c, stub_shape = sh, stub_key = key, stub_index = slot, holder = hold,
        holder_shape = hs, link0 = l0, link1 = l1, mid_shape = mid, proto_gen = gen\<rparr>"
  by (simp add: record_proto_def entry_hash_def)

lemma record_proto_ok:
  assumes "stub_wf c" "chain_entries c" "l0 \<noteq> None \<longrightarrow> l0 = Some hold \<or> l1 = Some hold"
  shows "stub_wf (record_proto c sh key hold hs slot l0 l1 mid gen)"
    "chain_entries (record_proto c sh key hold hs slot l0 l1 mid gen)"
    "\<exists>g. probe (record_proto c sh key hold hs slot l0 l1 mid gen) sh key =
      Some \<lparr>stamp = g, stub_shape = sh, stub_key = key, stub_index = slot, holder = hold,
        holder_shape = hs, link0 = l0, link1 = l1, mid_shape = mid, proto_gen = gen\<rparr>"
proof -
  let ?e = "\<lparr>stamp = generation c, stub_shape = sh, stub_key = key, stub_index = slot, holder = hold,
        holder_shape = hs, link0 = l0, link1 = l1, mid_shape = mid, proto_gen = gen\<rparr>"
  have st: "stamp ?e = generation c" by simp
  show "stub_wf (record_proto c sh key hold hs slot l0 l1 mid gen)"
    unfolding record_proto_place by (rule place_wf(1) [OF assms(1) st])
  show "chain_entries (record_proto c sh key hold hs slot l0 l1 mid gen)"
    unfolding record_proto_place using assms by (intro place_chain) simp_all
  show "\<exists>g. probe (record_proto c sh key hold hs slot l0 l1 mid gen) sh key =
      Some \<lparr>stamp = g, stub_shape = sh, stub_key = key, stub_index = slot, holder = hold,
        holder_shape = hs, link0 = l0, link1 = l1, mid_shape = mid, proto_gen = gen\<rparr>"
    unfolding record_proto_place using place_wf(3) [OF assms(1) st] by auto
qed

lemma get_object_stubs [simp]: "get_object (h\<lparr>stubs := c\<rparr>) ob = get_object h ob"
  by (simp add: get_object_def)

lemma observe_chain_stubs [simp]: "observe_chain (h\<lparr>stubs := c\<rparr>) r = observe_chain h r"
  unfolding observe_chain_def get_object_stubs ..

lemma stub_lookup_proto_sound:
  assumes ok: "stubs_ok h" and hit: "stub_lookup_proto h receiver sh key = Some (Some (t, slot))"
  obtains (Own) e where "probe (stubs h) sh key = Some e" "slot = stub_index e" "link0 e = None" "t = receiver"
  | (Chain) e l0 l1 x where "probe (stubs h) sh key = Some e" "slot = stub_index e"
    "observe_chain h receiver = Some (l0, l1, mid_shape e)" "link0 e = l0" "link1 e = l1"
    "l0 = Some t \<or> l1 = Some t" "get_object h t = Some x" "obj_shape x = holder_shape e"
proof -
  from hit obtain l0 l1 mid where ob: "observe_chain h receiver = Some (l0, l1, mid)"
    and k: "(case lookup_proto (stubs h) receiver sh key (proto_generation h) l0 l1 mid of
         None \<Rightarrow> Some None
       | Some hit \<Rightarrow>
           if hit_is_own hit then Some (Some (hit_target hit, hit_slot hit))
           else map_option (\<lambda>t. if obj_shape t \<noteq> hit_holder_shape hit then None
                                else Some (hit_target hit, hit_slot hit)) (get_object h (hit_target hit))) = Some (Some (t, slot))"
    by (auto simp: stub_lookup_proto_def bind_eq_Some_conv)
  have wf: "stub_wf (stubs h)" and ch: "chain_entries (stubs h)" using ok by (simp_all add: stubs_ok_def)
  from k obtain e where e: "probe (stubs h) sh key = Some e" "verified e (proto_generation h) l0 l1 mid"
    and rest: "if link0 e = None then t = receiver \<and> slot = stub_index e
       else t = holder e \<and> slot = stub_index e \<and> (\<exists>x. get_object h (holder e) = Some x \<and> obj_shape x = holder_shape e)"
    unfolding lookup_proto_probe [OF wf]
    by (auto simp: hit_of_def split: option.splits if_splits)
  show thesis
  proof (cases "link0 e = None")
    case True
    with rest e(1) show thesis by (intro Own) auto
  next
    case False
    with e(2) have v: "l0 = link0 e" "l1 = link1 e" "mid = mid_shape e" by (auto simp: verified_def)
    from False rest obtain x where x: "t = holder e" "slot = stub_index e" "get_object h t = Some x" "obj_shape x = holder_shape e"
      by auto
    have "link0 e = Some (holder e) \<or> link1 e = Some (holder e)"
      using ch e(1) False by (auto simp: chain_entries_def)
    with e(1) ob v x show thesis by (intro Chain [of e l0 l1 x]) auto
  qed
qed

lemma stub_record_then_lookup:
  assumes ok: "stubs_ok h" and rec: "stub_record_proto h receiver sh key owner os slot = Some (True, h')"
    and ob: "observe_chain h receiver \<noteq> None"
    and os: "owner \<noteq> receiver \<Longrightarrow> \<exists>x. get_object h owner = Some x \<and> obj_shape x = os"
  shows "stubs_ok h' \<and> stub_lookup_proto h' receiver sh key = Some (Some (owner, slot))"
proof -
  have wf: "stub_wf (stubs h)" "chain_entries (stubs h)" using ok by (simp_all add: stubs_ok_def)
  obtain l0 l1 mid where o: "observe_chain h receiver = Some (l0, l1, mid)" using ob by auto
  show ?thesis
  proof (cases "owner = receiver")
    case True
    define c where "c = record_proto (stubs h) sh key owner os slot None None U32_MAX (proto_generation h)"
    note r = record_proto_ok [OF wf, of None owner None sh key os slot U32_MAX "proto_generation h", folded c_def]
    from rec True have h': "h' = h\<lparr>stubs := c\<rparr>" by (simp add: stub_record_proto_def c_def)
    from r(3) obtain g where "probe c sh key = Some \<lparr>stamp = g, stub_shape = sh, stub_key = key, stub_index = slot,
        holder = owner, holder_shape = os, link0 = None, link1 = None, mid_shape = U32_MAX, proto_gen = proto_generation h\<rparr>"
      by auto
    with r(1,2) True o show ?thesis
      by (simp add: h' stubs_ok_def stub_lookup_proto_def lookup_proto_probe verified_def hit_of_def)
  next
    case False
    with rec o have link: "l0 = Some owner \<or> l1 = Some owner"
      and h': "h' = h\<lparr>stubs := record_proto (stubs h) sh key owner os slot l0 l1 mid (proto_generation h)\<rparr>"
      by (auto simp: stub_record_proto_def split: if_splits)
    have l0: "l0 \<noteq> None"
      using o link by (auto simp: observe_chain_def bind_eq_Some_conv split: option.splits)
    define c where "c = record_proto (stubs h) sh key owner os slot l0 l1 mid (proto_generation h)"
    note r = record_proto_ok [OF wf, of l0 owner l1 sh key os slot mid "proto_generation h", folded c_def]
    from r(3) link obtain g where "probe c sh key = Some \<lparr>stamp = g, stub_shape = sh, stub_key = key, stub_index = slot,
        holder = owner, holder_shape = os, link0 = l0, link1 = l1, mid_shape = mid, proto_gen = proto_generation h\<rparr>"
      by auto
    with r(1,2) link l0 o os [OF False] show ?thesis
      by (auto simp: h' c_def [symmetric] stubs_ok_def stub_lookup_proto_def lookup_proto_probe verified_def hit_of_def)
  qed
qed

text \<open>
  C8. A guarded probe answers from the chain as it is now. When \<open>stub_lookup_proto\<close> hits, the
  answer is the receiver itself (an own entry, of the receiver's shape) or one of the first
  two objects of its current prototype chain, whose shape is still the one recorded, with the
  links and the intermediate shape unchanged since the record. Recording a hit that lies
  within two links makes the very next probe return it, and the cache stays in order.
\<close>

theorem stub_probe_exact:
  assumes "stubs_ok h"
  shows "(\<forall>receiver sh key t slot. stub_lookup_proto h receiver sh key = Some (Some (t, slot)) \<longrightarrow>
      (\<exists>e. probe (stubs h) sh key = Some e \<and> slot = stub_index e \<and>
        ((link0 e = None \<and> t = receiver) \<or>
         (\<exists>x. observe_chain h receiver = Some (link0 e, link1 e, mid_shape e) \<and>
            (link0 e = Some t \<or> link1 e = Some t) \<and> get_object h t = Some x \<and> obj_shape x = holder_shape e))))
    \<and> (\<forall>receiver sh key owner x slot h'.
        stub_record_proto h receiver sh key owner (obj_shape x) slot = Some (True, h') \<longrightarrow>
        get_object h owner = Some x \<longrightarrow> observe_chain h receiver \<noteq> None \<longrightarrow>
        stubs_ok h' \<and> stub_lookup_proto h' receiver sh key = Some (Some (owner, slot)))"
proof (intro conjI allI impI)
  fix receiver sh key t slot
  assume "stub_lookup_proto h receiver sh key = Some (Some (t, slot))"
  then show "\<exists>e. probe (stubs h) sh key = Some e \<and> slot = stub_index e \<and>
        ((link0 e = None \<and> t = receiver) \<or>
         (\<exists>x. observe_chain h receiver = Some (link0 e, link1 e, mid_shape e) \<and>
            (link0 e = Some t \<or> link1 e = Some t) \<and> get_object h t = Some x \<and> obj_shape x = holder_shape e))"
    by (cases rule: stub_lookup_proto_sound [OF assms]) auto
next
  fix receiver sh key owner x slot h'
  assume "stub_record_proto h receiver sh key owner (obj_shape x) slot = Some (True, h')"
    "get_object h owner = Some x" "observe_chain h receiver \<noteq> None"
  from stub_record_then_lookup [OF assms this(1,3)] this(2)
  show "stubs_ok h'" "stub_lookup_proto h' receiver sh key = Some (Some (owner, slot))" by auto
qed

definition demo_receiver_heap :: heap where
  "demo_receiver_heap = heap_new\<lparr>objects := \<lparr>slots = [js_obj_default], free = [], alive = [True],
     released = [False], sweep_cursor = 0, pending_dead = 0\<rparr>\<rparr>"

lemma stub_probe_exact_witness:
  "\<exists>h. stub_record_proto demo_receiver_heap 0 5 4 0 (obj_shape js_obj_default) 7 = Some (True, h) \<and>
     stubs_ok h \<and> stub_lookup_proto h 0 5 4 = Some (Some (0, 7))"
proof -
  have ok: "stubs_ok demo_receiver_heap"
    by (simp add: stubs_ok_def chain_entries_def heap_new_def demo_receiver_heap_def)
  have get: "get_object demo_receiver_heap 0 = Some js_obj_default"
    by (simp add: get_object_def demo_receiver_heap_def slot_get_def)
  then have chain: "observe_chain demo_receiver_heap 0 \<noteq> None"
    by (simp add: observe_chain_def js_obj_default_def)
  have "\<exists>h. stub_record_proto demo_receiver_heap 0 5 4 0 (obj_shape js_obj_default) 7 = Some (True, h)"
    by (simp add: stub_record_proto_def)
  then obtain h where r: "stub_record_proto demo_receiver_heap 0 5 4 0 (obj_shape js_obj_default) 7 = Some (True, h)"
    by blast
  from stub_probe_exact [OF ok, THEN conjunct2, rule_format, OF r get chain] r show ?thesis by blast
qed

end
