(* ===== verification/Floats.thy ===== *)
theory Floats
  imports JsValues
begin

text \<open>
  Double arithmetic as the primitive operations of the source language compute it: IEEE 754
  binary64 with rounding to nearest, ties to even, on the bit patterns of \<open>JsValues\<close>. Every
  operation is exact integer arithmetic followed by one rounding. A result that is not a
  number is the canonical quiet pattern; the language leaves its sign and payload open.
\<close>

section \<open>Casts from doubles\<close>

text \<open>
  \<open>f as i32\<close>, \<open>f as u32\<close>, \<open>f as u16\<close>: truncation towards zero, saturating at the bounds of the
  target, \<open>0\<close> for a NaN.
\<close>

definition f64_trunc :: "f64 \<Rightarrow> int" where
  "f64_trunc b =
     (let e = f64_exponent b; m = f64_fraction b; sgn = (if f64_sign b then -1 else 1);
          sig = (if e = 0 then m else m + 2 ^ 52); x = max e 1
      in if 1075 \<le> x then sgn * int (sig * 2 ^ (x - 1075)) else sgn * int (sig div 2 ^ (1075 - x)))"

definition f64_saturate :: "int \<Rightarrow> int \<Rightarrow> f64 \<Rightarrow> int" where
  "f64_saturate lo hi b =
     (if f64_exponent b = 2047 \<and> f64_fraction b \<noteq> 0 then 0
      else if f64_exponent b = 2047 then (if f64_sign b then lo else hi)
      else max lo (min hi (f64_trunc b)))"

definition f64_as_i32 :: "f64 \<Rightarrow> i32" where "f64_as_i32 b = word_of_int (f64_saturate (- (2 ^ 31)) (2 ^ 31 - 1) b)"
definition f64_as_u32 :: "f64 \<Rightarrow> u32" where "f64_as_u32 b = word_of_int (f64_saturate 0 (2 ^ 32 - 1) b)"
definition f64_as_u16 :: "f64 \<Rightarrow> u16" where "f64_as_u16 b = word_of_int (f64_saturate 0 (2 ^ 16 - 1) b)"

section \<open>Classes and values\<close>

definition f64_is_nan :: "f64 \<Rightarrow> bool" where "f64_is_nan b \<longleftrightarrow> f64_exponent b = 2047 \<and> f64_fraction b \<noteq> 0"
definition f64_is_infinite :: "f64 \<Rightarrow> bool" where "f64_is_infinite b \<longleftrightarrow> f64_exponent b = 2047 \<and> f64_fraction b = 0"
definition f64_is_finite :: "f64 \<Rightarrow> bool" where "f64_is_finite b \<longleftrightarrow> f64_exponent b \<noteq> 2047"

text \<open>A finite double is \<open>f64_mant\<close> units of \<open>2 ^ f64_scale\<close>.\<close>

definition f64_mant :: "f64 \<Rightarrow> int" where
  "f64_mant b = (if f64_sign b then -1 else 1) *
     int (if f64_exponent b = 0 then f64_fraction b else f64_fraction b + 2 ^ 52)"

definition f64_scale :: "f64 \<Rightarrow> int" where "f64_scale b = int (max (f64_exponent b) 1) - 1075"

definition F64_NAN :: f64 where "F64_NAN = QUIET_NAN_BITS"
definition f64_infinity :: "bool \<Rightarrow> f64" where "f64_infinity s = f64_pack s 2047 0"
definition f64_zero :: "bool \<Rightarrow> f64" where "f64_zero s = f64_pack s 0 0"

section \<open>Rounding\<close>

text \<open>\<open>m / 2 ^ d\<close> rounded to the nearest integer, ties to even.\<close>

definition round_half_even :: "nat \<Rightarrow> nat \<Rightarrow> nat" where
  "round_half_even m d =
     (let q = m div 2 ^ d; r = m mod 2 ^ d
      in if 2 ^ d < 2 * r \<or> (2 * r = 2 ^ d \<and> odd q) then q + 1 else q)"

text \<open>
  The double nearest to \<open>m * 2 ^ x\<close> with sign \<open>s\<close>. The unit of the last place is \<open>2 ^ q\<close>; the
  exponent and the fraction are added, so that a significand that rounds up to the next
  power of two carries into the exponent, and the largest exponent is infinity.
\<close>

definition f64_round :: "bool \<Rightarrow> nat \<Rightarrow> int \<Rightarrow> f64" where
  "f64_round s m x =
     (if m = 0 then f64_zero s
      else let q = max (x + int (bit_len m) - 53) (-1074);
               sig = (if q \<le> x then m * 2 ^ nat (x - q) else round_half_even m (nat (q - x)));
               n = min (nat (q + 1074) * 2 ^ 52 + sig) (2047 * 2 ^ 52)
        in word_of_nat ((if s then 2 ^ 63 else 0) + n))"

text \<open>
  The double nearest to \<open>n / d * 2 ^ x\<close>: enough bits of the quotient that the remainder only
  decides between the two sides of a tie.
\<close>

definition f64_quotient :: "bool \<Rightarrow> nat \<Rightarrow> nat \<Rightarrow> int \<Rightarrow> f64" where
  "f64_quotient s n d x =
     (let k = 55 + bit_len d; q = n * 2 ^ k div d; r = n * 2 ^ k mod d
      in f64_round s (2 * q + (if r = 0 then 0 else 1)) (x - int k - 1))"

section \<open>Arithmetic\<close>

definition f64_neg :: "f64 \<Rightarrow> f64" where "f64_neg b = b XOR 2 ^ 63"

definition f64_add :: "f64 \<Rightarrow> f64 \<Rightarrow> f64" where
  "f64_add a b =
     (if f64_is_nan a \<or> f64_is_nan b then F64_NAN
      else if f64_is_infinite a
        then (if f64_is_infinite b \<and> f64_sign a \<noteq> f64_sign b then F64_NAN else a)
      else if f64_is_infinite b then b
      else let x = min (f64_scale a) (f64_scale b);
               n = f64_mant a * 2 ^ nat (f64_scale a - x) + f64_mant b * 2 ^ nat (f64_scale b - x)
        in if n = 0 then f64_zero (f64_sign a \<and> f64_sign b) else f64_round (n < 0) (nat \<bar>n\<bar>) x)"

definition f64_sub :: "f64 \<Rightarrow> f64 \<Rightarrow> f64" where "f64_sub a b = f64_add a (f64_neg b)"

definition f64_mul :: "f64 \<Rightarrow> f64 \<Rightarrow> f64" where
  "f64_mul a b =
     (let s = (f64_sign a \<noteq> f64_sign b)
      in if f64_is_nan a \<or> f64_is_nan b then F64_NAN
         else if f64_is_infinite a \<or> f64_is_infinite b
           then (if f64_mant a = 0 \<or> f64_mant b = 0 then F64_NAN else f64_infinity s)
         else f64_round s (nat (\<bar>f64_mant a\<bar> * \<bar>f64_mant b\<bar>)) (f64_scale a + f64_scale b))"

definition f64_div :: "f64 \<Rightarrow> f64 \<Rightarrow> f64" where
  "f64_div a b =
     (let s = (f64_sign a \<noteq> f64_sign b)
      in if f64_is_nan a \<or> f64_is_nan b then F64_NAN
         else if f64_is_infinite a then (if f64_is_infinite b then F64_NAN else f64_infinity s)
         else if f64_is_infinite b then f64_zero s
         else if f64_mant b = 0 then (if f64_mant a = 0 then F64_NAN else f64_infinity s)
         else f64_quotient s (nat \<bar>f64_mant a\<bar>) (nat \<bar>f64_mant b\<bar>) (f64_scale a - f64_scale b))"

text \<open>
  \<open>%\<close> on doubles: the remainder of the division truncated towards zero, which is exact,
  with the sign of the dividend.
\<close>

definition f64_rem :: "f64 \<Rightarrow> f64 \<Rightarrow> f64" where
  "f64_rem a b =
     (if f64_is_nan a \<or> f64_is_nan b \<or> f64_is_infinite a then F64_NAN
      else if f64_is_infinite b then a
      else if f64_mant b = 0 then F64_NAN
      else let x = min (f64_scale a) (f64_scale b);
               n = \<bar>f64_mant a\<bar> * 2 ^ nat (f64_scale a - x); d = \<bar>f64_mant b\<bar> * 2 ^ nat (f64_scale b - x)
        in f64_round (f64_sign a) (nat (n mod d)) x)"

section \<open>Comparisons\<close>

text \<open>The bit patterns of one sign are ordered as their values; both zeros have key \<open>0\<close>.\<close>

definition f64_key :: "f64 \<Rightarrow> int" where
  "f64_key b = (if f64_sign b then - (uint b mod 2 ^ 63) else uint b mod 2 ^ 63)"

definition f64_eq :: "f64 \<Rightarrow> f64 \<Rightarrow> bool" where
  "f64_eq a b \<longleftrightarrow> \<not> f64_is_nan a \<and> \<not> f64_is_nan b \<and> f64_key a = f64_key b"
definition f64_lt :: "f64 \<Rightarrow> f64 \<Rightarrow> bool" where
  "f64_lt a b \<longleftrightarrow> \<not> f64_is_nan a \<and> \<not> f64_is_nan b \<and> f64_key a < f64_key b"
definition f64_le :: "f64 \<Rightarrow> f64 \<Rightarrow> bool" where
  "f64_le a b \<longleftrightarrow> \<not> f64_is_nan a \<and> \<not> f64_is_nan b \<and> f64_key a \<le> f64_key b"

section \<open>Integers are exact\<close>

lemma f64_trunc_int: "f64_to_int b = Some n \<Longrightarrow> f64_exponent b \<noteq> 2047 \<and> f64_trunc b = n"
  by (auto simp: f64_to_int_def f64_trunc_def Let_def split: if_splits)

lemma f64_saturate_int: "\<bar>n\<bar> < 2 ^ 53 \<Longrightarrow> f64_saturate lo hi (f64_of_int n) = max lo (min hi n)"
  using f64_trunc_int [OF f64_int_roundtrip] by (simp add: f64_saturate_def)

lemma f64_of_int_not_boxed:
  assumes "\<bar>n\<bar> < 2 ^ 53"
  shows "\<not> is_boxed (f64_of_int n)"
  using f64_trunc_int [OF f64_int_roundtrip [OF assms]] is_boxed_exponent by blast

lemma f64_of_int_value:
  assumes "\<bar>n\<bar> < 2 ^ 53"
  shows "f64_is_finite (f64_of_int n)" "\<exists>k \<le> 1074. f64_scale (f64_of_int n) = - int k \<and> f64_mant (f64_of_int n) = n * 2 ^ k"
proof -
  have "f64_is_finite (f64_of_int n) \<and>
    (\<exists>k \<le> 1074. f64_scale (f64_of_int n) = - int k \<and> f64_mant (f64_of_int n) = n * 2 ^ k)"
  proof (cases "n = 0")
    case True
    then show ?thesis
      by (simp add: f64_of_int_def f64_is_finite_def f64_scale_def f64_mant_def f64_exponent_def f64_fraction_def)
  next
    case False
    note f = f64_of_int_fields [OF False assms]
    let ?e = "bit_len (nat \<bar>n\<bar>) - 1"
    have "int (f64_fraction (f64_of_int n) + 2 ^ 52) = \<bar>n\<bar> * 2 ^ (52 - ?e)" unfolding f(4) by simp
    then have "f64_mant (f64_of_int n) = n * 2 ^ (52 - ?e)" using f(2,3) False by (auto simp: f64_mant_def)
    moreover have "f64_scale (f64_of_int n) = - int (52 - ?e)" using f(1,3) by (simp add: f64_scale_def)
    moreover have "f64_is_finite (f64_of_int n)" using f(1,3) by (simp add: f64_is_finite_def)
    moreover have "52 - ?e \<le> 1074" by simp
    ultimately show ?thesis by blast
  qed
  then show "f64_is_finite (f64_of_int n)" "\<exists>k \<le> 1074. f64_scale (f64_of_int n) = - int k \<and> f64_mant (f64_of_int n) = n * 2 ^ k"
    by blast+
qed

lemma bit_len_scaled: "0 < m \<Longrightarrow> bit_len (m * 2 ^ k) = bit_len m + k"
proof (induction k)
  case (Suc k)
  have "bit_len (m * 2 ^ Suc k) = Suc (bit_len (m * 2 ^ Suc k div 2))" using Suc.prems by (subst bit_len.simps) simp
  also have "m * 2 ^ Suc k div 2 = m * 2 ^ k" by simp
  finally show ?case using Suc by simp
qed simp

lemma round_half_even_exact: "round_half_even (m * 2 ^ d) d = m"
  by (simp add: round_half_even_def)

lemma f64_round_int:
  assumes m: "0 < m" "m < 2 ^ 53" and k: "k \<le> 1074"
  shows "f64_round s (m * 2 ^ k) (- int k) = f64_of_int (if s then - int m else int m)"
proof -
  let ?l = "bit_len m"
  have b: "0 < ?l" "2 ^ (?l - 1) \<le> m" "m < 2 ^ ?l" using bit_len_bounds [OF m(1)] by auto
  have l: "?l \<le> 53"
  proof (rule ccontr)
    assume "\<not> ?l \<le> 53"
    then have "(2 :: nat) ^ 53 \<le> 2 ^ (?l - 1)" by (intro power_increasing) auto
    with b m show False by simp
  qed
  let ?q = "max (- int k + int (bit_len (m * 2 ^ k)) - 53) (-1074)"
  let ?sig = "m * 2 ^ (53 - ?l)"
  have q: "?q = int ?l - 53" using b(1) by (simp add: bit_len_scaled [OF m(1)])
  have sig: "(if ?q \<le> - int k then m * 2 ^ k * 2 ^ nat (- int k - ?q)
      else round_half_even (m * 2 ^ k) (nat (?q + int k))) = ?sig"
    unfolding q
  proof (cases "int ?l - 53 \<le> - int k")
    case True
    then have "k + nat (- int k - (int ?l - 53)) = 53 - ?l" using l by linarith
    then show "(if int ?l - 53 \<le> - int k then m * 2 ^ k * 2 ^ nat (- int k - (int ?l - 53))
      else round_half_even (m * 2 ^ k) (nat (int ?l - 53 + int k))) = ?sig"
      using True by (simp only: if_True mult.assoc flip: power_add)
  next
    case False
    then have "k = 53 - ?l + nat (int ?l - 53 + int k)" using l by linarith
    then have "m * 2 ^ k = ?sig * 2 ^ nat (int ?l - 53 + int k)" by (simp only: mult.assoc flip: power_add)
    then show "(if int ?l - 53 \<le> - int k then m * 2 ^ k * 2 ^ nat (- int k - (int ?l - 53))
      else round_half_even (m * 2 ^ k) (nat (int ?l - 53 + int k))) = ?sig"
      using False by (simp only: round_half_even_exact if_False)
  qed
  have split: "(2 :: nat) ^ (?l - 1) * 2 ^ (53 - ?l) = 2 ^ 52" "(2 :: nat) ^ ?l * 2 ^ (53 - ?l) = 2 ^ 53"
    using l b(1) by (simp_all flip: power_add)
  have lo: "2 ^ 52 \<le> ?sig" using b(2) by (metis mult_right_mono split(1) zero_le)
  have hi: "?sig < 2 ^ 53" using b(3) mult_strict_right_mono [of m "2 ^ ?l" "2 ^ (53 - ?l)"] by (simp only: split) simp
  have exp: "nat (?q + 1074) * 2 ^ 52 + ?sig = (1022 + ?l) * 2 ^ 52 + (?sig - 2 ^ 52)"
  proof -
    have "nat (?q + 1074) = 1021 + ?l" unfolding q using b(1) by simp
    then show ?thesis using lo by simp
  qed
  have "(1022 + ?l) * 2 ^ 52 \<le> (1075 :: nat) * 2 ^ 52" using l by (intro mult_right_mono) auto
  then have "min (nat (?q + 1074) * 2 ^ 52 + ?sig) (2047 * 2 ^ 52) = (1022 + ?l) * 2 ^ 52 + (?sig - 2 ^ 52)"
    unfolding exp using hi by simp
  then have round: "f64_round s (m * 2 ^ k) (- int k) =
      word_of_nat ((if s then 2 ^ 63 else 0) + ((1022 + ?l) * 2 ^ 52 + (?sig - 2 ^ 52)))"
    using m(1) by (simp only: f64_round_def Let_def sig diff_minus_eq_add) simp
  have "nat \<bar>if s then - int m else int m\<bar> = m" "1023 + (?l - 1) = 1022 + ?l" "52 - (?l - 1) = 53 - ?l"
    using b(1) by auto
  then show ?thesis
    unfolding round f64_of_int_def using m(1) by (simp add: Let_def f64_pack_def add.assoc)
qed

lemma f64_add_int:
  assumes "\<bar>a\<bar> < 2 ^ 53" "\<bar>b\<bar> < 2 ^ 53" "\<bar>a + b\<bar> < 2 ^ 53"
  shows "f64_add (f64_of_int a) (f64_of_int b) = f64_of_int (a + b)"
proof -
  let ?a = "f64_of_int a" and ?b = "f64_of_int b"
  obtain j where j: "j \<le> 1074" "f64_scale ?a = - int j" "f64_mant ?a = a * 2 ^ j"
    using f64_of_int_value(2) [OF assms(1)] by blast
  obtain k where k: "k \<le> 1074" "f64_scale ?b = - int k" "f64_mant ?b = b * 2 ^ k"
    using f64_of_int_value(2) [OF assms(2)] by blast
  have fin: "\<not> f64_is_nan ?a" "\<not> f64_is_nan ?b" "\<not> f64_is_infinite ?a" "\<not> f64_is_infinite ?b"
    using f64_of_int_value(1) [OF assms(1)] f64_of_int_value(1) [OF assms(2)]
    by (simp_all add: f64_is_finite_def f64_is_nan_def f64_is_infinite_def)
  let ?m = "max j k"
  have x: "min (- int j) (- int k) = - int ?m" by simp
  have "j + nat (- int j - (- int ?m)) = ?m" "k + nat (- int k - (- int ?m)) = ?m" by auto
  then have sum: "a * 2 ^ j * 2 ^ nat (- int j - (- int ?m)) + b * 2 ^ k * 2 ^ nat (- int k - (- int ?m)) = (a + b) * 2 ^ ?m"
    by (simp add: mult.assoc distrib_right flip: power_add)
  have add: "f64_add ?a ?b = (if (a + b) * 2 ^ ?m = 0 then f64_zero (f64_sign ?a \<and> f64_sign ?b)
      else f64_round ((a + b) * 2 ^ ?m < 0) (nat \<bar>(a + b) * 2 ^ ?m\<bar>) (- int ?m))"
    unfolding f64_add_def j(2,3) k(2,3) Let_def x sum using fin by simp
  show ?thesis
  proof (cases "a + b = 0")
    case True
    have neg: "f64_sign (f64_of_int n) \<longleftrightarrow> n < 0" if "\<bar>n\<bar> < 2 ^ 53" for n
      using f64_of_int_fields(2) [of n] that by (cases "n = 0") (simp_all add: f64_of_int_def f64_sign_def)
    have z: "(f64_sign ?a \<and> f64_sign ?b) = False" using True assms by (simp add: neg)
    have "f64_add ?a ?b = f64_zero False" using True unfolding add z by simp
    then show ?thesis using True by (simp add: f64_of_int_def f64_zero_def f64_pack_def)
  next
    case False
    have "nat \<bar>(a + b) * 2 ^ ?m\<bar> = nat \<bar>a + b\<bar> * 2 ^ ?m" by (simp add: abs_mult nat_mult_distrib nat_power_eq)
    moreover have "(a + b) * 2 ^ ?m < 0 \<longleftrightarrow> a + b < 0" by (simp add: mult_less_0_iff)
    moreover have "(if a + b < 0 then - int (nat \<bar>a + b\<bar>) else int (nat \<bar>a + b\<bar>)) = a + b" by simp
    moreover have "nat \<bar>a + b\<bar> < 2 ^ 53" "0 < nat \<bar>a + b\<bar>" "?m \<le> 1074" using False assms(3) j(1) k(1) by auto
    ultimately show ?thesis using False f64_round_int [of "nat \<bar>a + b\<bar>" ?m "a + b < 0"] by (simp add: add)
  qed
qed

lemma f64_sign_int: "\<bar>n\<bar> < 2 ^ 53 \<Longrightarrow> f64_sign (f64_of_int n) \<longleftrightarrow> n < 0"
  using f64_of_int_fields(2) [of n] by (cases "n = 0") (simp_all add: f64_of_int_def f64_sign_def)

lemma f64_not_nan_int: "\<bar>n\<bar> < 2 ^ 53 \<Longrightarrow> \<not> f64_is_nan (f64_of_int n)"
  using f64_of_int_value(1) by (simp add: f64_is_finite_def f64_is_nan_def)

lemma f64_decompose:
  "unat w = (if f64_sign w then 2 ^ 63 else 0) + (f64_exponent w * 2 ^ 52 + f64_fraction w)"
proof -
  define n where "n = unat w"
  have n: "n < 2 ^ 64" using unsigned_less [of w, where ?'a = nat] by (simp add: n_def)
  have "n div 2 ^ 52 mod 2 ^ 11 = (if 2 ^ 63 \<le> n then n div 2 ^ 52 - 2 ^ 11 else n div 2 ^ 52)"
  proof (cases "2 ^ 63 \<le> n")
    case True
    then have "2 ^ 11 \<le> n div 2 ^ 52" "n div 2 ^ 52 < 2 ^ 12" using n by (simp_all add: less_mult_imp_div_less div_le_mono [of "2 ^ 63" n "2 ^ 52", simplified])
    then show ?thesis using True by (simp add: le_mod_geq)
  next
    case False
    then have "n div 2 ^ 52 < 2 ^ 11" by (simp add: less_mult_imp_div_less)
    then show ?thesis using False by simp
  qed
  moreover have "2 ^ 11 \<le> n div 2 ^ 52" if "2 ^ 63 \<le> n"
    using that div_le_mono [of "2 ^ 63" n "2 ^ 52"] by simp
  moreover have "n = n div 2 ^ 52 * 2 ^ 52 + n mod 2 ^ 52" by (rule div_mult_mod_eq [symmetric])
  ultimately show ?thesis
    unfolding f64_sign_def f64_exponent_def f64_fraction_def n_def [symmetric]
    by (cases "2 ^ 63 \<le> n") (simp_all add: diff_mult_distrib)
qed

lemma f64_key_fields:
  "f64_key b = (if f64_sign b then -1 else 1) * int (f64_exponent b * 2 ^ 52 + f64_fraction b)"
proof -
  define w where "w = f64_exponent b * 2 ^ 52 + f64_fraction b"
  have "f64_exponent b < 2 ^ 11" "f64_fraction b < 2 ^ 52" by (simp_all add: f64_exponent_def f64_fraction_def)
  moreover from this have "f64_exponent b * 2 ^ 52 \<le> (2 ^ 11 - 1) * 2 ^ 52" by (intro mult_right_mono) auto
  ultimately have "w < 2 ^ 63" by (simp add: w_def)
  have "uint b = int (unat b)" by simp
  also have "unat b mod 2 ^ 63 = w"
    using \<open>w < 2 ^ 63\<close> unfolding f64_decompose [of b] w_def [symmetric] by (simp add: mod_add_left_eq)
  then have "int (unat b) mod 2 ^ 63 = int w" by (metis of_nat_mod of_nat_numeral of_nat_power)
  finally show ?thesis unfolding w_def [symmetric] by (simp add: f64_key_def)
qed

text \<open>The key of an integer below \<open>2 ^ 53\<close> is monotone in it, so comparisons of integers are exact.\<close>

lemma f64_key_mono:
  assumes "0 < m" "m < n" "n < 2 ^ 53"
  shows "f64_key (f64_of_int m) < f64_key (f64_of_int n)"
proof -
  have key: "f64_key (f64_of_int k) = int (f64_exponent (f64_of_int k) * 2 ^ 52 + f64_fraction (f64_of_int k))"
    if "0 \<le> k" "k < 2 ^ 53" for k
    unfolding f64_key_fields using f64_sign_int [of k] that by simp
  let ?e = "\<lambda>k. bit_len (nat \<bar>k\<bar>) - 1"
  note fm = f64_of_int_fields [of m] and fn = f64_of_int_fields [of n]
  have m: "m \<noteq> 0" "\<bar>m\<bar> < 2 ^ 53" and n: "n \<noteq> 0" "\<bar>n\<bar> < 2 ^ 53" using assms by auto
  have frac: "f64_fraction b < 2 ^ 52" for b by (simp add: f64_fraction_def)
  have "?e m \<le> ?e n"
  proof (rule ccontr)
    assume "\<not> ?e m \<le> ?e n"
    moreover have "0 < bit_len (nat \<bar>n\<bar>)" using bit_len_bounds [of "nat \<bar>n\<bar>"] assms by simp
    ultimately have "bit_len (nat \<bar>n\<bar>) \<le> bit_len (nat \<bar>m\<bar>) - 1" by linarith
    then have "(2 :: nat) ^ bit_len (nat \<bar>n\<bar>) \<le> 2 ^ (bit_len (nat \<bar>m\<bar>) - 1)" by (intro power_increasing) auto
    moreover have "2 ^ (bit_len (nat \<bar>m\<bar>) - 1) \<le> nat \<bar>m\<bar>" "nat \<bar>n\<bar> < 2 ^ bit_len (nat \<bar>n\<bar>)" "nat \<bar>m\<bar> < nat \<bar>n\<bar>"
      using bit_len_bounds [of "nat \<bar>m\<bar>"] bit_len_bounds [of "nat \<bar>n\<bar>"] assms by auto
    ultimately show False by linarith
  qed
  then consider "?e m < ?e n" | "?e m = ?e n" by linarith
  then have "f64_exponent (f64_of_int m) * 2 ^ 52 + f64_fraction (f64_of_int m)
      < f64_exponent (f64_of_int n) * 2 ^ 52 + f64_fraction (f64_of_int n)"
  proof cases
    case 1
    then have "(1023 + ?e m + 1) * 2 ^ 52 \<le> (1023 + ?e n) * 2 ^ 52" by (intro mult_right_mono) (linarith, simp)
    then show ?thesis using frac [of "f64_of_int m"] fm(3) [OF m] fn(3) [OF n] by simp
  next
    case 2
    have "nat \<bar>m\<bar> * 2 ^ (52 - ?e m) < nat \<bar>n\<bar> * 2 ^ (52 - ?e n)" using assms 2 by simp
    then have "f64_fraction (f64_of_int m) < f64_fraction (f64_of_int n)"
      unfolding fm(4) [OF m, symmetric] fn(4) [OF n, symmetric] by simp
    moreover have "f64_exponent (f64_of_int m) = f64_exponent (f64_of_int n)"
      unfolding fm(3) [OF m] fn(3) [OF n] 2 by (rule refl)
    ultimately show ?thesis by simp
  qed
  then show ?thesis using key [of m] key [of n] assms by simp
qed

lemma bit_len_unique:
  assumes "2 ^ k \<le> n" "n < 2 ^ Suc k"
  shows "bit_len n = Suc k"
proof -
  have "0 < n" using assms(1) by (metis less_le_trans zero_less_numeral zero_less_power)
  then have b: "0 < bit_len n" "2 ^ (bit_len n - 1) \<le> n" "n < 2 ^ bit_len n" using bit_len_bounds by auto
  have "(2 :: nat) ^ k < 2 ^ bit_len n" "(2 :: nat) ^ (bit_len n - 1) < 2 ^ Suc k" using assms b by linarith+
  then have "k < bit_len n" "bit_len n - 1 < Suc k" by (simp_all only: power_strict_increasing_iff one_less_numeral_iff semiring_norm)
  then show ?thesis by linarith
qed

lemma f64_fields_eq:
  assumes "f64_sign a = f64_sign b" "f64_exponent a = f64_exponent b" "f64_fraction a = f64_fraction b"
  shows "a = b"
proof -
  have "unat a = unat b" unfolding f64_decompose [of a] f64_decompose [of b] assms by (rule refl)
  then show ?thesis by simp
qed

lemma f64_of_int_unique:
  assumes to: "f64_to_int f = Some i" and i: "i \<noteq> 0" "\<bar>i\<bar> < 2 ^ 53"
  shows "f = f64_of_int i"
proof -
  define E where "E = f64_exponent f"
  define s where "s = (if E = 0 then f64_fraction f else f64_fraction f + 2 ^ 52)"
  define d where "d = 1075 - max E 1"
  define m where "m = nat \<bar>i\<bar>"
  have frac: "f64_fraction f < 2 ^ 52" by (simp add: f64_fraction_def)
  then have s53: "s < 2 ^ 53" by (simp add: s_def)
  have m: "0 < m" "m < 2 ^ 53" using i by (simp_all add: m_def)
  have pos: "\<bar>(if f64_sign f then -1 else 1) * int n\<bar> = int n" for n by simp
  have E: "E \<noteq> 2047" and sgn: "f64_sign f \<longleftrightarrow> i < 0" and val: "m * 2 ^ d = s \<and> max E 1 \<le> 1075"
  proof -
    show "E \<noteq> 2047" using to by (auto simp: f64_to_int_def E_def)
    have "\<exists>n. i = (if f64_sign f then -1 else 1) * int n"
      using to unfolding f64_to_int_def Let_def option.inject by (auto split: if_splits simp del: of_nat_mult of_nat_power of_nat_add of_nat_numeral)
    then obtain n where "i = (if f64_sign f then -1 else 1) * int n" ..
    then show "f64_sign f \<longleftrightarrow> i < 0" using i(1) by (auto split: if_splits)
    show "m * 2 ^ d = s \<and> max E 1 \<le> 1075"
    proof (cases "1075 \<le> max E 1")
      case True
      then have i: "i = (if f64_sign f then -1 else 1) * int (s * 2 ^ (max E 1 - 1075))" and "E \<noteq> 0"
        using to by (auto simp: f64_to_int_def Let_def s_def E_def split: if_splits)
      have mm: "m = s * 2 ^ (max E 1 - 1075)" unfolding m_def i pos by (rule nat_int)
      have big: "2 ^ 52 \<le> s" using \<open>E \<noteq> 0\<close> by (simp add: s_def)
      have "max E 1 - 1075 = 0"
      proof (rule ccontr)
        assume "max E 1 - 1075 \<noteq> 0"
        then have "(2 :: nat) ^ 1 \<le> 2 ^ (max E 1 - 1075)" by (intro power_increasing) auto
        then have "2 ^ 52 * 2 ^ 1 \<le> s * 2 ^ (max E 1 - 1075)" using big by (intro mult_le_mono) auto
        with mm m(2) show False by simp
      qed
      with True have "max E 1 = 1075" by linarith
      with mm show ?thesis by (simp add: d_def)
    next
      case False
      then have i: "i = (if f64_sign f then -1 else 1) * int (s div 2 ^ d)" and "2 ^ d dvd s"
        using to by (auto simp: f64_to_int_def Let_def s_def E_def d_def split: if_splits)
      have "m = s div 2 ^ d" unfolding m_def i pos by (rule nat_int)
      with False \<open>2 ^ d dvd s\<close> show ?thesis by simp
    qed
  qed
  have "E \<noteq> 0"
  proof
    assume "E = 0"
    then have "m * 2 ^ 1074 < 2 ^ 52" using val frac by (simp add: d_def s_def)
    moreover have "(2 :: nat) ^ 52 \<le> 2 ^ 1074" by (intro power_increasing) auto
    moreover have "2 ^ 1074 \<le> m * 2 ^ 1074" using m(1) by simp
    ultimately show False by linarith
  qed
  then have s: "s = f64_fraction f + 2 ^ 52" and d: "d + E = 1075" using val by (simp_all add: s_def d_def)
  have "bit_len (m * 2 ^ d) = Suc 52" using val s s53 by (intro bit_len_unique) simp_all
  then have len: "bit_len m + d = 53" unfolding bit_len_scaled [OF m(1)] by simp
  note f = f64_of_int_fields [OF i]
  have "52 - (bit_len m - 1) = d" "1023 + (bit_len m - 1) = E" using len d bit_len_bounds [OF m(1)] by linarith+
  with f(2-4) s val sgn show ?thesis by (intro f64_fields_eq) (simp_all add: E_def flip: m_def)
qed

lemma f64_key_int_neg:
  assumes "\<bar>n\<bar> < 2 ^ 53"
  shows "f64_key (f64_of_int (- n)) = - f64_key (f64_of_int n)"
proof (cases "n = 0")
  case True
  then show ?thesis by (simp add: f64_of_int_def f64_key_def)
next
  case False
  have neg: "- n \<noteq> 0" "\<bar>- n\<bar> < 2 ^ 53" using False assms by auto
  note p = f64_of_int_fields [OF False assms] and q = f64_of_int_fields [OF neg]
  have "f64_exponent (f64_of_int (- n)) = f64_exponent (f64_of_int n)"
    "f64_fraction (f64_of_int (- n)) = f64_fraction (f64_of_int n)" using p(3,4) q(3,4) by simp_all
  then show ?thesis using p(2) q(2) False by (auto simp: f64_key_fields)
qed

lemma f64_key_int_pos: "0 < n \<Longrightarrow> n < 2 ^ 53 \<Longrightarrow> 0 < f64_key (f64_of_int n)"
proof -
  assume n: "0 < n" "n < 2 ^ 53"
  then have "n \<noteq> 0" "\<bar>n\<bar> < 2 ^ 53" by auto
  from f64_of_int_fields(3) [OF this] show ?thesis using n f64_sign_int [of n] by (simp add: f64_key_fields)
qed

lemma f64_key_int_less:
  assumes "\<bar>m\<bar> < 2 ^ 53" "\<bar>n\<bar> < 2 ^ 53" "m < n"
  shows "f64_key (f64_of_int m) < f64_key (f64_of_int n)"
proof -
  have zero: "f64_key (f64_of_int 0) = 0" by (simp add: f64_of_int_def f64_key_def)
  consider "0 < m" | "m = 0" | "m < 0" "0 < n" | "m < 0" "n = 0" | "n < 0" using assms(3) by linarith
  then show ?thesis
  proof cases
    case 1
    with assms show ?thesis by (intro f64_key_mono) auto
  next
    case 2
    with assms f64_key_int_pos [of n] show ?thesis by (simp add: zero)
  next
    case 3
    with assms f64_key_int_pos [of n] f64_key_int_pos [of "- m"] f64_key_int_neg [of m] show ?thesis by simp
  next
    case 4
    with assms f64_key_int_pos [of "- m"] f64_key_int_neg [of m] show ?thesis by (simp add: zero)
  next
    case 5
    with assms have "f64_key (f64_of_int (- n)) < f64_key (f64_of_int (- m))" by (intro f64_key_mono) auto
    with assms f64_key_int_neg [of m] f64_key_int_neg [of n] show ?thesis by simp
  qed
qed

text \<open>Comparisons of integers below \<open>2 ^ 53\<close> are those of the integers.\<close>

lemma f64_compare_int:
  assumes "\<bar>m\<bar> < 2 ^ 53" "\<bar>n\<bar> < 2 ^ 53"
  shows "f64_lt (f64_of_int m) (f64_of_int n) \<longleftrightarrow> m < n" "f64_le (f64_of_int m) (f64_of_int n) \<longleftrightarrow> m \<le> n"
    "f64_eq (f64_of_int m) (f64_of_int n) \<longleftrightarrow> m = n"
  using f64_key_int_less [OF assms] f64_key_int_less [OF assms(2,1)] f64_not_nan_int [OF assms(1)] f64_not_nan_int [OF assms(2)]
  by (auto simp: f64_lt_def f64_le_def f64_eq_def not_less not_le intro: linorder_cases [of m n])

text \<open>An integer of more than 53 bits lies outside every interval of smaller integers.\<close>

lemma f64_large_int:
  assumes "f64_to_int f = Some i" "2 ^ 53 \<le> \<bar>i\<bar>" "\<bar>n\<bar> < 2 ^ 52"
  shows "f64_key (f64_of_int n) < \<bar>f64_key f\<bar>"
proof -
  have frac: "f64_fraction b < 2 ^ 52" for b by (simp add: f64_fraction_def)
  have e: "1076 \<le> f64_exponent f"
  proof (rule ccontr)
    assume small: "\<not> 1076 \<le> f64_exponent f"
    let ?s = "if f64_exponent f = 0 then f64_fraction f else f64_fraction f + 2 ^ 52"
    have "\<bar>i\<bar> \<le> int ?s"
      using assms(1) small unfolding f64_to_int_def Let_def
      by (auto simp: abs_mult div_le_dividend split: if_splits simp del: of_nat_add)
    moreover have "int ?s < 2 ^ 53" using frac [of f] by auto
    ultimately show False using assms(2) by linarith
  qed
  have "f64_key (f64_of_int n) < 1076 * 2 ^ 52"
  proof (cases "n = 0")
    case True
    then show ?thesis by (simp add: f64_of_int_def f64_key_def)
  next
    case False
    have "\<bar>n\<bar> < 2 ^ 53" using assms(3) by simp
    note f = f64_of_int_fields [OF False this]
    have "f64_exponent (f64_of_int n) * 2 ^ 52 \<le> 1075 * 2 ^ 52" using f(1,3) by (intro mult_right_mono) auto
    then show ?thesis using frac [of "f64_of_int n"] by (simp add: f64_key_fields)
  qed
  moreover have "1076 * 2 ^ 52 \<le> f64_exponent f * 2 ^ 52" using e by (intro mult_right_mono) auto
  then have "1076 * 2 ^ 52 \<le> \<bar>f64_key f\<bar>" by (simp add: f64_key_fields)
  ultimately show ?thesis by linarith
qed

lemma is_boxed_nan: "is_boxed v \<Longrightarrow> f64_is_nan v"
proof -
  assume boxed: "is_boxed v"
  have "bit (v AND BOX_MASK) 51" using boxed unfolding is_boxed_def mask_forms by (simp add: bit_simps)
  then have "bit v 51" by (simp add: bit_simps)
  then have "bit (unat v) 51" by (simp add: bit_unsigned_iff)
  then have "bit (take_bit 52 (unat v)) 51" by (simp add: bit_take_bit_iff)
  then have "take_bit 52 (unat v) \<noteq> 0" by (metis bit_0_eq bot_apply bot_bool_def)
  then have "f64_fraction v \<noteq> 0" by (simp add: f64_fraction_def take_bit_eq_mod)
  with is_boxed_exponent [OF boxed] show ?thesis by (simp add: f64_is_nan_def)
qed

end
