(* ===== verification/Objects.thy ===== *)
theory Objects
  imports ShapeTree Floats
begin

text \<open>
  The methods of a heap object (\<open>object.rs\<close>): its constructors, the element accessors that
  dispatch between the array store and the flat vector, the promise and generator slot
  contracts, and the rooted allocation helpers.
\<close>

section \<open>Constructors\<close>

definition FLAG_ENGINE_ACCESSOR :: u8 where "FLAG_ENGINE_ACCESSOR = 16"
definition FLAG_CONSTRUCTOR :: u8 where "FLAG_CONSTRUCTOR = 32"

definition is_constructor :: "js_obj \<Rightarrow> bool" where
  "is_constructor x \<longleftrightarrow> flags x AND FLAG_CONSTRUCTOR \<noteq> 0"

definition obj_ordinary :: "js_value list \<Rightarrow> prop_key option list \<Rightarrow> js_obj" where
  "obj_ordinary props keys = js_obj_default\<lparr>obj_kind := K_Ordinary, properties := props, property_keys := keys\<rparr>"

definition obj_function :: "function_target \<Rightarrow> handle option \<Rightarrow> js_obj" where
  "obj_function target env = js_obj_default\<lparr>obj_kind := K_Function, callable := target, captured_env := env\<rparr>"

definition obj_binding_cell :: "js_value \<Rightarrow> bool \<Rightarrow> u32 \<Rightarrow> js_obj" where
  "obj_binding_cell v initialized owner = js_obj_default\<lparr>obj_kind := K_BindingCell,
     binding_cell := Some \<lparr>bc_value = v, bc_initialized = initialized, bc_owner_module_id = owner\<rparr>\<rparr>"

definition elements_of_values :: "js_value list \<Rightarrow> elements" where
  "elements_of_values vs = fold (\<lambda>(i, v) a. elements_set a (word_of_nat i) v) (enumerate 0 vs) elements_new"

text \<open>\<open>None\<close> is the panic of a length that does not fit a Smi.\<close>

definition obj_array :: "js_value list \<Rightarrow> js_obj option" where
  "obj_array vs = map_option (\<lambda>len.
     js_obj_default\<lparr>obj_kind := K_Array, properties := [len], property_keys := [pk_from_parts False 0],
       elements_array := elements_of_values vs\<rparr>) (from_i32_smi (word_of_nat (length vs)))"

definition obj_array_sparse :: "u32 \<Rightarrow> js_obj option" where
  "obj_array_sparse len = map_option (\<lambda>len_v.
     js_obj_default\<lparr>obj_kind := K_Array, properties := [len_v], property_keys := [pk_from_parts False 0]\<rparr>)
     (if int (unat len) \<le> SMI_MAX then from_i32_smi len else Some (from_f64 (f64_of_int (int (unat len)))))"

definition obj_arguments :: "js_value list \<Rightarrow> js_value list \<Rightarrow> u32 option list option \<Rightarrow> js_obj" where
  "obj_arguments props elems mapped = js_obj_default\<lparr>obj_kind := K_Arguments, properties := props,
     property_keys := replicate (length props) None, obj_elements := elems, arguments_mapped := mapped\<rparr>"

definition obj_regexp :: "handle \<Rightarrow> handle \<Rightarrow> js_obj" where
  "obj_regexp source fl = js_obj_default\<lparr>obj_kind := K_RegExp, obj_elements := [js_string source, js_string fl]\<rparr>"

definition obj_generator :: js_obj where "obj_generator = js_obj_default\<lparr>obj_kind := K_Generator\<rparr>"
definition obj_promise :: js_obj where "obj_promise = js_obj_default\<lparr>obj_kind := K_Ordinary\<rparr>"

text \<open>The three promise constructors differ in their state and their value.\<close>

definition promise_with :: "i32 \<Rightarrow> js_value \<Rightarrow> handle \<Rightarrow> js_obj" where
  "promise_with state v reactions = js_obj_default\<lparr>obj_kind := K_Promise,
     properties := [the (from_i32_smi state), v, js_object reactions], property_keys := replicate 3 None\<rparr>"

definition pending_promise :: "handle \<Rightarrow> js_obj" where
  "pending_promise reactions = promise_with 0 js_undefined reactions"
definition fulfilled_promise :: "js_value \<Rightarrow> handle \<Rightarrow> js_obj" where
  "fulfilled_promise v reactions = promise_with 1 v reactions"
definition rejected_promise :: "js_value \<Rightarrow> handle \<Rightarrow> js_obj" where
  "rejected_promise reason reactions = promise_with 2 reason reactions"

definition obj_error :: "handle \<Rightarrow> handle \<Rightarrow> js_obj" where
  "obj_error nm message = js_obj_default\<lparr>obj_kind := K_Error, properties := [js_string nm, js_string message],
     property_keys := replicate 2 None\<rparr>"

definition f64_of_nat :: "nat \<Rightarrow> f64" where "f64_of_nat n = f64_of_int (int n)"

definition generator_with :: "u32 \<Rightarrow> u32 \<Rightarrow> f64 \<Rightarrow> u16 \<Rightarrow> js_value list \<Rightarrow> handle option \<Rightarrow> js_value option \<Rightarrow> js_obj" where
  "generator_with fn resume_pc fin yield_dst window env async_promise =
     (let props = [from_f64 (f64_of_nat (unat fn)), from_f64 (f64_of_nat (unat resume_pc)), from_f64 fin,
                   from_f64 (f64_of_nat (unat yield_dst))] @ (case async_promise of Some p \<Rightarrow> [p] | None \<Rightarrow> [])
      in js_obj_default\<lparr>obj_kind := K_Generator, properties := props, property_keys := replicate (length props) None,
           obj_elements := window, prototype := env\<rparr>)"

definition obj_environment :: "nat \<Rightarrow> handle option \<Rightarrow> js_obj" where
  "obj_environment n par = js_obj_default\<lparr>properties := replicate n js_undefined, property_keys := replicate n None,
     prototype := par\<rparr>"

definition obj_proxy :: "handle \<Rightarrow> handle \<Rightarrow> js_obj" where
  "obj_proxy target handler =
     js_obj_default\<lparr>obj_kind := K_Proxy, proxy_target := Some target, proxy_handler := Some handler\<rparr>"

section \<open>Element access\<close>

definition is_array :: "js_obj \<Rightarrow> bool" where "is_array x \<longleftrightarrow> obj_kind x = K_Array"

definition get_element :: "js_obj \<Rightarrow> u32 \<Rightarrow> js_value option" where
  "get_element x idx =
     (if is_array x then elements_get (elements_array x) idx
      else case list_get (obj_elements x) (unat idx) of
             Some v \<Rightarrow> if is_hole v then None else Some v | None \<Rightarrow> None)"

definition element_len :: "js_obj \<Rightarrow> nat" where
  "element_len x = (if is_array x then elements_len (elements_array x) else length (obj_elements x))"

definition elements_snapshot :: "js_obj \<Rightarrow> js_value list" where
  "elements_snapshot x = (if is_array x then elements_iter (elements_array x) else obj_elements x)"

definition set_element :: "js_obj \<Rightarrow> u32 \<Rightarrow> js_value \<Rightarrow> js_obj" where
  "set_element x idx v =
     (if is_array x then x\<lparr>elements_array := elements_set (elements_array x) idx v\<rparr>
      else let i = unat idx; es = obj_elements x in
        if i < length es then x\<lparr>obj_elements := es[i := v]\<rparr>
        else if unat ELEMENTS_TO_DICTIONARY_INDEX < i - length es then x
        else x\<lparr>obj_elements := (es @ replicate (i + 1 - length es) js_hole)[i := v]\<rparr>)"

definition push_element :: "js_obj \<Rightarrow> js_value \<Rightarrow> js_obj" where
  "push_element x v =
     (if is_array x then x\<lparr>elements_array := elements_push (elements_array x) v\<rparr>
      else x\<lparr>obj_elements := obj_elements x @ [v]\<rparr>)"

definition pop_element :: "js_obj \<Rightarrow> js_value option \<times> js_obj" where
  "pop_element x =
     (if is_array x then (case elements_pop (elements_array x) of (r, a) \<Rightarrow> (r, x\<lparr>elements_array := a\<rparr>))
      else case vec_pop (obj_elements x) of (r, es) \<Rightarrow> (r, x\<lparr>obj_elements := es\<rparr>))"

definition delete_element :: "js_obj \<Rightarrow> u32 \<Rightarrow> js_obj" where
  "delete_element x idx =
     (if is_array x then x\<lparr>elements_array := elements_set (elements_array x) idx js_hole\<rparr>
      else if unat idx < length (obj_elements x) then x\<lparr>obj_elements := (obj_elements x)[unat idx := js_hole]\<rparr>
      else x)"

definition replace_elements :: "js_obj \<Rightarrow> js_value list \<Rightarrow> js_obj" where
  "replace_elements x vs =
     (if is_array x then x\<lparr>elements_array := elements_of_values vs\<rparr> else x\<lparr>obj_elements := vs\<rparr>)"

section \<open>Promises and generators\<close>

datatype pstate = Pending | Fulfilled | Rejected

text \<open>The inner option is the method's own, the outer one a panic.\<close>

definition promise_state_of_int :: "i32 \<Rightarrow> pstate option" where
  "promise_state_of_int n = (if n = 0 then Some Pending else if n = 1 then Some Fulfilled else if n = 2 then Some Rejected else None)"

definition promise_state :: "heap \<Rightarrow> handle \<Rightarrow> pstate option option" where
  "promise_state h p = map_option (\<lambda>x. Option.bind (list_get (properties x) 0) (\<lambda>v.
     case as_smi v of Some n \<Rightarrow> promise_state_of_int n
     | None \<Rightarrow> (case as_f64 v of Some f \<Rightarrow> promise_state_of_int (f64_as_i32 f) | None \<Rightarrow> None))) (get_object h p)"

definition promise_value :: "heap \<Rightarrow> handle \<Rightarrow> js_value option option" where
  "promise_value h p = map_option (\<lambda>x. list_get (properties x) 1) (get_object h p)"

primrec promise_code :: "pstate \<Rightarrow> i32" where
  "promise_code Pending = 0" | "promise_code Fulfilled = 1" | "promise_code Rejected = 2"

definition settle_promise :: "heap \<Rightarrow> handle \<Rightarrow> pstate \<Rightarrow> js_value \<Rightarrow> heap option" where
  "settle_promise h p state v = modify_object h p (\<lambda>x.
     if 2 \<le> length (properties x)
     then x\<lparr>properties := (properties x)[0 := the (from_i32_smi (promise_code state)), 1 := v]\<rparr> else x)"

record gstate =
  g_fn_idx :: u32
  g_resume_pc :: u32
  g_done_raw :: u32
  g_yield_dst :: u16
  g_done :: bool
  g_suspended :: bool

definition option_or :: "'a option \<Rightarrow> 'a \<Rightarrow> 'a" where
  "option_or x d = (case x of Some v \<Rightarrow> v | None \<Rightarrow> d)"

definition generator_state :: "heap \<Rightarrow> handle \<Rightarrow> gstate option option" where
  "generator_state h g = map_option (\<lambda>x.
     if obj_kind x \<noteq> K_Generator \<or> length (properties x) < 4 then None
     else let ps = properties x;
              resume = option_or (as_smi (ps ! 1)) (f64_as_i32 (option_or (as_f64 (ps ! 1)) 0));
              done_raw = f64_as_u32 (option_or (as_f64 (ps ! 2)) 0)
          in Some \<lparr>g_fn_idx = option_or (as_smi (ps ! 0)) 0, g_resume_pc = resume, g_done_raw = done_raw,
                   g_yield_dst = f64_as_u16 (option_or (as_f64 (ps ! 3)) 0),
                   g_done = (done_raw = 1), g_suspended = (done_raw = 2)\<rparr>) (get_object h g)"

definition set_generator_state :: "heap \<Rightarrow> handle \<Rightarrow> gstate \<Rightarrow> heap option" where
  "set_generator_state h g s = modify_object h g (\<lambda>x.
     if 4 \<le> length (properties x)
     then x\<lparr>properties := (properties x)
            [0 := from_f64 (f64_of_nat (unat (g_fn_idx s))), 1 := from_f64 (f64_of_nat (unat (g_resume_pc s))),
             2 := from_f64 (f64_of_nat (unat (g_done_raw s))), 3 := from_f64 (f64_of_nat (unat (g_yield_dst s)))]\<rparr>
     else x)"

section \<open>Rooted allocation\<close>

definition alloc_rooted :: "heap \<Rightarrow> js_obj \<Rightarrow> (handle \<times> heap) option" where
  "alloc_rooted h x = map_option (\<lambda>(s, h). (s, add_root (js_object s) h)) (heap_alloc h (P_Object x))"

definition alloc_array :: "heap \<Rightarrow> js_value list \<Rightarrow> (handle \<times> heap) option" where
  "alloc_array h vs = Option.bind (obj_array vs) (alloc_rooted h)"

definition alloc_function :: "heap \<Rightarrow> function_target \<Rightarrow> handle option \<Rightarrow> (handle \<times> heap) option" where
  "alloc_function h target env = alloc_rooted h (obj_function target env)"

definition alloc_ordinary :: "heap \<Rightarrow> js_value list \<Rightarrow> (handle \<times> heap) option" where
  "alloc_ordinary h props = alloc_rooted h (obj_ordinary props (replicate (length props) None))"

definition alloc_pending_promise :: "heap \<Rightarrow> (handle \<times> heap) option" where
  "alloc_pending_promise h =
     Option.bind (alloc_array h []) (\<lambda>(reactions, h).
       map_option (\<lambda>(s, h). (s, add_root (js_object s) h)) (alloc_promise h (pending_promise reactions)))"

section \<open>Both element stores behave like maps\<close>

text \<open>What a reader of an element sees, and when an object's store is in order.\<close>

definition obj_elem_at :: "js_obj \<Rightarrow> u32 \<Rightarrow> js_value option" where
  "obj_elem_at x i = Option.bind (get_element x i) seen"

definition store_ok :: "js_obj \<Rightarrow> bool" where
  "store_ok x \<longleftrightarrow> (if is_array x then elements_wf (elements_array x) else length (obj_elements x) < 2 ^ 32)"

text \<open>A flat vector refuses a write too far past its end.\<close>

definition takes_write :: "js_obj \<Rightarrow> u32 \<Rightarrow> bool" where
  "takes_write x i \<longleftrightarrow> is_array x \<or> unat i - length (obj_elements x) \<le> unat ELEMENTS_TO_DICTIONARY_INDEX"

lemma obj_elem_at_array [simp]: "is_array x \<Longrightarrow> obj_elem_at x = elem_at (elements_array x)"
  by (simp add: obj_elem_at_def get_element_def elem_at_def fun_eq_iff)

lemma obj_elem_at_flat:
  "\<not> is_array x \<Longrightarrow> obj_elem_at x i = (if unat i < length (obj_elements x) then seen (obj_elements x ! unat i) else None)"
  by (auto simp: obj_elem_at_def get_element_def list_get_def seen_def)

lemma is_array_upd [simp]:
  "is_array (x\<lparr>elements_array := a\<rparr>) = is_array x" "is_array (x\<lparr>obj_elements := es\<rparr>) = is_array x"
  by (simp_all add: is_array_def)

lemma set_element_array:
  assumes "store_ok x" "is_array x" "is_canonical v" "i \<noteq> - 1"
  shows "store_ok (set_element x i v)" "is_array (set_element x i v)"
    "obj_elem_at (set_element x i v) = (obj_elem_at x)(i := seen v)"
    "element_len (set_element x i v) = max (element_len x) (unat i + 1)"
  using elements_set_all [of "elements_array x" v i] assms
  by (simp_all add: store_ok_def set_element_def element_len_def)

lemma set_element_flat:
  assumes "store_ok x" "\<not> is_array x" "i \<noteq> - 1" "takes_write x i"
  shows "store_ok (set_element x i v)" "\<not> is_array (set_element x i v)"
    "obj_elem_at (set_element x i v) = (obj_elem_at x)(i := seen v)"
    "element_len (set_element x i v) = max (element_len x) (unat i + 1)"
proof -
  have "unat i \<noteq> unat (- 1 :: u32)" using assms(3) by simp
  then have "unat i + 1 < 2 ^ 32" using unat_u32_lt [of i] by (simp add: unsigned_minus_1_eq_mask mask_eq_exp_minus_1)
  with assms show "store_ok (set_element x i v)" "\<not> is_array (set_element x i v)"
    "element_len (set_element x i v) = max (element_len x) (unat i + 1)"
    by (auto simp: store_ok_def set_element_def element_len_def takes_write_def Let_def)
  show "obj_elem_at (set_element x i v) = (obj_elem_at x)(i := seen v)"
  proof
    fix j show "obj_elem_at (set_element x i v) j = ((obj_elem_at x)(i := seen v)) j"
      using assms by (cases "j = i") (auto simp: set_element_def obj_elem_at_flat takes_write_def Let_def nth_append nth_list_update)
  qed
qed

lemma delete_element_array:
  assumes "store_ok x" "is_array x" "i \<noteq> - 1"
  shows "store_ok (delete_element x i)" "obj_elem_at (delete_element x i) = (obj_elem_at x)(i := None)"
    "element_len (delete_element x i) = max (element_len x) (unat i + 1)"
  using elements_set_all [of "elements_array x" js_hole i] assms view_canonical [of VHole]
  by (simp_all add: store_ok_def delete_element_def element_len_def)

lemma delete_element_flat:
  assumes "store_ok x" "\<not> is_array x"
  shows "store_ok (delete_element x i)" "obj_elem_at (delete_element x i) = (obj_elem_at x)(i := None)"
    "element_len (delete_element x i) = element_len x"
proof -
  show "store_ok (delete_element x i)" "element_len (delete_element x i) = element_len x"
    using assms by (auto simp: store_ok_def delete_element_def element_len_def)
  show "obj_elem_at (delete_element x i) = (obj_elem_at x)(i := None)"
  proof
    fix j show "obj_elem_at (delete_element x i) j = ((obj_elem_at x)(i := None)) j"
      using assms by (cases "j = i") (auto simp: delete_element_def obj_elem_at_flat nth_list_update)
  qed
qed

interpretation array_store: indexed_store set_element obj_elem_at "\<lambda>x. store_ok x \<and> is_array x"
    "\<lambda>i v. i \<noteq> - 1 \<and> is_canonical v" seen
  by unfold_locales (use set_element_array in blast)+

text \<open>Building a store from values writes each at its own index.\<close>

lemma elements_of_values_spec:
  assumes "list_all is_canonical vs" "length vs < 2 ^ 32"
  shows "elements_wf (elements_of_values vs) \<and> elements_len (elements_of_values vs) = length vs \<and>
    elem_at (elements_of_values vs) = (\<lambda>i. if unat i < length vs then seen (vs ! unat i) else None)"
  using assms
proof (induction vs rule: rev_induct)
  case Nil
  then show ?case by (simp add: elements_of_values_def elements_new_wf elements_new_empty) (simp add: elements_new_def)
next
  case (snoc v vs)
  let ?a = "elements_of_values vs" and ?n = "word_of_nat (length vs) :: u32"
  have step: "elements_of_values (vs @ [v]) = elements_set ?a ?n v"
    by (simp add: elements_of_values_def enumerate_append_eq)
  have n: "unat ?n = length vs" using snoc(3) by (simp add: unat_of_nat_small)
  have "?n \<noteq> - 1"
  proof
    assume "?n = - 1"
    then have "length vs = unat (- 1 :: u32)" using n by metis
    with snoc(3) show False by (simp add: unsigned_minus_1_eq_mask mask_eq_exp_minus_1)
  qed
  with snoc have "elements_wf (elements_set ?a ?n v) \<and> elem_at (elements_set ?a ?n v) = (elem_at ?a)(?n := seen v)
     \<and> elements_len (elements_set ?a ?n v) = max (elements_len ?a) (unat ?n + 1)"
    using elements_set_all [of ?a v ?n] by simp
  moreover have "((elem_at ?a)(?n := seen v)) i = (if unat i < length (vs @ [v]) then seen ((vs @ [v]) ! unat i) else None)" for i
  proof (cases "i = ?n")
    case False
    then have "unat i \<noteq> length vs" using n by (metis unat_eq_iff)
    with False snoc show ?thesis by (auto simp: nth_append less_Suc_eq)
  qed (use n in simp)
  ultimately have "elem_at (elements_set ?a ?n v) = (\<lambda>i. if unat i < length (vs @ [v]) then seen ((vs @ [v]) ! unat i) else None)"
    and "elements_wf (elements_set ?a ?n v)" "elements_len (elements_set ?a ?n v) = max (elements_len ?a) (length vs + 1)"
    using n by (auto simp del: fun_upd_apply)
  then show ?case using snoc unfolding step by simp
qed

text \<open>
  Element accessors. Arrays and flat-vector objects present one map from indices to
  values: a write that is taken is seen at its index and nowhere else and makes the store long
  enough, a write refused as too far past a flat vector changes nothing, and a delete makes its
  index absent and keeps every other element - but on an array a delete beyond the end also
  lengthens the store.
\<close>

theorem object_elements_exact:
  assumes "store_ok x" "is_canonical v" "i \<noteq> - 1"
  shows "(if takes_write x i
      then store_ok (set_element x i v) \<and> obj_elem_at (set_element x i v) = (obj_elem_at x)(i := seen v) \<and>
        element_len (set_element x i v) = max (element_len x) (unat i + 1)
      else set_element x i v = x) \<and>
    store_ok (delete_element x i) \<and> obj_elem_at (delete_element x i) = (obj_elem_at x)(i := None) \<and>
    element_len (delete_element x i) = (if is_array x then max (element_len x) (unat i + 1) else element_len x)"
proof (cases "is_array x")
  case True
  with set_element_array [OF assms(1) True assms(2,3)] delete_element_array [OF assms(1) True assms(3)] show ?thesis
    by (simp add: takes_write_def)
next
  case False
  note d = delete_element_flat [OF assms(1) False]
  show ?thesis
  proof (cases "takes_write x i")
    case True
    with False d set_element_flat [OF assms(1) False assms(3) True] show ?thesis by simp
  next
    case nt: False
    then have "set_element x i v = x" using False by (auto simp: set_element_def takes_write_def Let_def)
    with nt False d show ?thesis by simp
  qed
qed

section \<open>Slot contracts\<close>

text \<open>A stored number is read as a double and is no Smi.\<close>

lemma from_f64_int:
  assumes "\<bar>n\<bar> < 2 ^ 53"
  shows "as_f64 (from_f64 (f64_of_int n)) = Some (f64_of_int n)" "as_smi (from_f64 (f64_of_int n)) = None"
  using f64_of_int_not_boxed [OF assms] by (simp_all add: from_f64_def as_f64_def as_smi_def is_smi_def has_tag_def is_boxed_def)

lemma number_slots:
  fixes w :: u32 and u :: u16
  shows "as_f64 (from_f64 (f64_of_nat (unat w))) = Some (f64_of_nat (unat w))" "as_smi (from_f64 (f64_of_nat (unat w))) = None"
    "as_f64 (from_f64 (f64_of_nat (unat u))) = Some (f64_of_nat (unat u))" "as_smi (from_f64 (f64_of_nat (unat u))) = None"
    "f64_as_u32 (f64_of_nat (unat w)) = w" "f64_as_u16 (f64_of_nat (unat u)) = u"
    "f64_as_i32 (f64_of_nat (unat w)) = (if unat w < 2 ^ 31 then w else 2 ^ 31 - 1)"
proof -
  have u: "uint w < 2 ^ LENGTH(32)" "uint u < 2 ^ LENGTH(16)" by (rule unsigned_less)+
  then have b: "\<bar>int (unat w)\<bar> < 2 ^ 53" "\<bar>int (unat u)\<bar> < 2 ^ 53" by simp_all
  show "as_f64 (from_f64 (f64_of_nat (unat w))) = Some (f64_of_nat (unat w))" "as_smi (from_f64 (f64_of_nat (unat w))) = None"
    "as_f64 (from_f64 (f64_of_nat (unat u))) = Some (f64_of_nat (unat u))" "as_smi (from_f64 (f64_of_nat (unat u))) = None"
    unfolding f64_of_nat_def by (rule from_f64_int b)+
  have "max 0 (min (2 ^ 32 - 1) (int (unat w))) = int (unat w)" "max 0 (min (2 ^ 16 - 1) (int (unat u))) = int (unat u)"
    using u by simp_all
  then show "f64_as_u32 (f64_of_nat (unat w)) = w" "f64_as_u16 (f64_of_nat (unat u)) = u"
    unfolding f64_as_u32_def f64_as_u16_def f64_of_nat_def f64_saturate_int [OF b(1)] f64_saturate_int [OF b(2)]
    by simp_all
  have c: "max (- (2 ^ 31)) (min (2 ^ 31 - 1) (int n)) = (if n < 2 ^ 31 then int n else 2 ^ 31 - 1)" for n by auto
  then show "f64_as_i32 (f64_of_nat (unat w)) = (if unat w < 2 ^ 31 then w else 2 ^ 31 - 1)"
    unfolding f64_as_i32_def f64_of_nat_def f64_saturate_int [OF b(1)] c by simp
qed

lemma modify_object_get:
  assumes "get_object h g = Some x"
  shows "\<exists>h'. modify_object h g f = Some h' \<and> get_object h' g = Some (f x) \<and> (\<forall>q. q \<noteq> g \<longrightarrow> get_object h' q = get_object h q)"
proof -
  from assms have "unat g < length (slots (objects h))" by (simp add: get_object_def slot_get_def)
  with assms show ?thesis
    by (auto simp: modify_object_def get_object_def heap_put_def slot_put_def slot_get_def list_get_def)
qed

text \<open>
  The generator slots. What \<open>set_generator_state\<close> stores, \<open>generator_state\<close> reads back:
  the completion code and the yield register exactly, with the two flags it implies, the
  resume position up to saturation at \<open>2 ^ 31 - 1\<close> - but the function index always as zero,
  because it is stored as a double and read as a Smi.
\<close>

theorem generator_state_roundtrip:
  assumes "get_object h g = Some x" "obj_kind x = K_Generator" "4 \<le> length (properties x)"
  shows "\<exists>h'. set_generator_state h g s = Some h' \<and> generator_state h' g = Some (Some
      \<lparr>g_fn_idx = 0, g_resume_pc = (if unat (g_resume_pc s) < 2 ^ 31 then g_resume_pc s else 2 ^ 31 - 1),
       g_done_raw = g_done_raw s, g_yield_dst = g_yield_dst s,
       g_done = (g_done_raw s = 1), g_suspended = (g_done_raw s = 2)\<rparr>) \<and>
    (\<forall>q. q \<noteq> g \<longrightarrow> get_object h' q = get_object h q)"
proof -
  let ?new = "\<lambda>x. x\<lparr>properties := (properties x)
            [0 := from_f64 (f64_of_nat (unat (g_fn_idx s))), 1 := from_f64 (f64_of_nat (unat (g_resume_pc s))),
             2 := from_f64 (f64_of_nat (unat (g_done_raw s))), 3 := from_f64 (f64_of_nat (unat (g_yield_dst s)))]\<rparr>"
  from modify_object_get [OF assms(1), of "\<lambda>x. if 4 \<le> length (properties x) then ?new x else x"] assms(3)
  obtain h' where "set_generator_state h g s = Some h'" "get_object h' g = Some (?new x)"
    "\<forall>q. q \<noteq> g \<longrightarrow> get_object h' q = get_object h q"
    unfolding set_generator_state_def by auto
  moreover have "properties x \<noteq> []" using assms(3) by auto
  ultimately show ?thesis
    using assms by (simp add: generator_state_def Let_def number_slots option_or_def nth_list_update)
qed

lemma promise_code_value: "as_smi (the (from_i32_smi (promise_code st))) = Some (promise_code st)"
proof -
  have r: "SMI_MIN \<le> sint (promise_code st) \<and> sint (promise_code st) \<le> SMI_MAX"
    by (cases st) (simp_all add: SMI_MIN_def SMI_MAX_def)
  then have "view_ok (VSmi (promise_code st))" by simp
  from as_smi_view [OF this] r show ?thesis by (simp add: from_i32_smi_def)
qed

lemma promise_code_inv: "promise_state_of_int (promise_code st) = Some st"
  by (cases st) (simp_all add: promise_state_of_int_def)

text \<open>
  Settling a promise. On an object with the promise slots, after \<open>settle_promise\<close> the
  state and the value read are the ones given, whatever they were before, the other slots and
  every other object are untouched; on any other object nothing changes.
\<close>

theorem settle_promise_exact:
  assumes "get_object h p = Some x"
  shows "\<exists>h'. settle_promise h p st v = Some h' \<and> (\<forall>q. q \<noteq> p \<longrightarrow> get_object h' q = get_object h q) \<and>
    (if 2 \<le> length (properties x)
     then promise_state h' p = Some (Some st) \<and> promise_value h' p = Some (Some v) \<and>
       get_object h' p = Some (x\<lparr>properties := the (from_i32_smi (promise_code st)) # v # drop 2 (properties x)\<rparr>)
     else get_object h' p = Some x)"
proof -
  let ?f = "\<lambda>x. if 2 \<le> length (properties x)
     then x\<lparr>properties := (properties x)[0 := the (from_i32_smi (promise_code st)), 1 := v]\<rparr> else x"
  from modify_object_get [OF assms, of ?f] obtain h' where h': "settle_promise h p st v = Some h'"
    "get_object h' p = Some (?f x)" "\<forall>q. q \<noteq> p \<longrightarrow> get_object h' q = get_object h q"
    by (auto simp: settle_promise_def)
  moreover have "ps[0 := a, 1 := b] = a # b # drop 2 ps" if "2 \<le> length ps" for ps :: "js_value list" and a b
    using that by (cases ps; cases "tl ps") auto
  ultimately show ?thesis
    by (auto simp: promise_state_def promise_value_def list_get_def promise_code_value promise_code_inv)
qed

section \<open>Examples\<close>

lemma object_elements_exact_witness:
  "obj_elem_at (set_element obj_generator 2 js_hole) = Map.empty \<and> element_len (set_element obj_generator 2 js_hole) = 3"
proof -
  have ok: "store_ok obj_generator" "takes_write obj_generator 2" "obj_elem_at obj_generator = Map.empty" "element_len obj_generator = 0"
    by (auto simp: store_ok_def obj_generator_def js_obj_default_def is_array_def takes_write_def
        ELEMENTS_TO_DICTIONARY_INDEX_def obj_elem_at_flat element_len_def)
  from object_elements_exact [OF ok(1) hole_facts(2), of 2] ok(2-4) show ?thesis by simp
qed

definition demo_object_heap :: "js_obj \<Rightarrow> heap" where
  "demo_object_heap x = heap_new\<lparr>objects := \<lparr>slots = [x], free = [], alive = [True], released = [False],
     sweep_cursor = 0, pending_dead = 0\<rparr>\<rparr>"

lemma demo_object_get [simp]: "get_object (demo_object_heap x) 0 = Some x"
  by (simp add: get_object_def demo_object_heap_def slot_get_def)

lemma generator_state_roundtrip_witness:
  "let h = demo_object_heap (generator_with 7 0 0 1 [] None None);
       s = \<lparr>g_fn_idx = 7, g_resume_pc = 12, g_done_raw = 2, g_yield_dst = 3, g_done = False, g_suspended = True\<rparr>
   in \<exists>h'. set_generator_state h 0 s = Some h' \<and> generator_state h' 0 = Some (Some (s\<lparr>g_fn_idx := 0\<rparr>))"
proof -
  let ?x = "generator_with 7 0 0 1 [] None None"
  let ?s = "\<lparr>g_fn_idx = 7, g_resume_pc = 12, g_done_raw = 2, g_yield_dst = 3, g_done = False, g_suspended = True\<rparr>"
  have "obj_kind ?x = K_Generator" "4 \<le> length (properties ?x)" by (simp_all add: generator_with_def)
  from generator_state_roundtrip [OF demo_object_get this, of ?s] show ?thesis by (auto simp: Let_def)
qed

lemma settle_promise_exact_witness:
  "\<exists>h'. settle_promise (demo_object_heap (pending_promise 5)) 0 Rejected js_true = Some h' \<and>
     promise_state h' 0 = Some (Some Rejected) \<and> promise_value h' 0 = Some (Some js_true)"
  using settle_promise_exact [OF demo_object_get, of "pending_promise 5" Rejected js_true]
  by (auto simp: pending_promise_def promise_with_def)

end
