(* ===== verification/Ops.thy ===== *)
theory Ops
  imports Interning Floats
begin

text \<open>
  The coercions, comparisons and equalities of the interpreter (\<open>v12-interp/src/ops.rs\<close>).
  A function that flattens a string returns the heap it leaves; \<open>None\<close> is a panic, which a
  stale string handle gives. Text is its list of code units or, once it is known to be
  ASCII, of character codes.
\<close>

section \<open>Coercions\<close>

definition num_of :: "js_value \<Rightarrow> f64 option" where
  "num_of v = (case as_f64 v of Some f \<Rightarrow> Some f | None \<Rightarrow> map_option (\<lambda>i. f64_of_int (sint i)) (as_smi v))"

definition truthy_number :: "f64 \<Rightarrow> bool" where
  "truthy_number n \<longleftrightarrow> \<not> f64_eq n 0 \<and> \<not> f64_is_nan n"

definition to_boolean :: "heap \<Rightarrow> js_value \<Rightarrow> bool option" where
  "to_boolean h v =
     (case num_of v of Some n \<Rightarrow> Some (truthy_number n)
      | None \<Rightarrow> (case as_bool v of Some b \<Rightarrow> Some b
        | None \<Rightarrow>
            if is_string v then Option.bind (as_string v) (\<lambda>s. map_option (\<lambda>x. \<not> str_is_empty x) (get_string h s))
            else Some (\<not> (is_null v \<or> is_undefined v))))"

definition string_units :: "heap \<Rightarrow> handle \<Rightarrow> (u16 list \<times> heap) option" where
  "string_units h s = Option.bind (flatten h s) (\<lambda>h'. map_option (\<lambda>x. (flat_units (storage x), h')) (get_string h' s))"

section \<open>Numbers from text\<close>

definition whitespace :: "u16 list" where "whitespace = [0x9, 0xA, 0xB, 0xC, 0xD, 0x20]"

definition trim :: "u16 list \<Rightarrow> u16 list" where
  "trim us = rev (dropWhile (\<lambda>u. u \<in> set whitespace) (rev (dropWhile (\<lambda>u. u \<in> set whitespace) us)))"

definition ascii_lower :: "nat \<Rightarrow> nat" where "ascii_lower c = (if 65 \<le> c \<and> c \<le> 90 then c + 32 else c)"

abbreviation is_decimal :: "nat \<Rightarrow> bool" where "is_decimal c \<equiv> 48 \<le> c \<and> c \<le> 57"

text \<open>\<open>char::to_digit\<close>.\<close>

definition to_digit :: "nat \<Rightarrow> nat \<Rightarrow> nat option" where
  "to_digit radix c =
     (let d = (if is_decimal c then Some (c - 48) else if 97 \<le> c \<and> c \<le> 122 then Some (c - 87)
               else if 65 \<le> c \<and> c \<le> 90 then Some (c - 55) else None)
      in Option.bind d (\<lambda>d. if d < radix then Some d else None))"

definition parse_radix :: "nat list \<Rightarrow> nat \<Rightarrow> f64" where
  "parse_radix digits radix =
     (if digits = [] \<or> \<not> list_all (\<lambda>c. to_digit radix c \<noteq> None) digits then F64_NAN
      else fold (\<lambda>c acc. f64_add (f64_mul acc (f64_of_int (int radix))) (f64_of_int (int (the (to_digit radix c)))))
             digits 0)"

text \<open>
  The grammar of a decimal literal. The loops advance an index over the bytes; here they
  split the text at it: integer digits, fraction digits, exponent (sign and digits) and what
  is left.
\<close>

definition split_decimal :: "nat list \<Rightarrow> nat list \<times> nat list \<times> (bool \<times> nat list) option \<times> nat list" where
  "split_decimal s =
     (let whole = takeWhile is_decimal s; s = dropWhile is_decimal s;
          (frac, s) = (case s of c # r \<Rightarrow> if c = 46 then (takeWhile is_decimal r, dropWhile is_decimal r) else ([], s)
                       | [] \<Rightarrow> ([], s));
          (ex, s) = (case s of c # r \<Rightarrow>
                if c = 101 \<or> c = 69 then
                  (let (neg, r) = (case r of c # r' \<Rightarrow> if c = 43 then (False, r') else if c = 45 then (True, r') else (False, r)
                                   | [] \<Rightarrow> (False, r))
                   in (Some (neg, takeWhile is_decimal r), dropWhile is_decimal r))
                else (None, s)
              | [] \<Rightarrow> (None, s))
      in (whole, frac, ex, s))"

definition valid_decimal :: "nat list \<Rightarrow> bool" where
  "valid_decimal s =
     (case split_decimal s of (whole, frac, ex, rest) \<Rightarrow>
        if whole @ frac = [] then False
        else (case ex of Some (_, []) \<Rightarrow> False | _ \<Rightarrow> rest = []))"

text \<open>\<open>str::parse::<f64>\<close> on such a literal: the double nearest to its value.\<close>

definition digits_value :: "nat list \<Rightarrow> nat" where
  "digits_value cs = fold (\<lambda>c acc. acc * 10 + (c - 48)) cs 0"

definition f64_decimal :: "nat \<Rightarrow> int \<Rightarrow> f64" where
  "f64_decimal d e = (if 0 \<le> e then f64_round False (d * 10 ^ nat e) 0 else f64_quotient False d (10 ^ nat (- e)) 0)"

definition parse_decimal :: "nat list \<Rightarrow> f64" where
  "parse_decimal s =
     (case split_decimal s of (whole, frac, ex, _) \<Rightarrow>
        f64_decimal (digits_value (whole @ frac))
          ((case ex of None \<Rightarrow> 0 | Some (neg, ds) \<Rightarrow> (if neg then - int (digits_value ds) else int (digits_value ds)))
           - int (length frac)))"

definition strip_prefix :: "nat list \<Rightarrow> nat list \<Rightarrow> nat list option" where
  "strip_prefix p s = (if take (length p) s = p then Some (drop (length p) s) else None)"

text \<open>The magnitude of the text after the sign, \<open>None\<close> for the early return of \<open>NaN\<close>.\<close>

definition magnitude_of :: "nat list \<Rightarrow> f64 option" where
  "magnitude_of lower =
     (if lower = [105, 110, 102, 105, 110, 105, 116, 121] then Some (f64_infinity False)
      else case strip_prefix [48, 120] lower of Some hex \<Rightarrow> Some (parse_radix hex 16)
      | None \<Rightarrow> (case strip_prefix [48, 111] lower of Some oct \<Rightarrow> Some (parse_radix oct 8)
      | None \<Rightarrow> (case strip_prefix [48, 98] lower of Some b \<Rightarrow> Some (parse_radix b 2)
      | None \<Rightarrow> if valid_decimal lower then Some (parse_decimal lower) else None)))"

definition string_to_number :: "u16 list \<Rightarrow> f64" where
  "string_to_number units =
     (let s = trim units
      in if s = [] then 0
         else let negative = (hd s = 45); rest = (if hd s = 43 \<or> hd s = 45 then tl s else s)
           in if rest = [] then F64_NAN
              else if \<not> list_all (\<lambda>u. u < 128) rest then F64_NAN
              else (case magnitude_of (map (ascii_lower \<circ> unat) rest) of
                      None \<Rightarrow> F64_NAN
                    | Some m \<Rightarrow> if negative then f64_neg m else m))"

definition to_number :: "heap \<Rightarrow> js_value \<Rightarrow> (f64 \<times> heap) option" where
  "to_number h v =
     (case num_of v of Some n \<Rightarrow> Some (n, h)
      | None \<Rightarrow> (case as_bool v of Some b \<Rightarrow> Some (f64_of_int (if b then 1 else 0), h)
        | None \<Rightarrow>
            if is_null v then Some (0, h)
            else if is_string v then Option.bind (as_string v) (\<lambda>s.
                   map_option (\<lambda>(units, h'). (string_to_number units, h')) (string_units h s))
            else Some (F64_NAN, h)))"

section \<open>Canonical boxing\<close>

definition box_number :: "f64 \<Rightarrow> js_value" where
  "box_number n =
     (if f64_is_finite n \<and> f64_to_int n \<noteq> None \<and> \<not> (f64_eq n 0 \<and> f64_sign n)
         \<and> f64_le (f64_of_int SMI_MIN) n \<and> f64_le n (f64_of_int SMI_MAX)
      then (case from_i32_smi (f64_as_i32 n) of Some smi \<Rightarrow> smi | None \<Rightarrow> from_f64 n)
      else from_f64 n)"

section \<open>Equality\<close>

definition strict_equals :: "heap \<Rightarrow> js_value \<Rightarrow> js_value \<Rightarrow> bool option" where
  "strict_equals h a b =
     (case (num_of a, num_of b) of (Some x, Some y) \<Rightarrow> Some (f64_eq x y) | _ \<Rightarrow>
      case (as_string a, as_string b) of (Some x, Some y) \<Rightarrow> strings_equal h x y | _ \<Rightarrow>
      case (as_bool a, as_bool b) of (Some x, Some y) \<Rightarrow> Some (x = y) | _ \<Rightarrow>
      case (as_bigint a, as_bigint b) of (Some x, Some y) \<Rightarrow> Some (x = y) | _ \<Rightarrow>
      case (as_symbol a, as_symbol b) of (Some x, Some y) \<Rightarrow> Some (x = y) | _ \<Rightarrow>
      case (as_object a, as_object b) of (Some x, Some y) \<Rightarrow> Some (x = y) | _ \<Rightarrow>
      Some (a = b \<and> (is_undefined a \<or> is_null a)))"

text \<open>
  The arms of \<open>loose_equals\<close> after the one that turns a boolean operand into a number, and
  the function, whose re-dispatch meets no boolean again.
\<close>

definition loose_arms :: "heap \<Rightarrow> js_value \<Rightarrow> js_value \<Rightarrow> (bool \<times> heap) option" where
  "loose_arms h a b =
     (case (num_of a, num_of b) of (Some x, Some y) \<Rightarrow> Some (f64_eq x y, h) | _ \<Rightarrow>
      case num_of a of Some x \<Rightarrow>
          if is_string b then map_option (\<lambda>(y, h'). (f64_eq x y, h')) (to_number h b) else Some (False, h)
      | None \<Rightarrow>
      case num_of b of Some y \<Rightarrow>
          if is_string a then map_option (\<lambda>(x, h'). (f64_eq y x, h')) (to_number h a) else Some (False, h)
      | None \<Rightarrow>
      if is_string a \<and> is_string b
      then Option.bind (as_string a) (\<lambda>x. Option.bind (as_string b) (\<lambda>y. map_option (\<lambda>r. (r, h)) (strings_equal h x y)))
      else if is_object a \<and> is_object b then map_option (\<lambda>r. (r, h)) (strict_equals h a b)
      else Some (False, h))"

definition loose_equals :: "heap \<Rightarrow> js_value \<Rightarrow> js_value \<Rightarrow> (bool \<times> heap) option" where
  "loose_equals h a b =
     (if is_null a \<or> is_undefined a then Some (is_null b \<or> is_undefined b, h)
      else if is_null b \<or> is_undefined b then Some (False, h)
      else if as_bool a \<noteq> None \<or> as_bool b \<noteq> None
      then Option.bind (to_number h a) (\<lambda>(na, h). Option.bind (to_number h b) (\<lambda>(nb, h).
             loose_arms h (from_f64 na) (from_f64 nb)))
      else loose_arms h a b)"

section \<open>Comparisons\<close>

datatype ordering = Less | Equal | Greater

fun cmp_units :: "u16 list \<Rightarrow> u16 list \<Rightarrow> ordering" where
  "cmp_units [] [] = Equal"
| "cmp_units [] (_ # _) = Less"
| "cmp_units (_ # _) [] = Greater"
| "cmp_units (x # xs) (y # ys) = (if x < y then Less else if y < x then Greater else cmp_units xs ys)"

definition compare_strings :: "heap \<Rightarrow> handle \<Rightarrow> handle \<Rightarrow> (ordering \<times> heap) option" where
  "compare_strings h a b =
     Option.bind (flatten h a) (\<lambda>h. Option.bind (flatten h b) (\<lambda>h.
     Option.bind (get_string h a) (\<lambda>x. Option.bind (get_string h b) (\<lambda>y.
       if is_flat x \<and> is_flat y then Some (cmp_units (flat_units (storage x)) (flat_units (storage y)), h) else None))))"

text \<open>Only the four relational opcodes reach it.\<close>

definition relation_of_ordering :: "opcode \<Rightarrow> ordering \<Rightarrow> bool option" where
  "relation_of_ordering op ord =
     (if op = Op_Lt then Some (ord = Less) else if op = Op_Le then Some (ord \<noteq> Greater)
      else if op = Op_Gt then Some (ord = Greater) else if op = Op_Ge then Some (ord \<noteq> Less) else None)"

definition relation_of_numbers :: "opcode \<Rightarrow> f64 \<Rightarrow> f64 \<Rightarrow> bool option" where
  "relation_of_numbers op x y =
     (if f64_is_nan x \<or> f64_is_nan y then Some False
      else if op = Op_Lt then Some (f64_lt x y) else if op = Op_Le then Some (f64_le x y)
      else if op = Op_Gt then Some (f64_lt y x) else if op = Op_Ge then Some (f64_le y x) else None)"

definition compare_values :: "opcode \<Rightarrow> heap \<Rightarrow> js_value \<Rightarrow> js_value \<Rightarrow> (bool \<times> heap) option" where
  "compare_values op h l r =
     (case (as_string l, as_string r) of
        (Some lh, Some rh) \<Rightarrow> Option.bind (compare_strings h lh rh) (\<lambda>(ord, h).
            map_option (\<lambda>b. (b, h)) (relation_of_ordering op ord))
      | _ \<Rightarrow> Option.bind (to_number h l) (\<lambda>(ln, h). Option.bind (to_number h r) (\<lambda>(rn, h).
            map_option (\<lambda>b. (b, h)) (relation_of_numbers op ln rn))))"

section \<open>Integer conversions\<close>

definition to_uint32 :: "f64 \<Rightarrow> u32" where
  "to_uint32 n = (if \<not> f64_is_finite n then 0 else word_of_int (f64_trunc n mod 2 ^ 32))"

definition to_int32 :: "f64 \<Rightarrow> i32" where "to_int32 n = to_uint32 n"

section \<open>Reading the view of a value\<close>

definition view_num :: "js_view \<Rightarrow> f64 option" where
  "view_num a = (case a of VDouble f \<Rightarrow> Some f | VSmi n \<Rightarrow> Some (f64_of_int (sint n)) | _ \<Rightarrow> None)"

lemma num_of_view: "view_ok a \<Longrightarrow> num_of (repr a) = view_num a"
  by (cases a) (simp_all add: num_of_def as_f64_view as_smi_view view_num_def del: repr.simps)

lemma ref_handle_view:
  assumes "view_ok a"
  shows "as_string (repr a) = (case a of VString s \<Rightarrow> Some s | _ \<Rightarrow> None)"
    "as_object (repr a) = (case a of VObject s \<Rightarrow> Some s | _ \<Rightarrow> None)"
    "as_symbol (repr a) = (case a of VSymbol s \<Rightarrow> Some s | _ \<Rightarrow> None)"
    "as_bigint (repr a) = (case a of VBigInt s \<Rightarrow> Some s | _ \<Rightarrow> None)"
  using assms payload_view(1) [OF assms] view_fields(2) [OF assms]
  by (cases a; simp add: as_string_def as_object_def as_symbol_def as_bigint_def ref_handle_def boxed_view
      del: repr.simps)+

lemma kind_view:
  assumes "view_ok a"
  shows "is_string (repr a) \<longleftrightarrow> (\<exists>s. a = VString s)" "is_object (repr a) \<longleftrightarrow> (\<exists>s. a = VObject s)"
    "is_null (repr a) \<longleftrightarrow> a = VNull" "is_undefined (repr a) \<longleftrightarrow> a = VUndefined"
  using assms by (cases a; simp add: predicate_defs has_tag_view del: repr.simps)+

lemma repr_inj: "view_ok a \<Longrightarrow> view_ok b \<Longrightarrow> repr a = repr b \<longleftrightarrow> a = b"
  using view_of_repr by metis

lemmas view_reads = num_of_view ref_handle_view kind_view as_bool_view repr_inj

section \<open>Equality\<close>

text \<open>
  Strict equality of two values: numbers by value across their two representations, strings
  by text, everything else by identity. The two internal markers equal nothing.
\<close>

definition strictly_same :: "(handle \<Rightarrow> u16 list) \<Rightarrow> js_view \<Rightarrow> js_view \<Rightarrow> bool" where
  "strictly_same text a b =
     (case (view_num a, view_num b) of (Some x, Some y) \<Rightarrow> f64_eq x y
      | (None, None) \<Rightarrow> (case (a, b) of (VString s, VString t) \<Rightarrow> text s = text t
          | _ \<Rightarrow> a = b \<and> a \<notin> {VHole, VEmpty})
      | _ \<Rightarrow> False)"

definition texts_of :: "heap \<Rightarrow> (handle \<Rightarrow> u16 list) \<Rightarrow> js_view \<Rightarrow> bool" where
  "texts_of h text a \<longleftrightarrow> (case a of VString s \<Rightarrow> has_text h s (text s) | _ \<Rightarrow> True)"

text \<open>
  C11. The strict equality of the interpreter returns on every pair of values and is equality
  of numbers by value, of strings by text and of everything else by identity.
\<close>

theorem strict_equals_exact:
  assumes "view_ok a" "view_ok b" "texts_of h text a" "texts_of h text b"
  shows "strict_equals h (repr a) (repr b) = Some (strictly_same text a b)"
  using assms strings_equal_exact [of h]
  by (cases a; cases b)
     (simp_all add: strict_equals_def strictly_same_def view_reads view_num_def texts_of_def del: repr.simps)

theorem strict_equals_exact_witness:
  "strict_equals demo_strings (repr (VString 0)) (repr (VString 1)) = Some False"
  using strict_equals_exact [of "VString 0" "VString 1" demo_strings "\<lambda>s. if s = 0 then [104, 105] else [0xE9]"] demo_texts
  by (simp add: texts_of_def strictly_same_def view_num_def del: repr.simps)

section \<open>Comparison\<close>

lemma cmp_units_lexordp:
  "cmp_units xs ys = Less \<longleftrightarrow> ord_class.lexordp xs ys"
  "cmp_units xs ys = Equal \<longleftrightarrow> xs = ys"
  by (induction xs ys rule: cmp_units.induct) auto

lemma compare_strings_exact:
  assumes "heap_safe h" "has_text h a ta" "has_text h b tb"
  shows "\<exists>h'. compare_strings h a b = Some (cmp_units ta tb, h') \<and> heap_safe h'
    \<and> (\<forall>s t. has_text h' s t \<longleftrightarrow> has_text h s t)"
proof -
  obtain h1 y1 where 1: "flatten h a = Some h1" "heap_safe h1" "live_string h1 a y1" "is_flat y1"
    "flat_units (storage y1) = ta" "\<And>s t. has_text h1 s t \<longleftrightarrow> has_text h s t"
    by (rule flatten_spec [OF assms(1,2)]) blast
  have b1: "has_text h1 b tb" using assms(3) 1(6) by blast
  obtain h2 y2 where 2: "flatten h1 b = Some h2" "heap_safe h2" "live_string h2 b y2" "is_flat y2"
    "flat_units (storage y2) = tb" "\<And>s t. has_text h2 s t \<longleftrightarrow> has_text h1 s t"
    "\<And>s x. s \<noteq> b \<Longrightarrow> live_string h2 s x \<longleftrightarrow> live_string h1 s x"
    by (rule flatten_spec [OF 1(2) b1]) blast
  obtain x where x: "live_string h2 a x" "is_flat x" "flat_units (storage x) = ta"
  proof (cases "a = b")
    case True
    then have "ta = tb" using assms(2,3) has_text_fun by blast
    with True 2 that show thesis by blast
  next
    case False
    with 1 2(7) that show thesis by blast
  qed
  have "compare_strings h a b = Some (cmp_units ta tb, h2)"
    using 1(1) 2(1,3,4,5) x by (simp add: compare_strings_def)
  with 1(6) 2(2,6) show ?thesis by blast
qed

text \<open>The order of two values: strings by code units, anything else as numbers.\<close>

definition text_relation :: "opcode \<Rightarrow> u16 list \<Rightarrow> u16 list \<Rightarrow> bool" where
  "text_relation op s t \<longleftrightarrow>
     (if op = Op_Lt then ord_class.lexordp s t else if op = Op_Le then \<not> ord_class.lexordp t s
      else if op = Op_Gt then ord_class.lexordp t s else \<not> ord_class.lexordp s t)"

lemma cmp_units_flip: "cmp_units ys xs = (case cmp_units xs ys of Less \<Rightarrow> Greater | Equal \<Rightarrow> Equal | Greater \<Rightarrow> Less)"
  by (induction xs ys rule: cmp_units.induct) auto

lemma cmp_units_greater: "cmp_units xs ys = Greater \<longleftrightarrow> ord_class.lexordp ys xs"
  unfolding cmp_units_lexordp(1) [symmetric] cmp_units_flip [of ys xs] by (simp split: ordering.split)

text \<open>
  The relational operators on strings are the lexicographic order of their code units,
  however the two strings are stored, and change no text of the heap.
\<close>

theorem compare_texts_exact:
  assumes "heap_safe h" "has_text h s ts" "has_text h t tt" "op \<in> {Op_Lt, Op_Le, Op_Gt, Op_Ge}"
  shows "\<exists>h'. compare_values op h (js_string s) (js_string t) = Some (text_relation op ts tt, h') \<and> heap_safe h'
    \<and> (\<forall>u x. has_text h' u x \<longleftrightarrow> has_text h u x)"
proof -
  have "as_string (js_string q) = Some q" for q using ref_handle_view(1) [of "VString q"] by simp
  with compare_strings_exact [OF assms(1-3)] assms(4) show ?thesis
    by (auto simp: compare_values_def relation_of_ordering_def text_relation_def cmp_units_lexordp cmp_units_greater)
qed

theorem compare_texts_exact_witness:
  "\<exists>h'. compare_values Op_Lt demo_strings (js_string 0) (js_string 1) = Some (True, h') \<and> heap_safe h'"
proof -
  have "text_relation Op_Lt [104, 105] [0xE9]" by (simp add: text_relation_def)
  with compare_texts_exact [OF demo_strings_safe demo_texts, of Op_Lt] show ?thesis by auto
qed

section \<open>Boxing\<close>

text \<open>The integers a Smi carries, and the boxing of one.\<close>

definition smi_number :: "f64 \<Rightarrow> i32 option" where
  "smi_number f =
     (case f64_to_int f of Some i \<Rightarrow> if SMI_MIN \<le> i \<and> i \<le> SMI_MAX \<and> \<not> (i = 0 \<and> f64_sign f) then Some (word_of_int i) else None
      | None \<Rightarrow> None)"

lemma smi_range_small: "SMI_MIN \<le> i \<Longrightarrow> i \<le> SMI_MAX \<Longrightarrow> \<bar>i\<bar> < 2 ^ 31 \<and> \<bar>i\<bar> < 2 ^ 52 \<and> \<bar>i\<bar> < 2 ^ 53"
  unfolding SMI_MIN_def SMI_MAX_def by (simp add: abs_less_iff)

lemma sint_small: "\<bar>i\<bar> < 2 ^ 31 \<Longrightarrow> sint (word_of_int i :: i32) = i"
  by (simp add: sint_sbintrunc' signed_take_bit_int_eq_self)

lemma zero_double: "f64_to_int f = Some 0 \<Longrightarrow> f64_eq f 0 \<and> f64_is_finite f \<and> (\<not> f64_sign f \<longrightarrow> f = 0)"
proof -
  assume z: "f64_to_int f = Some 0"
  then have e: "f64_exponent f \<noteq> 2047" by (auto simp: f64_to_int_def)
  have "f64_exponent f = 0 \<and> f64_fraction f = 0"
  proof -
    let ?s = "if f64_exponent f = 0 then f64_fraction f else f64_fraction f + 2 ^ 52"
    have s: "?s = 0" using z unfolding f64_to_int_def Let_def
      by (auto split: if_splits elim: dvd_div_eq_0_iff [THEN iffD1, rotated])
    then show ?thesis by (simp split: if_splits)
  qed
  moreover from this have "f64_key f = 0" by (simp add: f64_key_fields)
  moreover have "f64_exponent 0 = 0" "f64_fraction 0 = 0" "f64_sign 0 = False" "f64_key 0 = 0"
    by (simp_all add: f64_exponent_def f64_fraction_def f64_sign_def f64_key_def)
  ultimately show ?thesis
    by (auto simp: f64_eq_def f64_is_nan_def f64_is_finite_def intro: f64_fields_eq)
qed

lemma box_number_cases:
  "box_number f = (case smi_number f of Some n \<Rightarrow> repr (VSmi n) | None \<Rightarrow> from_f64 f)"
  "smi_number f = Some n \<Longrightarrow> view_ok (VSmi n) \<and> f = f64_of_int (sint n)"
proof -
  show smi: "view_ok (VSmi n) \<and> f = f64_of_int (sint n)" if "smi_number f = Some n" for n
  proof -
    from that obtain i where i: "f64_to_int f = Some i" "SMI_MIN \<le> i" "i \<le> SMI_MAX" "\<not> (i = 0 \<and> f64_sign f)"
      and n: "n = word_of_int i" by (auto simp: smi_number_def split: option.splits if_splits)
    have "f = f64_of_int i"
    proof (cases "i = 0")
      case True
      with i zero_double show ?thesis by (simp add: f64_of_int_def)
    next
      case False
      with i smi_range_small show ?thesis by (intro f64_of_int_unique) auto
    qed
    with i n sint_small smi_range_small [OF i(2,3)] show ?thesis by simp
  qed
  show "box_number f = (case smi_number f of Some n \<Rightarrow> repr (VSmi n) | None \<Rightarrow> from_f64 f)"
  proof (cases "smi_number f")
    case (Some n)
    from Some obtain i where i: "f64_to_int f = Some i" "SMI_MIN \<le> i" "i \<le> SMI_MAX" "\<not> (i = 0 \<and> f64_sign f)"
      and n: "n = word_of_int i" by (auto simp: smi_number_def split: option.splits if_splits)
    note r = smi_range_small [OF i(2,3)]
    have f: "f = f64_of_int i" using smi [OF Some] sint_small r by (simp add: n)
    have "max (- (2 ^ 31)) (min (2 ^ 31 - 1) i) = i" using r by (simp add: max_def min_def abs_less_iff)
    then have "f64_as_i32 f = word_of_int i" using r by (simp add: f64_as_i32_def f f64_saturate_int)
    moreover have "f64_le (f64_of_int SMI_MIN) f" "f64_le f (f64_of_int SMI_MAX)"
      using r i(2,3) f64_compare_int(2) [of SMI_MIN i] f64_compare_int(2) [of i SMI_MAX]
      by (simp_all add: f SMI_MIN_def SMI_MAX_def)
    moreover have "f64_is_finite f" using f64_of_int_value(1) [of i] r by (simp add: f)
    moreover have "f64_eq f 0 \<longleftrightarrow> i = 0"
      using f64_compare_int(3) [of i 0] r by (simp add: f) (simp add: f64_of_int_def)
    ultimately show ?thesis
      using Some i n sint_small r by (simp add: box_number_def from_i32_smi_def)
  next
    case None
    have "\<not> (f64_is_finite f \<and> f64_to_int f \<noteq> None \<and> \<not> (f64_eq f 0 \<and> f64_sign f)
         \<and> f64_le (f64_of_int SMI_MIN) f \<and> f64_le f (f64_of_int SMI_MAX))"
    proof
      assume c: "f64_is_finite f \<and> f64_to_int f \<noteq> None \<and> \<not> (f64_eq f 0 \<and> f64_sign f)
         \<and> f64_le (f64_of_int SMI_MIN) f \<and> f64_le f (f64_of_int SMI_MAX)"
      then obtain i where i: "f64_to_int f = Some i" by blast
      have keys: "f64_key (f64_of_int SMI_MIN) \<le> f64_key f" "f64_key f \<le> f64_key (f64_of_int SMI_MAX)"
        using c by (simp_all add: f64_le_def)
      have small: "\<bar>i\<bar> < 2 ^ 53"
      proof (rule ccontr)
        assume "\<not> \<bar>i\<bar> < 2 ^ 53"
        then have large: "f64_key (f64_of_int n) < \<bar>f64_key f\<bar>" if "\<bar>n\<bar> < 2 ^ 52" for n
          using f64_large_int [OF i _ that] by simp
        have "f64_key (f64_of_int (2 ^ 30)) < \<bar>f64_key f\<bar>" "f64_key (f64_of_int SMI_MAX) < \<bar>f64_key f\<bar>"
          by (rule large; simp add: SMI_MAX_def)+
        moreover have "f64_key (f64_of_int SMI_MIN) = - f64_key (f64_of_int (2 ^ 30))"
          using f64_key_int_neg [of "2 ^ 30"] by (simp add: SMI_MIN_def)
        ultimately show False using keys by linarith
      qed
      show False
      proof (cases "i = 0")
        case True
        with None i c zero_double show False by (auto simp: smi_number_def SMI_MIN_def SMI_MAX_def)
      next
        case False
        then have "f = f64_of_int i" using f64_of_int_unique [OF i] small by simp
        with c small f64_compare_int(2) [of SMI_MIN i] f64_compare_int(2) [of i SMI_MAX]
        have "SMI_MIN \<le> i" "i \<le> SMI_MAX" by (simp_all add: SMI_MIN_def SMI_MAX_def)
        with None i False show False by (simp add: smi_number_def)
      qed
    qed
    then show ?thesis using None by (auto simp: box_number_def)
  qed
qed

text \<open>
  Boxing a computed number loses nothing and is unique: the boxed word is canonical, it
  is a Smi exactly for the integers of 31 bits other than negative zero, and reading it back
  gives the same double, bit for bit, unless that is not a number, which is read as one.
\<close>

theorem box_number_exact:
  "is_canonical (box_number f)
   \<and> (is_smi (box_number f) \<longleftrightarrow> smi_number f \<noteq> None)
   \<and> num_of (box_number f) = Some (if is_boxed f then F64_NAN else f)
   \<and> (if is_boxed f then f64_is_nan f else True)"
proof -
  have "view_ok (VDouble (from_f64 f))" by (simp add: from_f64_def QUIET_NAN_BITS_def BOX_MASK_def)
  moreover have "from_f64 f = repr (VDouble (from_f64 f))" by (simp add: from_f64_def QUIET_NAN_BITS_def BOX_MASK_def)
  ultimately have dbl: "is_canonical (from_f64 f)" "\<not> is_smi (from_f64 f)" "num_of (from_f64 f) = Some (from_f64 f)"
    using view_canonical [of "VDouble (from_f64 f)"] has_tag_view [of "VDouble (from_f64 f)" TAG_SMI] num_of_view [of "VDouble (from_f64 f)"]
    unfolding is_smi_def by (simp_all del: repr.simps add: view_num_def)
  have nan: "from_f64 f = (if is_boxed f then F64_NAN else f)" by (simp add: from_f64_def is_boxed_def F64_NAN_def)
  show ?thesis
  proof (cases "smi_number f")
    case None
    then show ?thesis using dbl is_boxed_nan by (simp add: box_number_cases(1) flip: nan)
  next
    case (Some n)
    note s = box_number_cases(2) [OF Some]
    have "\<not> is_boxed f" using s f64_of_i32_not_boxed by simp
    then show ?thesis
      using Some s view_canonical [of "VSmi n"] num_of_view [of "VSmi n"] has_tag_view [of "VSmi n"]
      by (simp add: box_number_cases(1) is_smi_def view_num_def del: repr.simps)
  qed
qed

section \<open>Numeric text\<close>

text \<open>The decimal numeral of a natural number.\<close>

fun decimal_text :: "nat \<Rightarrow> nat list" where
  "decimal_text n = (if n < 10 then [48 + n] else decimal_text (n div 10) @ [48 + n mod 10])"

declare decimal_text.simps [simp del]

lemma decimal_text_digits: "list_all is_decimal (decimal_text n) \<and> decimal_text n \<noteq> []"
proof (induction n rule: decimal_text.induct)
  case (1 n)
  then show ?case by (subst (1 2) decimal_text.simps) auto
qed

lemma digits_value_snoc: "digits_value (cs @ [c]) = digits_value cs * 10 + (c - 48)"
  by (simp add: digits_value_def)

lemma digits_value_decimal: "digits_value (decimal_text n) = n"
proof (induction n rule: decimal_text.induct)
  case (1 n)
  show ?case
  proof (cases "n < 10")
    case True
    then show ?thesis by (simp add: decimal_text.simps digits_value_def)
  next
    case False
    with 1 show ?thesis by (subst decimal_text.simps) (simp add: digits_value_snoc)
  qed
qed

lemma split_decimal_digits: "list_all is_decimal cs \<Longrightarrow> split_decimal cs = (cs, [], None, [])"
  by (simp add: split_decimal_def list_all_iff takeWhile_eq_all_conv [THEN iffD2] dropWhile_eq_Nil_conv [THEN iffD2])

lemma magnitude_of_digits:
  assumes "list_all is_decimal cs" "cs \<noteq> []" "digits_value cs < 2 ^ 53"
  shows "magnitude_of cs = Some (f64_of_int (int (digits_value cs)))"
proof -
  have "hd cs \<noteq> 105" using assms(1,2) by (cases cs) auto
  then have inf: "cs \<noteq> [105, 110, 102, 105, 110, 105, 116, 121]" by auto
  have prefix: "strip_prefix [48, c] cs = None" if "57 < c" for c
    using assms(1) that by (auto simp: strip_prefix_def take_Suc take_Cons' numeral_2_eq_2 split: if_splits) (cases cs; cases "tl cs"; auto)
  have valid: "valid_decimal cs" using assms(2) by (simp add: valid_decimal_def split_decimal_digits [OF assms(1)])
  have "parse_decimal cs = f64_round False (digits_value cs) 0"
    by (simp add: parse_decimal_def split_decimal_digits [OF assms(1)] f64_decimal_def)
  also have "\<dots> = f64_of_int (int (digits_value cs))"
    using f64_round_int [of "digits_value cs" 0 False] assms(3)
    by (cases "digits_value cs = 0") (simp_all add: f64_round_def f64_zero_def f64_pack_def f64_of_int_def)
  finally show ?thesis using inf prefix valid by (simp add: magnitude_of_def)
qed

lemma trim_padded:
  assumes "set ws \<subseteq> set whitespace" "set ws' \<subseteq> set whitespace" "s \<noteq> []" "hd s \<notin> set whitespace" "last s \<notin> set whitespace"
  shows "trim (ws @ s @ ws') = s"
proof -
  have d: "dropWhile (\<lambda>u. u \<in> set whitespace) (as @ bs) = bs"
    if "set as \<subseteq> set whitespace" "bs \<noteq> []" "hd bs \<notin> set whitespace" for as bs
    using that by (cases bs) (auto simp: dropWhile_append2 subset_iff)
  have 1: "dropWhile (\<lambda>u. u \<in> set whitespace) (ws @ s @ ws') = s @ ws'"
    using assms(3,4) by (intro d assms(1)) simp_all
  have "dropWhile (\<lambda>u. u \<in> set whitespace) (rev ws' @ rev s) = rev s"
    using assms(2,3,5) by (intro d) (simp_all add: hd_rev)
  then show ?thesis by (simp add: trim_def 1)
qed

text \<open>
  A decimal numeral of an integer below \<open>2 ^ 53\<close>, with an optional sign and any
  whitespace around it, converts to that number exactly.
\<close>

theorem numeral_text_exact:
  assumes "set ws \<subseteq> set whitespace" "set ws' \<subseteq> set whitespace" "pre \<in> {[], [43], [45]}" "n < 2 ^ 53"
  shows "string_to_number (ws @ (pre @ map word_of_nat (decimal_text n)) @ ws') =
    (if pre = [45] then f64_neg (f64_of_int (int n)) else f64_of_int (int n))"
proof -
  let ?ds = "map word_of_nat (decimal_text n) :: u16 list"
  note digits = decimal_text_digits [of n]
  have small: "unat (word_of_nat c :: u16) = c" if "c \<in> set (decimal_text n)" for c
    using digits that by (intro unat_of_nat_small) (auto simp: list_all_iff)
  have code: "u < 128 \<and> u \<notin> set whitespace \<and> u \<noteq> 43 \<and> u \<noteq> 45" if "u \<in> set ?ds" for u
  proof -
    from that obtain c where c: "c \<in> set (decimal_text n)" "u = word_of_nat c" by auto
    then have "unat u = c" "48 \<le> c" "c \<le> 57" using small digits by (auto simp: list_all_iff)
    then show ?thesis by (auto simp: whitespace_def word_less_nat_alt)
  qed
  have ne: "?ds \<noteq> []" using digits by simp
  then have hd: "hd ?ds \<in> set ?ds" and lst: "last ?ds \<in> set ?ds" by (rule hd_in_set, rule last_in_set)
  have lst': "last (pre @ ?ds) = last ?ds" using ne by simp
  have "hd (pre @ ?ds) \<notin> set whitespace" using assms(3) code [OF hd] by (auto simp: whitespace_def)
  then have t: "trim (ws @ (pre @ ?ds) @ ws') = pre @ ?ds"
    using ne code [OF lst] lst' by (intro trim_padded assms(1,2)) auto
  have rest: "(if hd (pre @ ?ds) = 43 \<or> hd (pre @ ?ds) = 45 then tl (pre @ ?ds) else pre @ ?ds) = ?ds"
    and neg: "hd (pre @ ?ds) = 45 \<longleftrightarrow> pre = [45]" using assms(3) code [OF hd] by auto
  have low: "map (ascii_lower \<circ> unat) ?ds = decimal_text n"
    using small digits by (auto simp: ascii_lower_def list_all_iff intro!: map_idI)
  have "digits_value (decimal_text n) < 2 ^ 53" using assms(4) by (simp add: digits_value_decimal)
  from magnitude_of_digits [OF _ _ this] digits
  have mag: "magnitude_of (decimal_text n) = Some (f64_of_int (int n))" by (simp add: digits_value_decimal)
  have asc: "list_all (\<lambda>u. u < 128) ?ds" using code by (simp add: list_all_iff)
  have "(pre @ ?ds = []) = False" "(?ds = []) = False" using ne by simp_all
  then show ?thesis
    unfolding string_to_number_def t Let_def rest unfolding neg low mag by (simp only: asc if_False not_True_eq_False option.case)
qed

theorem numeral_text_exact_witness:
  "string_to_number ([32] @ ([45] @ map word_of_nat (decimal_text 42)) @ [10]) = f64_neg (f64_of_int 42)"
  using numeral_text_exact [of "[32]" "[10]" "[45]" 42] by (simp add: whitespace_def)

section \<open>Divergences from the language\<close>

text \<open>
  Two texts the specification of the language converts to \<open>NaN\<close>: a sign before a radix
  prefix and a lower-case \<open>infinity\<close>.
\<close>

lemma f64_mul_zero: "0 \<le> n \<Longrightarrow> n < 2 ^ 53 \<Longrightarrow> f64_mul 0 (f64_of_int n) = f64_of_int 0"
  using f64_not_nan_int [of n] f64_of_int_value(1) [of n] f64_sign_int [of n]
  by (simp add: f64_mul_def f64_is_nan_def f64_is_infinite_def f64_is_finite_def f64_exponent_def f64_fraction_def
      f64_mant_def f64_sign_def f64_round_def f64_zero_def f64_pack_def f64_of_int_def [of 0] Let_def)

lemma radix_sign_accepted: "string_to_number [45, 48, 120, 49] = f64_neg (f64_of_int 1)"
proof -
  have "f64_add (f64_mul 0 (f64_of_int 16)) (f64_of_int 1) = f64_of_int 1"
    using f64_add_int [of 0 1] by (simp add: f64_mul_zero)
  then show ?thesis
    by (simp add: string_to_number_def trim_def whitespace_def magnitude_of_def ascii_lower_def strip_prefix_def parse_radix_def to_digit_def)
qed

lemma lower_case_infinity: "string_to_number (map word_of_nat [105, 110, 102, 105, 110, 105, 116, 121]) = f64_infinity False"
  by (simp add: string_to_number_def trim_def whitespace_def magnitude_of_def ascii_lower_def)

end
