(* ===== verification/JitBaseline.thy ===== *)
theory JitBaseline
  imports Ops Validator
begin

text \<open>
  The baseline compiler (\<open>v12-jit-baseline\<close>): the heap-free arithmetic helpers of
  \<open>runtime.rs\<close>, and of \<open>compiler.rs\<close> the checks under which a function is
  accepted and the closure that executes it. The intermediate code built beside the closure
  is handed to an external library and dropped; what remains of it here is which functions
  it rejects, and with which error, and the program counter map.
\<close>

section \<open>Runtime helpers\<close>

text \<open>\<open>runtime.rs\<close> repeats \<open>box_number\<close> and \<open>num_of\<close> of the interpreter word for word.\<close>

definition rt_box_number :: "f64 \<Rightarrow> js_value" where "rt_box_number = box_number"
definition rt_num_of :: "js_value \<Rightarrow> f64 option" where "rt_num_of = num_of"

definition to_number_no_heap :: "js_value \<Rightarrow> f64" where
  "to_number_no_heap v =
     (case rt_num_of v of Some n \<Rightarrow> n
      | None \<Rightarrow> (case as_bool v of Some b \<Rightarrow> f64_of_int (if b then 1 else 0)
        | None \<Rightarrow> if is_null v then 0 else F64_NAN))"

definition to_boolean_no_heap :: "js_value \<Rightarrow> bool" where
  "to_boolean_no_heap v =
     (case rt_num_of v of Some n \<Rightarrow> \<not> f64_eq n 0 \<and> \<not> f64_is_nan n
      | None \<Rightarrow> (case as_bool v of Some b \<Rightarrow> b
        | None \<Rightarrow> if is_string v then True else \<not> (is_null v \<or> is_undefined v)))"

definition jit_add :: "js_value \<Rightarrow> js_value \<Rightarrow> js_value" where
  "jit_add a b = rt_box_number (f64_add (to_number_no_heap a) (to_number_no_heap b))"
definition jit_sub :: "js_value \<Rightarrow> js_value \<Rightarrow> js_value" where
  "jit_sub a b = rt_box_number (f64_sub (to_number_no_heap a) (to_number_no_heap b))"
definition jit_mul :: "js_value \<Rightarrow> js_value \<Rightarrow> js_value" where
  "jit_mul a b = rt_box_number (f64_mul (to_number_no_heap a) (to_number_no_heap b))"
definition jit_div :: "js_value \<Rightarrow> js_value \<Rightarrow> js_value" where
  "jit_div a b = rt_box_number (f64_div (to_number_no_heap a) (to_number_no_heap b))"
definition jit_neg :: "js_value \<Rightarrow> js_value" where
  "jit_neg v = rt_box_number (f64_neg (to_number_no_heap v))"

definition jit_eq :: "js_value \<Rightarrow> js_value \<Rightarrow> js_value" where
  "jit_eq a b =
     (case (rt_num_of a, rt_num_of b) of (Some x, Some y) \<Rightarrow> from_bool (f64_eq x y) | _ \<Rightarrow>
      case (as_bool a, as_bool b) of (Some x, Some y) \<Rightarrow> from_bool (x = y) | _ \<Rightarrow>
      from_bool (a = b \<and> (is_undefined a \<or> is_null a \<or> is_boolean a)))"

definition jit_ne :: "js_value \<Rightarrow> js_value \<Rightarrow> js_value" where
  "jit_ne a b = from_bool (\<not> is_true (jit_eq a b))"

definition jit_relation :: "(f64 \<Rightarrow> f64 \<Rightarrow> bool) \<Rightarrow> js_value \<Rightarrow> js_value \<Rightarrow> js_value" where
  "jit_relation rel a b =
     (let ln = to_number_no_heap a; rn = to_number_no_heap b
      in if f64_is_nan ln \<or> f64_is_nan rn then from_bool False else from_bool (rel ln rn))"

definition jit_lt :: "js_value \<Rightarrow> js_value \<Rightarrow> js_value" where "jit_lt = jit_relation f64_lt"
definition jit_le :: "js_value \<Rightarrow> js_value \<Rightarrow> js_value" where "jit_le = jit_relation f64_le"
definition jit_gt :: "js_value \<Rightarrow> js_value \<Rightarrow> js_value" where "jit_gt = jit_relation (\<lambda>x y. f64_lt y x)"
definition jit_ge :: "js_value \<Rightarrow> js_value \<Rightarrow> js_value" where "jit_ge = jit_relation (\<lambda>x y. f64_le y x)"

definition jit_strict_eq :: "js_value \<Rightarrow> js_value \<Rightarrow> js_value" where
  "jit_strict_eq a b =
     (case (rt_num_of a, rt_num_of b) of (Some x, Some y) \<Rightarrow> from_bool (f64_eq x y) | _ \<Rightarrow> from_bool (a = b))"

definition jit_strict_ne :: "js_value \<Rightarrow> js_value \<Rightarrow> js_value" where
  "jit_strict_ne a b = from_bool (\<not> is_true (jit_strict_eq a b))"

definition jit_to_boolean :: "js_value \<Rightarrow> u32" where
  "jit_to_boolean v = (if to_boolean_no_heap v then 1 else 0)"

definition jit_call_native :: "js_value \<Rightarrow> u64 \<Rightarrow> js_value" where
  "jit_call_native callee argc =
     (if as_smi callee = Some 255
      then rt_box_number (f64_add (f64_mul (f64_round False (unat argc) 0) (f64_of_int 10)) (f64_of_int 255))
      else js_undefined)"

section \<open>Acceptance\<close>

definition MAX_JIT_FUNCTION_SIZE :: nat where "MAX_JIT_FUNCTION_SIZE = 8192"
definition MAX_JIT_REGISTERS :: nat where "MAX_JIT_REGISTERS = 512"

text \<open>
  The errors. The rendered reasons of \<open>InvalidFunction\<close> are the message and the numbers it
  prints; \<open>UnsupportedWideOp\<close> renders an operation or a constant.
\<close>

datatype (plugins only: code) jit_reason =
    TooManyRegisters u16
  | UnassignedByteAt nat
  | WideDecodeAt nat bytecode_error
  | JumpOutOfBounds nat nat
  | BranchOutOfBounds opcode nat nat
  | FallthroughOutOfBounds opcode nat nat
  | RegisterBeyondFrame nat u16
  | ConstOutOfRange u32

datatype (plugins only: code) jit_error =
    JitDisabled
  | TooLarge nat nat
  | UnsupportedOpcode opcode
  | UnsupportedWideOp "wide_op + const_val"
  | JitInvalidBytecode jit_reason
  | Cranelift string

definition ensure_reg :: "nat \<Rightarrow> u16 \<Rightarrow> jit_error + unit" where
  "ensure_reg idx lim = (if idx < unat lim then Inr () else Inl (JitInvalidBytecode (RegisterBeyondFrame idx lim)))"

fun ensure_regs :: "nat list \<Rightarrow> u16 \<Rightarrow> jit_error + unit" where
  "ensure_regs [] lim = Inr ()"
| "ensure_regs (i # is) lim = rbind (ensure_reg i lim) (\<lambda>_. ensure_regs is lim)"

definition resolve_const_bits :: "function_bytecode \<Rightarrow> u32 \<Rightarrow> jit_error + js_value" where
  "resolve_const_bits fb k =
     (case pool_get (fb_consts fb) (ucast k) of
        Some (C_F64 n) \<Rightarrow> Inr (rt_box_number n)
      | Some (C_Str32 _) \<Rightarrow> Inr js_undefined
      | Some C_Null \<Rightarrow> Inr js_null
      | Some other \<Rightarrow> Inl (UnsupportedWideOp (Inr other))
      | None \<Rightarrow> Inl (JitInvalidBytecode (ConstOutOfRange k)))"

definition binary_opcodes :: "opcode list" where
  "binary_opcodes = [Op_Add, Op_Sub, Op_Mul, Op_Div, Op_Eq, Op_Ne, Op_Lt, Op_Le, Op_Gt, Op_Ge, Op_StrictEq, Op_StrictNe]"

text \<open>The checks for the operation at \<open>pc\<close>; the result is its width.\<close>

definition emit_wide :: "function_bytecode \<Rightarrow> wide_op \<Rightarrow> nat \<Rightarrow> jit_error + nat" where
  "emit_wide fb w width =
     (case w of
        LoadConstW dst k \<Rightarrow> rbind (ensure_reg (unat dst) (max_regs fb)) (\<lambda>_.
            rbind (resolve_const_bits fb k) (\<lambda>_. Inr width))
      | LoadIntW dst v \<Rightarrow> rbind (ensure_reg (unat dst) (max_regs fb)) (\<lambda>_. Inr width)
      | CallW dst f argc \<Rightarrow> rbind (ensure_regs [unat dst, unat f] (max_regs fb)) (\<lambda>_. Inr width)
      | _ \<Rightarrow> Inl (UnsupportedWideOp (Inl w)))"

definition emit_narrow :: "function_bytecode \<Rightarrow> nat \<Rightarrow> instr \<Rightarrow> opcode \<Rightarrow> jit_error + nat" where
  "emit_narrow fb pc i op =
     (let n = length (instrs fb); m = max_regs fb; a = unat (instr_a i); b = unat (instr_b i); c = unat (instr_c i)
      in if op = Op_Move then rbind (ensure_reg a m) (\<lambda>_. rbind (ensure_reg b m) (\<lambda>_. Inr 1))
         else if op = Op_LoadInt then rbind (ensure_reg a m) (\<lambda>_. Inr 1)
         else if op = Op_LoadConst then rbind (ensure_reg a m) (\<lambda>_.
           rbind (resolve_const_bits fb (ucast (instr_imm16 i))) (\<lambda>_. Inr 1))
         else if op \<in> set binary_opcodes then rbind (ensure_regs [a, b, c] m) (\<lambda>_. Inr 1)
         else if op = Op_Neg then rbind (ensure_regs [a, b] m) (\<lambda>_. Inr 1)
         else if op = Op_Jump then
           (let t = unat (instr_imm24 i) in if n \<le> t then Inl (JitInvalidBytecode (JumpOutOfBounds t pc)) else Inr 1)
         else if op = Op_JumpIfFalse \<or> op = Op_JumpIfTrue then rbind (ensure_reg a m) (\<lambda>_.
           (let t = unat (instr_imm16 i)
            in if n \<le> t then Inl (JitInvalidBytecode (BranchOutOfBounds op t pc))
               else if n \<le> pc + 1 then Inl (JitInvalidBytecode (FallthroughOutOfBounds op (pc + 1) pc))
               else Inr 1))
         else if op = Op_LoopHeader then Inr 1
         else if op = Op_Call then rbind (ensure_regs [a, b] m) (\<lambda>_. Inr 1)
         else if op = Op_Return then rbind (ensure_reg a m) (\<lambda>_. Inr 1)
         else Inl (UnsupportedOpcode op))"

definition emit_at :: "function_bytecode \<Rightarrow> nat \<Rightarrow> jit_error + nat" where
  "emit_at fb pc =
     (case instr_op (instrs fb ! pc) of
        None \<Rightarrow> Inl (JitInvalidBytecode (UnassignedByteAt pc))
      | Some op \<Rightarrow>
          if op = Op_Wide then
            (case try_decode (drop pc (instrs fb)) of
               Inl e \<Rightarrow> Inl (JitInvalidBytecode (WideDecodeAt pc e))
             | Inr (w, width) \<Rightarrow> emit_wide fb w width)
          else emit_narrow fb pc (instrs fb ! pc) op)"

text \<open>One map entry per operation: four times the index stands for the code offset.\<close>

definition map_entry :: "nat \<Rightarrow> u32 \<times> u32" where
  "map_entry pc = (word_of_nat pc * 4, word_of_nat pc)"

text \<open>The loop of \<open>build_and_verify_ir\<close>. Every width is positive, so it ends.\<close>

function build_ir :: "function_bytecode \<Rightarrow> nat \<Rightarrow> (u32 \<times> u32) list \<Rightarrow> jit_error + (u32 \<times> u32) list" where
  "build_ir fb pc acc =
     (if pc < length (instrs fb)
      then (case emit_at fb pc of Inl e \<Rightarrow> Inl e
            | Inr width \<Rightarrow> if width = 0 then Inr acc else build_ir fb (pc + width) (acc @ [map_entry pc]))
      else Inr acc)"
  by pat_completeness auto
termination by (relation "measure (\<lambda>(fb, pc, acc). length (instrs fb) - pc)") auto

declare build_ir.simps [simp del]

record compiled_fn =
  cf_pc_map :: "(u32 \<times> u32) list"
  cf_max_regs :: u16
  cf_instrs :: "instr list"
  cf_consts :: "const_val list"

definition deopt_info :: "compiled_fn \<Rightarrow> (u32 \<times> u32) list" where "deopt_info cf = cf_pc_map cf"

definition jit_compile :: "function_bytecode \<Rightarrow> jit_error + compiled_fn" where
  "jit_compile fb =
     (if MAX_JIT_FUNCTION_SIZE < length (instrs fb)
      then Inl (TooLarge (length (instrs fb)) MAX_JIT_FUNCTION_SIZE)
      else if MAX_JIT_REGISTERS < unat (max_regs fb) then Inl (JitInvalidBytecode (TooManyRegisters (max_regs fb)))
      else rbind (build_ir fb 0 []) (\<lambda>m.
        Inr \<lparr>cf_pc_map = m, cf_max_regs = max_regs fb, cf_instrs = instrs fb, cf_consts = pool_consts (fb_consts fb)\<rparr>))"

section \<open>The execution closure\<close>

text \<open>
  \<open>regs[i]\<close> and \<open>regs[i] = v\<close> panic outside the slice: \<open>None\<close>. A step stops with a value or
  goes on with a program counter and registers.
\<close>

definition write_reg :: "js_value list \<Rightarrow> nat \<Rightarrow> js_value \<Rightarrow> js_value list option" where
  "write_reg rs i v = (if i < length rs then Some (rs[i := v]) else None)"

definition const_bits :: "const_val list \<Rightarrow> nat \<Rightarrow> js_value" where
  "const_bits cs k =
     (case list_get cs k of
        Some (C_F64 n) \<Rightarrow> rt_box_number n
      | Some C_Null \<Rightarrow> js_null
      | _ \<Rightarrow> js_undefined)"

definition binary_helper :: "opcode \<Rightarrow> (js_value \<Rightarrow> js_value \<Rightarrow> js_value) option" where
  "binary_helper op = map_of
     [(Op_Add, jit_add), (Op_Sub, jit_sub), (Op_Mul, jit_mul), (Op_Div, jit_div), (Op_Eq, jit_eq), (Op_Ne, jit_ne),
      (Op_Lt, jit_lt), (Op_Le, jit_le), (Op_Gt, jit_gt), (Op_Ge, jit_ge), (Op_StrictEq, jit_strict_eq),
      (Op_StrictNe, jit_strict_ne)] op"

type_synonym jit_next = "(js_value \<times> js_value list) + (nat \<times> js_value list)"

definition exec_wide :: "const_val list \<Rightarrow> wide_op \<Rightarrow> nat \<Rightarrow> nat \<times> js_value list \<Rightarrow> jit_next option" where
  "exec_wide cs w width st =
     (let pc = fst st; rs = snd st; go = (\<lambda>rs. Inr (pc + width, rs))
      in case w of
        LoadConstW dst k \<Rightarrow> map_option go (write_reg rs (unat dst) (const_bits cs (unat (ucast k :: u16))))
      | LoadIntW dst v \<Rightarrow> map_option go (write_reg rs (unat dst)
            (rt_box_number (f64_round (sint v < 0) (nat \<bar>sint v\<bar>) 0)))
      | CallW dst f argc \<Rightarrow> Option.bind (list_get rs (unat f)) (\<lambda>callee.
            map_option go (write_reg rs (unat dst) (jit_call_native callee (ucast argc))))
      | _ \<Rightarrow> Some (Inl (js_undefined, rs)))"

definition exec_narrow :: "const_val list \<Rightarrow> instr \<Rightarrow> opcode \<Rightarrow> nat \<times> js_value list \<Rightarrow> jit_next option" where
  "exec_narrow cs i op st =
     (let pc = fst st; rs = snd st; a = unat (instr_a i); b = unat (instr_b i); c = unat (instr_c i);
          go = (\<lambda>rs. Inr (pc + 1, rs))
      in if op = Op_Move then Option.bind (list_get rs b) (\<lambda>v. map_option go (write_reg rs a v))
         else if op = Op_LoadInt then
           map_option go (write_reg rs a (rt_box_number (f64_of_int (sint (instr_c i)))))
         else if op = Op_LoadConst then map_option go (write_reg rs a (const_bits cs (unat (instr_imm16 i))))
         else if binary_helper op \<noteq> None then
           Option.bind (list_get rs b) (\<lambda>x. Option.bind (list_get rs c) (\<lambda>y.
             map_option go (write_reg rs a (the (binary_helper op) x y))))
         else if op = Op_Neg then Option.bind (list_get rs b) (\<lambda>v. map_option go (write_reg rs a (jit_neg v)))
         else if op = Op_Jump then Some (Inr (unat (instr_imm24 i), rs))
         else if op = Op_JumpIfFalse then Option.bind (list_get rs a) (\<lambda>v.
           Some (Inr (if \<not> to_boolean_no_heap v then unat (instr_imm16 i) else pc + 1, rs)))
         else if op = Op_JumpIfTrue then Option.bind (list_get rs a) (\<lambda>v.
           Some (Inr (if to_boolean_no_heap v then unat (instr_imm16 i) else pc + 1, rs)))
         else if op = Op_LoopHeader then Some (Inr (pc + 1, rs))
         else if op = Op_Call then Option.bind (list_get rs b) (\<lambda>callee.
           map_option go (write_reg rs a (jit_call_native callee (ucast (instr_c i)))))
         else if op = Op_Return \<or> op = Op_Throw then map_option (\<lambda>v. Inl (v, rs)) (list_get rs a)
         else Some (Inl (js_undefined, rs)))"

definition jit_step :: "compiled_fn \<Rightarrow> nat \<times> js_value list \<Rightarrow> jit_next option" where
  "jit_step cf st =
     (case list_get (cf_instrs cf) (fst st) of
        None \<Rightarrow> Some (Inl (js_undefined, snd st))
      | Some i \<Rightarrow> (case instr_op i of
          None \<Rightarrow> Some (Inl (js_undefined, snd st))
        | Some op \<Rightarrow>
            if op = Op_Wide then
              (case try_decode (drop (fst st) (cf_instrs cf)) of
                 Inl _ \<Rightarrow> Some (Inl (js_undefined, snd st))
               | Inr (w, width) \<Rightarrow> exec_wide (cf_consts cf) w width st)
            else exec_narrow (cf_consts cf) i op st))"

text \<open>
  The loop may not end: the outer option is \<open>None\<close> then, the inner one on a panic. A result
  is the returned value and the registers the closure leaves.
\<close>

partial_function (option) jit_loop :: "compiled_fn \<Rightarrow> nat \<times> js_value list \<Rightarrow> (js_value \<times> js_value list) option option" where
  "jit_loop cf st =
     (case jit_step cf st of
        None \<Rightarrow> Some None
      | Some (Inl r) \<Rightarrow> Some (Some r)
      | Some (Inr st') \<Rightarrow> jit_loop cf st')"

definition jit_execute :: "compiled_fn \<Rightarrow> js_value list \<Rightarrow> (js_value \<times> js_value list) option option" where
  "jit_execute cf rs =
     (if length rs < unat (cf_max_regs cf) then Some (Some (js_undefined, rs)) else jit_loop cf (0, rs))"

section \<open>What acceptance means\<close>

lemma ensure_reg_Inr [simp]: "ensure_reg i lim = Inr u \<longleftrightarrow> i < unat lim"
  by (simp add: ensure_reg_def)

lemma ensure_regs_Inr [simp]: "ensure_regs is lim = Inr u \<longleftrightarrow> list_all (\<lambda>i. i < unat lim) is"
  by (induction "is") auto

lemma emit_wide_width: "emit_wide fb w width = Inr v \<Longrightarrow> v = width"
  by (cases w) (auto simp: emit_wide_def)

lemma emit_narrow_width: "emit_narrow fb pc i op = Inr v \<Longrightarrow> v = 1"
  by (auto simp: emit_narrow_def Let_def split: if_splits)

lemma emit_at_width:
  assumes "pc < length (instrs fb)" "emit_at fb pc = Inr v"
  shows "v = instr_width (instrs fb) pc"
  using assms emit_wide_width emit_narrow_width
  by (auto simp: emit_at_def instr_width_def list_get_def split: option.splits if_splits sum.splits)

lemma build_ir_Inr:
  "build_ir fb pc acc = Inr m \<longleftrightarrow>
     m = acc @ map map_entry (logical_pcs_from (instrs fb) pc)
   \<and> (\<forall>p \<in> set (logical_pcs_from (instrs fb) pc). \<exists>v. emit_at fb p = Inr v)"
proof (induction fb pc acc rule: build_ir.induct)
  case (1 fb pc acc)
  show ?case
  proof (cases "pc < length (instrs fb)")
    case True
    note walk = logical_pcs_from_step [OF True]
    show ?thesis
    proof (cases "emit_at fb pc")
      case (Inl e)
      then show ?thesis using True by (simp add: build_ir.simps walk)
    next
      case (Inr v)
      have v: "v = instr_width (instrs fb) pc" "0 < v"
        using emit_at_width [OF True Inr] instr_width_pos [OF True] by simp_all
      have "build_ir fb pc acc = build_ir fb (pc + v) (acc @ [map_entry pc])"
        using True Inr v(2) by (simp add: build_ir.simps)
      with 1 [OF True Inr] v Inr show ?thesis by (simp add: walk)
    qed
  next
    case False
    then show ?thesis by (auto simp: build_ir.simps)
  qed
qed

lemma jit_compile_Inr:
  "jit_compile fb = Inr cf \<longleftrightarrow>
     length (instrs fb) \<le> MAX_JIT_FUNCTION_SIZE \<and> unat (max_regs fb) \<le> MAX_JIT_REGISTERS
   \<and> (\<forall>p \<in> set (logical_pcs fb). \<exists>v. emit_at fb p = Inr v)
   \<and> cf = \<lparr>cf_pc_map = map map_entry (logical_pcs fb), cf_max_regs = max_regs fb, cf_instrs = instrs fb,
           cf_consts = pool_consts (fb_consts fb)\<rparr>"
  by (auto simp: jit_compile_def build_ir_Inr logical_pcs_def)

text \<open>The first operation the compiler rejects.\<close>

definition rejected_at :: "function_bytecode \<Rightarrow> nat option" where
  "rejected_at fb = find (\<lambda>p. isl (emit_at fb p)) (logical_pcs fb)"

lemma build_ir_find:
  "build_ir fb pc acc = (case find (\<lambda>p. isl (emit_at fb p)) (logical_pcs_from (instrs fb) pc) of
     Some p \<Rightarrow> Inl (projl (emit_at fb p))
   | None \<Rightarrow> Inr (acc @ map map_entry (logical_pcs_from (instrs fb) pc)))"
proof (induction fb pc acc rule: build_ir.induct)
  case (1 fb pc acc)
  show ?case
  proof (cases "pc < length (instrs fb)")
    case True
    note walk = logical_pcs_from_step [OF True]
    show ?thesis
    proof (cases "emit_at fb pc")
      case (Inl e)
      then show ?thesis using True by (simp add: build_ir.simps walk)
    next
      case (Inr v)
      have v: "v = instr_width (instrs fb) pc" "0 < v"
        using emit_at_width [OF True Inr] instr_width_pos [OF True] by simp_all
      have "build_ir fb pc acc = build_ir fb (pc + v) (acc @ [map_entry pc])"
        using True Inr v(2) by (simp add: build_ir.simps)
      with 1 [OF True Inr] v Inr show ?thesis by (simp add: walk split: option.split)
    qed
  next
    case False
    then show ?thesis by (simp add: build_ir.simps)
  qed
qed


section \<open>Accepted functions do not panic\<close>

lemma binary_helper_defined: "binary_helper op = None \<longleftrightarrow> op \<notin> set binary_opcodes"
  by (auto simp: binary_helper_def binary_opcodes_def)

definition jit_code :: "function_bytecode \<Rightarrow> compiled_fn" where
  "jit_code fb = \<lparr>cf_pc_map = map map_entry (logical_pcs fb), cf_max_regs = max_regs fb, cf_instrs = instrs fb,
     cf_consts = pool_consts (fb_consts fb)\<rparr>"

text \<open>What one step of an accepted operation can do: stop, fall through or branch.\<close>

definition step_fits :: "function_bytecode \<Rightarrow> nat \<Rightarrow> nat \<Rightarrow> js_value list \<Rightarrow> jit_next option \<Rightarrow> bool" where
  "step_fits fb p v rs r \<longleftrightarrow>
     (case r of None \<Rightarrow> False | Some (Inl _) \<Rightarrow> True
      | Some (Inr (q, rs')) \<Rightarrow> length rs' = length rs \<and>
          (q = p + v \<or> (\<exists>op t. instr_op (instrs fb ! p) = Some op \<and> branch_target op (instrs fb ! p) = Some t \<and> q = unat t)))"

lemma exec_wide_fits:
  "emit_wide fb w width = Inr v \<Longrightarrow> unat (max_regs fb) \<le> length rs \<Longrightarrow>
     step_fits fb p v rs (exec_wide cs w width (p, rs))"
  by (cases w) (auto simp: emit_wide_def exec_wide_def write_reg_def step_fits_def list_get_def)

lemma exec_narrow_fits:
  assumes "emit_narrow fb p i op = Inr v" "unat (max_regs fb) \<le> length rs" "instr_op i = Some op" "i = instrs fb ! p"
  shows "step_fits fb p v rs (exec_narrow cs i op (p, rs))"
proof -
  have bin: "binary_helper op \<noteq> None \<longleftrightarrow> op \<in> set binary_opcodes" by (simp add: binary_helper_defined)
  consider "op \<in> set binary_opcodes" "op \<notin> {Op_Move, Op_LoadInt, Op_LoadConst}" | "op \<notin> set binary_opcodes" | "op \<in> {Op_Move, Op_LoadInt, Op_LoadConst}"
    by blast
  then show ?thesis
  proof cases
    case 1
    then have "exec_narrow cs i op (p, rs) = Option.bind (list_get rs (unat (instr_b i))) (\<lambda>x.
        Option.bind (list_get rs (unat (instr_c i))) (\<lambda>y.
          map_option (\<lambda>rs. Inr (p + 1, rs)) (write_reg rs (unat (instr_a i)) (the (binary_helper op) x y))))"
      using bin by (simp add: exec_narrow_def Let_def)
    moreover have "list_all (\<lambda>r. r < unat (max_regs fb)) [unat (instr_a i), unat (instr_b i), unat (instr_c i)]" "v = 1"
      using 1 assms(1) by (auto simp: emit_narrow_def Let_def)
    ultimately show ?thesis using assms(2) by (simp add: step_fits_def write_reg_def list_get_def)
  next
    case 2
    then have "binary_helper op = None" by (simp add: binary_helper_defined)
    with 2 assms show ?thesis
      by (auto simp: emit_narrow_def exec_narrow_def Let_def write_reg_def step_fits_def list_get_def branch_target_def
          split: if_splits)
  next
    case 3
    with assms show ?thesis
      by (auto simp: emit_narrow_def exec_narrow_def Let_def write_reg_def step_fits_def list_get_def split: if_splits)
  qed
qed

lemma jit_step_fits:
  assumes "emit_at fb p = Inr v" "p < length (instrs fb)" "unat (max_regs fb) \<le> length rs"
  shows "step_fits fb p v rs (jit_step (jit_code fb) (p, rs))"
  using assms exec_wide_fits [of fb _ _ v rs p] exec_narrow_fits [of fb p "instrs fb ! p" _ v rs]
  by (auto simp: emit_at_def jit_step_def jit_code_def list_get_def split: option.splits if_splits sum.splits)

text \<open>
  Neither the validator nor the baseline compiler looks whether a branch lands on an
  instruction boundary; the builder and the peephole pass produce only such branches.
\<close>

definition branches_aligned :: "function_bytecode \<Rightarrow> bool" where
  "branches_aligned fb \<longleftrightarrow> (\<forall>p \<in> set (logical_pcs fb). \<forall>op t.
     instr_op (instrs fb ! p) = Some op \<longrightarrow> branch_target op (instrs fb ! p) = Some t \<longrightarrow>
     unat t \<in> set (logical_pcs fb) \<or> length (instrs fb) \<le> unat t)"

definition jit_at_boundary :: "function_bytecode \<Rightarrow> nat \<times> js_value list \<Rightarrow> bool" where
  "jit_at_boundary fb st \<longleftrightarrow> (fst st \<in> set (logical_pcs fb) \<or> length (instrs fb) \<le> fst st) \<and> unat (max_regs fb) \<le> length (snd st)"

lemma jit_step_boundary:
  assumes ok: "\<forall>p \<in> set (logical_pcs fb). \<exists>v. emit_at fb p = Inr v" and "branches_aligned fb" and at: "jit_at_boundary fb st"
  shows "case jit_step (jit_code fb) st of None \<Rightarrow> False | Some (Inl _) \<Rightarrow> True | Some (Inr st') \<Rightarrow> jit_at_boundary fb st'"
proof (cases "fst st < length (instrs fb)")
  case False
  then show ?thesis by (simp add: jit_step_def jit_code_def list_get_def)
next
  case True
  then have p: "fst st \<in> set (logical_pcs fb)" "unat (max_regs fb) \<le> length (snd st)" using at by (auto simp: jit_at_boundary_def)
  then obtain v where v: "emit_at fb (fst st) = Inr v" using ok by blast
  have w: "v = instr_width (instrs fb) (fst st)" by (rule emit_at_width [OF True v])
  have nxt: "fst st + v \<in> set (logical_pcs fb) \<or> length (instrs fb) \<le> fst st + v"
    using logical_pcs_next p(1) unfolding w logical_pcs_def by (cases "fst st + instr_width (instrs fb) (fst st) < length (instrs fb)") auto
  from jit_step_fits [OF v True p(2)] p nxt assms(2) show ?thesis
    by (auto simp: step_fits_def jit_at_boundary_def branches_aligned_def split: option.splits sum.splits)
qed

lemma jit_loop_no_panic:
  assumes ok: "\<forall>p \<in> set (logical_pcs fb). \<exists>v. emit_at fb p = Inr v" and al: "branches_aligned fb"
  shows "jit_loop cf st = Some r \<Longrightarrow> cf = jit_code fb \<longrightarrow> jit_at_boundary fb st \<longrightarrow> r \<noteq> None"
proof (induction rule: jit_loop.raw_induct [rotated 1, consumes 1])
  case (1 loop cf st r)
  show ?case
  proof (intro impI)
    assume cf: "cf = jit_code fb" and at: "jit_at_boundary fb st"
    with jit_step_boundary [OF ok al at] 1 show "r \<noteq> None"
      by (auto split: option.splits sum.splits)
  qed
qed

text \<open>Without backward branches a function is executed in at most as many steps as it has words.\<close>

definition branches_forward :: "function_bytecode \<Rightarrow> bool" where
  "branches_forward fb \<longleftrightarrow> (\<forall>p \<in> set (logical_pcs fb). \<forall>op t.
     instr_op (instrs fb ! p) = Some op \<longrightarrow> branch_target op (instrs fb ! p) = Some t \<longrightarrow> p < unat t)"

lemma jit_loop_forward:
  assumes ok: "\<forall>p \<in> set (logical_pcs fb). \<exists>v. emit_at fb p = Inr v" and al: "branches_aligned fb" and fwd: "branches_forward fb"
  shows "jit_at_boundary fb st \<Longrightarrow> \<exists>r. jit_loop (jit_code fb) st = Some (Some r)"
proof (induction "length (instrs fb) - fst st" arbitrary: st rule: less_induct)
  case less
  note step = jit_step_boundary [OF ok al less.prems]
  show ?case
  proof (cases "jit_step (jit_code fb) st")
    case None
    with step show ?thesis by simp
  next
    case (Some nxt)
    show ?thesis
    proof (cases nxt)
      case (Inl r)
      with Some show ?thesis by (simp add: jit_loop.simps)
    next
      case (Inr st')
      have p: "fst st < length (instrs fb)" using Some Inr by (auto simp: jit_step_def jit_code_def list_get_def split: if_splits)
      then have pcs: "fst st \<in> set (logical_pcs fb)" "unat (max_regs fb) \<le> length (snd st)"
        using less.prems by (auto simp: jit_at_boundary_def)
      then obtain v where v: "emit_at fb (fst st) = Inr v" using ok by blast
      have "0 < v" using emit_at_width [OF p v] instr_width_pos [OF p] by simp
      with jit_step_fits [OF v p pcs(2)] Some Inr fwd pcs(1) have "fst st < fst st'"
        by (auto simp: step_fits_def branches_forward_def split: prod.splits)
      then have "length (instrs fb) - fst st' < length (instrs fb) - fst st" using p by linarith
      from less.hyps [OF this] step Some Inr obtain r where "jit_loop (jit_code fb) st' = Some (Some r)" by auto
      with Some Inr show ?thesis by (simp add: jit_loop.simps [of _ st])
    qed
  qed
qed

text \<open>
  C14. A function the baseline compiler accepts never panics when it runs, on any registers
  and however long it runs, if its branches land on instruction boundaries; and if they also
  only lead forward, it returns.
\<close>

theorem jit_execute_safe:
  assumes "jit_compile fb = Inr cf" "branches_aligned fb"
  shows "jit_execute cf rs \<noteq> Some None
    \<and> (branches_forward fb \<longrightarrow> (\<exists>r. jit_execute cf rs = Some (Some r)))"
proof -
  have cf: "cf = jit_code fb" and ok: "\<forall>p \<in> set (logical_pcs fb). \<exists>v. emit_at fb p = Inr v"
    using assms(1) by (simp_all add: jit_compile_Inr jit_code_def)
  show ?thesis
  proof (cases "length rs < unat (cf_max_regs cf)")
    case True
    then show ?thesis by (simp add: jit_execute_def)
  next
    case False
    have "0 \<in> set (logical_pcs fb) \<or> length (instrs fb) \<le> 0"
      by (cases "instrs fb") (auto simp: logical_pcs_def logical_pcs_from_step)
    then have at: "jit_at_boundary fb (0, rs)" using False by (simp add: jit_at_boundary_def cf jit_code_def)
    have "jit_execute cf rs = jit_loop cf (0, rs)" using False by (simp add: jit_execute_def)
    with jit_loop_no_panic [OF ok assms(2), of cf "(0, rs)"] jit_loop_forward [OF ok assms(2) _ at] cf at
    show ?thesis by auto
  qed
qed

section \<open>The helpers and the interpreter\<close>



text \<open>A function with a forward branch, and its execution.\<close>

definition sample_jit :: "function_bytecode" where
  "sample_jit = with_instructions
     [instr_new Op_LoadInt 0 0 1, instr_new Op_LoadInt 1 0 2, instr_new Op_Lt 2 0 1,
      instr_new_imm16 Op_JumpIfFalse 2 5, instr_new Op_Return 0 0 0, instr_new Op_Return 1 0 0] 3"

lemma sample_jit_simps:
  "instrs sample_jit = [instr_new Op_LoadInt 0 0 1, instr_new Op_LoadInt 1 0 2, instr_new Op_Lt 2 0 1,
      instr_new_imm16 Op_JumpIfFalse 2 5, instr_new Op_Return 0 0 0, instr_new Op_Return 1 0 0]"
  "max_regs sample_jit = 3"
  by (simp_all add: sample_jit_def with_instructions_def)

lemma sample_jit_ok:
  "jit_compile sample_jit = Inr (jit_code sample_jit) \<and> branches_aligned sample_jit \<and> branches_forward sample_jit"
proof -
  have "instr_width (instrs sample_jit) p = 1" if "p < 6" for p
    using that by (auto simp: instr_width_def list_get_def sample_jit_simps less_Suc_eq numeral_nat)
  moreover have "length (instrs sample_jit) = 6" by (simp add: sample_jit_simps)
  ultimately have pcs: "logical_pcs sample_jit = [0, 1, 2, 3, 4, 5]"
    by (simp add: logical_pcs_def logical_pcs_from_step)
  have "\<exists>v. emit_at sample_jit p = Inr v" if "p \<in> set (logical_pcs sample_jit)" for p
    using that unfolding pcs by (auto simp: sample_jit_simps emit_at_def emit_narrow_def binary_opcodes_def Let_def)
  then have "jit_compile sample_jit = Inr (jit_code sample_jit)"
    by (simp add: jit_compile_Inr jit_code_def) (simp add: sample_jit_simps MAX_JIT_FUNCTION_SIZE_def MAX_JIT_REGISTERS_def)
  then show ?thesis
    by (simp add: branches_aligned_def branches_forward_def pcs) (simp add: sample_jit_simps branch_target_def)
qed

theorem jit_execute_safe_witness: "\<exists>r. jit_execute (jit_code sample_jit) [0, 0, 0] = Some (Some r)"
  using jit_execute_safe [of sample_jit "jit_code sample_jit" "[0, 0, 0]"] sample_jit_ok by blast

section \<open>Where the tiers differ\<close>

text \<open>
  A branch into the payload of a wide operation passes the validator and the compiler; the
  closure then reads the payload word as an instruction, here a move to a register the
  frame does not have, and panics.
\<close>

definition payload_branch :: "function_bytecode" where
  "payload_branch = with_instructions ([instr_new_imm24 Op_Jump 2]
     @ wide_encode (LoadIntW 0 (ucast (instr_new Op_Move 200 0 0))) @ [instr_new Op_Return 0 0 0]) 1"

lemma payload_branch_panics:
  "validate payload_branch = Inr () \<and> jit_compile payload_branch = Inr (jit_code payload_branch)
   \<and> jit_execute (jit_code payload_branch) [0] = Some None"
proof -
  have accepted: "validate payload_branch = Inr () \<and> jit_compile payload_branch = Inr (jit_code payload_branch)" by code_simp
  have ins: "cf_instrs (jit_code payload_branch) = [instr_new_imm24 Op_Jump 2, wide_hdr 0 DISC_LOAD_INT_W,
      instr_new Op_Move 200 0 0, 0, 0, instr_new Op_Return 0 0 0]" by code_simp
  have step: "jit_step (jit_code payload_branch) (0, [0]) = Some (Inr (2, [0]))"
    by (simp add: jit_step_def ins exec_narrow_def Let_def instr_new_imm24_fields binary_helper_def MAX_IMM24_def)
  have stuck: "jit_step (jit_code payload_branch) (2, [0]) = None"
    by (simp add: jit_step_def ins exec_narrow_def Let_def write_reg_def list_get_def)
  have "jit_loop (jit_code payload_branch) (2, [0]) = Some None" by (subst jit_loop.simps, unfold stuck) simp
  then have loop: "jit_loop (jit_code payload_branch) (0, [0]) = Some None" by (subst jit_loop.simps, unfold step) simp
  have "cf_max_regs (jit_code payload_branch) = 1" by code_simp
  then have "jit_execute (jit_code payload_branch) [0] = jit_loop (jit_code payload_branch) (0, [0])"
    by (simp add: jit_execute_def)
  with accepted loop show ?thesis by metis
qed

text \<open>Loose equality of \<open>null\<close> and \<open>undefined\<close>, which the helper compares by identity.\<close>

lemma loose_equality_differs:
  "loose_equals h js_null js_undefined = Some (True, h) \<and> jit_eq js_null js_undefined = js_false"
proof -
  have "num_of js_null = None" "num_of js_undefined = None" "as_bool js_null = None" "js_null \<noteq> js_undefined"
    using num_of_view [of VNull] num_of_view [of VUndefined] as_bool_view [of VNull] repr_inj [of VNull VUndefined]
    by (simp_all add: view_num_def)
  then show ?thesis
    using kind_view [of VNull] kind_view [of VUndefined]
    by (simp add: loose_equals_def jit_eq_def rt_num_of_def from_bool_def)
qed

end
