(* ===== verification/Feedback.thy ===== *)
theory Feedback
  imports PropKeys "HOL-Library.AList"
begin

text \<open>
  Execution feedback (\<open>v12-interp/src/feedback.rs\<close>): the polymorphic inline cache of a
  property access site, the type lattice with its join, meet and classification of values,
  and the per-function vector with its saturating heat counters. Hash maps are association
  lists keyed once per site.
\<close>

section \<open>Inline caches\<close>

definition FEEDBACK_TIER_UP_THRESHOLD :: u16 where "FEEDBACK_TIER_UP_THRESHOLD = 1024"
definition IC_MAX_ENTRIES :: nat where "IC_MAX_ENTRIES = 3"

record ic_entry =
  ic_shape :: handle
  ic_key :: prop_key
  ic_slot :: u32

text \<open>\<open>PolyIc\<close>: an array of \<open>IC_MAX_ENTRIES\<close> optional entries.\<close>

type_synonym poly_ic = "ic_entry option list"

definition ic_default :: poly_ic where "ic_default = replicate IC_MAX_ENTRIES None"

fun ic_get :: "poly_ic \<Rightarrow> handle \<Rightarrow> prop_key \<Rightarrow> u32 option" where
  "ic_get [] sh k = None"
| "ic_get (None # es) sh k = ic_get es sh k"
| "ic_get (Some e # es) sh k = (if ic_shape e = sh \<and> ic_key e = k then Some (ic_slot e) else ic_get es sh k)"

text \<open>The first loop of \<open>record\<close>; \<open>None\<close> when no entry matches.\<close>

fun ic_refresh :: "poly_ic \<Rightarrow> handle \<Rightarrow> prop_key \<Rightarrow> u32 \<Rightarrow> poly_ic option" where
  "ic_refresh [] sh k slot = None"
| "ic_refresh (None # es) sh k slot = map_option (Cons None) (ic_refresh es sh k slot)"
| "ic_refresh (Some e # es) sh k slot =
     (if ic_shape e = sh \<and> ic_key e = k then Some (Some (e\<lparr>ic_slot := slot\<rparr>) # es)
      else map_option (Cons (Some e)) (ic_refresh es sh k slot))"

text \<open>The second loop: the first free place.\<close>

fun ic_append :: "poly_ic \<Rightarrow> ic_entry \<Rightarrow> poly_ic option" where
  "ic_append [] e = None"
| "ic_append (None # es) e = Some (Some e # es)"
| "ic_append (Some e' # es) e = map_option (Cons (Some e')) (ic_append es e)"

definition ic_record :: "poly_ic \<Rightarrow> handle \<Rightarrow> prop_key \<Rightarrow> u32 \<Rightarrow> poly_ic" where
  "ic_record ic sh k slot =
     (let e = \<lparr>ic_shape = sh, ic_key = k, ic_slot = slot\<rparr>
      in case ic_refresh ic sh k slot of
           Some ic' \<Rightarrow> ic'
         | None \<Rightarrow> (case ic_append ic e of Some ic' \<Rightarrow> ic' | None \<Rightarrow> [Some e, None, None]))"

definition ic_len :: "poly_ic \<Rightarrow> nat" where "ic_len ic = length (filter (\<lambda>e. e \<noteq> None) ic)"
definition ic_is_empty :: "poly_ic \<Rightarrow> bool" where "ic_is_empty ic \<longleftrightarrow> list_all (\<lambda>e. e = None) ic"
definition ic_first :: "poly_ic \<Rightarrow> ic_entry option" where "ic_first ic = ic ! 0"

section \<open>The type lattice\<close>

datatype (plugins only: code size) type_lattice =
  L_Unknown | L_Smi | L_Double | L_Number | L_String | L_Object handle | L_Any

fun lattice_join_cases :: "type_lattice \<Rightarrow> type_lattice \<Rightarrow> type_lattice" where
  "lattice_join_cases L_Unknown x = x"
| "lattice_join_cases x L_Unknown = x"
| "lattice_join_cases L_Any _ = L_Any"
| "lattice_join_cases _ L_Any = L_Any"
| "lattice_join_cases L_Smi L_Double = L_Number"
| "lattice_join_cases L_Double L_Smi = L_Number"
| "lattice_join_cases L_Smi L_Number = L_Number"
| "lattice_join_cases L_Number L_Smi = L_Number"
| "lattice_join_cases L_Double L_Number = L_Number"
| "lattice_join_cases L_Number L_Double = L_Number"
| "lattice_join_cases L_Number L_Number = L_Number"
| "lattice_join_cases L_String _ = L_Any"
| "lattice_join_cases _ L_String = L_Any"
| "lattice_join_cases (L_Object a) (L_Object b) = (if a = b then L_Object a else L_Any)"
| "lattice_join_cases _ _ = L_Any"

definition lattice_join :: "type_lattice \<Rightarrow> type_lattice \<Rightarrow> type_lattice" where
  "lattice_join x y = (if x = y then x else lattice_join_cases x y)"

fun lattice_meet_cases :: "type_lattice \<Rightarrow> type_lattice \<Rightarrow> type_lattice" where
  "lattice_meet_cases L_Unknown _ = L_Unknown"
| "lattice_meet_cases _ L_Unknown = L_Unknown"
| "lattice_meet_cases L_Any x = x"
| "lattice_meet_cases x L_Any = x"
| "lattice_meet_cases L_Smi L_Double = L_Unknown"
| "lattice_meet_cases L_Double L_Smi = L_Unknown"
| "lattice_meet_cases L_Smi L_Number = L_Smi"
| "lattice_meet_cases L_Number L_Smi = L_Smi"
| "lattice_meet_cases L_Double L_Number = L_Double"
| "lattice_meet_cases L_Number L_Double = L_Double"
| "lattice_meet_cases L_String _ = L_Unknown"
| "lattice_meet_cases _ L_String = L_Unknown"
| "lattice_meet_cases (L_Object a) (L_Object b) = (if a = b then L_Object a else L_Unknown)"
| "lattice_meet_cases _ _ = L_Unknown"

definition lattice_meet :: "type_lattice \<Rightarrow> type_lattice \<Rightarrow> type_lattice" where
  "lattice_meet x y = (if x = y then x else lattice_meet_cases x y)"

definition is_unknown :: "type_lattice \<Rightarrow> bool" where "is_unknown x \<longleftrightarrow> x = L_Unknown"
definition is_any :: "type_lattice \<Rightarrow> bool" where "is_any x \<longleftrightarrow> x = L_Any"

fun is_concrete :: "type_lattice \<Rightarrow> bool" where
  "is_concrete L_Smi = True" | "is_concrete L_Double = True" | "is_concrete L_Number = True"
| "is_concrete L_String = True" | "is_concrete (L_Object _) = True"
| "is_concrete L_Unknown = False" | "is_concrete L_Any = False"

definition lattice_of_value :: "js_value \<Rightarrow> handle option \<Rightarrow> type_lattice" where
  "lattice_of_value v sh =
     (if is_smi v then L_Smi
      else if is_f64 v then L_Double
      else if is_string v then L_String
      else if is_object v then (case sh of Some h \<Rightarrow> L_Object h | None \<Rightarrow> L_Any)
      else L_Any)"

section \<open>The vector\<close>

record feedback_vector =
  ics :: "(u32 \<times> poly_ic) list"
  type_feedback :: "(u32 \<times> type_lattice) list"
  loop_counter :: u16
  entry_counter :: u16

definition SITE_TABLE_RESERVE :: nat where "SITE_TABLE_RESERVE = 8"

definition feedback_default :: feedback_vector where
  "feedback_default = \<lparr>ics = [], type_feedback = [], loop_counter = 0, entry_counter = 0\<rparr>"

text \<open>\<open>saturating_add(1)\<close>, and whether this tick is the crossing.\<close>

definition saturating_inc :: "u16 \<Rightarrow> u16" where
  "saturating_inc c = (if c = 65535 then c else c + 1)"

definition bump :: "u16 \<Rightarrow> bool \<times> u16" where
  "bump c = (let c' = saturating_inc c
             in (c < FEEDBACK_TIER_UP_THRESHOLD \<and> FEEDBACK_TIER_UP_THRESHOLD \<le> c', c'))"

definition activated :: "feedback_vector \<Rightarrow> bool \<times> feedback_vector" where
  "activated fv = (let (fire, c) = bump (entry_counter fv) in (fire, fv\<lparr>entry_counter := c\<rparr>))"

definition crossing_loop :: "feedback_vector \<Rightarrow> bool \<times> feedback_vector" where
  "crossing_loop fv = (let (fire, c) = bump (loop_counter fv) in (fire, fv\<lparr>loop_counter := c\<rparr>))"

definition record_type :: "feedback_vector \<Rightarrow> u32 \<Rightarrow> type_lattice \<Rightarrow> feedback_vector" where
  "record_type fv pc x =
     fv\<lparr>type_feedback := (case map_of (type_feedback fv) pc of
          Some cur \<Rightarrow> AList.update pc (lattice_join cur x) (type_feedback fv)
        | None \<Rightarrow> AList.update pc x (type_feedback fv))\<rparr>"

definition type_at :: "feedback_vector \<Rightarrow> u32 \<Rightarrow> type_lattice" where
  "type_at fv pc = (case map_of (type_feedback fv) pc of Some x \<Rightarrow> x | None \<Rightarrow> L_Unknown)"

definition feedback_is_mono :: "feedback_vector \<Rightarrow> bool" where
  "feedback_is_mono fv \<longleftrightarrow> list_all (\<lambda>(pc, ic). ic_len ic \<le> 1) (ics fv)"

section \<open>Tiering\<close>

text \<open>
  The interpreter's side (\<open>v12-interp/src/lib.rs\<close>): feedback vectors by function index,
  allocated on first use, and the functions that crossed the threshold since the last
  notification.
\<close>

record tiering =
  feedback :: "(u32 \<times> feedback_vector) list"
  tier_up_pending :: "u32 list"

definition feedback_of :: "tiering \<Rightarrow> u32 \<Rightarrow> feedback_vector" where
  "feedback_of t f = (case map_of (feedback t) f of Some fv \<Rightarrow> fv | None \<Rightarrow> feedback_default)"

definition note_with :: "(feedback_vector \<Rightarrow> bool \<times> feedback_vector) \<Rightarrow> u32 \<Rightarrow> tiering \<Rightarrow> tiering" where
  "note_with count f t =
     (let (fire, fv) = count (feedback_of t f);
          t' = t\<lparr>feedback := AList.update f fv (feedback t)\<rparr>
      in if fire then t'\<lparr>tier_up_pending := tier_up_pending t' @ [f]\<rparr> else t')"

definition note_loop :: "u32 \<Rightarrow> tiering \<Rightarrow> tiering" where "note_loop = note_with crossing_loop"
definition note_entry :: "u32 \<Rightarrow> tiering \<Rightarrow> tiering" where "note_entry = note_with activated"

text \<open>The hooks' state is threaded through the calls of \<open>on_tier_up\<close>.\<close>

definition notify_tier_ups :: "(u32 \<Rightarrow> 'h \<Rightarrow> 'h) \<Rightarrow> tiering \<times> 'h \<Rightarrow> tiering \<times> 'h" where
  "notify_tier_ups on_tier_up = (\<lambda>(t, h).
     if tier_up_pending t = [] then (t, h)
     else (t\<lparr>tier_up_pending := []\<rparr>, fold on_tier_up (tier_up_pending t) h))"

section \<open>The cache is a bounded map\<close>

text \<open>
  The array as the list of its entries: packed to the front, at most three, one per pair.
\<close>

definition packed :: "ic_entry list \<Rightarrow> poly_ic" where
  "packed es = map Some es @ replicate (IC_MAX_ENTRIES - length es) None"

definition ic_pair :: "ic_entry \<Rightarrow> handle \<times> prop_key" where "ic_pair e = (ic_shape e, ic_key e)"

definition ic_entries :: "poly_ic \<Rightarrow> ic_entry list" where "ic_entries ic = map the (filter (\<lambda>e. e \<noteq> None) ic)"

definition ic_wf :: "poly_ic \<Rightarrow> bool" where
  "ic_wf ic \<longleftrightarrow> ic = packed (ic_entries ic) \<and> length (ic_entries ic) \<le> IC_MAX_ENTRIES
     \<and> distinct (map ic_pair (ic_entries ic))"

definition ic_map :: "ic_entry list \<Rightarrow> handle \<times> prop_key \<Rightarrow> u32 option" where
  "ic_map es = map_of (map (\<lambda>e. (ic_pair e, ic_slot e)) es)"

lemma entries_packed [simp]: "ic_entries (packed es) = es"
  by (induction es) (simp_all add: ic_entries_def packed_def)

lemma ic_get_packed: "ic_get (map Some es @ replicate n None) sh k = ic_map es (sh, k)"
proof (induction es)
  case Nil
  show ?case by (induction n) (simp_all add: ic_map_def)
qed (simp add: ic_map_def ic_pair_def)

lemma ic_refresh_packed:
  "ic_refresh (map Some es @ replicate n None) sh k slot =
     (if (sh, k) \<in> ic_pair ` set es
      then Some (map Some (map (\<lambda>e. if ic_pair e = (sh, k) then e\<lparr>ic_slot := slot\<rparr> else e) es) @ replicate n None)
      else None)"
  if "distinct (map ic_pair es)"
  using that
proof (induction es)
  case Nil
  show ?case by (induction n) simp_all
next
  case (Cons e es)
  have "map (\<lambda>e. if ic_pair e = (sh, k) then e\<lparr>ic_slot := slot\<rparr> else e) es = es" if "ic_pair e = (sh, k)"
  proof (rule map_idI)
    fix x assume "x \<in> set es"
    then have "ic_pair x \<in> set (map ic_pair es)" by simp
    with Cons.prems that have "ic_pair x \<noteq> (sh, k)" by auto
    then show "(if ic_pair x = (sh, k) then x\<lparr>ic_slot := slot\<rparr> else x) = x" by simp
  qed
  note same = this
  have eq: "ic_shape e = sh \<and> ic_key e = k \<longleftrightarrow> ic_pair e = (sh, k)" by (simp add: ic_pair_def)
  show ?case
  proof (cases "ic_pair e = (sh, k)")
    case True
    then show ?thesis using same by (simp add: eq)
  next
    case False
    then have "(sh, k) \<in> ic_pair ` set (e # es) \<longleftrightarrow> (sh, k) \<in> ic_pair ` set es" by auto
    with False Cons show ?thesis by (simp add: eq)
  qed
qed

lemma ic_append_packed:
  "ic_append (map Some es @ replicate n None) e =
     (case n of 0 \<Rightarrow> None | Suc m \<Rightarrow> Some (map Some (es @ [e]) @ replicate m None))"
proof (induction es)
  case Nil
  show ?case by (cases n) simp_all
qed (simp split: nat.split)

lemma ic_append_full:
  "length es \<le> IC_MAX_ENTRIES \<Longrightarrow>
     ic_append (packed es) e = (if length es < IC_MAX_ENTRIES then Some (packed (es @ [e])) else None)"
  by (cases "IC_MAX_ENTRIES - length es") (auto simp: packed_def ic_append_packed simp del: replicate.simps)

lemma packed_single: "[Some e, None, None] = packed [e]"
  by (simp add: packed_def IC_MAX_ENTRIES_def eval_nat_numeral)

text \<open>Recording, on the entries.\<close>

definition record_entries :: "ic_entry list \<Rightarrow> ic_entry \<Rightarrow> ic_entry list" where
  "record_entries es e =
     (if ic_pair e \<in> ic_pair ` set es
      then map (\<lambda>e'. if ic_pair e' = ic_pair e then e'\<lparr>ic_slot := ic_slot e\<rparr> else e') es
      else if length es < IC_MAX_ENTRIES then es @ [e] else [e])"

lemma ic_record_packed:
  assumes "distinct (map ic_pair es)" "length es \<le> IC_MAX_ENTRIES"
  shows "ic_record (packed es) sh k slot = packed (record_entries es \<lparr>ic_shape = sh, ic_key = k, ic_slot = slot\<rparr>)"
proof -
  let ?e = "\<lparr>ic_shape = sh, ic_key = k, ic_slot = slot\<rparr>"
  have pair: "ic_pair ?e = (sh, k)" by (simp add: ic_pair_def)
  note refresh = ic_refresh_packed [OF assms(1), of "IC_MAX_ENTRIES - length es" sh k slot, folded packed_def]
  show ?thesis
  proof (cases "(sh, k) \<in> ic_pair ` set es")
    case True
    then show ?thesis using refresh by (simp add: ic_record_def packed_def record_entries_def pair Let_def)
  next
    case False
    with refresh have none: "ic_refresh (packed es) sh k slot = None" by simp
    show ?thesis
      using False assms(2) none ic_append_full [OF assms(2), of ?e]
      by (simp add: ic_record_def record_entries_def pair Let_def packed_single)
  qed
qed

lemma pair_refreshed: "ic_pair (e\<lparr>ic_slot := x\<rparr>) = ic_pair e"
  by (simp add: ic_pair_def)

lemma record_entries_wf:
  assumes "distinct (map ic_pair es)" "length es \<le> IC_MAX_ENTRIES"
  shows "distinct (map ic_pair (record_entries es e))" "length (record_entries es e) \<le> IC_MAX_ENTRIES"
proof -
  have "map ic_pair (map (\<lambda>e'. if ic_pair e' = ic_pair e then e'\<lparr>ic_slot := ic_slot e\<rparr> else e') es) = map ic_pair es"
    by (auto simp: pair_refreshed)
  then show "distinct (map ic_pair (record_entries es e))"
    using assms(1) by (auto simp: record_entries_def simp del: map_map)
  show "length (record_entries es e) \<le> IC_MAX_ENTRIES"
    using assms(2) by (auto simp: record_entries_def IC_MAX_ENTRIES_def)
qed

lemma ic_wf_record:
  assumes "ic_wf ic"
  shows "ic_wf (ic_record ic sh k slot)"
    "ic_entries (ic_record ic sh k slot) = record_entries (ic_entries ic) \<lparr>ic_shape = sh, ic_key = k, ic_slot = slot\<rparr>"
proof -
  have ic: "ic = packed (ic_entries ic)" "distinct (map ic_pair (ic_entries ic))"
    "length (ic_entries ic) \<le> IC_MAX_ENTRIES" using assms by (simp_all add: ic_wf_def)
  note rec = ic_record_packed [OF ic(2,3), folded ic(1), of sh k slot]
  show "ic_entries (ic_record ic sh k slot) = record_entries (ic_entries ic) \<lparr>ic_shape = sh, ic_key = k, ic_slot = slot\<rparr>"
    unfolding rec by simp
  show "ic_wf (ic_record ic sh k slot)"
    unfolding ic_wf_def rec using record_entries_wf [OF ic(2,3)] by simp
qed

lemma ic_get_entries: "ic_wf ic \<Longrightarrow> ic_get ic sh k = ic_map (ic_entries ic) (sh, k)"
  unfolding ic_wf_def by (metis ic_get_packed packed_def)

lemma ic_default_wf: "ic_wf ic_default" "ic_entries ic_default = []"
  by (simp_all add: ic_wf_def ic_default_def packed_def ic_entries_def)

lemma ic_map_None: "ic_map es p = None \<longleftrightarrow> p \<notin> ic_pair ` set es"
  by (auto simp: ic_map_def map_of_eq_None_iff image_image)

lemma ic_map_record:
  assumes "distinct (map ic_pair es)"
  shows "ic_map (record_entries es e) p =
    (if p = ic_pair e then Some (ic_slot e)
     else if ic_pair e \<in> ic_pair ` set es \<or> length es < IC_MAX_ENTRIES then ic_map es p else None)"
proof -
  have upd: "ic_map (map (\<lambda>e'. if ic_pair e' = ic_pair e then e'\<lparr>ic_slot := ic_slot e\<rparr> else e') es) p =
      (if p = ic_pair e \<and> p \<in> ic_pair ` set es then Some (ic_slot e) else ic_map es p)"
    by (induction es) (auto simp: ic_map_def pair_refreshed)
  have app: "ic_map (es @ [e]) p = (case ic_map es p of None \<Rightarrow> if p = ic_pair e then Some (ic_slot e) else None | Some x \<Rightarrow> Some x)"
    by (simp add: ic_map_def map_add_def split: option.split)
  have single: "ic_map [e] p = (if p = ic_pair e then Some (ic_slot e) else None)" by (simp add: ic_map_def)
  show ?thesis
  proof (cases "ic_pair e \<in> ic_pair ` set es")
    case True
    then show ?thesis using upd by (simp add: record_entries_def)
  next
    case False
    then have "ic_map es (ic_pair e) = None" by (simp add: ic_map_None)
    with False app single show ?thesis by (auto simp: record_entries_def split: option.splits)
  qed
qed

lemma dom_ic_map: "dom (ic_map es) = ic_pair ` set es"
  by (rule set_eqI) (metis domIff ic_map_None)

lemma card_dom_ic_map: "distinct (map ic_pair es) \<Longrightarrow> card (dom (ic_map es)) = length es"
  unfolding dom_ic_map by (metis distinct_card length_map list.set_map)

definition ic_run :: "(handle \<times> prop_key) \<times> u32 \<Rightarrow> poly_ic \<Rightarrow> poly_ic" where
  "ic_run r ic = ic_record ic (fst (fst r)) (snd (fst r)) (snd r)"

definition ic_spec :: "(handle \<times> prop_key) \<times> u32 \<Rightarrow> (handle \<times> prop_key \<Rightarrow> u32 option) \<Rightarrow> (handle \<times> prop_key \<Rightarrow> u32 option)" where
  "ic_spec r m = m(fst r \<mapsto> snd r)"

lemma ic_history:
  "ic_wf (fold ic_run recs ic_default)
   \<and> (\<forall>p. ic_map (ic_entries (fold ic_run recs ic_default)) p \<in> {None, fold ic_spec recs Map.empty p})
   \<and> finite (dom (fold ic_spec recs Map.empty))
   \<and> (card (dom (fold ic_spec recs Map.empty)) \<le> IC_MAX_ENTRIES \<longrightarrow>
        ic_map (ic_entries (fold ic_run recs ic_default)) = fold ic_spec recs Map.empty)"
proof (induction recs rule: rev_induct)
  case Nil
  show ?case by (simp add: ic_default_wf ic_map_def)
next
  case (snoc r recs)
  obtain sh k slot where r: "r = ((sh, k), slot)" by (metis prod.collapse)
  let ?ic = "fold ic_run recs ic_default" let ?m = "fold ic_spec recs Map.empty"
  let ?e = "\<lparr>ic_shape = sh, ic_key = k, ic_slot = slot\<rparr>" let ?es = "ic_entries ?ic"
  have wf: "ic_wf ?ic" and sub: "\<And>p. ic_map ?es p \<in> {None, ?m p}" and fin: "finite (dom ?m)"
    and all: "card (dom ?m) \<le> IC_MAX_ENTRIES \<Longrightarrow> ic_map ?es = ?m" using snoc by auto
  have dist: "distinct (map ic_pair ?es)" using wf by (simp add: ic_wf_def)
  have ic': "fold ic_run (recs @ [r]) ic_default = ic_record ?ic sh k slot" by (simp add: ic_run_def r)
  have m': "fold ic_spec (recs @ [r]) Map.empty = ?m((sh, k) \<mapsto> slot)" by (simp add: ic_spec_def r)
  have pair: "ic_pair ?e = (sh, k)" by (simp add: ic_pair_def)
  note get = ic_map_record [OF dist, of ?e, unfolded pair]
  have exact: "ic_map (record_entries ?es ?e) = ?m((sh, k) \<mapsto> slot)"
    if le: "card (dom (?m((sh, k) \<mapsto> slot))) \<le> IC_MAX_ENTRIES"
  proof -
    have "card (dom ?m) \<le> card (dom (?m((sh, k) \<mapsto> slot)))" using fin by (intro card_mono) auto
    with le have eq: "ic_map ?es = ?m" by (intro all) simp
    have "(sh, k) \<in> ic_pair ` set ?es \<or> length ?es < IC_MAX_ENTRIES"
    proof (rule disjCI)
      assume full: "\<not> length ?es < IC_MAX_ENTRIES"
      have len: "length ?es = card (dom ?m)" using card_dom_ic_map [OF dist] by (simp add: eq)
      show "(sh, k) \<in> ic_pair ` set ?es"
      proof (rule ccontr)
        assume "(sh, k) \<notin> ic_pair ` set ?es"
        then have "(sh, k) \<notin> dom ?m" by (simp add: dom_ic_map flip: eq)
        with fin le len full show False by simp
      qed
    qed
    then show ?thesis using eq by (auto simp: get)
  qed
  have "ic_map (record_entries ?es ?e) p \<in> {None, (?m((sh, k) \<mapsto> slot)) p}" for p
    using sub [of p] by (auto simp: get)
  moreover have "finite (dom (?m((sh, k) \<mapsto> slot)))" using fin by simp
  ultimately show ?case
    unfolding ic' m' ic_wf_record(2) [OF wf] using exact ic_wf_record(1) [OF wf] by blast
qed

text \<open>
  C28. An inline cache answers with the slot last recorded for the pair of shape and key or
  not at all: after any sequence of recordings it has at most three entries, every answer
  is the latest recording of its pair, the pair recorded last is answered, and while only
  three pairs have been recorded no answer is lost.
\<close>

theorem inline_cache_exact:
  assumes "recs \<noteq> []"
  shows "let ic = fold ic_run recs ic_default; m = fold ic_spec recs Map.empty in
     ic_len ic \<le> IC_MAX_ENTRIES
   \<and> (\<forall>sh k. ic_get ic sh k \<in> {None, m (sh, k)})
   \<and> ic_get ic (fst (fst (last recs))) (snd (fst (last recs))) = Some (snd (last recs))
   \<and> (card (dom m) \<le> IC_MAX_ENTRIES \<longrightarrow> (\<forall>sh k. ic_get ic sh k = m (sh, k)))"
proof -
  let ?ic = "fold ic_run recs ic_default"
  have wf: "ic_wf ?ic" using ic_history by blast
  have "ic_len ?ic = length (ic_entries ?ic)" by (simp add: ic_len_def ic_entries_def)
  then have len: "ic_len ?ic \<le> IC_MAX_ENTRIES" using wf by (simp add: ic_wf_def)
  obtain recs' where recs: "recs = recs' @ [last recs]" using assms append_butlast_last_id by metis
  have wf': "ic_wf (fold ic_run recs' ic_default)" using ic_history by blast
  then have "distinct (map ic_pair (ic_entries (fold ic_run recs' ic_default)))" by (simp add: ic_wf_def)
  from ic_map_record [OF this] ic_wf_record [OF wf']
  have "ic_get (ic_record (fold ic_run recs' ic_default) sh k slot) sh k = Some slot" for sh k slot
    by (simp add: ic_get_entries ic_pair_def)
  moreover have "?ic = ic_run (last recs) (fold ic_run recs' ic_default)" by (subst recs) simp
  ultimately have "ic_get ?ic (fst (fst (last recs))) (snd (fst (last recs))) = Some (snd (last recs))"
    by (simp add: ic_run_def)
  with len ic_history [of recs] show ?thesis by (simp add: Let_def ic_get_entries [OF wf])
qed

theorem inline_cache_exact_witness:
  "ic_get (fold ic_run [((1, 7), 0), ((2, 7), 4), ((1, 7), 3)] ic_default) 1 7 = Some 3"
  using inline_cache_exact [of "[((1, 7), 0), ((2, 7), 4), ((1, 7), 3)]"] by (simp add: Let_def)

section \<open>The lattice\<close>

instantiation type_lattice :: bounded_lattice
begin

definition sup_type_lattice :: "type_lattice \<Rightarrow> type_lattice \<Rightarrow> type_lattice" where "sup_type_lattice = lattice_join"
definition inf_type_lattice :: "type_lattice \<Rightarrow> type_lattice \<Rightarrow> type_lattice" where "inf_type_lattice = lattice_meet"
definition bot_type_lattice :: type_lattice where "bot_type_lattice = L_Unknown"
definition top_type_lattice :: type_lattice where "top_type_lattice = L_Any"

text \<open>The order of the source's comment: bottom, the kinds, \<open>L_Number\<close> above its two halves, top.\<close>

definition less_eq_type_lattice :: "type_lattice \<Rightarrow> type_lattice \<Rightarrow> bool" where
  "less_eq_type_lattice x y \<longleftrightarrow> x = y \<or> x = L_Unknown \<or> y = L_Any \<or> (x \<in> {L_Smi, L_Double} \<and> y = L_Number)"

definition less_type_lattice :: "type_lattice \<Rightarrow> type_lattice \<Rightarrow> bool" where
  "less_type_lattice x y \<longleftrightarrow> x \<le> y \<and> x \<noteq> y"

instance
proof
  fix x y z :: type_lattice
  show "x < y \<longleftrightarrow> x \<le> y \<and> \<not> y \<le> x" by (auto simp: less_type_lattice_def less_eq_type_lattice_def)
  show "x \<le> x" by (simp add: less_eq_type_lattice_def)
  show "x \<le> y \<Longrightarrow> y \<le> z \<Longrightarrow> x \<le> z" by (auto simp: less_eq_type_lattice_def)
  show "x \<le> y \<Longrightarrow> y \<le> x \<Longrightarrow> x = y" by (auto simp: less_eq_type_lattice_def)
  show "inf x y \<le> x" "inf x y \<le> y"
    by (cases x; cases y; simp add: inf_type_lattice_def lattice_meet_def less_eq_type_lattice_def)+
  show "x \<le> sup x y" "y \<le> sup x y"
    by (cases x; cases y; simp add: sup_type_lattice_def lattice_join_def less_eq_type_lattice_def)+
  show "x \<le> y \<Longrightarrow> x \<le> z \<Longrightarrow> x \<le> inf y z"
    by (cases y; cases z; auto simp: inf_type_lattice_def lattice_meet_def less_eq_type_lattice_def)
  show "y \<le> x \<Longrightarrow> z \<le> x \<Longrightarrow> sup y z \<le> x"
    by (cases y; cases z; auto simp: sup_type_lattice_def lattice_join_def less_eq_type_lattice_def)
  show "bot \<le> x" by (simp add: bot_type_lattice_def less_eq_type_lattice_def)
  show "x \<le> top" by (simp add: top_type_lattice_def less_eq_type_lattice_def)
qed

end

lemma lattice_ops: "lattice_join = sup" "lattice_meet = inf" "L_Unknown = bot" "L_Any = top"
  by (simp_all add: sup_type_lattice_def inf_type_lattice_def bot_type_lattice_def top_type_lattice_def)

lemma type_at_record:
  "type_at (record_type fv pc x) q = (if q = pc then sup (type_at fv pc) x else type_at fv q)"
  by (auto simp: record_type_def type_at_def lattice_ops update_conv' split: option.split)

definition observe_type :: "u32 \<times> type_lattice \<Rightarrow> feedback_vector \<Rightarrow> feedback_vector" where
  "observe_type ob fv = record_type fv (fst ob) (snd ob)"

lemma type_at_observed:
  "type_at (fold observe_type obs fv) pc = fold sup (map snd (filter (\<lambda>ob. fst ob = pc) obs)) (type_at fv pc)"
  by (induction obs arbitrary: fv) (auto simp: observe_type_def type_at_record sup_commute)

lemma fold_sup_above: "a \<le> fold sup xs (a :: 'a :: semilattice_sup)"
proof (induction xs arbitrary: a)
  case (Cons y xs)
  from Cons.IH [of "sup y a"] show ?case by simp
qed simp

lemma fold_sup_upper: "x \<in> set xs \<Longrightarrow> x \<le> fold sup xs (a :: 'a :: semilattice_sup)"
proof (induction xs arbitrary: a)
  case (Cons y xs)
  have "y \<le> fold sup xs (sup y a)" using fold_sup_above [of "sup y a" xs] by simp
  with Cons show ?case by auto
qed simp

lemma fold_sup_least: "a \<le> u \<Longrightarrow> (\<And>x. x \<in> set xs \<Longrightarrow> x \<le> u) \<Longrightarrow> fold sup xs (a :: 'a :: semilattice_sup) \<le> u"
proof (induction xs arbitrary: a)
  case (Cons y xs)
  have "fold sup xs (sup y a) \<le> u" by (rule Cons.IH) (simp_all add: Cons.prems)
  then show ?case by simp
qed simp

text \<open>
  C33. The type recorded for a program counter is the least element of the lattice above
  everything observed there, whatever the order of the observations: it is above each of
  them, below every other element that is, and bottom when there were none.
\<close>

theorem type_feedback_least:
  "(\<forall>x \<in> set (map snd (filter (\<lambda>ob. fst ob = pc) obs)). x \<le> type_at (fold observe_type obs feedback_default) pc)
   \<and> (\<forall>u. (\<forall>x \<in> set (map snd (filter (\<lambda>ob. fst ob = pc) obs)). x \<le> u) \<longrightarrow>
        type_at (fold observe_type obs feedback_default) pc \<le> u)"
proof -
  have "type_at feedback_default pc = bot" by (simp add: type_at_def feedback_default_def lattice_ops)
  then have at: "type_at (fold observe_type obs feedback_default) pc =
      fold sup (map snd (filter (\<lambda>ob. fst ob = pc) obs)) bot" by (simp only: type_at_observed)
  show ?thesis unfolding at by (intro conjI ballI allI impI fold_sup_upper fold_sup_least) auto
qed

theorem type_feedback_least_witness:
  "L_Double \<le> type_at (fold observe_type [(3, L_Smi), (5, L_String), (3, L_Double)] feedback_default) 3
   \<and> type_at (fold observe_type [(3, L_Smi), (5, L_String), (3, L_Double)] feedback_default) 3 \<le> L_Number"
proof -
  let ?obs = "[(3, L_Smi), (5, L_String), (3, L_Double)] :: (u32 \<times> type_lattice) list"
  let ?seen = "set (map snd (filter (\<lambda>ob. fst ob = 3) ?obs))"
  have "L_Double \<in> ?seen" "\<forall>x \<in> ?seen. x \<le> L_Number" by (simp_all add: less_eq_type_lattice_def)
  with type_feedback_least [of 3 ?obs] show ?thesis by blast
qed

section \<open>Tier-ups\<close>

text \<open>What a driver sees: entries and loop crossings of functions, and notifications.\<close>

datatype tier_event = Entered u32 | Looped u32 | Notified

fun tier_step :: "(u32 \<Rightarrow> 'h \<Rightarrow> 'h) \<Rightarrow> tier_event \<Rightarrow> tiering \<times> 'h \<Rightarrow> tiering \<times> 'h" where
  "tier_step hook (Entered f) (t, h) = (note_entry f t, h)"
| "tier_step hook (Looped f) (t, h) = (note_loop f t, h)"
| "tier_step hook Notified (t, h) = notify_tier_ups hook (t, h)"

text \<open>A hook that writes down what it is told.\<close>

definition log_hook :: "u32 \<Rightarrow> u32 list \<Rightarrow> u32 list" where "log_hook f reports = reports @ [f]"

definition tier_run :: "tier_event list \<Rightarrow> tiering \<times> u32 list" where
  "tier_run evs = fold (tier_step log_hook) evs (\<lparr>feedback = [], tier_up_pending = []\<rparr>, [])"

lemma fold_log: "fold log_hook fs reports = reports @ fs"
  by (induction fs arbitrary: reports) (simp_all add: log_hook_def)

lemma bump_count:
  assumes "unat c = min n 65535"
  shows "unat (snd (bump c)) = min (Suc n) 65535" "fst (bump c) \<longleftrightarrow> Suc n = 1024"
proof -
  have "c = 65535 \<longleftrightarrow> 65535 \<le> n"
  proof
    assume "c = 65535" then show "65535 \<le> n" using assms by simp
  next
    assume "65535 \<le> n" then show "c = 65535" using assms by (simp add: word_unat_eq_iff)
  qed
  moreover have "unat (c + 1) = unat c + 1" if "c \<noteq> 65535"
    using that unat_u16_lt [of c] by (simp add: unat_word_ariths word_unat_eq_iff)
  ultimately show "unat (snd (bump c)) = min (Suc n) 65535"
    using assms by (auto simp: bump_def saturating_inc_def Let_def)
  show "fst (bump c) \<longleftrightarrow> Suc n = 1024"
    using assms \<open>c = 65535 \<longleftrightarrow> 65535 \<le> n\<close> \<open>c \<noteq> 65535 \<Longrightarrow> unat (c + 1) = unat c + 1\<close>
    by (auto simp: bump_def saturating_inc_def Let_def FEEDBACK_TIER_UP_THRESHOLD_def word_less_nat_alt word_le_nat_alt)
qed

lemma feedback_of_update [simp]:
  "feedback_of (t\<lparr>feedback := AList.update f fv (feedback t)\<rparr>) g = (if g = f then fv else feedback_of t g)"
  by (simp add: feedback_of_def update_conv')

lemma feedback_of_pending [simp]: "feedback_of (t\<lparr>tier_up_pending := ps\<rparr>) g = feedback_of t g"
  by (simp add: feedback_of_def)

definition tier_inv :: "tier_event list \<Rightarrow> tiering \<times> u32 list \<Rightarrow> bool" where
  "tier_inv evs st \<longleftrightarrow> (\<forall>f.
     unat (entry_counter (feedback_of (fst st) f)) = min (count_list evs (Entered f)) 65535
   \<and> unat (loop_counter (feedback_of (fst st) f)) = min (count_list evs (Looped f)) 65535
   \<and> count_list (snd st @ tier_up_pending (fst st)) f =
       (if 1024 \<le> count_list evs (Entered f) then 1 else 0) + (if 1024 \<le> count_list evs (Looped f) then 1 else 0))"

lemma note_entry_effect:
  "entry_counter (feedback_of (note_entry f t) g) =
     (if g = f then snd (bump (entry_counter (feedback_of t f))) else entry_counter (feedback_of t g))"
  "loop_counter (feedback_of (note_entry f t) g) = loop_counter (feedback_of t g)"
  "tier_up_pending (note_entry f t) =
     tier_up_pending t @ (if fst (bump (entry_counter (feedback_of t f))) then [f] else [])"
  by (auto simp: note_entry_def note_with_def activated_def Let_def split: prod.splits)

lemma note_loop_effect:
  "loop_counter (feedback_of (note_loop f t) g) =
     (if g = f then snd (bump (loop_counter (feedback_of t f))) else loop_counter (feedback_of t g))"
  "entry_counter (feedback_of (note_loop f t) g) = entry_counter (feedback_of t g)"
  "tier_up_pending (note_loop f t) =
     tier_up_pending t @ (if fst (bump (loop_counter (feedback_of t f))) then [f] else [])"
  by (auto simp: note_loop_def note_with_def crossing_loop_def Let_def split: prod.splits)

lemma tier_inv_step:
  assumes "tier_inv evs st"
  shows "tier_inv (evs @ [ev]) (tier_step log_hook ev st)"
proof -
  obtain t h where st: "st = (t, h)" by fastforce
  note inv = assms [unfolded tier_inv_def st, rule_format]
  let ?ok = "\<lambda>st' f. unat (entry_counter (feedback_of (fst st') f)) = min (count_list (evs @ [ev]) (Entered f)) 65535
   \<and> unat (loop_counter (feedback_of (fst st') f)) = min (count_list (evs @ [ev]) (Looped f)) 65535
   \<and> count_list (snd st' @ tier_up_pending (fst st')) f =
       (if 1024 \<le> count_list (evs @ [ev]) (Entered f) then 1 else 0)
       + (if 1024 \<le> count_list (evs @ [ev]) (Looped f) then 1 else 0)"
  show ?thesis
  proof (cases ev)
    case (Entered f)
    note b = bump_count [of "entry_counter (feedback_of t f)" "count_list evs (Entered f)"]
    have at: "?ok (tier_step log_hook ev st) g" for g using inv [of g] b inv [of f]
      by (cases "g = f") (auto simp: st Entered note_entry_effect count_list_append)
    then show ?thesis unfolding tier_inv_def by blast
  next
    case (Looped f)
    note b = bump_count [of "loop_counter (feedback_of t f)" "count_list evs (Looped f)"]
    have at: "?ok (tier_step log_hook ev st) g" for g using inv [of g] b inv [of f]
      by (cases "g = f") (auto simp: st Looped note_loop_effect count_list_append)
    then show ?thesis unfolding tier_inv_def by blast
  next
    case Notified
    show ?thesis using inv
      by (auto simp: tier_inv_def st Notified notify_tier_ups_def fold_log count_list_append)
  qed
qed

lemma tier_run_inv: "tier_inv evs (tier_run evs)"
proof (induction evs rule: rev_induct)
  case Nil
  show ?case by (simp add: tier_run_def tier_inv_def feedback_of_def feedback_default_def)
next
  case (snoc ev evs)
  from tier_inv_step [OF this, of ev] show ?case by (simp add: tier_run_def)
qed

text \<open>
  C31. Every function that becomes hot is reported, and only once per counter: after any
  sequence of entries, loop crossings and notifications that ends in a notification, a
  function has been reported once for having been entered 1024 times and once for having
  crossed loop headers 1024 times, and not otherwise. The counters saturate without firing
  again.
\<close>

theorem tier_up_reported:
  "count_list (snd (tier_run (evs @ [Notified]))) f =
     (if 1024 \<le> count_list evs (Entered f) then 1 else 0) + (if 1024 \<le> count_list evs (Looped f) then 1 else 0)"
proof -
  obtain t h where st: "tier_run evs = (t, h)" by fastforce
  have "snd (tier_run (evs @ [Notified])) = h @ tier_up_pending t"
    using st by (simp add: tier_run_def notify_tier_ups_def fold_log)
  with tier_run_inv [of evs] st show ?thesis by (simp add: tier_inv_def)
qed

end
