(* ===== verification/OptTier.thy ===== *)
theory OptTier
  imports JitBaseline Feedback
begin

text \<open>
  The speculative tier (\<open>v12-jit-opt\<close>): guards and the speculation policy
  (\<open>guard.rs\<close>), the deoptimisation map (\<open>deopt.rs\<close>), guard selection,
  inlining and loop versioning (\<open>compile.rs\<close>). The tier decides what to guard and
  leaves the code to the baseline compiler. Also the registry of compiled functions
  (\<open>v12-codegen/src/cache.rs\<close>) and the hook that compiles hot functions
  (\<open>v12-engine/src/jit_tier.rs\<close>).
\<close>

section \<open>Guards\<close>

definition MAX_GUARDS_PER_FUNCTION :: nat where "MAX_GUARDS_PER_FUNCTION = 32"
definition ENTRY_HOT_THRESHOLD :: u16 where "ENTRY_HOT_THRESHOLD = 512"
definition LOOP_HOT_THRESHOLD :: u16 where "LOOP_HOT_THRESHOLD = 800"

datatype guard_kind =
    ShapeEq handle
  | TypeIsSmi u8
  | TypeIsNumber u8
  | TypeIsString u8
  | ValidityCell u32 u32

record assumption =
  as_pc :: u32
  as_guard :: guard_kind

definition assumption_is_valid :: "assumption \<Rightarrow> bool" where
  "assumption_is_valid a =
     (case as_guard a of ShapeEq e \<Rightarrow> e \<noteq> 0xFFFFFFFF | ValidityCell cell _ \<Rightarrow> cell \<noteq> 0 | _ \<Rightarrow> True)"

text \<open>The engine assertion of \<open>check_value\<close> is active in debug builds only.\<close>

definition check_value :: "assumption \<Rightarrow> js_value \<Rightarrow> bool" where
  "check_value a v =
     (case as_guard a of
        TypeIsSmi _ \<Rightarrow> is_smi v
      | TypeIsNumber _ \<Rightarrow> is_smi v \<or> is_f64 v
      | TypeIsString _ \<Rightarrow> is_string v
      | _ \<Rightarrow> True)"

definition check_shape :: "assumption \<Rightarrow> handle \<Rightarrow> bool" where
  "check_shape a actual = (case as_guard a of ShapeEq e \<Rightarrow> actual = e | _ \<Rightarrow> True)"

definition check_validity_cell :: "assumption \<Rightarrow> u32 \<Rightarrow> bool" where
  "check_validity_cell a now = (case as_guard a of ValidityCell _ serial \<Rightarrow> serial = now | _ \<Rightarrow> True)"

text \<open>The clash tracker.\<close>

record mono_tracker =
  mt_seen :: "(u32 \<times> handle) list"
  mt_clashed :: "(u32 \<times> bool) list"

definition mono_new :: mono_tracker where "mono_new = \<lparr>mt_seen = [], mt_clashed = []\<rparr>"

definition mono_observe :: "u32 \<Rightarrow> handle \<Rightarrow> mono_tracker \<Rightarrow> bool \<times> mono_tracker" where
  "mono_observe pc sh t =
     (case map_of (mt_seen t) pc of
        Some prev \<Rightarrow>
          if prev = sh then (False, t)
          else if map_of (mt_clashed t) pc \<noteq> None then (False, t)
          else (True, t\<lparr>mt_clashed := AList.update pc True (mt_clashed t)\<rparr>)
      | None \<Rightarrow> (False, t\<lparr>mt_seen := AList.update pc sh (mt_seen t)\<rparr>))"

definition clash_count :: "mono_tracker \<Rightarrow> nat" where "clash_count t = length (mt_clashed t)"
definition mono_is_mono :: "mono_tracker \<Rightarrow> bool" where "mono_is_mono t \<longleftrightarrow> mt_clashed t = []"

definition should_speculate :: "u16 \<Rightarrow> u16 \<Rightarrow> bool \<Rightarrow> bool" where
  "should_speculate entries loops single \<longleftrightarrow>
     (if \<not> single then False else ENTRY_HOT_THRESHOLD < entries \<or> LOOP_HOT_THRESHOLD < loops)"

definition should_speculate_with_lattice :: "u16 \<Rightarrow> u16 \<Rightarrow> bool \<Rightarrow> type_lattice \<Rightarrow> bool" where
  "should_speculate_with_lattice entries loops single x \<longleftrightarrow>
     (if \<not> is_concrete x then False else should_speculate entries loops single)"

section \<open>The deoptimisation map\<close>

type_synonym validity_registry = "(u32 \<times> u32) list"

definition reg_observe :: "u32 \<Rightarrow> u32 \<Rightarrow> validity_registry \<Rightarrow> validity_registry" where
  "reg_observe cell serial r = AList.update cell serial r"

definition reg_serial_for :: "validity_registry \<Rightarrow> u32 \<Rightarrow> u32 option" where "reg_serial_for r cell = map_of r cell"

definition reg_guard_for :: "validity_registry \<Rightarrow> u32 \<Rightarrow> u32 \<Rightarrow> assumption option" where
  "reg_guard_for r pc cell =
     Option.bind (reg_serial_for r cell) (\<lambda>serial.
       if cell = 0 then None else Some \<lparr>as_pc = pc, as_guard = ValidityCell cell serial\<rparr>)"

definition reg_is_still_valid :: "validity_registry \<Rightarrow> u32 \<Rightarrow> u32 \<Rightarrow> bool" where
  "reg_is_still_valid r cell now = (case reg_serial_for r cell of Some s \<Rightarrow> s = now | None \<Rightarrow> False)"

record deopt_map =
  dm_pc_map :: "(u32 \<times> u32) list"
  dm_guards :: "assumption list"
  dm_validity :: validity_registry

definition deopt_from_pc_map :: "(u32 \<times> u32) list \<Rightarrow> deopt_map" where
  "deopt_from_pc_map m = \<lparr>dm_pc_map = m, dm_guards = [], dm_validity = []\<rparr>"

text \<open>\<open>position\<close> and \<open>find\<close> of an iterator.\<close>

definition position_of :: "('a \<Rightarrow> bool) \<Rightarrow> 'a list \<Rightarrow> nat option" where
  "position_of q xs = map_option fst (find (\<lambda>(i, x). q x) (enumerate 0 xs))"

definition deopt_lookup :: "deopt_map \<Rightarrow> u32 \<Rightarrow> nat option" where
  "deopt_lookup dm pc = position_of (\<lambda>(_, bc). bc = pc) (dm_pc_map dm)"

definition deopt_pc :: "deopt_map \<Rightarrow> u32 \<Rightarrow> u32 option" where
  "deopt_pc dm jit = map_option snd (find (\<lambda>(j, _). j = jit) (dm_pc_map dm))"

definition record_guard :: "deopt_map \<Rightarrow> assumption \<Rightarrow> bool \<times> deopt_map" where
  "record_guard dm a =
     (if MAX_GUARDS_PER_FUNCTION \<le> length (dm_guards dm) then (False, dm)
      else (True, dm\<lparr>dm_guards := dm_guards dm @ [a]\<rparr>))"

definition observe_validity :: "deopt_map \<Rightarrow> u32 \<Rightarrow> u32 \<Rightarrow> deopt_map" where
  "observe_validity dm cell serial = dm\<lparr>dm_validity := reg_observe cell serial (dm_validity dm)\<rparr>"

definition record_validity_guard :: "deopt_map \<Rightarrow> u32 \<Rightarrow> u32 \<Rightarrow> u32 \<Rightarrow> bool \<times> deopt_map" where
  "record_validity_guard dm pc cell serial =
     (if cell = 0 then (False, dm)
      else record_guard (observe_validity dm cell serial) \<lparr>as_pc = pc, as_guard = ValidityCell cell serial\<rparr>)"

definition guard_count :: "deopt_map \<Rightarrow> nat" where "guard_count dm = length (dm_guards dm)"

definition is_valid_deopt :: "(u32 \<times> u32) list \<Rightarrow> u32 \<Rightarrow> bool" where
  "is_valid_deopt m pc \<longleftrightarrow> list_ex (\<lambda>(_, bc). bc = pc) m"

section \<open>Guard selection\<close>

definition guard_for_lattice :: "type_lattice \<Rightarrow> u8 \<Rightarrow> u32 \<Rightarrow> assumption option" where
  "guard_for_lattice x reg pc =
     map_option (\<lambda>g. \<lparr>as_pc = pc, as_guard = g\<rparr>)
       (case x of L_Smi \<Rightarrow> Some (TypeIsSmi reg) | L_Double \<Rightarrow> Some (TypeIsNumber reg)
        | L_Number \<Rightarrow> Some (TypeIsNumber reg) | L_String \<Rightarrow> Some (TypeIsString reg)
        | L_Object sh \<Rightarrow> Some (ShapeEq sh) | _ \<Rightarrow> None)"

definition emit_guard :: "deopt_map \<Rightarrow> assumption \<Rightarrow> bool \<times> deopt_map" where "emit_guard = record_guard"

definition is_smi_fast_path :: "type_lattice \<Rightarrow> bool" where "is_smi_fast_path x \<longleftrightarrow> x = L_Smi"

definition checked_add_i32 :: "i32 \<Rightarrow> i32 \<Rightarrow> i32 option" where
  "checked_add_i32 a b =
     (let s = sint a + sint b in if - (2 ^ 31) \<le> s \<and> s < 2 ^ 31 then Some (word_of_int s) else None)"

definition smi_add_fast :: "js_value \<Rightarrow> js_value \<Rightarrow> js_value option" where
  "smi_add_fast lhs rhs =
     Option.bind (as_smi lhs) (\<lambda>a. Option.bind (as_smi rhs) (\<lambda>b. Option.bind (checked_add_i32 a b) (\<lambda>sum.
       if \<not> (SMI_MIN \<le> sint sum \<and> sint sum \<le> SMI_MAX) then None else from_i32_smi sum)))"

section \<open>Inlining\<close>

definition should_inline :: "function_bytecode \<Rightarrow> bool \<Rightarrow> bool" where
  "should_inline callee single \<longleftrightarrow> (if \<not> single then False else is_inline_candidate callee)"

text \<open>The callee's words before its last operation, wide operations copied whole.\<close>

function copy_body :: "instr list \<Rightarrow> nat \<Rightarrow> instr list \<Rightarrow> instr list" where
  "copy_body body pc acc =
     (if pc < length body then
        (let i = body ! pc in
         case (if instr_op i = Some Op_Wide then try_decode (drop pc body) else Inl WideHeaderNotWide) of
           Inr (_, w) \<Rightarrow> if w = 0 then acc else copy_body body (pc + w) (acc @ take w (drop pc body))
         | Inl _ \<Rightarrow> copy_body body (pc + 1) (acc @ [i]))
      else acc)"
  by pat_completeness auto
termination by (relation "measure (\<lambda>(body, pc, acc). length body - pc)") auto

declare copy_body.simps [simp del]

definition call_site :: "function_bytecode \<Rightarrow> nat \<Rightarrow> (u16 \<times> nat) option" where
  "call_site caller idx =
     (let i = instrs caller ! idx
      in if instr_op i = Some Op_Call then Some (ucast (instr_a i), 1)
         else if instr_op i = Some Op_Wide then
           (case try_decode (drop idx (instrs caller)) of Inr (CallW dst _ _, w) \<Rightarrow> Some (dst, w) | _ \<Rightarrow> None)
         else None)"

definition merged_consts :: "const_pool \<Rightarrow> const_pool \<Rightarrow> const_pool" where
  "merged_consts caller callee =
     fold (\<lambda>c p. case pool_insert p c of Inr (_, p') \<Rightarrow> p' | Inl _ \<Rightarrow> p) (pool_consts callee) caller"

definition inline_at :: "function_bytecode \<Rightarrow> u32 \<Rightarrow> function_bytecode \<Rightarrow> function_bytecode option" where
  "inline_at caller call_pc callee =
     (let idx = unat call_pc
      in if \<not> is_inline_candidate callee then None
         else if length (instrs caller) \<le> idx then None
         else Option.bind (call_site caller idx) (\<lambda>(dst, width).
           let pcs = logical_pcs callee; lst = last pcs; last_op = instr_op (instrs callee ! lst)
           in if pcs = [] then None
              else if last_op \<notin> {Some Op_Return, Some Op_Throw} then None
              else if 255 < dst then None
              else let src = instr_a (instrs callee ! lst); dst8 = (ucast dst :: u8);
                       body = take lst (instrs callee); suffix_start = idx + width;
                       new = take idx (instrs caller) @ copy_body body 0 []
                         @ (if src \<noteq> dst8 then [instr_new Op_Move dst8 src 0] else [])
                         @ drop suffix_start (instrs caller);
                       sps = take idx (spans caller) @ replicate (length body + 1) (0, 0)
                         @ (if suffix_start \<le> length (spans caller) then drop suffix_start (spans caller) else []);
                       fb = with_instructions new (max (max_regs caller) (max_regs callee))
                   in Some (fb\<lparr>name_hint := name_hint caller, fb_consts := merged_consts (fb_consts caller) (fb_consts callee),
                        handlers := handlers caller, spans := take (length new) sps, is_strict := is_strict caller,
                        fixed_params := fixed_params caller, has_rest := has_rest caller, rest_reg := rest_reg caller,
                        is_generator := is_generator caller, is_async := is_async caller\<rparr>)))"

section \<open>Loop versions\<close>

definition LOOP_PEEL_HOT :: u16 where "LOOP_PEEL_HOT = LOOP_HOT_THRESHOLD"

datatype loop_version = NoVersion | Peel nat u8 | Unroll2x nat | PeelAndUnroll nat u8

definition should_peel_loop :: "u16 \<Rightarrow> bool" where "should_peel_loop c \<longleftrightarrow> LOOP_PEEL_HOT < c"

definition should_unroll_counted :: "u16 \<Rightarrow> counted_loop option \<Rightarrow> bool" where
  "should_unroll_counted c counted \<longleftrightarrow> counted \<noteq> None \<and> LOOP_PEEL_HOT < c"

definition decide_loop_version :: "function_bytecode \<Rightarrow> nat \<Rightarrow> u16 \<Rightarrow> u8 option \<Rightarrow> loop_version" where
  "decide_loop_version fb hdr c shape_reg =
     (let peeled = (case shape_reg of Some _ \<Rightarrow> should_peel_loop c | None \<Rightarrow> False);
          unrolled = should_unroll_counted c (find_counted_loop fb hdr)
      in case (peeled, unrolled, shape_reg) of
           (True, True, Some reg) \<Rightarrow> PeelAndUnroll hdr reg
         | (True, False, Some reg) \<Rightarrow> Peel hdr reg
         | (False, True, _) \<Rightarrow> Unroll2x hdr
         | _ \<Rightarrow> NoVersion)"

definition peel_first_iteration :: "deopt_map \<Rightarrow> nat \<Rightarrow> handle \<Rightarrow> assumption option \<times> deopt_map" where
  "peel_first_iteration dm hdr sh =
     (let g = \<lparr>as_pc = word_of_nat hdr, as_guard = ShapeEq sh\<rparr>; (fits, dm') = emit_guard dm g
      in (if fits then Some g else None, dm'))"

definition validity_guard_for_loop :: "deopt_map \<Rightarrow> nat \<Rightarrow> u32 \<Rightarrow> u32 \<Rightarrow> bool \<times> deopt_map" where
  "validity_guard_for_loop dm hdr cell serial = record_validity_guard dm (word_of_nat hdr) cell serial"

section \<open>The pipeline\<close>

text \<open>The guards of one operation, and those of one hot loop.\<close>

definition first_shape :: "feedback_vector \<Rightarrow> nat \<Rightarrow> handle option" where
  "first_shape fv pc = Option.bind (map_of (ics fv) (word_of_nat pc)) (\<lambda>ic. map_option ic_shape (ic_first ic))"

definition guard_operation :: "function_bytecode \<Rightarrow> feedback_vector \<Rightarrow> nat \<Rightarrow> deopt_map \<Rightarrow> deopt_map" where
  "guard_operation fb fv pc dm =
     (let i = instrs fb ! pc; at = word_of_nat pc; x = type_at fv at;
          dm = (if instr_op i \<in> {Some Op_Add, Some Op_Sub, Some Op_Mul}
                then (case guard_for_lattice x (instr_b i) at of Some a \<Rightarrow> snd (emit_guard dm a) | None \<Rightarrow> dm) else dm)
      in if instr_op i = Some Op_GetProperty
         then (case first_shape fv pc of
                 Some sh \<Rightarrow> if \<not> is_any x then snd (emit_guard dm \<lparr>as_pc = at, as_guard = ShapeEq sh\<rparr>) else dm
               | None \<Rightarrow> dm)
         else dm)"

definition guard_loop :: "function_bytecode \<Rightarrow> feedback_vector \<Rightarrow> nat \<Rightarrow> deopt_map \<Rightarrow> deopt_map" where
  "guard_loop fb fv hdr dm =
     (let counted = find_counted_loop fb hdr;
          dm = (case decide_loop_version fb hdr (loop_counter fv) None of
                  Unroll2x h \<Rightarrow> snd (validity_guard_for_loop dm h 1 1)
                | PeelAndUnroll h _ \<Rightarrow> snd (validity_guard_for_loop dm h 1 1)
                | _ \<Rightarrow> dm);
          inside = (\<lambda>pc. hdr < pc \<and> (case counted of Some c \<Rightarrow> pc < cl_backedge c | None \<Rightarrow> True))
      in case find (\<lambda>pc. inside pc \<and> first_shape fv pc \<noteq> None) (logical_pcs fb) of
           Some pc \<Rightarrow> snd (peel_first_iteration dm hdr (the (first_shape fv pc)))
         | None \<Rightarrow> dm)"

definition speculate :: "function_bytecode \<Rightarrow> feedback_vector \<Rightarrow> deopt_map \<Rightarrow> deopt_map" where
  "speculate fb fv dm =
     (let dm = fold (guard_operation fb fv) (logical_pcs fb) dm
      in if LOOP_PEEL_HOT < loop_counter fv then fold (guard_loop fb fv) (loop_headers fb) dm else dm)"

definition compile_with_feedback :: "function_bytecode \<Rightarrow> feedback_vector option \<Rightarrow> jit_error + compiled_fn \<times> deopt_map" where
  "compile_with_feedback fb fv =
     (if MAX_JIT_FUNCTION_SIZE < length (instrs fb)
      then Inl (TooLarge (length (instrs fb)) MAX_JIT_FUNCTION_SIZE)
      else if MAX_JIT_REGISTERS < unat (max_regs fb) then Inl (JitInvalidBytecode (TooManyRegisters (max_regs fb)))
      else let dm = deopt_from_pc_map (map map_entry (logical_pcs fb));
               dm = (case fv of Some fv \<Rightarrow> speculate fb fv dm | None \<Rightarrow> dm)
           in rbind (jit_compile fb) (\<lambda>cf. Inr (cf, dm)))"

definition pipeline_compile :: "function_bytecode \<Rightarrow> jit_error + compiled_fn" where
  "pipeline_compile fb =
     (if MAX_JIT_FUNCTION_SIZE < length (instrs fb)
      then Inl (TooLarge (length (instrs fb)) MAX_JIT_FUNCTION_SIZE)
      else if MAX_JIT_REGISTERS < unat (max_regs fb) then Inl (JitInvalidBytecode (TooManyRegisters (max_regs fb)))
      else jit_compile fb)"

section \<open>Recorded guards can always be resolved\<close>

definition guards_fit :: "(u32 \<times> u32) list \<Rightarrow> nat list \<Rightarrow> deopt_map \<Rightarrow> bool" where
  "guards_fit m pcs dm \<longleftrightarrow> dm_pc_map dm = m \<and> length (dm_guards dm) \<le> MAX_GUARDS_PER_FUNCTION
     \<and> (\<forall>a \<in> set (dm_guards dm). as_pc a \<in> word_of_nat ` set pcs)"

lemma guards_fit_new: "guards_fit m pcs (deopt_from_pc_map m)"
  by (simp add: guards_fit_def deopt_from_pc_map_def)

lemma guards_fit_emit:
  "guards_fit m pcs dm \<Longrightarrow> as_pc a \<in> word_of_nat ` set pcs \<Longrightarrow> guards_fit m pcs (snd (emit_guard dm a))"
  by (auto simp: guards_fit_def emit_guard_def record_guard_def)

lemma guards_fit_observe: "guards_fit m pcs (observe_validity dm cell serial) = guards_fit m pcs dm"
  by (simp add: guards_fit_def observe_validity_def)

lemma guards_fit_validity:
  "guards_fit m pcs dm \<Longrightarrow> pc \<in> word_of_nat ` set pcs \<Longrightarrow> guards_fit m pcs (snd (record_validity_guard dm pc cell serial))"
  using guards_fit_emit [of m pcs "observe_validity dm cell serial"]
  by (simp add: record_validity_guard_def guards_fit_observe emit_guard_def)

lemma guard_for_lattice_pc: "guard_for_lattice x reg pc = Some a \<Longrightarrow> as_pc a = pc"
  by (auto simp: guard_for_lattice_def)

lemma guards_fit_operation:
  assumes "guards_fit m pcs dm" "pc \<in> set pcs"
  shows "guards_fit m pcs (guard_operation fb fv pc dm)"
proof -
  have pc: "word_of_nat pc \<in> word_of_nat ` set pcs" using assms(2) by simp
  show ?thesis
    unfolding guard_operation_def Let_def
    using pc assms(1) by (auto split: option.split intro!: guards_fit_emit dest!: guard_for_lattice_pc)
qed

lemma guards_fit_loop:
  assumes "guards_fit m pcs dm" "hdr \<in> set pcs"
  shows "guards_fit m pcs (guard_loop fb fv hdr dm)"
proof -
  have hdr: "word_of_nat hdr \<in> word_of_nat ` set pcs" using assms(2) by simp
  have "snd (peel_first_iteration dm' hdr sh) = snd (emit_guard dm' \<lparr>as_pc = word_of_nat hdr, as_guard = ShapeEq sh\<rparr>)" for dm' sh
    by (simp add: peel_first_iteration_def Let_def case_prod_unfold)
  then have peel: "guards_fit m pcs (snd (peel_first_iteration dm' hdr sh))" if "guards_fit m pcs dm'" for dm' sh
    using guards_fit_emit [OF that, of "\<lparr>as_pc = word_of_nat hdr, as_guard = ShapeEq sh\<rparr>"] hdr by simp
  have "guards_fit m pcs (case decide_loop_version fb hdr (loop_counter fv) None of
      Unroll2x h \<Rightarrow> snd (validity_guard_for_loop dm h 1 1)
    | PeelAndUnroll h _ \<Rightarrow> snd (validity_guard_for_loop dm h 1 1)
    | _ \<Rightarrow> dm)" (is "guards_fit m pcs ?dm")
    using assms(1) hdr guards_fit_validity [OF assms(1) hdr]
    by (simp add: decide_loop_version_def validity_guard_for_loop_def split: bool.split)
  note versioned = this
  have "guards_fit m pcs (case r of Some pc \<Rightarrow> snd (peel_first_iteration ?dm hdr (the (first_shape fv pc))) | None \<Rightarrow> ?dm)" for r
    using versioned peel [OF versioned] by (cases r) (simp_all only: option.case)
  then show ?thesis unfolding guard_loop_def Let_def .
qed

lemma guards_fit_fold:
  "(\<And>x dm. x \<in> set xs \<Longrightarrow> guards_fit m pcs dm \<Longrightarrow> guards_fit m pcs (g x dm)) \<Longrightarrow> guards_fit m pcs dm \<Longrightarrow>
     guards_fit m pcs (fold g xs dm)"
  by (induction xs arbitrary: dm) auto

lemma guards_fit_speculate:
  assumes "guards_fit m (logical_pcs fb) dm"
  shows "guards_fit m (logical_pcs fb) (speculate fb fv dm)"
proof -
  have ops: "guards_fit m (logical_pcs fb) (fold (guard_operation fb fv) (logical_pcs fb) dm)"
    by (rule guards_fit_fold [OF guards_fit_operation assms])
  have "guards_fit m (logical_pcs fb) (fold (guard_loop fb fv) (loop_headers fb) dm')" if "guards_fit m (logical_pcs fb) dm'" for dm'
    by (rule guards_fit_fold [OF guards_fit_loop that]) (simp_all add: loop_headers_def)
  with ops show ?thesis by (simp add: speculate_def Let_def)
qed

lemma find_unique:
  "x \<in> set xs \<Longrightarrow> q x \<Longrightarrow> \<forall>y \<in> set xs. q y \<longrightarrow> y = x \<Longrightarrow> find q xs = Some x"
proof (induction xs)
  case (Cons y ys)
  show ?case
  proof (cases "q y")
    case False
    have "x \<in> set ys" using Cons.prems(1,2) False by (metis set_ConsD)
    moreover have "\<forall>z \<in> set ys. q z \<longrightarrow> z = x" using Cons.prems(3) by (metis list.set_intros(2))
    ultimately have "find q ys = Some x" using Cons.IH Cons.prems(2) by metis
    with False show ?thesis by simp
  next
    case True
    then have "y = x" using Cons.prems(3) by (metis list.set_intros(1))
    with True show ?thesis by simp
  qed
qed simp

lemma position_of_member: "x \<in> set xs \<Longrightarrow> q x \<Longrightarrow> \<exists>i. position_of q xs = Some i \<and> i < length xs \<and> q (xs ! i)"
proof -
  assume x: "x \<in> set xs" "q x"
  then obtain j where j: "j < length xs" "xs ! j = x" by (auto simp: in_set_conv_nth)
  have "\<exists>z. find (\<lambda>(i, x). q x) (enumerate 0 xs) = Some z"
  proof (rule ccontr)
    assume "\<nexists>z. find (\<lambda>(i, x). q x) (enumerate 0 xs) = Some z"
    then have "find (\<lambda>(i, x). q x) (enumerate 0 xs) = None" by (metis option.exhaust)
    then have "\<not> (\<exists>z. z \<in> set (enumerate 0 xs) \<and> (\<lambda>(i, x). q x) z)" by (simp add: find_None_iff)
    moreover have "(j, x) \<in> set (enumerate 0 xs)" using j by (auto simp: in_set_enumerate_eq)
    ultimately show False using x(2) by auto
  qed
  then obtain i y where z: "find (\<lambda>(i, x). q x) (enumerate 0 xs) = Some (i, y)" by auto
  then have "q y" "(i, y) \<in> set (enumerate 0 xs)" by (auto simp: find_Some_iff in_set_conv_nth)
  then show ?thesis using z by (auto simp: position_of_def in_set_enumerate_eq)
qed

text \<open>Within the size limit the code offsets of the map do not wrap.\<close>

lemma map_entry_inj:
  "p < 2 ^ 30 \<Longrightarrow> q < 2 ^ 30 \<Longrightarrow> fst (map_entry p) = fst (map_entry q) \<Longrightarrow> p = q"
proof -
  assume b: "p < 2 ^ 30" "q < 2 ^ 30" and eq: "fst (map_entry p) = fst (map_entry q)"
  have "unat (word_of_nat r * 4 :: u32) = r * 4" if "r < 2 ^ 30" for r
    using that by (simp add: unat_word_ariths unat_of_nat)
  with b eq show "p = q" unfolding map_entry_def fst_conv by (metis mult_right_cancel zero_neq_numeral)
qed

lemma deopt_pc_entry:
  assumes "\<forall>q \<in> set pcs. q < 2 ^ 30" "p \<in> set pcs" "dm_pc_map dm = map map_entry pcs"
  shows "deopt_pc dm (word_of_nat p * 4) = Some (word_of_nat p)"
proof -
  have "find (\<lambda>(j, _). j = word_of_nat p * 4) (map map_entry pcs) = Some (map_entry p)"
  proof (rule find_unique)
    show "map_entry p \<in> set (map map_entry pcs)" using assms(2) by simp
    show "case map_entry p of (j, _) \<Rightarrow> j = word_of_nat p * 4" by (simp add: map_entry_def)
    show "\<forall>y \<in> set (map map_entry pcs). (case y of (j, _) \<Rightarrow> j = word_of_nat p * 4) \<longrightarrow> y = map_entry p"
    proof (intro ballI impI)
      fix y assume "y \<in> set (map map_entry pcs)" "case y of (j, _) \<Rightarrow> j = word_of_nat p * 4"
      then obtain q where "q \<in> set pcs" "y = map_entry q" "fst (map_entry q) = fst (map_entry p)" by (auto simp: map_entry_def)
      with assms map_entry_inj [of q p] show "y = map_entry p" by auto
    qed
  qed
  then show ?thesis by (simp add: deopt_pc_def assms(3) map_entry_def)
qed

text \<open>
  C10. Whatever the feedback says, the optimising tier compiles the code the baseline
  compiler would, and records at most 32 guards; every guard stands at an instruction
  boundary of the function that the deoptimisation map resolves in both directions, so a
  failing guard always has an interpreter position to resume at.
\<close>

theorem guards_resolve:
  assumes "compile_with_feedback fb fv = Inr (cf, dm)" "a \<in> set (dm_guards dm)"
  shows "jit_compile fb = Inr cf \<and> dm_pc_map dm = deopt_info cf \<and> guard_count dm \<le> 32
    \<and> unat (as_pc a) \<in> set (logical_pcs fb)
    \<and> (\<exists>i. deopt_lookup dm (as_pc a) = Some i \<and> i < length (dm_pc_map dm) \<and> snd (dm_pc_map dm ! i) = as_pc a)
    \<and> deopt_pc dm (as_pc a * 4) = Some (as_pc a)"
proof -
  let ?m = "map map_entry (logical_pcs fb)"
  let ?dm = "case fv of Some fv \<Rightarrow> speculate fb fv (deopt_from_pc_map ?m) | None \<Rightarrow> deopt_from_pc_map ?m"
  from assms(1) have cf: "jit_compile fb = Inr cf" and dm: "dm = ?dm"
    by (auto simp: compile_with_feedback_def Let_def split: if_splits)
  have small: "length (instrs fb) \<le> 8192" and map_cf: "cf_pc_map cf = ?m"
    using cf by (simp_all add: jit_compile_Inr MAX_JIT_FUNCTION_SIZE_def)
  have fits: "guards_fit ?m (logical_pcs fb) dm"
    unfolding dm by (simp add: guards_fit_new guards_fit_speculate split: option.split)
  then obtain p where p: "p \<in> set (logical_pcs fb)" "as_pc a = word_of_nat p"
    using assms(2) by (auto simp: guards_fit_def)
  have bound: "\<forall>q \<in> set (logical_pcs fb). q < 2 ^ 30"
    using small by (auto simp: logical_pcs_def dest!: logical_pcs_from_bounds)
  have dmap: "dm_pc_map dm = ?m" using fits by (simp add: guards_fit_def)
  have "unat (word_of_nat p :: u32) = p" using bound p(1) by (auto simp: unat_of_nat)
  moreover have "\<exists>i. deopt_lookup dm (as_pc a) = Some i \<and> i < length (dm_pc_map dm) \<and> snd (dm_pc_map dm ! i) = as_pc a"
    using position_of_member [of "map_entry p" ?m "\<lambda>(_, bc). bc = as_pc a"] p
    unfolding deopt_lookup_def dmap by (auto simp: map_entry_def case_prod_unfold)
  ultimately show ?thesis
    using cf fits map_cf dmap deopt_pc_entry [OF bound p(1) dmap] p
    by (simp add: guards_fit_def guard_count_def deopt_info_def MAX_GUARDS_PER_FUNCTION_def)
qed

text \<open>An addition whose operand has always been a small integer.\<close>

definition sample_hot :: function_bytecode where
  "sample_hot = with_instructions [instr_new Op_LoadInt 0 0 1, instr_new Op_Add 1 0 0, instr_new Op_Return 1 0 0] 2"

definition sample_feedback :: feedback_vector where
  "sample_feedback = record_type feedback_default 1 L_Smi"

lemma sample_hot_guarded:
  "case compile_with_feedback sample_hot (Some sample_feedback) of
     Inr (cf, dm) \<Rightarrow> dm_guards dm = [\<lparr>as_pc = 1, as_guard = TypeIsSmi 0\<rparr>] | Inl _ \<Rightarrow> False"
  by code_simp

theorem guards_resolve_witness:
  "\<exists>cf dm a. compile_with_feedback sample_hot (Some sample_feedback) = Inr (cf, dm) \<and> a \<in> set (dm_guards dm)
     \<and> deopt_pc dm (as_pc a * 4) = Some (as_pc a)"
proof -
  obtain cf dm where c: "compile_with_feedback sample_hot (Some sample_feedback) = Inr (cf, dm)"
    "\<lparr>as_pc = 1, as_guard = TypeIsSmi 0\<rparr> \<in> set (dm_guards dm)"
    using sample_hot_guarded by (auto split: sum.splits prod.splits)
  from guards_resolve [OF c] c show ?thesis by blast
qed

section \<open>Guards and the feedback they come from\<close>

text \<open>The kinds a guard of element \<open>x\<close> lets through: a double's guard admits small integers too.\<close>

definition admitted :: "type_lattice \<Rightarrow> type_lattice" where
  "admitted x = (if x = L_Double then L_Number else x)"

lemma lattice_kind_view:
  assumes "view_ok a"
  shows "lattice_of_value (repr a) sh = (case a of VSmi _ \<Rightarrow> L_Smi | VDouble _ \<Rightarrow> L_Double | VString _ \<Rightarrow> L_String
    | VObject _ \<Rightarrow> (case sh of Some h \<Rightarrow> L_Object h | None \<Rightarrow> L_Any) | _ \<Rightarrow> L_Any)"
    "is_smi (repr a) \<longleftrightarrow> (\<exists>n. a = VSmi n)" "is_f64 (repr a) \<longleftrightarrow> (\<exists>f. a = VDouble f)"
proof -
  show s: "is_smi (repr a) \<longleftrightarrow> (\<exists>n. a = VSmi n)"
    using assms by (cases a; simp add: is_smi_def has_tag_view del: repr.simps)
  show f: "is_f64 (repr a) \<longleftrightarrow> (\<exists>f. a = VDouble f)"
    using boxed_view [of a] repr_double assms by (cases a) (simp_all add: is_f64_def del: repr.simps)
  show "lattice_of_value (repr a) sh = (case a of VSmi _ \<Rightarrow> L_Smi | VDouble _ \<Rightarrow> L_Double | VString _ \<Rightarrow> L_String
    | VObject _ \<Rightarrow> (case sh of Some h \<Rightarrow> L_Object h | None \<Rightarrow> L_Any) | _ \<Rightarrow> L_Any)"
    unfolding lattice_of_value_def s f kind_view [OF assms] by (simp split: js_view.split)
qed

lemma guard_cases:
  assumes "guard_for_lattice x reg pc = Some g" "view_ok a"
  shows "lattice_of_value (repr a) sh \<le> admitted x \<longleftrightarrow>
    check_value g (repr a) \<and> (\<forall>s. x = L_Object s \<longrightarrow> (\<exists>p. a = VObject p) \<and> sh \<noteq> None \<and> check_shape g (the sh))"
proof -
  note v = lattice_kind_view [OF assms(2)] kind_view [OF assms(2)]
  show ?thesis
    using assms(1) unfolding check_value_def check_shape_def v
    by (cases x; cases a; cases sh) (auto simp: guard_for_lattice_def admitted_def less_eq_type_lattice_def)
qed



section \<open>The fast addition\<close>

lemma box_number_small:
  assumes "SMI_MIN \<le> i" "i \<le> SMI_MAX"
  shows "box_number (f64_of_int i) = repr (VSmi (word_of_int i))"
proof -
  note r = smi_range_small [OF assms]
  have "f64_to_int (f64_of_int i) = Some i" using r by (simp add: f64_int_roundtrip)
  moreover have "\<not> (i = 0 \<and> f64_sign (f64_of_int i))" using r f64_sign_int by simp
  ultimately have "smi_number (f64_of_int i) = Some (word_of_int i)" using assms by (simp add: smi_number_def)
  then show ?thesis by (simp add: box_number_cases(1) del: repr.simps)
qed

text \<open>
  The addition of the optimising tier is exact: on two small integers it gives their
  sum when that is one again, the value the generic helper computes with doubles, and
  otherwise leaves the sum to the helper.
\<close>

theorem fast_add_exact:
  assumes "view_ok (VSmi m)" "view_ok (VSmi n)"
  shows "smi_add_fast (repr (VSmi m)) (repr (VSmi n)) =
      (if SMI_MIN \<le> sint m + sint n \<and> sint m + sint n \<le> SMI_MAX
       then Some (jit_add (repr (VSmi m)) (repr (VSmi n))) else None)
    \<and> jit_add (repr (VSmi m)) (repr (VSmi n)) = box_number (f64_of_int (sint m + sint n))"
proof -
  let ?s = "sint m + sint n"
  have small: "\<bar>sint m\<bar> < 2 ^ 53" "\<bar>sint n\<bar> < 2 ^ 53" "- (2 ^ 31) \<le> ?s" "?s < 2 ^ 31" "\<bar>?s\<bar> < 2 ^ 53"
  proof -
    have "- 1073741824 \<le> sint m" "sint m \<le> 1073741823" "- 1073741824 \<le> sint n" "sint n \<le> 1073741823"
      using assms by (simp_all add: SMI_MIN_def SMI_MAX_def)
    then show "\<bar>sint m\<bar> < 2 ^ 53" "\<bar>sint n\<bar> < 2 ^ 53" "- (2 ^ 31) \<le> ?s" "?s < 2 ^ 31" "\<bar>?s\<bar> < 2 ^ 53"
      unfolding abs_less_iff by simp_all
  qed
  have smi: "as_smi (repr (VSmi m)) = Some m" "as_smi (repr (VSmi n)) = Some n"
    using assms by (simp_all add: as_smi_view del: repr.simps)
  have num: "to_number_no_heap (repr (VSmi k)) = f64_of_int (sint k)" if "view_ok (VSmi k)" for k
    using that by (simp add: to_number_no_heap_def rt_num_of_def num_of_view view_num_def del: repr.simps view_ok.simps)
  have add: "jit_add (repr (VSmi m)) (repr (VSmi n)) = box_number (f64_of_int ?s)"
    unfolding jit_add_def rt_box_number_def num [OF assms(1)] num [OF assms(2)] using small by (simp add: f64_add_int)
  have sum: "sint (m + n) = ?s"
    using small(3,4) by (simp add: sint_word_ariths signed_take_bit_int_eq_self)
  have checked: "checked_add_i32 m n = Some (m + n)" using small(3,4) by (simp add: checked_add_i32_def)
  have "smi_add_fast (repr (VSmi m)) (repr (VSmi n)) =
      (if SMI_MIN \<le> ?s \<and> ?s \<le> SMI_MAX then Some (repr (VSmi (m + n))) else None)"
    unfolding smi_add_fast_def smi using checked sum by (simp add: from_i32_smi_def)
  moreover have "box_number (f64_of_int ?s) = repr (VSmi (m + n))" if "SMI_MIN \<le> ?s" "?s \<le> SMI_MAX"
    using box_number_small [OF that] by (simp del: repr.simps)
  ultimately show ?thesis using add by simp
qed

theorem fast_add_exact_witness:
  "smi_add_fast (repr (VSmi 2)) (repr (VSmi 3)) = Some (jit_add (repr (VSmi 2)) (repr (VSmi 3)))"
  using fast_add_exact [of 2 3] by (simp add: SMI_MIN_def SMI_MAX_def del: repr.simps)

section \<open>Monomorphy\<close>

definition mono_run :: "(u32 \<times> handle) list \<Rightarrow> mono_tracker" where
  "mono_run obs = fold (\<lambda>(pc, sh) t. snd (mono_observe pc sh t)) obs mono_new"

text \<open>The tracker remembers the first shape of a site and that another one came.\<close>

definition site_shapes :: "(u32 \<times> handle) list \<Rightarrow> u32 \<Rightarrow> handle list" where
  "site_shapes obs pc = map snd (filter (\<lambda>ob. fst ob = pc) obs)"

definition clashing :: "(u32 \<times> handle) list \<Rightarrow> u32 set" where
  "clashing obs = {pc. \<exists>s \<in> set (site_shapes obs pc). s \<noteq> hd (site_shapes obs pc)}"

definition mono_inv :: "(u32 \<times> handle) list \<Rightarrow> mono_tracker \<Rightarrow> bool" where
  "mono_inv obs t \<longleftrightarrow> distinct (map fst (mt_clashed t)) \<and> fst ` set (mt_clashed t) = clashing obs
     \<and> (\<forall>pc. map_of (mt_seen t) pc = (case site_shapes obs pc of [] \<Rightarrow> None | s # _ \<Rightarrow> Some s))"

lemma site_shapes_snoc: "site_shapes (obs @ [(pc, sh)]) q = site_shapes obs q @ (if q = pc then [sh] else [])"
  by (simp add: site_shapes_def)

lemma clashing_snoc:
  "clashing (obs @ [(pc, sh)]) =
     (if site_shapes obs pc \<noteq> [] \<and> hd (site_shapes obs pc) \<noteq> sh then insert pc (clashing obs) else clashing obs)"
proof -
  have "(\<exists>s \<in> set (site_shapes (obs @ [(pc, sh)]) q). s \<noteq> hd (site_shapes (obs @ [(pc, sh)]) q)) \<longleftrightarrow>
      (\<exists>s \<in> set (site_shapes obs q). s \<noteq> hd (site_shapes obs q)) \<or>
      (q = pc \<and> site_shapes obs pc \<noteq> [] \<and> hd (site_shapes obs pc) \<noteq> sh)" for q
    by (cases "site_shapes obs q") (auto simp: site_shapes_snoc)
  then show ?thesis by (auto simp: clashing_def)
qed

lemma mono_step:
  assumes "mono_inv obs t"
  shows "mono_inv (obs @ [(pc, sh)]) (snd (mono_observe pc sh t))"
proof -
  have inv: "distinct (map fst (mt_clashed t))" "fst ` set (mt_clashed t) = clashing obs"
    "\<And>q. map_of (mt_seen t) q = (case site_shapes obs q of [] \<Rightarrow> None | s # _ \<Rightarrow> Some s)"
    using assms by (simp_all add: mono_inv_def)
  have known: "map_of (mt_clashed t) pc = None \<longleftrightarrow> pc \<notin> clashing obs" unfolding inv(2) [symmetric] by (rule map_of_eq_None_iff)
  show ?thesis
  proof (cases "site_shapes obs pc")
    case Nil
    then show ?thesis using inv
      by (simp add: mono_inv_def mono_observe_def clashing_snoc site_shapes_snoc update_conv')
  next
    case (Cons s ss)
    have seen: "(case site_shapes (obs @ [(pc, sh)]) q of [] \<Rightarrow> None | s # _ \<Rightarrow> Some s) =
        (case site_shapes obs q of [] \<Rightarrow> None | s # _ \<Rightarrow> Some s)" for q
      using Cons by (auto simp: site_shapes_snoc split: list.split)
    have "fst ` set (AList.update pc True (mt_clashed t)) = insert pc (clashing obs)"
      unfolding inv(2) [symmetric] using dom_update [of pc True "mt_clashed t"] by (simp add: dom_map_of_conv_image_fst)
    then show ?thesis using inv known Cons distinct_update [OF inv(1)]
      by (auto simp: mono_inv_def mono_observe_def clashing_snoc seen)
  qed
qed

text \<open>
  The tracker the inliner relies on counts exactly the sites that were observed with
  two different shapes, each once, whatever the order of the observations; a function is
  monomorphic exactly when there is no such site.
\<close>

theorem mono_tracker_exact:
  "clash_count (mono_run obs) = card {pc. \<exists>s s'. (pc, s) \<in> set obs \<and> (pc, s') \<in> set obs \<and> s \<noteq> s'}
   \<and> (mono_is_mono (mono_run obs) \<longleftrightarrow> {pc. \<exists>s s'. (pc, s) \<in> set obs \<and> (pc, s') \<in> set obs \<and> s \<noteq> s'} = {})"
proof -
  have inv: "mono_inv obs (mono_run obs)"
  proof (induction obs rule: rev_induct)
    case Nil
    show ?case by (simp add: mono_inv_def mono_run_def mono_new_def site_shapes_def clashing_def)
  next
    case (snoc ob obs)
    have "mono_run (obs @ [ob]) = snd (mono_observe (fst ob) (snd ob) (mono_run obs))"
      by (simp add: mono_run_def case_prod_unfold)
    with mono_step [OF snoc, of "fst ob" "snd ob"] show ?case by simp
  qed
  have shapes: "set (site_shapes obs pc) = {s. (pc, s) \<in> set obs}" for pc by (force simp: site_shapes_def)
  have first: "hd xs \<in> set xs \<or> xs = []" for xs :: "handle list" by (cases xs) simp_all
  have "clashing obs = {pc. \<exists>s s'. (pc, s) \<in> set obs \<and> (pc, s') \<in> set obs \<and> s \<noteq> s'}" (is "_ = ?two")
  proof (intro set_eqI)
    fix pc
    show "pc \<in> clashing obs \<longleftrightarrow> pc \<in> ?two"
      using first [of "site_shapes obs pc"] shapes [of pc] unfolding clashing_def mem_Collect_eq
      by (metis empty_iff list.set(1) mem_Collect_eq)
  qed
  moreover have "clash_count (mono_run obs) = card (fst ` set (mt_clashed (mono_run obs)))"
    using inv unfolding clash_count_def mono_inv_def by (metis distinct_card length_map list.set_map)
  moreover have "mt_clashed (mono_run obs) = [] \<longleftrightarrow> clashing obs = {}"
    using inv unfolding mono_inv_def by (metis image_is_empty set_empty)
  ultimately show ?thesis using inv by (simp add: mono_inv_def mono_is_mono_def)
qed

section \<open>What inlining leaves out\<close>

text \<open>
  The splice copies the callee's words as they are. Here the callee branches inside its own
  stream: in the caller the same word jumps to an earlier place than the copied target, and
  its register operands name the caller's registers.
\<close>

definition inline_caller :: function_bytecode where
  "inline_caller = with_instructions [instr_new Op_LoadInt 0 0 7, instr_new Op_LoadInt 1 0 8,
     instr_new Op_Call 2 1 0, instr_new Op_Return 0 0 0] 3"

definition inline_callee :: function_bytecode where
  "inline_callee = with_instructions [instr_new Op_LoadInt 0 0 5, instr_new_imm24 Op_Jump 2, instr_new Op_Return 0 0 0] 1"

lemma inline_not_renamed:
  "map_option instrs (inline_at inline_caller 2 inline_callee) = Some
     [instr_new Op_LoadInt 0 0 7, instr_new Op_LoadInt 1 0 8,
      instr_new Op_LoadInt 0 0 5, instr_new_imm24 Op_Jump 2, instr_new Op_Move 2 0 0, instr_new Op_Return 0 0 0]"
  by code_simp

text \<open>A callee that throws is spliced in as one that returns the thrown value.\<close>

lemma inline_drops_throw:
  "map_option instrs (inline_at inline_caller 2 (with_instructions [instr_new Op_Throw 0 0 0] 1)) = Some
     [instr_new Op_LoadInt 0 0 7, instr_new Op_LoadInt 1 0 8, instr_new Op_Move 2 0 0, instr_new Op_Return 0 0 0]"
  by code_simp

end
