(* ===== verification/JitTier.thy ===== *)
theory JitTier
  imports OptTier
begin

text \<open>
  The registry of compiled functions (\<open>v12-codegen/src/cache.rs\<close>) and the hook that
  compiles functions when they become hot (\<open>v12-engine/src/jit_tier.rs\<close>), composed with
  the counters of the interpreter that call it.
\<close>

section \<open>The registry\<close>

type_synonym jit_cache = "(u32 \<times> compiled_fn) list"

definition cache_new :: jit_cache where "cache_new = []"
definition cache_insert :: "u32 \<Rightarrow> compiled_fn \<Rightarrow> jit_cache \<Rightarrow> jit_cache" where "cache_insert f cf c = AList.update f cf c"
definition cache_get :: "jit_cache \<Rightarrow> u32 \<Rightarrow> compiled_fn option" where "cache_get c f = map_of c f"
definition cache_remove :: "u32 \<Rightarrow> jit_cache \<Rightarrow> compiled_fn option \<times> jit_cache" where
  "cache_remove f c = (map_of c f, AList.delete f c)"
definition cache_len :: "jit_cache \<Rightarrow> nat" where "cache_len c = length c"
definition cache_is_empty :: "jit_cache \<Rightarrow> bool" where "cache_is_empty c \<longleftrightarrow> c = []"
definition cache_clear :: "jit_cache \<Rightarrow> jit_cache" where "cache_clear c = []"
definition cache_ids :: "jit_cache \<Rightarrow> u32 list" where "cache_ids c = map fst c"

text \<open>The association list stands for a hash map as long as it holds each key once.\<close>

lemma cache_keys_distinct:
  "distinct (cache_ids c) \<Longrightarrow> distinct (cache_ids (cache_insert f cf c)) \<and> distinct (cache_ids (snd (cache_remove g c)))"
  by (simp add: cache_ids_def cache_insert_def cache_remove_def distinct_update distinct_delete)

lemma cache_reads:
  "cache_get (cache_insert f cf c) g = (if g = f then Some cf else cache_get c g)"
  "cache_get (snd (cache_remove f c)) g = (if g = f then None else cache_get c g)"
  by (simp_all add: cache_get_def cache_insert_def cache_remove_def update_conv' delete_conv')

section \<open>The hook\<close>

text \<open>The counters are 32 bits wide; a release build wraps.\<close>

record jit_tier_stats =
  tier_ups :: u32
  compiled_count :: u32
  refused :: u32

record jit_tier_hooks =
  jt_compiled :: "(u32 \<times> compiled_fn) list"
  jt_stats :: jit_tier_stats

definition jit_tier_new :: jit_tier_hooks where
  "jit_tier_new = \<lparr>jt_compiled = [], jt_stats = \<lparr>tier_ups = 0, compiled_count = 0, refused = 0\<rparr>\<rparr>"

definition jit_flag_is_on :: "string option \<Rightarrow> bool" where
  "jit_flag_is_on v = (case v of Some s \<Rightarrow> s \<noteq> '''' \<and> s \<noteq> ''0'' | None \<Rightarrow> False)"

definition on_tier_up :: "function_bytecode list \<Rightarrow> u32 \<Rightarrow> jit_tier_hooks \<Rightarrow> jit_tier_hooks" where
  "on_tier_up program f h =
     (let st = jt_stats h; st = st\<lparr>tier_ups := tier_ups st + 1\<rparr>; h = h\<lparr>jt_stats := st\<rparr>
      in if list_ex (\<lambda>(idx, _). idx = f) (jt_compiled h) then h
         else (case list_get program (unat f) of
             None \<Rightarrow> h
           | Some fb \<Rightarrow>
               (case jit_compile fb of
                  Inr cf \<Rightarrow> h\<lparr>jt_compiled := jt_compiled h @ [(f, cf)],
                              jt_stats := st\<lparr>compiled_count := compiled_count st + 1\<rparr>\<rparr>
                | Inl _ \<Rightarrow> h\<lparr>jt_stats := st\<lparr>refused := refused st + 1\<rparr>\<rparr>)))"

section \<open>What the hook holds\<close>

definition compiles_to :: "function_bytecode list \<Rightarrow> u32 \<Rightarrow> compiled_fn \<Rightarrow> bool" where
  "compiles_to program f cf \<longleftrightarrow> unat f < length program \<and> jit_compile (program ! unat f) = Inr cf"

definition refuses :: "function_bytecode list \<Rightarrow> u32 \<Rightarrow> bool" where
  "refuses program f \<longleftrightarrow> unat f < length program \<and> isl (jit_compile (program ! unat f))"

text \<open>The hook after the reports \<open>fs\<close>.\<close>

definition hook_inv :: "function_bytecode list \<Rightarrow> u32 list \<Rightarrow> jit_tier_hooks \<Rightarrow> bool" where
  "hook_inv program fs h \<longleftrightarrow> distinct (map fst (jt_compiled h))
     \<and> (\<forall>f cf. (f, cf) \<in> set (jt_compiled h) \<longleftrightarrow> f \<in> set fs \<and> compiles_to program f cf)
     \<and> jt_stats h = \<lparr>tier_ups = word_of_nat (length fs), compiled_count = word_of_nat (length (jt_compiled h)),
         refused = word_of_nat (length (filter (refuses program) fs))\<rparr>"

lemma hook_step:
  assumes "hook_inv program fs h"
  shows "hook_inv program (fs @ [f]) (on_tier_up program f h)"
proof -
  note inv = assms [unfolded hook_inv_def]
  have listed: "list_ex (\<lambda>(idx, _). idx = f) (jt_compiled h) \<longleftrightarrow> f \<in> set fs \<and> (\<exists>cf. compiles_to program f cf)"
    using inv by (auto simp: list_ex_iff) 
  have fst_in: "f \<in> fst ` set (jt_compiled h) \<longleftrightarrow> f \<in> set fs \<and> (\<exists>cf. compiles_to program f cf)"
    using inv by force
  consider (known) "f \<in> set fs" "\<exists>cf. compiles_to program f cf"
    | (outside) "\<not> unat f < length program"
    | (accepted) cf where "f \<notin> set fs" "compiles_to program f cf"
    | (rejected) "refuses program f"
    by (cases "jit_compile (program ! unat f)") (auto simp: compiles_to_def refuses_def)
  then show ?thesis
  proof cases
    case known
    then have "\<not> refuses program f" by (auto simp: compiles_to_def refuses_def)
    with known inv listed show ?thesis by (auto simp: hook_inv_def on_tier_up_def Let_def)
  next
    case outside
    then have "\<not> refuses program f" "\<And>cf. \<not> compiles_to program f cf" by (auto simp: compiles_to_def refuses_def)
    with outside inv listed show ?thesis by (auto simp: hook_inv_def on_tier_up_def Let_def list_get_def)
  next
    case accepted
    then have "\<not> refuses program f" "unat f < length program" "jit_compile (program ! unat f) = Inr cf"
      "\<And>cf'. compiles_to program f cf' \<longleftrightarrow> cf' = cf" by (auto simp: compiles_to_def refuses_def)
    with accepted inv listed fst_in show ?thesis by (auto simp: hook_inv_def on_tier_up_def Let_def list_get_def)
  next
    case rejected
    then obtain e where "unat f < length program" "jit_compile (program ! unat f) = Inl e"
      "\<And>cf. \<not> compiles_to program f cf" by (auto simp: compiles_to_def refuses_def isl_def)
    with rejected inv listed show ?thesis by (auto simp: hook_inv_def on_tier_up_def Let_def list_get_def)
  qed
qed

lemma hook_reports: "hook_inv program fs (fold (on_tier_up program) fs jit_tier_new)"
proof (induction fs rule: rev_induct)
  case Nil
  show ?case by (simp add: hook_inv_def jit_tier_new_def)
next
  case (snoc f fs)
  from hook_step [OF this, of f] show ?case by simp
qed

section \<open>With the interpreter's counters\<close>

definition jit_run :: "function_bytecode list \<Rightarrow> tier_event list \<Rightarrow> tiering \<times> jit_tier_hooks" where
  "jit_run program evs = fold (tier_step (on_tier_up program)) evs (\<lparr>feedback = [], tier_up_pending = []\<rparr>, jit_tier_new)"

text \<open>A hook sees what the logging hook writes down.\<close>

lemma tier_step_log: "tier_step hook ev (t, fold hook fs h) =
    (fst (tier_step log_hook ev (t, fs)), fold hook (snd (tier_step log_hook ev (t, fs))) h)"
  by (cases ev) (simp_all add: notify_tier_ups_def fold_log)

lemma jit_run_log:
  "jit_run program evs = (fst (tier_run evs), fold (on_tier_up program) (snd (tier_run evs)) jit_tier_new)"
proof (induction evs rule: rev_induct)
  case Nil
  show ?case by (simp add: jit_run_def tier_run_def)
next
  case (snoc ev evs)
  then show ?case by (simp add: jit_run_def tier_run_def tier_step_log del: fold_append) (simp add: tier_step_log)
qed

definition hot :: "tier_event list \<Rightarrow> u32 \<Rightarrow> bool" where
  "hot evs f \<longleftrightarrow> 1024 \<le> count_list evs (Entered f) \<or> 1024 \<le> count_list evs (Looped f)"

lemma reported_hot: "f \<in> set (snd (tier_run (evs @ [Notified]))) \<longleftrightarrow> hot evs f"
proof -
  obtain t h where st: "tier_run evs = (t, h)" by fastforce
  have "snd (tier_run (evs @ [Notified])) = h @ tier_up_pending t"
    using st by (simp add: tier_run_def notify_tier_ups_def fold_log)
  moreover have "count_list (h @ tier_up_pending t) f =
      (if 1024 \<le> count_list evs (Entered f) then 1 else 0) + (if 1024 \<le> count_list evs (Looped f) then 1 else 0)"
    using tier_run_inv [of evs] st by (simp add: tier_inv_def)
  ultimately have "0 < count_list (snd (tier_run (evs @ [Notified]))) f \<longleftrightarrow> hot evs f" by (auto simp: hot_def)
  then show ?thesis by (metis count_list_0_iff not_gr_zero)
qed


end
