(* ===== verification/Rounding.thy ===== *)
theory Rounding
  imports Floats Complex_Main
begin

text \<open>
  What one rounding of \<open>Floats\<close> means for the real number a double stands for: the result of
  an operation is within half a unit of the exact value. Two consequences carry the date
  arithmetic: sums, products and remainders of integers below \<open>2 ^ 53\<close> are exact, and a
  quotient of such integers lies on the right side of every integer, so its floor is the
  quotient of the integer division.
\<close>

definition f64_val :: "f64 \<Rightarrow> real" where "f64_val b = of_int (f64_mant b) * 2 powi f64_scale b"

lemma two_powi_pos [simp]: "0 < (2 :: real) powi n"
  by (simp add: zero_less_power_int)

lemma two_powi_split: "(2 :: real) powi (a + b) = 2 powi a * 2 powi b"
  by (simp add: power_int_add)

lemma two_powi_nat: "0 \<le> n \<Longrightarrow> (2 :: real) powi n = 2 ^ nat n"
  by (simp add: power_int_def)

lemma two_powi_mono: "a \<le> b \<Longrightarrow> (2 :: real) powi a \<le> 2 powi b"
  by (rule power_int_increasing) simp_all

section \<open>Rounding a quotient by a power of two\<close>

lemma round_half_even_near:
  assumes "y * 2 ^ d = real m \<or> (odd m \<and> 2 \<le> d \<and> \<bar>y * 2 ^ d - real m\<bar> \<le> 1)"
  shows "\<bar>real (round_half_even m d) - y\<bar> \<le> 1 / 2"
proof -
  let ?D = "(2 :: nat) ^ d" and ?q = "m div 2 ^ d" and ?r = "m mod 2 ^ d"
  have m: "real m = real ?q * 2 ^ d + real ?r"
  proof -
    have "real m = real (?q * 2 ^ d + ?r)" by (simp only: div_mult_mod_eq)
    then show ?thesis by (simp only: of_nat_add of_nat_mult of_nat_power of_nat_numeral)
  qed
  have D: "(0 :: real) < 2 ^ d" by simp
  have r: "?r < ?D" by simp
  have odd_r: "2 * ?r + 2 \<le> ?D \<or> ?D + 2 \<le> 2 * ?r" if "odd m" "2 \<le> d"
  proof -
    obtain j where d: "d = Suc (Suc j)" using \<open>2 \<le> d\<close> by (auto dest: le_Suc_ex)
    have "even ?D" by (simp add: d)
    then have "even (?q * ?D)" by (rule dvd_mult)
    moreover have "?q * ?D + ?r = m" by (rule div_mult_mod_eq)
    ultimately have "odd ?r" using \<open>odd m\<close> even_add [of "?q * ?D" ?r] by metis
    have half: "?D = 2 * 2 ^ Suc j" by (simp add: d)
    have "?r \<noteq> 2 ^ Suc j" using \<open>odd ?r\<close> by auto
    then have "?r + 1 \<le> 2 ^ Suc j \<or> 2 ^ Suc j + 1 \<le> ?r" by linarith
    then show ?thesis using half by linarith
  qed
  have scaled: "\<bar>real (round_half_even m d) - y\<bar> \<le> 1 / 2 \<longleftrightarrow>
      \<bar>real (round_half_even m d) * 2 ^ d - y * 2 ^ d\<bar> \<le> 2 ^ d / 2"
  proof -
    have "\<bar>real (round_half_even m d) * 2 ^ d - y * 2 ^ d\<bar> = \<bar>real (round_half_even m d) - y\<bar> * 2 ^ d"
      by (simp add: abs_mult flip: left_diff_distrib)
    also have "\<dots> \<le> 2 ^ d / 2 \<longleftrightarrow> \<bar>real (round_half_even m d) - y\<bar> \<le> 1 / 2"
      using D by (simp add: field_simps)
    finally show ?thesis by simp
  qed
  have up: "\<bar>Q + D - z\<bar> \<le> D / 2"
    if "D \<le> 2 * R" "R < D" "z = Q + R \<or> (\<bar>z - (Q + R)\<bar> \<le> 1 \<and> D + 2 \<le> 2 * R \<and> R + 1 \<le> D)" for Q D z R :: real
    using that by (elim disjE conjE) linarith+
  have down: "\<bar>Q - z\<bar> \<le> D / 2"
    if "2 * R \<le> D" "0 \<le> R" "z = Q + R \<or> (\<bar>z - (Q + R)\<bar> \<le> 1 \<and> 2 * R + 2 \<le> D)" for Q D z R :: real
    using that by (elim disjE conjE) linarith+
  have Q1: "real (?q + 1) * 2 ^ d = real ?q * 2 ^ d + 2 ^ d" by (simp add: distrib_right)
  show ?thesis
  proof (cases "2 ^ d < 2 * ?r \<or> (2 * ?r = 2 ^ d \<and> odd ?q)")
    case True
    then have R: "round_half_even m d = ?q + 1" by (simp add: round_half_even_def Let_def)
    have ge: "real ?D \<le> 2 * real ?r" using True by (metis nat_less_le of_nat_le_iff of_nat_mult of_nat_numeral order_refl)
    have lt: "real ?r < real ?D" using r by (simp only: of_nat_less_iff)
    have "real ?D + 2 \<le> 2 * real ?r \<and> real ?r + 1 \<le> real ?D" if "odd m" "2 \<le> d"
    proof -
      have "?D + 2 \<le> 2 * ?r" using odd_r [OF that] True by linarith
      then have "real (?D + 2) \<le> real (2 * ?r)" by (simp only: of_nat_le_iff)
      moreover have "real (?r + 1) \<le> real ?D" using r by (simp only: of_nat_le_iff)
      ultimately show ?thesis by simp
    qed
    then have "y * 2 ^ d = real ?q * 2 ^ d + real ?r \<or> (\<bar>y * 2 ^ d - (real ?q * 2 ^ d + real ?r)\<bar> \<le> 1
        \<and> 2 ^ d + 2 \<le> 2 * real ?r \<and> real ?r + 1 \<le> 2 ^ d)" using assms unfolding m by (auto simp del: of_nat_mod)
    with ge lt show ?thesis unfolding scaled unfolding R Q1 by (intro up) simp_all
  next
    case False
    then have R: "round_half_even m d = ?q" by (simp add: round_half_even_def Let_def)
    have le: "2 * real ?r \<le> real ?D" using False by (metis not_less of_nat_le_iff of_nat_mult of_nat_numeral)
    have "2 * real ?r + 2 \<le> real ?D" if "odd m" "2 \<le> d"
    proof -
      have "2 * ?r + 2 \<le> ?D" using odd_r [OF that] False by linarith
      then have "real (2 * ?r + 2) \<le> real ?D" by (simp only: of_nat_le_iff)
      then show ?thesis by simp
    qed
    then have "y * 2 ^ d = real ?q * 2 ^ d + real ?r \<or> (\<bar>y * 2 ^ d - (real ?q * 2 ^ d + real ?r)\<bar> \<le> 1
        \<and> 2 * real ?r + 2 \<le> 2 ^ d)" using assms unfolding m by auto
    with le show ?thesis unfolding scaled unfolding R by (intro down) simp_all
  qed
qed

section \<open>The value of a rounded pattern\<close>

lemma f64_word_val:
  fixes s :: bool
  assumes e: "e \<le> 2044" and g: "g \<le> 2 ^ 53" and n: "e = 0 \<or> 2 ^ 52 \<le> g"
  defines "w \<equiv> (word_of_nat ((if s then 2 ^ 63 else 0) + (e * 2 ^ 52 + g)) :: f64)"
  shows "f64_is_finite w" "f64_sign w = s" "f64_val w = (if s then -1 else 1) * real g * 2 powi (int e - 1074)"
proof -
  define E where "E = (if g < 2 ^ 52 then 0 else if g < 2 ^ 53 then e + 1 else e + 2)"
  define F where "F = (if g < 2 ^ 52 then g else if g < 2 ^ 53 then g - 2 ^ 52 else 0)"
  have EF: "e * 2 ^ 52 + g = E * 2 ^ 52 + F" using n g by (auto simp: E_def F_def)
  have b: "E < 2047" "F < 2 ^ 52" using e by (auto simp: E_def F_def)
  have w: "w = f64_pack s E F" unfolding w_def f64_pack_def EF by (simp add: add.assoc)
  have "E < 2 ^ 11" using b by simp
  note f = f64_pack_fields [OF this b(2), of s, folded w]
  show "f64_sign w = s" by (rule f(1))
  show "f64_is_finite w" using b(1) f by (simp add: f64_is_finite_def)
  have mant: "f64_mant w = (if s then -1 else 1) * int (if E = 0 then F else F + 2 ^ 52)"
    and scale: "f64_scale w = int (max E 1) - 1075" unfolding f64_mant_def f64_scale_def f by simp_all
  have g2: "real g = (if g = 2 ^ 53 then 2 ^ 52 * 2 else real g)" by simp
  consider "g < 2 ^ 52" "e = 0" | "2 ^ 52 \<le> g" "g < 2 ^ 53" | "g = 2 ^ 53" using n g by linarith
  then show "f64_val w = (if s then -1 else 1) * real g * 2 powi (int e - 1074)"
  proof cases
    case 1
    then show ?thesis unfolding f64_val_def mant scale by (simp add: E_def F_def)
  next
    case 2
    then have "F + 2 ^ 52 = g" "E = e + 1" by (simp_all add: E_def F_def)
    then show ?thesis unfolding f64_val_def mant scale by simp
  next
    case 3
    then have "F = 0" "E = e + 2" by (simp_all add: E_def F_def)
    moreover have "(2 :: real) powi (int e - 1073) = 2 * 2 powi (int e - 1074)"
      using two_powi_split [of 1 "int e - 1074"] by simp
    ultimately show ?thesis unfolding f64_val_def mant scale using 3 by simp
  qed
qed


section \<open>Nearness\<close>

text \<open>
  \<open>f\<close> is finite and a multiple of a unit \<open>2 ^ q\<close> that differs from \<open>y\<close> by at most half of
  it; the unit is the smallest one there is or \<open>f\<close> has 53 significant bits.
\<close>

definition rounds :: "f64 \<Rightarrow> real \<Rightarrow> bool" where
  "rounds f y \<longleftrightarrow> f64_is_finite f \<and> (\<exists>(k :: int) q. f64_val f = of_int k * 2 powi q
     \<and> \<bar>of_int k - y * 2 powi (- q)\<bar> \<le> 1 / 2 \<and> (q = -1074 \<or> 2 ^ 52 \<le> \<bar>k\<bar>))"

text \<open>
  The rounding of a positive number \<open>m * 2 ^ x\<close>, or of a number next to it when the last bit
  of \<open>m\<close> is sticky.
\<close>

lemma f64_round_rounds:
  assumes m: "0 < m" and x: "x + int (bit_len m) \<le> 1023"
    and y: "y = real m * 2 powi x \<or> (odd m \<and> 55 \<le> bit_len m \<and> \<bar>y - real m * 2 powi x\<bar> \<le> 2 powi x)"
  shows "rounds (f64_round s m x) ((if s then -1 else 1) * y)" "f64_sign (f64_round s m x) = s"
proof -
  let ?l = "bit_len m"
  define q where "q = max (x + int ?l - 53) (-1074)"
  define g where "g = (if q \<le> x then m * 2 ^ nat (x - q) else round_half_even m (nat (q - x)))"
  define e where "e = nat (q + 1074)"
  have b: "0 < ?l" "2 ^ (?l - 1) \<le> m" "m < 2 ^ ?l" using bit_len_bounds [OF m] by auto
  have "x + int ?l - 53 \<le> q" by (simp add: q_def)
  have pos: "real m * 2 powi x * 2 powi (- x) = real m" for x using two_powi_split [of x "-x"] by simp
  have near: "\<bar>real g - y * 2 powi (- q)\<bar> \<le> 1 / 2"
  proof (cases "q \<le> x")
    case True
    have "y = real m * 2 powi x" using y True by (auto simp: q_def)
    then have "y * 2 powi (- q) = real m * 2 powi (x - q)" using two_powi_split [of x "- q"] by simp
    then show ?thesis using True by (simp add: g_def two_powi_nat)
  next
    case False
    define d where "d = nat (q - x)"
    have split: "(2 :: real) powi (- x) = 2 ^ d * 2 powi (- q)"
      using False two_powi_split [of "q - x" "- q"] by (simp add: d_def two_powi_nat)
    have yd: "y * 2 powi (- q) * 2 ^ d = y * 2 powi (- x)" by (simp add: split mult.commute mult.left_commute)
    have "\<bar>y * 2 powi (- x) - real m\<bar> \<le> 1" if "\<bar>y - real m * 2 powi x\<bar> \<le> 2 powi x"
    proof -
      have "\<bar>y - real m * 2 powi x\<bar> * 2 powi (- x) \<le> 2 powi x * 2 powi (- x)"
        using that by (rule mult_right_mono) simp
      also have "\<dots> = 1" using two_powi_split [of x "- x"] by simp
      also have "\<bar>y - real m * 2 powi x\<bar> * 2 powi (- x) = \<bar>(y - real m * 2 powi x) * 2 powi (- x)\<bar>"
        by (simp add: abs_mult)
      finally show ?thesis unfolding left_diff_distrib pos .
    qed
    moreover have "2 \<le> d" if "55 \<le> ?l" using that by (simp add: d_def q_def)
    ultimately have "y * 2 powi (- q) * 2 ^ d = real m \<or> (odd m \<and> 2 \<le> d \<and> \<bar>y * 2 powi (- q) * 2 ^ d - real m\<bar> \<le> 1)"
      unfolding yd using y pos [of x] by auto
    from round_half_even_near [OF this] show ?thesis using False by (simp add: g_def d_def)
  qed
  have g: "g \<le> 2 ^ 53"
  proof (cases "q \<le> x")
    case True
    have "g < 2 ^ ?l * 2 ^ nat (x - q)" using True b(3) by (simp add: g_def)
    also have "\<dots> \<le> 2 ^ 53"
    proof -
      have "?l + nat (x - q) \<le> 53" using True \<open>x + int ?l - 53 \<le> q\<close> by linarith
      then have "(2 :: nat) ^ (?l + nat (x - q)) \<le> 2 ^ 53" by (intro power_increasing) auto
      then show ?thesis by (simp only: power_add)
    qed
    finally show ?thesis by simp
  next
    case False
    define d where "d = nat (q - x)"
    have "?l \<le> 53 + d" using False by (simp add: q_def d_def)
    then have "(2 :: nat) ^ ?l \<le> 2 ^ (53 + d)" by (intro power_increasing) auto
    then have "(2 :: nat) ^ ?l \<le> 2 ^ 53 * 2 ^ d" by (simp only: power_add)
    then have "m < 2 ^ 53 * 2 ^ d" using b(3) by linarith
    then have "m div 2 ^ d < 2 ^ 53" by (simp add: less_mult_imp_div_less)
    then show ?thesis using False by (simp add: g_def d_def round_half_even_def Let_def)
  qed
  have norm: "q = -1074 \<or> 2 ^ 52 \<le> g"
  proof (cases "q = -1074")
    case False
    then have q: "q = x + int ?l - 53" by (simp add: q_def)
    show ?thesis
    proof (cases "q \<le> x")
      case True
      have "?l - 1 + nat (x - q) = 52" using True q b(1) by linarith
      then have "(2 :: nat) ^ 52 = 2 ^ (?l - 1) * 2 ^ nat (x - q)" by (simp only: flip: power_add)
      also have "\<dots> \<le> g" using True b(2) by (simp add: g_def)
      finally show ?thesis by simp
    next
      case False
      have "?l - 1 = 52 + nat (q - x)" using False q b(1) by linarith
      then have "(2 :: nat) ^ (?l - 1) = 2 ^ 52 * 2 ^ nat (q - x)" by (simp only: power_add)
      then have "2 ^ 52 \<le> m div 2 ^ nat (q - x)" using b(2) by (simp add: less_eq_div_iff_mult_less_eq)
      then show ?thesis using False by (simp add: g_def round_half_even_def Let_def)
    qed
  qed simp
  have "-1074 \<le> q" "q \<le> 970" using x by (simp_all add: q_def)
  then have e: "e \<le> 2044" "int e - 1074 = q" by (simp_all add: e_def)
  have "e * 2 ^ 52 \<le> 2044 * 2 ^ 52" using e(1) by (intro mult_right_mono) auto
  then have "min (e * 2 ^ 52 + g) (2047 * 2 ^ 52) = e * 2 ^ 52 + g" using g by simp
  then have w: "f64_round s m x = word_of_nat ((if s then 2 ^ 63 else 0) + (e * 2 ^ 52 + g))"
    using m by (simp add: f64_round_def Let_def flip: q_def g_def e_def)
  have "e = 0 \<or> 2 ^ 52 \<le> g" using norm by (auto simp: e_def)
  note v = f64_word_val [OF e(1) g this, of s, folded w, unfolded e(2)]
  show "f64_sign (f64_round s m x) = s" by (rule v(2))
  have "\<bar>of_int (if s then - int g else int g) - (if s then - 1 else 1) * y * 2 powi (- q)\<bar> \<le> 1 / 2"
    using near by (cases s) (simp_all add: abs_minus_commute)
  moreover have "f64_val (f64_round s m x) = of_int (if s then - int g else int g) * 2 powi q" using v(3) by simp
  ultimately show "rounds (f64_round s m x) ((if s then -1 else 1) * y)"
    unfolding rounds_def using v(1) norm by (intro conjI exI [of _ "if s then - int g else int g"] exI [of _ q]) auto
qed

text \<open>
  A rounded quotient of two integers compares with every integer as the quotient does.
\<close>

lemma rounds_compare:
  fixes a b K :: int
  assumes f: "rounds f (of_int a / of_int b)" and a: "\<bar>a\<bar> \<le> 2 ^ 53 - 2" and b: "0 < b" "b < 2 ^ 53"
  shows "(of_int K < f64_val f \<longleftrightarrow> K * b < a) \<and> (f64_val f < of_int K \<longleftrightarrow> a < K * b)"
proof -
  let ?y = "of_int a / of_int b :: real"
  obtain k :: int and q where v: "f64_val f = of_int k * 2 powi q" and near: "\<bar>of_int k - ?y * 2 powi (- q)\<bar> \<le> 1 / 2"
    and norm: "q = -1074 \<or> 2 ^ 52 \<le> \<bar>k\<bar>" using f unfolding rounds_def by blast
  define u :: real where "u = 2 powi (- q)"
  have u: "0 < u" "2 powi q * u = 1" using two_powi_split [of q "- q"] by (simp_all add: u_def)
  have B: "(0 :: real) < of_int b" using b(1) by simp
  have vu: "f64_val f * u = of_int k" using u(2) by (simp add: v mult.assoc)
  have cmp: "of_int K < f64_val f \<longleftrightarrow> of_int K * u < of_int k" "f64_val f < of_int K \<longleftrightarrow> of_int k < of_int K * u"
    using u(1) by (simp_all flip: vu)
  have main: "(of_int K * u < of_int k \<longleftrightarrow> K * b < a) \<and> (of_int k < of_int K * u \<longleftrightarrow> a < K * b)"
  proof (cases "a = 0")
    case True
    then have "\<bar>of_int k :: real\<bar> \<le> 1 / 2" using near by simp
    then have "k = 0" by linarith
    then show ?thesis using True u(1) b(1) by (simp add: mult_less_0_iff zero_less_mult_iff)
  next
    case False
    have wide: "of_int b < 2 * u"
    proof (cases "q = -1074")
      case True
      have "(2 :: real) powi 1074 = 2 ^ 1074" by (simp add: two_powi_nat)
      moreover have "(2 :: real) ^ 53 \<le> 2 ^ 1074" by (intro power_increasing) simp_all
      moreover have "(of_int b :: real) < 2 ^ 53" using b(2) by (metis of_int_less_iff of_int_numeral of_int_power)
      ultimately show ?thesis using True by (simp add: u_def)
    next
      case False
      with norm have "2 ^ 52 \<le> \<bar>k\<bar>" by simp
      then have "(2 :: real) ^ 52 \<le> \<bar>of_int k\<bar>" by (metis of_int_abs of_int_le_iff of_int_numeral of_int_power)
      moreover have "\<bar>of_int k - ?y * u\<bar> \<le> 1 / 2" using near by (simp only: u_def)
      moreover have "L - 1 / 2 \<le> \<bar>z\<bar>" if "L \<le> \<bar>r\<bar>" "\<bar>r - z\<bar> \<le> 1 / 2" for L r z :: real using that by linarith
      ultimately have "2 ^ 52 - 1 / 2 \<le> \<bar>?y * u\<bar>" by blast
      also have "\<dots> = of_int \<bar>a\<bar> * (u / of_int b)" using u(1) B by (simp add: abs_mult)
      also have "\<dots> \<le> (2 ^ 53 - 2) * (u / of_int b)"
      proof (rule mult_right_mono)
        show "(of_int \<bar>a\<bar> :: real) \<le> 2 ^ 53 - 2" using a by (metis of_int_diff of_int_le_iff of_int_numeral of_int_power)
      qed (use u(1) B in simp)
      finally have "2 ^ 52 - 1 / 2 \<le> (2 ^ 53 - 2) * (u / of_int b)" .
      then have "1 / 2 < u / of_int b" by simp
      then show ?thesis using B by (simp add: field_simps)
    qed
    have yu: "?y * u = of_int a * (u / of_int b)" by simp
    have half: "1 / 2 < u / of_int b" using wide B by (simp add: field_simps)
    have Ku: "of_int K * u = of_int (K * b) * (u / of_int b)" using B by simp
    have near': "\<bar>of_int k - of_int a * (u / of_int b)\<bar> \<le> 1 / 2" using near by (simp add: u_def)
    consider "K * b < a" | "a < K * b" | "K * b = a" by linarith
    then show ?thesis
    proof cases
      case 1
      then have "(1 :: real) \<le> of_int a - of_int (K * b)" by (metis int_one_le_iff_zero_less of_int_1_le_iff of_int_diff zero_less_diff diff_gt_0_iff_gt)
      then have "1 * (u / of_int b) \<le> (of_int a - of_int (K * b)) * (u / of_int b)"
        by (rule mult_right_mono) (use half in linarith)
      then have "of_int K * u < of_int k" unfolding Ku using near' half by (simp only: left_diff_distrib)
      with 1 show ?thesis by linarith
    next
      case 2
      then have "(1 :: real) \<le> of_int (K * b) - of_int a" by (metis int_one_le_iff_zero_less of_int_1_le_iff of_int_diff zero_less_diff diff_gt_0_iff_gt)
      then have "1 * (u / of_int b) \<le> (of_int (K * b) - of_int a) * (u / of_int b)"
        by (rule mult_right_mono) (use half in linarith)
      then have "of_int k < of_int K * u" unfolding Ku using near' half by (simp only: left_diff_distrib)
      with 2 show ?thesis by linarith
    next
      case 3
      have "1 / 2 < u"
      proof -
        have "(1 :: real) \<le> of_int b" using b(1) by simp
        then show ?thesis using wide by linarith
      qed
      then have "(2 :: real) powi (- 1) < 2 powi (- q)" by (simp add: u_def)
      then have "0 \<le> - q" using two_powi_mono [of "- q" "- 1"] by (rule_tac ccontr) simp
      then have "u = of_int (2 ^ nat (- q))" by (simp add: u_def two_powi_nat)
      then have Kn: "of_int K * u = of_int (K * 2 ^ nat (- q))" by simp
      moreover have "\<bar>of_int k - of_int K * u\<bar> \<le> 1 / 2" using near' unfolding Ku 3 .
      ultimately have "k = K * 2 ^ nat (- q)" by linarith
      then have "of_int K * u = of_int k" unfolding Kn by (simp only:)
      then show ?thesis using 3 by simp
    qed
  qed
  then show ?thesis unfolding cmp .
qed


section \<open>The operations\<close>

lemma rounds_zero: "rounds (f64_zero s) 0"
proof -
  have "f64_exponent (f64_zero s) = 0" "f64_fraction (f64_zero s) = 0" unfolding f64_zero_def by (rule f64_pack_fields; simp)+
  then have "f64_is_finite (f64_zero s) \<and> f64_val (f64_zero s) = of_int 0 * 2 powi (-1074)"
    by (simp add: f64_is_finite_def f64_val_def f64_mant_def)
  then show ?thesis unfolding rounds_def by (intro conjI exI [of _ 0] exI [of _ "-1074"]) simp_all
qed

lemma bit_len_bound:
  assumes "0 < m" "real m * 2 powi x < 2 ^ 1001"
  shows "x + int (bit_len m) \<le> 1023"
proof (rule ccontr)
  assume "\<not> x + int (bit_len m) \<le> 1023"
  moreover have "0 < bit_len m" "2 ^ (bit_len m - 1) \<le> m" using bit_len_bounds [OF assms(1)] by auto
  ultimately have big: "1001 \<le> int (bit_len m - 1) + x" by linarith
  have "(2 :: real) ^ 1001 = 2 powi 1001" by (simp add: two_powi_nat)
  also have "\<dots> \<le> 2 powi (int (bit_len m - 1) + x)" using big by (rule two_powi_mono)
  also have "\<dots> = real (2 ^ (bit_len m - 1)) * 2 powi x" by (simp add: two_powi_split)
  also have "\<dots> \<le> real m * 2 powi x"
    using \<open>2 ^ (bit_len m - 1) \<le> m\<close> by (intro mult_right_mono) (simp_all only: of_nat_le_iff two_powi_pos less_imp_le)
  finally show False using assms(2) by simp
qed

lemma f64_round_exact:
  assumes "real m * 2 powi x < 2 ^ 1000"
  shows "rounds (f64_round s m x) ((if s then -1 else 1) * (real m * 2 powi x))"
proof (cases "m = 0")
  case True
  then show ?thesis using rounds_zero [of s] by (simp add: f64_round_def)
next
  case False
  have "(2 :: real) ^ 1000 \<le> 2 ^ 1001" by (intro power_increasing) simp_all
  with assms False have "x + int (bit_len m) \<le> 1023" by (intro bit_len_bound) auto
  with False show ?thesis by (intro f64_round_rounds) auto
qed

lemma f64_add_rounds:
  assumes "f64_is_finite a" "f64_is_finite b" "\<bar>f64_val a + f64_val b\<bar> < 2 ^ 1000"
  shows "rounds (f64_add a b) (f64_val a + f64_val b)"
proof -
  let ?x = "min (f64_scale a) (f64_scale b)"
  let ?n = "f64_mant a * 2 ^ nat (f64_scale a - ?x) + f64_mant b * 2 ^ nat (f64_scale b - ?x)"
  have part: "(of_int (f64_mant c) :: real) * 2 powi f64_scale c = of_int (f64_mant c * 2 ^ nat (f64_scale c - ?x)) * 2 powi ?x"
    if "?x \<le> f64_scale c" for c
    using two_powi_split [of "f64_scale c - ?x" ?x] that by (simp add: two_powi_nat)
  define n where "n = ?n"
  have v: "f64_val a + f64_val b = of_int n * 2 powi ?x"
  proof -
    have le: "?x \<le> f64_scale a" "?x \<le> f64_scale b" by simp_all
    show ?thesis unfolding f64_val_def part [OF le(1)] part [OF le(2)] n_def by (simp only: of_int_add distrib_right)
  qed
  have add: "f64_add a b = (if n = 0 then f64_zero (f64_sign a \<and> f64_sign b) else f64_round (n < 0) (nat \<bar>n\<bar>) ?x)"
    using assms(1,2) by (simp add: f64_add_def f64_is_finite_def f64_is_nan_def f64_is_infinite_def Let_def n_def)
  have abs: "real (nat \<bar>n\<bar>) * 2 powi ?x = \<bar>f64_val a + f64_val b\<bar>" unfolding v by (simp add: abs_mult)
  show ?thesis
  proof (cases "n = 0")
    case True
    then show ?thesis unfolding add v using rounds_zero by simp
  next
    case False
    then have "(if n < 0 then -1 else 1) * \<bar>f64_val a + f64_val b\<bar> = f64_val a + f64_val b"
      unfolding v by (simp add: abs_mult)
    moreover have "rounds (f64_round (n < 0) (nat \<bar>n\<bar>) ?x) ((if n < 0 then -1 else 1) * (real (nat \<bar>n\<bar>) * 2 powi ?x))"
      by (rule f64_round_exact) (simp only: abs assms(3))
    ultimately show ?thesis unfolding add abs using False by simp
  qed
qed

lemma f64_val_sign: "if f64_sign a then f64_val a \<le> 0 else 0 \<le> f64_val a"
  by (simp add: f64_val_def f64_mant_def mult_nonneg_nonneg)

lemma f64_mul_rounds:
  assumes "f64_is_finite a" "f64_is_finite b" "\<bar>f64_val a * f64_val b\<bar> < 2 ^ 1000"
  shows "rounds (f64_mul a b) (f64_val a * f64_val b)"
proof -
  let ?m = "nat (\<bar>f64_mant a\<bar> * \<bar>f64_mant b\<bar>)" and ?x = "f64_scale a + f64_scale b"
  have m: "real ?m * 2 powi ?x = \<bar>f64_val a * f64_val b\<bar>"
    by (simp add: f64_val_def abs_mult two_powi_split flip: of_int_abs)
  have "f64_mul a b = f64_round (f64_sign a \<noteq> f64_sign b) ?m ?x"
    using assms(1,2) by (simp add: f64_mul_def f64_is_finite_def f64_is_nan_def f64_is_infinite_def Let_def)
  moreover have "f64_val a * f64_val b = (if f64_sign a \<noteq> f64_sign b then -1 else 1) * \<bar>f64_val a * f64_val b\<bar>"
    using f64_val_sign [of a] f64_val_sign [of b] by (auto simp: abs_mult abs_of_nonneg abs_of_nonpos)
  moreover have "rounds (f64_round (f64_sign a \<noteq> f64_sign b) ?m ?x) ((if f64_sign a \<noteq> f64_sign b then -1 else 1) * (real ?m * 2 powi ?x))"
    by (rule f64_round_exact) (simp only: m assms(3))
  ultimately show ?thesis unfolding m by metis
qed

lemma f64_quotient_rounds:
  assumes d: "0 < d" and y: "real n / real d * 2 powi x < 2 ^ 1000"
  shows "rounds (f64_quotient s n d x) ((if s then -1 else 1) * (real n / real d * 2 powi x))"
proof -
  define k where "k = 55 + bit_len d"
  define q where "q = n * 2 ^ k div d"
  define r where "r = n * 2 ^ k mod d"
  define m where "m = 2 * q + (if r = 0 then 0 else 1)"
  define x' where "x' = x - int k - 1"
  let ?y = "real n / real d * 2 powi x"
  have quot: "f64_quotient s n d x = f64_round s m x'"
    by (simp add: f64_quotient_def Let_def m_def q_def r_def k_def x'_def)
  have D: "0 < real d" using d by simp
  have "real n * 2 ^ k = real (q * d + r)" unfolding q_def r_def by (simp only: div_mult_mod_eq) simp
  then have nk: "real n * 2 ^ k / real d = real q + real r / real d" using D by (simp add: field_simps)
  have "(2 :: real) powi x = 2 ^ k * (2 * 2 powi x')"
    using two_powi_split [of "int k" "1 + x'"] two_powi_split [of 1 x'] by (simp add: x'_def)
  then have y': "?y = (2 * real q + 2 * (real r / real d)) * 2 powi x'"
    using nk by (simp add: field_simps)
  have r: "0 \<le> real r / real d" "real r / real d < 1" using d by (simp_all add: r_def)
  have sticky: "\<bar>?y - real m * 2 powi x'\<bar> \<le> 2 powi x'" if "r \<noteq> 0"
  proof -
    have "?y - real m * 2 powi x' = (2 * (real r / real d) - 1) * 2 powi x'"
      unfolding y' m_def using that by (simp add: algebra_simps)
    then have "\<bar>?y - real m * 2 powi x'\<bar> = \<bar>2 * (real r / real d) - 1\<bar> * 2 powi x'" by (simp add: abs_mult)
    also have "\<dots> \<le> 1 * 2 powi x'" using r by (intro mult_right_mono) (simp_all add: abs_le_iff)
    finally show ?thesis by simp
  qed
  show ?thesis
  proof (cases "n = 0")
    case True
    then have "m = 0" by (simp add: m_def q_def r_def)
    then show ?thesis unfolding quot using rounds_zero [of s] True by (simp add: f64_round_def)
  next
    case False
    have "d \<le> 2 ^ bit_len d" using bit_len_bounds [OF d] by simp
    then have "2 ^ 55 * d \<le> n * 2 ^ k" using False mult_le_mono [of 1 n "2 ^ 55 * d" "2 ^ k"] by (simp add: k_def power_add)
    then have "2 ^ 55 \<le> q" using d by (simp add: q_def less_eq_div_iff_mult_less_eq)
    then have m: "2 ^ 56 \<le> m" by (simp add: m_def)
    then have "0 < m" by simp
    have len: "55 \<le> bit_len m"
    proof (rule ccontr)
      assume "\<not> 55 \<le> bit_len m"
      then have "(2 :: nat) ^ bit_len m \<le> 2 ^ 55" by (intro power_increasing) simp_all
      with bit_len_bounds [OF \<open>0 < m\<close>] m show False by simp
    qed
    have exact: "?y = real m * 2 powi x'" if "r = 0" unfolding y' m_def using that by simp
    have "real m * 2 powi x' \<le> ?y + 2 powi x'"
    proof (cases "r = 0")
      case True
      then show ?thesis using exact two_powi_pos [of x'] by linarith
    next
      case False
      have "z \<le> y + u" if "\<bar>y - z\<bar> \<le> u" for y z u :: real using that by linarith
      with sticky [OF False] show ?thesis by blast
    qed
    also have "2 powi x' = 1 * (2 powi x' :: real)" by simp
    also have "1 * 2 powi x' \<le> real q * 2 powi x'" using \<open>2 ^ 55 \<le> q\<close> by (intro mult_right_mono) simp_all
    also have "real q * 2 powi x' \<le> ?y" unfolding y' using r by (intro mult_right_mono) simp_all
    finally have "real m * 2 powi x' < 2 ^ 1001" using y by simp
    then have bound: "x' + int (bit_len m) \<le> 1023" by (rule bit_len_bound [OF \<open>0 < m\<close>])
    have "?y = real m * 2 powi x' \<or> (odd m \<and> 55 \<le> bit_len m \<and> \<bar>?y - real m * 2 powi x'\<bar> \<le> 2 powi x')"
      using sticky len exact by (cases "r = 0") (simp_all add: m_def)
    then show ?thesis unfolding quot by (rule f64_round_rounds(1) [OF \<open>0 < m\<close> bound])
  qed
qed

lemma f64_div_rounds:
  assumes "f64_is_finite a" "f64_is_finite b" "f64_mant b \<noteq> 0" "\<bar>f64_val a / f64_val b\<bar> < 2 ^ 1000"
  shows "rounds (f64_div a b) (f64_val a / f64_val b)"
proof -
  let ?n = "nat \<bar>f64_mant a\<bar>" and ?d = "nat \<bar>f64_mant b\<bar>" and ?x = "f64_scale a - f64_scale b"
  have "(2 :: real) powi ?x * 2 powi f64_scale b = 2 powi f64_scale a" by (simp flip: two_powi_split)
  then have "(2 :: real) powi ?x = 2 powi f64_scale a / 2 powi f64_scale b" by (simp add: field_simps)
  then have m: "real ?n / real ?d * 2 powi ?x = \<bar>f64_val a / f64_val b\<bar>"
    by (simp add: f64_val_def abs_mult abs_divide)
  have "f64_div a b = f64_quotient (f64_sign a \<noteq> f64_sign b) ?n ?d ?x"
    using assms(1-3) by (simp add: f64_div_def f64_is_finite_def f64_is_nan_def f64_is_infinite_def Let_def)
  moreover have "f64_val a / f64_val b = (if f64_sign a \<noteq> f64_sign b then -1 else 1) * \<bar>f64_val a / f64_val b\<bar>"
    using f64_val_sign [of a] f64_val_sign [of b] by (auto simp: abs_divide abs_of_nonneg abs_of_nonpos)
  moreover have "rounds (f64_quotient (f64_sign a \<noteq> f64_sign b) ?n ?d ?x)
      ((if f64_sign a \<noteq> f64_sign b then -1 else 1) * (real ?n / real ?d * 2 powi ?x))"
  proof (rule f64_quotient_rounds)
    show "0 < ?d" using assms(3) by simp
  qed (simp only: m assms(4))
  ultimately show ?thesis unfolding m by metis
qed


section \<open>Integers\<close>

text \<open>\<open>f\<close> is the integer \<open>i\<close>; both zeros are \<open>0\<close>.\<close>

definition is_whole :: "f64 \<Rightarrow> int \<Rightarrow> bool" where
  "is_whole f i \<longleftrightarrow> f64_is_finite f \<and> f64_val f = of_int i"

lemma is_whole_of_int: "\<bar>n\<bar> < 2 ^ 53 \<Longrightarrow> is_whole (f64_of_int n) n"
proof -
  assume n: "\<bar>n\<bar> < 2 ^ 53"
  obtain k where k: "f64_scale (f64_of_int n) = - int k" "f64_mant (f64_of_int n) = n * 2 ^ k"
    using f64_of_int_value(2) [OF n] by blast
  have "2 ^ k * (2 :: real) powi (- int k) = 1" by (simp add: power_int_minus)
  then show ?thesis
    using f64_of_int_value(1) [OF n] by (simp add: is_whole_def f64_val_def k mult.assoc)
qed

lemma is_whole_fun: "is_whole f i \<Longrightarrow> is_whole f j \<Longrightarrow> i = j"
  by (simp add: is_whole_def)

lemma rounds_whole:
  assumes "rounds f (of_int i)" "\<bar>i\<bar> \<le> 2 ^ 53 - 2"
  shows "is_whole f i"
proof -
  have "rounds f (of_int i / of_int 1)" using assms(1) by simp
  from rounds_compare [OF this assms(2), of i] show ?thesis using assms(1) by (auto simp: is_whole_def rounds_def)
qed

lemma whole_abs_less:
  fixes i :: int
  assumes "\<bar>i\<bar> \<le> 2 ^ 53 - 2"
  shows "\<bar>of_int i :: real\<bar> < 2 ^ 1000"
proof -
  have "\<bar>of_int i :: real\<bar> = of_int \<bar>i\<bar>" by simp
  also have "\<dots> \<le> of_int (2 ^ 53 - 2)" using assms by (simp only: of_int_le_iff)
  also have "\<dots> < 2 ^ 53" by simp
  also have "(2 :: real) ^ 53 \<le> 2 ^ 1000" by (intro power_increasing) simp_all
  finally show ?thesis .
qed

lemma add_whole: "is_whole a i \<Longrightarrow> is_whole b j \<Longrightarrow> \<bar>i + j\<bar> \<le> 2 ^ 53 - 2 \<Longrightarrow> is_whole (f64_add a b) (i + j)"
  using f64_add_rounds [of a b] whole_abs_less [of "i + j"] by (intro rounds_whole) (simp_all add: is_whole_def)

lemma mul_whole: "is_whole a i \<Longrightarrow> is_whole b j \<Longrightarrow> \<bar>i * j\<bar> \<le> 2 ^ 53 - 2 \<Longrightarrow> is_whole (f64_mul a b) (i * j)"
  using f64_mul_rounds [of a b] whole_abs_less [of "i * j"] by (intro rounds_whole) (simp_all add: is_whole_def)

lemma f64_neg_fields:
  "f64_exponent (f64_neg b) = f64_exponent b" "f64_fraction (f64_neg b) = f64_fraction b" "f64_sign (f64_neg b) \<longleftrightarrow> \<not> f64_sign b"
proof -
  define n where "n = unat b"
  have n: "n < 2 ^ 64" using unsigned_less [of b, where ?'a = nat] by (simp add: n_def)
  have neg: "unat (f64_neg b) = n XOR 2 ^ 63" by (simp add: f64_neg_def n_def unsigned_xor_eq)
  have high: "drop_bit 52 (2 ^ 63 :: nat) = 2 ^ 11" "take_bit 11 (2 ^ 11 :: nat) = 0" "take_bit 52 (2 ^ 63 :: nat) = 0"
    "drop_bit 63 (2 ^ 63 :: nat) = 1" by (simp_all add: drop_bit_eq_div take_bit_eq_mod)
  show "f64_exponent (f64_neg b) = f64_exponent b" unfolding f64_exponent_def neg n_def [symmetric]
    by (simp only: high take_bit_xor drop_bit_xor xor.right_neutral flip: drop_bit_eq_div take_bit_eq_mod)
  show "f64_fraction (f64_neg b) = f64_fraction b" unfolding f64_fraction_def neg n_def [symmetric]
    by (simp only: high take_bit_xor xor.right_neutral flip: take_bit_eq_mod)
  have top: "2 ^ 63 \<le> k \<longleftrightarrow> k div 2 ^ 63 \<noteq> 0" for k :: nat by (simp add: div_eq_0_iff not_less)
  have "n div 2 ^ 63 < 2" using n by (simp add: less_mult_imp_div_less)
  then have "n div 2 ^ 63 = 0 \<or> n div 2 ^ 63 = 1" by linarith
  moreover have "(n XOR 2 ^ 63) div 2 ^ 63 = (n div 2 ^ 63) XOR 1"
    by (simp only: high drop_bit_xor flip: drop_bit_eq_div)
  ultimately show "f64_sign (f64_neg b) \<longleftrightarrow> \<not> f64_sign b"
    unfolding f64_sign_def neg n_def [symmetric] top by auto
qed

lemma neg_whole: "is_whole a i \<Longrightarrow> is_whole (f64_neg a) (- i)"
proof -
  have "f64_mant (f64_neg a) = - f64_mant a" "f64_scale (f64_neg a) = f64_scale a"
    unfolding f64_mant_def f64_scale_def f64_neg_fields by simp_all
  then show "is_whole a i \<Longrightarrow> is_whole (f64_neg a) (- i)"
    by (simp add: is_whole_def f64_val_def f64_is_finite_def f64_neg_fields)
qed

lemma sub_whole: "is_whole a i \<Longrightarrow> is_whole b j \<Longrightarrow> \<bar>i - j\<bar> \<le> 2 ^ 53 - 2 \<Longrightarrow> is_whole (f64_sub a b) (i - j)"
  using add_whole [OF _ neg_whole, of a i b j] by (simp add: f64_sub_def)

text \<open>The integer quotient and its floor.\<close>

lemma div_compare:
  assumes "is_whole a i" "is_whole b j" "\<bar>i\<bar> \<le> 2 ^ 53 - 2" "0 < j" "j < 2 ^ 53"
  shows "f64_is_finite (f64_div a b) \<and> \<lfloor>f64_val (f64_div a b)\<rfloor> = i div j"
proof -
  have "f64_mant b \<noteq> 0" using assms(2,4) by (auto simp: is_whole_def f64_val_def)
  moreover have "\<bar>f64_val a / f64_val b\<bar> < 2 ^ 1000"
  proof -
    have "1 * \<bar>of_int i :: real\<bar> \<le> of_int j * \<bar>of_int i\<bar>" using assms(4) by (intro mult_right_mono) simp_all
    then have "\<bar>of_int i / of_int j :: real\<bar> \<le> \<bar>of_int i\<bar>" using assms(4) by (simp add: abs_divide field_simps)
    with whole_abs_less [OF assms(3)] assms(1,2) show ?thesis by (simp add: is_whole_def)
  qed
  ultimately have r: "rounds (f64_div a b) (of_int i / of_int j)"
    using f64_div_rounds [of a b] assms(1,2) by (simp add: is_whole_def)
  note cmp = rounds_compare [OF r assms(3-5)]
  have "i div j * j \<le> i" "i < (i div j + 1) * j"
    using assms(4) by (simp_all add: minus_mod_eq_div_mult [symmetric] pos_mod_bound distrib_right)
  then have "\<lfloor>f64_val (f64_div a b)\<rfloor> = i div j"
    using cmp [of "i div j"] cmp [of "i div j + 1"] by (intro floor_unique) (simp_all add: not_less [symmetric])
  with r show ?thesis by (simp add: rounds_def)
qed

section \<open>Floor, truncation and remainder\<close>

text \<open>\<open>f64::floor\<close> and \<open>f64::trunc\<close>; a zero result keeps the sign of the argument.\<close>

definition f64_floor :: "f64 \<Rightarrow> f64" where
  "f64_floor b =
     (if f64_is_nan b then F64_NAN else if f64_is_infinite b \<or> 0 \<le> f64_scale b then b
      else let n = f64_mant b div 2 ^ nat (- f64_scale b) in if n = 0 then f64_zero (f64_sign b) else f64_of_int n)"

definition f64_round_to_zero :: "f64 \<Rightarrow> f64" where
  "f64_round_to_zero b =
     (if f64_is_nan b then F64_NAN else if f64_is_infinite b \<or> 0 \<le> f64_scale b then b
      else if f64_trunc b = 0 then f64_zero (f64_sign b) else f64_of_int (f64_trunc b))"

lemma zero_whole: "is_whole (f64_zero s) 0"
  using rounds_whole [of "f64_zero s" 0] rounds_zero by simp

lemma f64_mant_bound: "\<bar>f64_mant b\<bar> < 2 ^ 53"
proof -
  have "f64_fraction b < 2 ^ 52" by (simp add: f64_fraction_def)
  then have "(if f64_exponent b = 0 then f64_fraction b else f64_fraction b + 2 ^ 52) < 2 ^ 53" by simp
  then have "int (if f64_exponent b = 0 then f64_fraction b else f64_fraction b + 2 ^ 52) < int (2 ^ 53)" by (simp only: of_nat_less_iff)
  then show ?thesis unfolding f64_mant_def by simp
qed

lemma div_abs_le:
  fixes x k :: int
  assumes "0 < k"
  shows "\<bar>x div k\<bar> \<le> \<bar>x\<bar>"
proof (cases "0 \<le> x")
  case True
  then show ?thesis using assms zdiv_mono2 [of x 1 k] pos_imp_zdiv_nonneg_iff [of k x] by simp
next
  case False
  then have "x div 1 \<le> x div k" using assms by (intro zdiv_mono2_neg) simp_all
  moreover have "x div k < 0" using False assms by (simp add: pos_imp_zdiv_neg_iff)
  ultimately show ?thesis by simp
qed

lemma floor_whole:
  assumes "f64_is_finite b"
  shows "is_whole (f64_floor b) \<lfloor>f64_val b\<rfloor>"
proof -
  have fin: "\<not> f64_is_nan b" "\<not> f64_is_infinite b"
    using assms by (simp_all add: f64_is_finite_def f64_is_nan_def f64_is_infinite_def)
  show ?thesis
  proof (cases "0 \<le> f64_scale b")
    case True
    then have "f64_val b = of_int (f64_mant b * 2 ^ nat (f64_scale b))" by (simp add: f64_val_def two_powi_nat)
    then have "f64_val b = of_int \<lfloor>f64_val b\<rfloor>" by (metis floor_of_int)
    with True fin assms show ?thesis by (simp add: f64_floor_def is_whole_def)
  next
    case False
    let ?d = "(2 :: int) ^ nat (- f64_scale b)" and ?n = "f64_mant b div 2 ^ nat (- f64_scale b)"
    have "(2 :: real) powi f64_scale b = 1 / of_int ?d" using False by (simp add: power_int_def field_simps)
    then have "f64_val b = of_int (f64_mant b) / of_int ?d" by (simp add: f64_val_def)
    then have n: "\<lfloor>f64_val b\<rfloor> = ?n" by (simp only: floor_divide_of_int_eq)
    have "\<bar>?n\<bar> \<le> \<bar>f64_mant b\<bar>" by (rule div_abs_le) simp
    then have "\<bar>?n\<bar> < 2 ^ 53" using f64_mant_bound [of b] by linarith
    then show ?thesis
      unfolding n using False fin zero_whole is_whole_of_int by (simp add: f64_floor_def Let_def)
  qed
qed

lemma floor_div_whole:
  assumes "is_whole a i" "is_whole b j" "\<bar>i\<bar> \<le> 2 ^ 53 - 2" "0 < j" "j < 2 ^ 53"
  shows "is_whole (f64_floor (f64_div a b)) (i div j)"
  using div_compare [OF assms] floor_whole [of "f64_div a b"] by simp


lemma whole_to_int:
  assumes "is_whole f i"
  shows "f64_to_int f = Some i"
proof -
  define E where "E = f64_exponent f"
  define sig where "sig = (if E = 0 then f64_fraction f else f64_fraction f + 2 ^ 52)"
  define x where "x = max E 1"
  define g :: int where "g = (if f64_sign f then -1 else 1)"
  have E: "E \<noteq> 2047" and v: "of_int (g * int sig) * 2 powi (int x - 1075) = (of_int i :: real)"
    using assms by (simp_all add: is_whole_def f64_is_finite_def f64_val_def f64_mant_def f64_scale_def E_def sig_def x_def g_def)
  have def_eq: "f64_to_int f = (if 1075 \<le> x then Some (g * int (sig * 2 ^ (x - 1075)))
      else if 2 ^ (1075 - x) dvd sig then Some (g * int (sig div 2 ^ (1075 - x))) else None)"
    unfolding f64_to_int_def Let_def using E by (simp add: E_def sig_def x_def g_def)
  show ?thesis
  proof (cases "1075 \<le> x")
    case True
    then have "nat (int x - 1075) = x - 1075" by simp
    then have "of_int (g * int sig * 2 ^ (x - 1075)) = (of_int i :: real)" using v True by (simp add: two_powi_nat)
    then have "g * int sig * 2 ^ (x - 1075) = i" by (simp only: of_int_eq_iff)
    then show ?thesis using True by (simp add: def_eq)
  next
    case False
    let ?d = "(2 :: nat) ^ (1075 - x)"
    have "(2 :: real) powi (int x - 1075) * 2 powi int (1075 - x) = 1"
      using False two_powi_split [of "int x - 1075" "int (1075 - x)"] by simp
    moreover have "(2 :: real) powi int (1075 - x) = of_nat ?d" by (simp only: power_int_of_nat of_nat_power of_nat_numeral)
    ultimately have "(2 :: real) powi (int x - 1075) * of_nat ?d = 1" by simp
    then have "of_int (g * int sig) = of_int i * (of_nat ?d :: real)"
      unfolding v [symmetric] by (simp add: mult.assoc)
    then have "of_int (g * int sig) = (of_int (i * int ?d) :: real)" by simp
    then have eq: "g * int sig = i * int ?d" by (simp only: of_int_eq_iff)
    have "g * g = 1" by (simp add: g_def)
    then have sig: "int sig = g * i * int ?d" using eq by (metis mult.assoc mult_1)
    then have "int ?d dvd int sig" by simp
    then have "?d dvd sig" by (simp only: of_nat_dvd_iff)
    moreover have "g * int (sig div ?d) = i"
      unfolding of_nat_div sig using \<open>g * g = 1\<close> by (simp add: mult.assoc [symmetric])
    ultimately show ?thesis using False by (simp add: def_eq)
  qed
qed

lemma whole_trunc: "is_whole f i \<Longrightarrow> f64_trunc f = i"
  using whole_to_int f64_trunc_int by blast

lemma whole_key:
  assumes "is_whole f i" "\<bar>i\<bar> < 2 ^ 53"
  shows "f64_key f = f64_key (f64_of_int i) \<and> \<not> f64_is_nan f"
proof (cases "i = 0")
  case True
  then have "f64_mant f = 0" using assms(1) by (simp add: is_whole_def f64_val_def)
  then have "f64_exponent f = 0" "f64_fraction f = 0" by (auto simp: f64_mant_def split: if_splits)
  then have "f64_key f = 0 \<and> \<not> f64_is_nan f" by (simp add: f64_key_fields [of f] f64_is_nan_def)
  moreover have "f64_key (f64_of_int 0) = 0" by (simp add: f64_of_int_def f64_key_def)
  ultimately show ?thesis using True by simp
next
  case False
  then have "f = f64_of_int i" by (rule f64_of_int_unique [OF whole_to_int [OF assms(1)] _ assms(2)])
  then show ?thesis using f64_not_nan_int [OF assms(2)] by simp
qed

lemma compare_whole:
  assumes "is_whole f i" "is_whole g j" "\<bar>i\<bar> < 2 ^ 53" "\<bar>j\<bar> < 2 ^ 53"
  shows "f64_lt f g \<longleftrightarrow> i < j" "f64_le f g \<longleftrightarrow> i \<le> j" "f64_eq f g \<longleftrightarrow> i = j"
  using f64_compare_int [OF assms(3,4)] whole_key [OF assms(1,3)] whole_key [OF assms(2,4)]
    f64_not_nan_int [OF assms(3)] f64_not_nan_int [OF assms(4)]
  by (simp_all add: f64_lt_def f64_le_def f64_eq_def)

text \<open>The remainder truncated towards zero.\<close>

definition rem_trunc :: "int \<Rightarrow> int \<Rightarrow> int" where
  "rem_trunc i j = (if i < 0 then - (\<bar>i\<bar> mod \<bar>j\<bar>) else \<bar>i\<bar> mod \<bar>j\<bar>)"

lemma f64_round_whole:
  assumes "of_int n * 2 powi x = (of_int i :: real)" "\<bar>i\<bar> \<le> 2 ^ 53 - 2" "0 \<le> n"
  shows "is_whole (f64_round s (nat n) x) (if s then - i else i)"
proof (rule rounds_whole)
  have n: "real (nat n) * 2 powi x = of_int i" using assms(1,3) by simp
  have "rounds (f64_round s (nat n) x) ((if s then -1 else 1) * (real (nat n) * 2 powi x))"
    by (rule f64_round_exact) (use whole_abs_less [OF assms(2)] n in simp)
  then show "rounds (f64_round s (nat n) x) (of_int (if s then - i else i))" unfolding n by (cases s) simp_all
qed (use assms(2) in simp)

lemma rem_whole:
  assumes a: "is_whole a i" and b: "is_whole b j" and i: "\<bar>i\<bar> \<le> 2 ^ 53 - 2" and j: "j \<noteq> 0"
  shows "is_whole (f64_rem a b) (rem_trunc i j)"
proof -
  let ?x = "min (f64_scale a) (f64_scale b)"
  define n where "n = \<bar>f64_mant a\<bar> * 2 ^ nat (f64_scale a - ?x)"
  define d where "d = \<bar>f64_mant b\<bar> * 2 ^ nat (f64_scale b - ?x)"
  have part: "of_int (\<bar>f64_mant c\<bar> * 2 ^ nat (f64_scale c - ?x)) * 2 powi ?x = \<bar>f64_val c\<bar>" if "?x \<le> f64_scale c" for c
    using two_powi_split [of "f64_scale c - ?x" ?x] that by (simp add: two_powi_nat f64_val_def abs_mult)
  have n: "of_int n * 2 powi ?x = (of_int \<bar>i\<bar> :: real)" and d: "of_int d * 2 powi ?x = (of_int \<bar>j\<bar> :: real)"
    using part [of a] part [of b] a b by (simp_all add: n_def d_def is_whole_def)
  have "f64_mant b \<noteq> 0" using b j by (auto simp: is_whole_def f64_val_def)
  then have pos: "0 \<le> n" "0 < d" "f64_mant b \<noteq> 0" by (simp_all add: n_def d_def zero_less_mult_iff)
  have rem: "f64_rem a b = f64_round (f64_sign a) (nat (n mod d)) ?x"
    using a b pos(3) by (simp add: f64_rem_def is_whole_def f64_is_finite_def f64_is_nan_def f64_is_infinite_def Let_def n_def d_def)
  have "n div d * d \<le> n" "n < (n div d + 1) * d"
    using pos(2) by (simp_all add: minus_mod_eq_div_mult [symmetric] pos_mod_bound distrib_right)
  then have real: "(of_int (n div d * d) :: real) \<le> of_int n" "(of_int n :: real) < of_int ((n div d + 1) * d)"
    by (simp_all only: of_int_le_iff of_int_less_iff)
  have "of_int (n div d * d) * 2 powi ?x \<le> (of_int n * 2 powi ?x :: real)"
    using real(1) by (rule mult_right_mono) simp
  moreover have "(of_int n * 2 powi ?x :: real) < of_int ((n div d + 1) * d) * 2 powi ?x"
    using real(2) by (rule mult_strict_right_mono) simp
  ultimately have "(of_int (n div d * \<bar>j\<bar>) :: real) \<le> of_int \<bar>i\<bar>" "of_int \<bar>i\<bar> < (of_int ((n div d + 1) * \<bar>j\<bar>) :: real)"
    unfolding n by (simp_all only: of_int_mult mult.assoc d)
  then have q: "n div d * \<bar>j\<bar> \<le> \<bar>i\<bar>" "\<bar>i\<bar> < (n div d + 1) * \<bar>j\<bar>" by (simp_all only: of_int_le_iff of_int_less_iff)
  have "\<bar>i\<bar> div \<bar>j\<bar> = n div d" 
    by (rule int_div_pos_eq [of _ _ _ "\<bar>i\<bar> - n div d * \<bar>j\<bar>"]) (use q in \<open>simp_all add: algebra_simps\<close>)
  then have "\<bar>i\<bar> mod \<bar>j\<bar> = \<bar>i\<bar> - n div d * \<bar>j\<bar>" by (simp add: minus_div_mult_eq_mod [symmetric])
  moreover have "of_int (n mod d) * 2 powi ?x = (of_int (\<bar>i\<bar> - n div d * \<bar>j\<bar>) :: real)"
    using n d by (simp add: minus_div_mult_eq_mod [symmetric] left_diff_distrib mult.assoc)
  ultimately have m: "of_int (n mod d) * 2 powi ?x = (of_int (\<bar>i\<bar> mod \<bar>j\<bar>) :: real)" by simp
  have "\<bar>i\<bar> mod \<bar>j\<bar> \<le> \<bar>i\<bar>" "0 \<le> \<bar>i\<bar> mod \<bar>j\<bar>" using j by (simp_all add: zmod_le_nonneg_dividend)
  then have small: "\<bar>\<bar>i\<bar> mod \<bar>j\<bar>\<bar> \<le> 2 ^ 53 - 2" using i by linarith
  have "(if f64_sign a then - (\<bar>i\<bar> mod \<bar>j\<bar>) else \<bar>i\<bar> mod \<bar>j\<bar>) = rem_trunc i j"
  proof (cases "i = 0")
    case False
    then show ?thesis using f64_val_sign [of a] a by (auto simp: rem_trunc_def is_whole_def split: if_splits)
  qed (simp add: rem_trunc_def)
  moreover have "0 \<le> n mod d" using pos by simp
  ultimately show ?thesis using f64_round_whole [OF m small, of "f64_sign a"] unfolding rem by simp
qed

lemma trunc_whole:
  assumes "f64_is_finite b"
  shows "is_whole (f64_round_to_zero b) (f64_trunc b)"
proof -
  have fin: "\<not> f64_is_nan b" "\<not> f64_is_infinite b"
    using assms by (simp_all add: f64_is_finite_def f64_is_nan_def f64_is_infinite_def)
  show ?thesis
  proof (cases "0 \<le> f64_scale b")
    case True
    then have v: "f64_val b = of_int (f64_mant b * 2 ^ nat (f64_scale b))" by (simp add: f64_val_def two_powi_nat)
    then have w: "is_whole b (f64_mant b * 2 ^ nat (f64_scale b))" using assms by (simp add: is_whole_def)
    from True fin show ?thesis using w whole_trunc [OF w] by (simp add: f64_round_to_zero_def)
  next
    case False
    have "\<bar>f64_trunc b\<bar> < 2 ^ 53"
    proof -
      let ?s = "if f64_exponent b = 0 then f64_fraction b else f64_fraction b + 2 ^ 52"
      have "\<not> 1075 \<le> max (f64_exponent b) 1" using False by (simp add: f64_scale_def)
      then have "\<bar>f64_trunc b\<bar> = int (?s div 2 ^ (1075 - max (f64_exponent b) 1))"
        unfolding f64_trunc_def Let_def by simp
      also have "\<dots> \<le> int ?s" by (simp only: of_nat_le_iff div_le_dividend)
      also have "\<dots> = \<bar>f64_mant b\<bar>" by (simp add: f64_mant_def)
      finally show ?thesis using f64_mant_bound [of b] by linarith
    qed
    then show ?thesis using False fin zero_whole is_whole_of_int by (simp add: f64_round_to_zero_def)
  qed
qed

end
