(* ===== verification/Dates.thy ===== *)
theory Dates
  imports Rounding Objects Ops "HOL-Library.Signed_Division"
begin

text \<open>
  Dates (\<open>v12-engine/src/builtins/date.rs\<close>): the time value arithmetic, the getters and
  setters, and the date time string format with its parser. All arithmetic is on doubles,
  as in the source. A getter or setter acts on the object \<open>this\<close> refers to, with the arguments already
  converted by \<open>ToNumber\<close>. The year search is a loop that a time value outside the legal
  range could keep from ending, so what depends on it is an option.
\<close>

section \<open>Time values\<close>

definition MS_PER_DAY :: f64 where "MS_PER_DAY = f64_of_int 86400000"
definition MS_PER_HOUR :: f64 where "MS_PER_HOUR = f64_of_int 3600000"
definition MS_PER_MINUTE :: f64 where "MS_PER_MINUTE = f64_of_int 60000"
definition MS_PER_SECOND :: f64 where "MS_PER_SECOND = f64_of_int 1000"
definition MAX_TIME_VALUE :: f64 where "MAX_TIME_VALUE = f64_of_int 8640000000000000"

definition f64_abs :: "f64 \<Rightarrow> f64" where "f64_abs b = (if f64_sign b then f64_neg b else b)"

definition integer_or_infinity :: "f64 \<Rightarrow> f64" where
  "integer_or_infinity n = (if f64_is_nan n \<or> f64_eq n 0 then 0 else f64_round_to_zero n)"

definition time_clip :: "f64 \<Rightarrow> f64" where
  "time_clip time =
     (if \<not> f64_is_finite time \<or> f64_lt MAX_TIME_VALUE (f64_abs time) then F64_NAN
      else f64_add (integer_or_infinity time) 0)"

definition day :: "f64 \<Rightarrow> f64" where "day t = f64_floor (f64_div t MS_PER_DAY)"

definition time_within_day :: "f64 \<Rightarrow> f64" where
  "time_within_day t = (let r = f64_rem t MS_PER_DAY in if f64_lt r 0 then f64_add r MS_PER_DAY else r)"

definition day_from_year :: "f64 \<Rightarrow> f64" where
  "day_from_year y =
     f64_add (f64_sub (f64_add (f64_mul (f64_of_int 365) (f64_sub y (f64_of_int 1970)))
         (f64_floor (f64_div (f64_sub y (f64_of_int 1969)) (f64_of_int 4))))
       (f64_floor (f64_div (f64_sub y (f64_of_int 1901)) (f64_of_int 100))))
     (f64_floor (f64_div (f64_sub y (f64_of_int 1601)) (f64_of_int 400)))"

text \<open>\<open>i64\<close> years. The years of all time values are below 300,000, far from the width of the type.\<close>

definition is_leap :: "int \<Rightarrow> bool" where
  "is_leap y \<longleftrightarrow> (y smod 4 = 0 \<and> y smod 100 \<noteq> 0) \<or> y smod 400 = 0"

definition div_floor :: "int \<Rightarrow> int \<Rightarrow> int" where
  "div_floor a b = (let q = a sdiv b in if a smod b \<noteq> 0 \<and> (a < 0) \<noteq> (b < 0) then q - 1 else q)"

definition days_from_epoch_to_year :: "int \<Rightarrow> int" where
  "days_from_epoch_to_year y =
     (let d = y - 1970; leap_days = div_floor (d + 1) 4 - div_floor (d + 69) 100 + div_floor (d + 369) 400
      in 365 * d + leap_days)"

definition f64_from_i64 :: "int \<Rightarrow> f64" where "f64_from_i64 n = f64_round (n < 0) (nat \<bar>n\<bar>) 0"
definition f64_as_i64 :: "f64 \<Rightarrow> int" where "f64_as_i64 = f64_saturate (- (2 ^ 63)) (2 ^ 63 - 1)"

text \<open>The loop of \<open>year_from_time\<close>; the literal \<open>365.2425\<close> is the double nearest to it.\<close>

definition MEAN_YEAR :: f64 where "MEAN_YEAR = f64_quotient False 3652425 10000 0"

partial_function (option) year_loop :: "f64 \<Rightarrow> int \<Rightarrow> f64 option" where
  "year_loop d y =
     (if f64_lt d (f64_from_i64 (days_from_epoch_to_year y)) then year_loop d (y - 1)
      else if f64_le (f64_from_i64 (days_from_epoch_to_year (y + 1))) d then year_loop d (y + 1)
      else Some (f64_from_i64 y))"

definition year_from_time :: "f64 \<Rightarrow> f64 option" where
  "year_from_time t = (let d = day t in year_loop d (f64_as_i64 (f64_floor (f64_div d MEAN_YEAR)) + 1970))"

definition in_leap_year :: "f64 \<Rightarrow> f64 option" where
  "in_leap_year t = map_option (\<lambda>y. if is_leap (f64_as_i64 y) then f64_of_int 1 else f64_of_int 0) (year_from_time t)"

definition day_within_year :: "f64 \<Rightarrow> f64 option" where
  "day_within_year t = map_option (\<lambda>y. f64_sub (day t) (day_from_year y)) (year_from_time t)"

definition MONTH_STARTS :: "f64 list" where
  "MONTH_STARTS = map f64_of_int [0, 31, 59, 90, 120, 151, 181, 212, 243, 273, 304, 334, 365]"

definition month_start_day :: "f64 \<Rightarrow> nat \<Rightarrow> f64" where
  "month_start_day year month =
     f64_add (f64_add (day_from_year year) (MONTH_STARTS ! month))
       (if 2 \<le> month \<and> is_leap (f64_as_i64 year) then f64_of_int 1 else f64_of_int 0)"

definition month_bound :: "f64 \<Rightarrow> nat \<Rightarrow> f64" where
  "month_bound leap m = f64_add (MONTH_STARTS ! m) (if 2 \<le> m then leap else f64_of_int 0)"

definition month_in_year :: "f64 \<Rightarrow> f64 \<Rightarrow> f64" where
  "month_in_year d leap =
     (case find (\<lambda>m. f64_le (month_bound leap m) d \<and> f64_lt d (month_bound leap (m + 1))) [0..<12] of
        Some m \<Rightarrow> f64_of_int (int m) | None \<Rightarrow> f64_of_int 11)"

definition month_from_time :: "f64 \<Rightarrow> f64 option" where
  "month_from_time t =
     Option.bind (day_within_year t) (\<lambda>d. map_option (month_in_year d) (in_leap_year t))"

definition date_from_time :: "f64 \<Rightarrow> f64 option" where
  "date_from_time t =
     Option.bind (day_within_year t) (\<lambda>d. Option.bind (in_leap_year t) (\<lambda>leap.
       map_option (\<lambda>m. f64_add (f64_sub d (month_bound leap (nat (f64_trunc m)))) (f64_of_int 1)) (month_from_time t)))"

definition week_day :: "f64 \<Rightarrow> f64" where
  "week_day t = (let r = f64_rem (f64_add (day t) (f64_of_int 4)) (f64_of_int 7)
                 in if f64_lt r 0 then f64_add r (f64_of_int 7) else r)"

definition hour_from_time :: "f64 \<Rightarrow> f64" where
  "hour_from_time t = f64_floor (f64_div (time_within_day t) MS_PER_HOUR)"
definition min_from_time :: "f64 \<Rightarrow> f64" where
  "min_from_time t = f64_rem (f64_floor (f64_div (time_within_day t) MS_PER_MINUTE)) (f64_of_int 60)"
definition sec_from_time :: "f64 \<Rightarrow> f64" where
  "sec_from_time t = f64_rem (f64_floor (f64_div (time_within_day t) MS_PER_SECOND)) (f64_of_int 60)"
definition ms_from_time :: "f64 \<Rightarrow> f64" where
  "ms_from_time t = f64_rem (time_within_day t) MS_PER_SECOND"

definition make_time :: "f64 \<Rightarrow> f64 \<Rightarrow> f64 \<Rightarrow> f64 \<Rightarrow> f64" where
  "make_time hour mn sec ms =
     (if \<not> f64_is_finite hour \<or> \<not> f64_is_finite mn \<or> \<not> f64_is_finite sec \<or> \<not> f64_is_finite ms then F64_NAN
      else f64_add (f64_add (f64_add (f64_mul (f64_round_to_zero hour) MS_PER_HOUR)
          (f64_mul (f64_round_to_zero mn) MS_PER_MINUTE)) (f64_mul (f64_round_to_zero sec) MS_PER_SECOND))
        (f64_round_to_zero ms))"

definition make_day :: "f64 \<Rightarrow> f64 \<Rightarrow> f64 \<Rightarrow> f64" where
  "make_day year month date =
     (if \<not> f64_is_finite year \<or> \<not> f64_is_finite month \<or> \<not> f64_is_finite date then F64_NAN
      else let y = f64_round_to_zero year; m = f64_round_to_zero month;
               ym = f64_add y (f64_floor (f64_div m (f64_of_int 12)));
               mn = f64_rem m (f64_of_int 12);
               mn = (if f64_lt mn 0 then f64_add mn (f64_of_int 12) else mn)
        in f64_sub (f64_add (month_start_day ym (nat (f64_trunc mn))) (f64_round_to_zero date)) (f64_of_int 1))"

definition make_date :: "f64 \<Rightarrow> f64 \<Rightarrow> f64" where "make_date d time = f64_add (f64_mul d MS_PER_DAY) time"

definition local_time :: "f64 \<Rightarrow> f64" where "local_time t = t"

definition normalize_year :: "f64 \<Rightarrow> f64" where
  "normalize_year year =
     (if f64_is_nan year then year
      else let yi = f64_round_to_zero year
        in if f64_le (f64_of_int 0) yi \<and> f64_le yi (f64_of_int 99) then f64_add (f64_of_int 1900) yi else year)"

section \<open>Date objects\<close>

text \<open>
  \<open>helpers::js_number\<close>, the slot of a Date object and its readers. The outer option of a
  result is \<open>None\<close> when the source panics on a missing slot or a loop does not end.
\<close>

definition js_number :: "f64 \<Rightarrow> js_value" where
  "js_number n =
     (if f64_is_finite n \<and> f64_to_int n \<noteq> None \<and> f64_le (f64_of_int SMI_MIN) n \<and> f64_le n (f64_of_int SMI_MAX)
      then (case from_i32_smi (f64_as_i32 n) of Some v \<Rightarrow> v | None \<Rightarrow> from_f64 n) else from_f64 n)"

datatype date_error = NotADate | InvalidTime | TemporalMissing

type_synonym 'a date_result = "(date_error + 'a) option"

definition slot_number :: "js_value \<Rightarrow> f64" where
  "slot_number v = (case as_smi v of Some n \<Rightarrow> f64_of_int (sint n) | None \<Rightarrow>
     (case as_f64 v of Some f \<Rightarrow> f | None \<Rightarrow> F64_NAN))"

definition this_time_value :: "js_obj option \<Rightarrow> f64 option option" where
  "this_time_value this =
     (case this of None \<Rightarrow> Some None
      | Some x \<Rightarrow> if obj_kind x \<noteq> K_Date then Some None
          else map_option (\<lambda>v. Some (slot_number v)) (list_get (properties x) 0))"

definition with_time :: "js_obj option \<Rightarrow> (js_obj \<Rightarrow> f64 \<Rightarrow> 'a date_result) \<Rightarrow> 'a date_result" where
  "with_time this f = Option.bind (this_time_value this) (\<lambda>r.
     case r of None \<Rightarrow> Some (Inl NotADate) | Some t \<Rightarrow> f (the this) t)"

definition set_time_value :: "js_obj \<Rightarrow> f64 \<Rightarrow> js_obj option" where
  "set_time_value x t = (if properties x = [] then None else Some (x\<lparr>properties := (properties x)[0 := js_number t]\<rparr>))"

definition get_component :: "js_obj option \<Rightarrow> (f64 \<Rightarrow> f64 option) \<Rightarrow> js_value date_result" where
  "get_component this f = with_time this (\<lambda>_ t.
     if f64_is_nan t then Some (Inr (js_number F64_NAN))
     else map_option (\<lambda>n. Inr (js_number n)) (f (local_time t)))"

definition date_proto_value_of :: "js_obj option \<Rightarrow> js_value date_result" where
  "date_proto_value_of this = with_time this (\<lambda>_ t. Some (Inr (js_number t)))"

definition get_timezone_offset :: "js_obj option \<Rightarrow> js_value date_result" where
  "get_timezone_offset this = with_time this (\<lambda>_ t.
     Some (Inr (if f64_is_nan t then js_number F64_NAN else js_number (f64_of_int 0))))"

definition date_get_full_year :: "js_obj option \<Rightarrow> js_value date_result" where
  "date_get_full_year this = get_component this year_from_time"
definition date_get_month :: "js_obj option \<Rightarrow> js_value date_result" where
  "date_get_month this = get_component this month_from_time"
definition date_get_date :: "js_obj option \<Rightarrow> js_value date_result" where
  "date_get_date this = get_component this date_from_time"
definition date_get_day :: "js_obj option \<Rightarrow> js_value date_result" where
  "date_get_day this = get_component this (Some \<circ> week_day)"
definition date_get_hours :: "js_obj option \<Rightarrow> js_value date_result" where
  "date_get_hours this = get_component this (Some \<circ> hour_from_time)"
definition date_get_minutes :: "js_obj option \<Rightarrow> js_value date_result" where
  "date_get_minutes this = get_component this (Some \<circ> min_from_time)"
definition date_get_seconds :: "js_obj option \<Rightarrow> js_value date_result" where
  "date_get_seconds this = get_component this (Some \<circ> sec_from_time)"
definition date_get_milliseconds :: "js_obj option \<Rightarrow> js_value date_result" where
  "date_get_milliseconds this = get_component this (Some \<circ> ms_from_time)"
definition date_get_year :: "js_obj option \<Rightarrow> js_value date_result" where
  "date_get_year this = get_component this (\<lambda>t. map_option (\<lambda>y. f64_sub y (f64_of_int 1900)) (year_from_time t))"

section \<open>Setters\<close>

definition arg_or :: "f64 list \<Rightarrow> nat \<Rightarrow> f64 option \<Rightarrow> f64 option" where
  "arg_or args k dflt = (case list_get args k of Some v \<Rightarrow> Some v | None \<Rightarrow> dflt)"

definition store_date :: "js_obj \<Rightarrow> f64 \<Rightarrow> (js_obj \<times> js_value) date_result" where
  "store_date x t = map_option (\<lambda>x'. Inr (x', js_number t)) (set_time_value x t)"

definition setter_finish :: "js_obj \<Rightarrow> f64 \<Rightarrow> (js_obj \<times> js_value) date_result" where
  "setter_finish x local_date = store_date x (time_clip (local_time local_date))"

definition setter_prepare :: "bool \<Rightarrow> f64 \<Rightarrow> f64" where
  "setter_prepare nan_to_zero raw = (if f64_is_nan raw \<and> nan_to_zero then f64_of_int 0 else local_time raw)"

definition date_set_time :: "js_obj option \<Rightarrow> f64 list \<Rightarrow> (js_obj \<times> js_value) date_result" where
  "date_set_time this args = with_time this (\<lambda>x _.
     store_date x (time_clip (case args of v # _ \<Rightarrow> v | [] \<Rightarrow> F64_NAN)))"

definition date_set_full_year :: "js_obj option \<Rightarrow> f64 list \<Rightarrow> (js_obj \<times> js_value) date_result" where
  "date_set_full_year this args = with_time this (\<lambda>x raw. let t = setter_prepare True raw in
     if f64_is_nan t then store_date x F64_NAN
     else Option.bind (arg_or args 0 (Some F64_NAN)) (\<lambda>year. Option.bind (arg_or args 1 (month_from_time t)) (\<lambda>month.
       Option.bind (arg_or args 2 (date_from_time t)) (\<lambda>date.
         if f64_is_nan year then store_date x F64_NAN
         else setter_finish x (make_date (make_day year month date) (time_within_day t))))))"

definition set_time_fields :: "js_obj option \<Rightarrow> f64 list \<Rightarrow> nat \<Rightarrow> (js_obj \<times> js_value) date_result" where
  "set_time_fields this args first_field = with_time this (\<lambda>x raw.
     let t = setter_prepare False raw;
         fields = map (\<lambda>(i, old). if first_field \<le> i then (case list_get args (i - first_field) of Some v \<Rightarrow> v | None \<Rightarrow> old) else old)
           (enumerate 0 [hour_from_time t, min_from_time t, sec_from_time t, ms_from_time t])
     in setter_finish x (make_date (day t) (make_time (fields ! 0) (fields ! 1) (fields ! 2) (fields ! 3))))"

definition date_set_hours :: "js_obj option \<Rightarrow> f64 list \<Rightarrow> (js_obj \<times> js_value) date_result" where
  "date_set_hours this args = set_time_fields this args 0"
definition date_set_minutes :: "js_obj option \<Rightarrow> f64 list \<Rightarrow> (js_obj \<times> js_value) date_result" where
  "date_set_minutes this args = set_time_fields this args 1"
definition date_set_seconds :: "js_obj option \<Rightarrow> f64 list \<Rightarrow> (js_obj \<times> js_value) date_result" where
  "date_set_seconds this args = set_time_fields this args 2"
definition date_set_milliseconds :: "js_obj option \<Rightarrow> f64 list \<Rightarrow> (js_obj \<times> js_value) date_result" where
  "date_set_milliseconds this args = set_time_fields this args 3"

definition date_set_month :: "js_obj option \<Rightarrow> f64 list \<Rightarrow> (js_obj \<times> js_value) date_result" where
  "date_set_month this args = with_time this (\<lambda>x raw. let t = setter_prepare False raw in
     Option.bind (arg_or args 0 (Some F64_NAN)) (\<lambda>month. Option.bind (arg_or args 1 (date_from_time t)) (\<lambda>date.
       Option.bind (year_from_time t) (\<lambda>year.
         setter_finish x (make_date (make_day year month date) (time_within_day t))))))"

definition date_set_date :: "js_obj option \<Rightarrow> f64 list \<Rightarrow> (js_obj \<times> js_value) date_result" where
  "date_set_date this args = with_time this (\<lambda>x raw. let t = setter_prepare False raw in
     Option.bind (arg_or args 0 (Some F64_NAN)) (\<lambda>date. Option.bind (year_from_time t) (\<lambda>year.
       Option.bind (month_from_time t) (\<lambda>month.
         setter_finish x (make_date (make_day year month date) (time_within_day t))))))"

definition date_set_year :: "js_obj option \<Rightarrow> f64 list \<Rightarrow> (js_obj \<times> js_value) date_result" where
  "date_set_year this args = with_time this (\<lambda>x raw. let t = setter_prepare True raw in
     Option.bind (arg_or args 0 (Some F64_NAN)) (\<lambda>y.
       if f64_is_nan y then store_date x F64_NAN
       else let yi = f64_round_to_zero y;
                year = (if f64_le (f64_of_int 0) yi \<and> f64_le yi (f64_of_int 99) then f64_add (f64_of_int 1900) yi else y)
         in Option.bind (month_from_time t) (\<lambda>month. Option.bind (date_from_time t) (\<lambda>date.
              setter_finish x (make_date (make_day year month date) (time_within_day t))))))"

definition date_to_temporal_instant :: "js_obj option \<Rightarrow> js_value date_result" where
  "date_to_temporal_instant this = with_time this (\<lambda>_ t.
     Some (Inl (if \<not> f64_is_finite t \<or> f64_to_int t = None then InvalidTime else TemporalMissing)))"

text \<open>\<open>Date.UTC\<close> and the constructor with several arguments.\<close>

definition make_date_from_args :: "f64 list \<Rightarrow> f64" where
  "make_date_from_args args =
     (let nums = map (\<lambda>(i, dflt). case list_get args i of Some v \<Rightarrow> v | None \<Rightarrow> dflt)
           (enumerate 0 [F64_NAN, 0, f64_of_int 1, 0, 0, 0, 0]);
          year = normalize_year (nums ! 0)
      in time_clip (make_date (make_day year (nums ! 1) (nums ! 2)) (make_time (nums ! 3) (nums ! 4) (nums ! 5) (nums ! 6))))"

section \<open>The calendar on integers\<close>

text \<open>
  The proleptic Gregorian calendar: days before a year, and before a month of a year that is
  a leap year or not.
\<close>

definition leap :: "int \<Rightarrow> bool" where "leap y \<longleftrightarrow> (4 dvd y \<and> \<not> 100 dvd y) \<or> 400 dvd y"

definition days_before :: "int \<Rightarrow> int" where
  "days_before y = 365 * (y - 1970) + (y - 1969) div 4 - (y - 1901) div 100 + (y - 1601) div 400"

definition month_table :: "int list" where
  "month_table = [0, 31, 59, 90, 120, 151, 181, 212, 243, 273, 304, 334, 365]"

definition month_starts :: "bool \<Rightarrow> nat \<Rightarrow> int" where
  "month_starts lp m = month_table ! m + (if 2 \<le> m \<and> lp then 1 else 0)"

text \<open>The day number of a date; months beyond the year carry into it.\<close>

definition civil_day :: "int \<Rightarrow> int \<Rightarrow> int \<Rightarrow> int" where
  "civil_day y m d =
     (let ym = y + m div 12 in days_before ym + month_starts (leap ym) (nat (m mod 12)) + d - 1)"

lemma div_next:
  fixes x k :: int
  assumes "0 < k"
  shows "(x + 1) div k = x div k + (if k dvd x + 1 then 1 else 0)"
proof (cases "x mod k + 1 = k")
  case True
  then have "x + 1 = k * (x div k + 1)" by (simp add: distrib_left) (metis add.assoc mult_div_mod_eq)
  then show ?thesis using assms by (metis dvd_triv_left nonzero_mult_div_cancel_left less_irrefl)
next
  case False
  have r: "0 \<le> x mod k" "x mod k < k" using assms by simp_all
  have e: "x + 1 = k * (x div k) + (x mod k + 1)" by simp
  have "0 \<le> x mod k + 1" "x mod k + 1 < k" using r False by linarith+
  note int_div_pos_eq [OF e this] int_mod_pos_eq [OF e this]
  then show ?thesis using r by (auto simp: dvd_eq_mod_eq_0)
qed

lemma days_before_next: "days_before (y + 1) = days_before y + (if leap y then 366 else 365)"
proof -
  have "k dvd y - c \<longleftrightarrow> k dvd y" if "k dvd c" for k c
    using that dvd_add_left_iff [of k "- c" y] by simp
  then have "4 dvd (y - 1968) \<longleftrightarrow> 4 dvd y" "100 dvd (y - 1900) \<longleftrightarrow> 100 dvd y" "400 dvd (y - 1600) \<longleftrightarrow> 400 dvd y"
    by simp_all
  moreover have "100 dvd y \<Longrightarrow> 4 dvd y" "400 dvd y \<Longrightarrow> 100 dvd y"
    by (auto intro: dvd_trans [of 4 100] dvd_trans [of 100 400])
  ultimately show ?thesis
    using div_next [of 4 "y - 1969"] div_next [of 100 "y - 1901"] div_next [of 400 "y - 1601"]
    by (auto simp: days_before_def leap_def)
qed

lemma days_before_strict: "x < y \<Longrightarrow> days_before x < days_before y"
proof (induction y rule: int_gr_induct)
  case base
  show ?case using days_before_next [of x] by auto
next
  case (step i)
  then show ?case using days_before_next [of i] by auto
qed

lemma div_floor_div:
  assumes "0 < b"
  shows "div_floor a b = a div b"
proof (cases "0 \<le> a")
  case True
  then have "a sdiv b = a div b" using assms by (simp add: signed_divide_int_def sgn_if)
  then show ?thesis using True assms by (simp add: div_floor_def Let_def)
next
  case False
  then have q: "a sdiv b = - (- a div b)" using assms by (simp add: signed_divide_int_def sgn_if)
  have "a smod b = - (- a mod b)" using assms False by (simp add: signed_modulo_int_def sgn_if)
  then have "a smod b = 0 \<longleftrightarrow> - a mod b = 0" by simp
  with False q assms show ?thesis
    using zdiv_zminus1_eq_if [of b "- a"] by (auto simp: div_floor_def Let_def)
qed

lemma smod_zero:
  fixes k :: int
  assumes "0 < k"
  shows "y smod k = 0 \<longleftrightarrow> k dvd y"
proof -
  have "k \<noteq> y mod k" using pos_mod_bound [OF assms, of y] by (metis less_irrefl)
  then show ?thesis using assms by (auto simp: signed_modulo_int_def sgn_if dvd_eq_mod_eq_0 zmod_zminus1_eq_if)
qed

lemma is_leap_leap: "is_leap y \<longleftrightarrow> leap y"
  by (simp add: is_leap_def leap_def smod_zero)

lemma days_from_epoch: "days_from_epoch_to_year y = days_before y"
  by (simp add: days_from_epoch_to_year_def days_before_def div_floor_div Let_def algebra_simps)

text \<open>A year is 365.2425 days, to within three days.\<close>

lemma days_before_linear: "\<bar>400 * days_before y - 146097 * (y - 1970)\<bar> \<le> 1200"
proof -
  have q: "k * (x div k) \<le> x" "x < k * (x div k) + k" if "0 < k" for x k :: int
  proof -
    have "k * (x div k) + x mod k = x" "0 \<le> x mod k" "x mod k < k" using that by simp_all
    then show "k * (x div k) \<le> x" "x < k * (x div k) + k" by linarith+
  qed
  show ?thesis
    unfolding days_before_def abs_le_iff
    using q [of 4 "y - 1969"] q [of 100 "y - 1901"] q [of 400 "y - 1601"] by simp
qed

section \<open>The year of a day\<close>

lemma rounds_bound:
  assumes "rounds f y"
  shows "\<bar>f64_val f\<bar> \<le> 2 * \<bar>y\<bar> + 1"
proof -
  obtain k :: int and q where v: "f64_val f = of_int k * 2 powi q" and near: "\<bar>of_int k - y * 2 powi (- q)\<bar> \<le> 1 / 2"
    and norm: "q = -1074 \<or> 2 ^ 52 \<le> \<bar>k\<bar>" using assms unfolding rounds_def by blast
  have u: "2 powi q * (2 :: real) powi (- q) = 1" by (simp flip: two_powi_split)
  have "\<bar>of_int k - y * 2 powi (- q)\<bar> * 2 powi q \<le> 1 / 2 * 2 powi q" using near by (rule mult_right_mono) simp
  also have "\<bar>of_int k - y * 2 powi (- q)\<bar> * 2 powi q = \<bar>(of_int k - y * 2 powi (- q)) * 2 powi q\<bar>"
    by (simp add: abs_mult)
  also have "(of_int k - y * 2 powi (- q)) * 2 powi q = f64_val f - y * (2 powi q * 2 powi (- q))"
    unfolding v left_diff_distrib by (simp only: ac_simps)
  finally have err: "\<bar>f64_val f - y\<bar> \<le> 1 / 2 * 2 powi q" by (simp only: u mult_1_right)
  have "1 / 2 * (2 :: real) powi q \<le> \<bar>f64_val f\<bar> / 2 + 1 / 2"
  proof (cases "q = -1074")
    case True
    then have "(2 :: real) powi q \<le> 2 powi 0" by (intro two_powi_mono) simp
    then show ?thesis by simp
  next
    case False
    then have "1 \<le> \<bar>k\<bar>" using norm by simp
    then have "(1 :: real) \<le> \<bar>of_int k\<bar>" by (metis of_int_1_le_iff of_int_abs)
    then have "1 * (2 :: real) powi q \<le> \<bar>of_int k\<bar> * 2 powi q" by (rule mult_right_mono) simp
    moreover have "\<bar>f64_val f\<bar> = \<bar>of_int k\<bar> * 2 powi q" by (simp add: v abs_mult)
    ultimately show ?thesis by linarith
  qed
  with err show ?thesis by linarith
qed

lemma from_i64_whole: "\<bar>n\<bar> \<le> 2 ^ 53 - 2 \<Longrightarrow> is_whole (f64_from_i64 n) n"
  using f64_round_whole [of "\<bar>n\<bar>" 0 "\<bar>n\<bar>" "n < 0"] by (simp add: f64_from_i64_def split: if_splits)

lemma as_i64_whole: "is_whole f n \<Longrightarrow> \<bar>n\<bar> < 2 ^ 53 \<Longrightarrow> f64_as_i64 f = n"
  using whole_trunc [of f n] by (simp add: f64_as_i64_def f64_saturate_def is_whole_def f64_is_finite_def)

text \<open>The estimate of the year need only be finite: the loop finds the year from anywhere.\<close>

lemma year_estimate:
  assumes "is_whole d D" "\<bar>D\<bar> \<le> 200000000"
  shows "\<bar>f64_as_i64 (f64_floor (f64_div d MEAN_YEAR)) + 1970\<bar> \<le> 1000000000"
proof -
  have "rounds MEAN_YEAR (of_int 3652425 / of_int 10000)"
  proof -
    have "(3652425 / 10000 :: real) < 2 ^ 10" by simp
    also have "(2 :: real) ^ 10 \<le> 2 ^ 1000" by (intro power_increasing) simp_all
    finally show ?thesis using f64_quotient_rounds [of 10000 3652425 0 False] by (simp add: MEAN_YEAR_def)
  qed
  from rounds_compare [OF this, of 365] this have M: "f64_is_finite MEAN_YEAR" "365 < f64_val MEAN_YEAR"
    by (simp_all add: rounds_def)
  then have "f64_mant MEAN_YEAR \<noteq> 0" by (auto simp: f64_val_def)
  let ?y = "f64_val d / f64_val MEAN_YEAR"
  have y: "\<bar>?y\<bar> \<le> 200000000"
  proof -
    have "\<bar>f64_val d\<bar> \<le> 200000000" using assms by (simp add: is_whole_def flip: of_int_abs)
    moreover have "\<bar>?y\<bar> \<le> \<bar>f64_val d\<bar> / 1" unfolding abs_divide using M(2) by (intro divide_left_mono) simp_all
    ultimately show ?thesis by simp
  qed
  moreover have "(200000000 :: real) < 2 ^ 1000"
  proof -
    have "(200000000 :: real) < 2 ^ 28" by simp
    also have "(2 :: real) ^ 28 \<le> 2 ^ 1000" by (intro power_increasing) simp_all
    finally show ?thesis .
  qed
  ultimately have r: "rounds (f64_div d MEAN_YEAR) ?y"
    using f64_div_rounds [OF _ M(1) \<open>f64_mant MEAN_YEAR \<noteq> 0\<close>, of d] assms(1) by (simp add: is_whole_def)
  then have fin: "f64_is_finite (f64_div d MEAN_YEAR)" by (simp add: rounds_def)
  let ?n = "\<lfloor>f64_val (f64_div d MEAN_YEAR)\<rfloor>"
  have "\<bar>f64_val (f64_div d MEAN_YEAR)\<bar> \<le> 400000001" using rounds_bound [OF r] y by linarith
  then have n: "\<bar>?n\<bar> \<le> 400000002" by linarith
  then have "f64_as_i64 (f64_floor (f64_div d MEAN_YEAR)) = ?n" by (intro as_i64_whole floor_whole [OF fin]) simp
  with n show ?thesis by simp
qed

definition year_distance :: "int \<Rightarrow> int \<Rightarrow> nat" where
  "year_distance D y =
     nat (if D < days_before y then days_before y - D
          else if days_before (y + 1) \<le> D then D - days_before (y + 1) + 1 else 0)"

lemma days_before_whole: "\<bar>y\<bar> \<le> 2000000000 \<Longrightarrow> is_whole (f64_from_i64 (days_before y)) (days_before y)"
  using days_before_linear [of y] by (intro from_i64_whole) simp

lemma year_loop_exact:
  assumes d: "is_whole d D" "\<bar>D\<bar> \<le> 200000000" and y: "\<bar>y\<bar> \<le> 1000000000"
  shows "\<exists>Y. year_loop d y = Some (f64_from_i64 Y) \<and> days_before Y \<le> D \<and> D < days_before (Y + 1)"
  using y
proof (induction "year_distance D y" arbitrary: y rule: less_induct)
  case less
  have lin: "400 * days_before z - 146097 * (z - 1970) \<le> 1200" "146097 * (z - 1970) - 400 * days_before z \<le> 1200" for z
    using days_before_linear [of z] by (simp_all add: abs_le_iff)
  have D: "D \<le> 200000000" "- 200000000 \<le> D" using d(2) by simp_all
  have big: "\<bar>days_before z\<bar> < 2 ^ 53" if "\<bar>z\<bar> \<le> 2000000000" for z using days_before_linear [of z] that by simp
  have lt: "f64_lt d (f64_from_i64 (days_from_epoch_to_year y)) \<longleftrightarrow> D < days_before y"
    unfolding days_from_epoch using less.prems d(2) big
    by (intro compare_whole(1) [OF d(1) days_before_whole]) simp_all
  have ge: "f64_le (f64_from_i64 (days_from_epoch_to_year (y + 1))) d \<longleftrightarrow> days_before (y + 1) \<le> D"
    unfolding days_from_epoch using less.prems d(2) big
    by (intro compare_whole(2) [OF days_before_whole d(1)]) simp_all
  have succ: "days_before (z + 1) = days_before z + (if leap z then 366 else 365)" for z by (rule days_before_next)
  consider "D < days_before y" | "days_before (y + 1) \<le> D" "\<not> D < days_before y" | "\<not> D < days_before y" "\<not> days_before (y + 1) \<le> D" by blast
  then show ?case
  proof cases
    case 1
    have "year_distance D (y - 1) < year_distance D y" using 1 succ [of "y - 1"] by (auto simp: year_distance_def)
    moreover have "\<bar>y - 1\<bar> \<le> 1000000000" using 1 lin [of y] D less.prems by (simp add: abs_le_iff)
    ultimately obtain Y where "year_loop d (y - 1) = Some (f64_from_i64 Y) \<and> days_before Y \<le> D \<and> D < days_before (Y + 1)"
      using less.hyps by blast
    then show ?thesis using 1 lt by (subst year_loop.simps) auto
  next
    case 2
    have "year_distance D (y + 1) < year_distance D y" using 2 succ [of "y + 1"] by (auto simp: year_distance_def)
    moreover have "\<bar>y + 1\<bar> \<le> 1000000000" using 2 lin [of "y + 1"] D less.prems by (simp add: abs_le_iff)
    ultimately obtain Y where "year_loop d (y + 1) = Some (f64_from_i64 Y) \<and> days_before Y \<le> D \<and> D < days_before (Y + 1)"
      using less.hyps by blast
    then show ?thesis using 2 lt ge by (subst year_loop.simps) auto
  next
    case 3
    then show ?thesis using lt ge by (subst year_loop.simps) auto
  qed
qed

section \<open>The fields of a time value\<close>

definition MS_DAY :: int where "MS_DAY = 86400000"
definition MAX_MS :: int where "MAX_MS = 8640000000000000"

lemma constants_whole:
  "is_whole MS_PER_DAY 86400000" "is_whole MS_PER_HOUR 3600000" "is_whole MS_PER_MINUTE 60000"
  "is_whole MS_PER_SECOND 1000" "is_whole MAX_TIME_VALUE 8640000000000000"
  by (simp_all add: MS_PER_DAY_def MS_PER_HOUR_def MS_PER_MINUTE_def MS_PER_SECOND_def MAX_TIME_VALUE_def is_whole_of_int)

lemma zero_is_whole: "is_whole 0 0"
  using is_whole_of_int [of 0] by (simp add: f64_of_int_def)

lemma of_int_whole: "\<bar>n\<bar> < 2 ^ 53 \<Longrightarrow> is_whole (f64_of_int n) n"
  by (rule is_whole_of_int)

lemma day_whole: "is_whole t i \<Longrightarrow> \<bar>i\<bar> \<le> 2 ^ 53 - 2 \<Longrightarrow> is_whole (day t) (i div 86400000)"
  unfolding day_def by (rule floor_div_whole [OF _ constants_whole(1)]) simp_all

text \<open>The two steps every source remainder takes: truncate, then lift a negative result.\<close>

lemma rem_lift_whole:
  assumes "is_whole a i" "is_whole b j" "\<bar>i\<bar> \<le> 2 ^ 53 - 2" "0 < j" "j < 2 ^ 50"
  shows "is_whole (if f64_lt (f64_rem a b) 0 then f64_add (f64_rem a b) b else f64_rem a b) (i mod j)"
proof -
  have r: "is_whole (f64_rem a b) (rem_trunc i j)" using assms by (intro rem_whole) auto
  have b: "0 \<le> \<bar>i\<bar> mod j" "\<bar>i\<bar> mod j < j" using assms(4) by simp_all
  moreover have "rem_trunc i j = \<bar>i\<bar> mod j \<or> rem_trunc i j = - (\<bar>i\<bar> mod j)" using assms(4) by (simp add: rem_trunc_def)
  ultimately have small: "\<bar>rem_trunc i j\<bar> < 2 ^ 50" using assms(5) by linarith
  have lt: "f64_lt (f64_rem a b) 0 \<longleftrightarrow> rem_trunc i j < 0"
    using small by (intro compare_whole(1) [OF r zero_is_whole]) simp_all
  have "i mod j = (if rem_trunc i j < 0 then rem_trunc i j + j else rem_trunc i j)"
    using assms(4) b zmod_zminus1_eq_if [of "- i" j] by (auto simp: rem_trunc_def)
  with lt r add_whole [OF r assms(2)] small assms(4,5) show ?thesis by simp
qed

lemma time_within_day_whole:
  "is_whole t i \<Longrightarrow> \<bar>i\<bar> \<le> 2 ^ 53 - 2 \<Longrightarrow> is_whole (time_within_day t) (i mod 86400000)"
  unfolding time_within_day_def Let_def by (rule rem_lift_whole [OF _ constants_whole(1)]) simp_all

lemma day_range: "\<bar>i\<bar> \<le> 2 ^ 53 - 2 \<Longrightarrow> \<bar>i div 86400000\<bar> \<le> 200000000"
  for i :: int
proof -
  assume i: "\<bar>i\<bar> \<le> 2 ^ 53 - 2"
  have "86400000 * (i div 86400000) + i mod 86400000 = i" "0 \<le> i mod 86400000" "i mod 86400000 < 86400000" by simp_all
  with i show ?thesis by simp
qed

lemma year_whole:
  assumes "is_whole t i" "\<bar>i\<bar> \<le> 2 ^ 53 - 2"
  obtains Y y where "year_from_time t = Some y" "is_whole y Y" "\<bar>Y\<bar> \<le> 1000000"
    "days_before Y \<le> i div 86400000" "i div 86400000 < days_before (Y + 1)"
proof -
  note d = day_whole [OF assms] and r = day_range [OF assms(2)]
  obtain Y where Y: "year_from_time t = Some (f64_from_i64 Y)" "days_before Y \<le> i div 86400000"
      "i div 86400000 < days_before (Y + 1)"
    using year_loop_exact [OF d r year_estimate [OF d r]] by (auto simp: year_from_time_def Let_def)
  have "\<bar>Y\<bar> \<le> 1000000" using Y(2,3) r days_before_linear [of Y] days_before_linear [of "Y + 1"] by (simp add: abs_le_iff)
  moreover from this have "is_whole (f64_from_i64 Y) Y" by (intro from_i64_whole) simp
  ultimately show thesis using Y that by blast
qed

lemma day_from_year_whole:
  assumes "is_whole y Y" "\<bar>Y\<bar> \<le> 1000000000"
  shows "is_whole (day_from_year y) (days_before Y)"
proof -
  have sub: "is_whole (f64_sub y (f64_of_int c)) (Y - c)" if "\<bar>c\<bar> \<le> 2000" for c
    using assms that by (intro sub_whole of_int_whole) simp_all
  have quot: "is_whole (f64_floor (f64_div (f64_sub y (f64_of_int c)) (f64_of_int k))) ((Y - c) div k)"
    if "\<bar>c\<bar> \<le> 2000" "0 < k" "k \<le> 400" for c k
    using assms that by (intro floor_div_whole [OF sub of_int_whole]) simp_all
  have q: "\<bar>(Y - c) div k\<bar> \<le> 2000000000" if "\<bar>c\<bar> \<le> 2000" "0 < k" "k \<le> 400" for c k
    using that div_abs_le [of k "Y - c"] assms(2) by linarith
  have "is_whole (day_from_year y) (365 * (Y - 1970) + (Y - 1969) div 4 - (Y - 1901) div 100 + (Y - 1601) div 400)"
    unfolding day_from_year_def
    using assms(2) q [of 1969 4] q [of 1901 100] q [of 1601 400]
    by (intro add_whole sub_whole [OF _ quot] mul_whole [OF of_int_whole sub] quot) (simp_all add: abs_le_iff)
  then show ?thesis by (simp add: days_before_def)
qed

text \<open>The month of a day within its year.\<close>

lemma month_table_nth: "m \<le> 12 \<Longrightarrow> 0 \<le> month_table ! m \<and> month_table ! m \<le> 365"
proof -
  have "list_all (\<lambda>x. 0 \<le> x \<and> x \<le> 365) month_table" "length month_table = 13" by (simp_all add: month_table_def)
  then show "m \<le> 12 \<Longrightarrow> 0 \<le> month_table ! m \<and> month_table ! m \<le> 365" by (auto simp: list_all_length)
qed

lemma month_starts_range: "m \<le> 12 \<Longrightarrow> 0 \<le> month_starts l m \<and> month_starts l m \<le> 366"
  using month_table_nth [of m] by (simp add: month_starts_def)

lemma month_bound_whole:
  assumes "m \<le> 12" "is_whole lp (if l then 1 else 0)"
  shows "is_whole (month_bound lp m) (month_starts l m)"
proof -
  have len: "m < length month_table" using assms(1) by (simp add: month_table_def)
  have "MONTH_STARTS = map f64_of_int month_table" unfolding MONTH_STARTS_def month_table_def ..
  then have "MONTH_STARTS ! m = map f64_of_int month_table ! m" by (rule arg_cong)
  also have "\<dots> = f64_of_int (month_table ! m)" using len by (rule nth_map)
  finally have "MONTH_STARTS ! m = f64_of_int (month_table ! m)" .
  moreover have "is_whole (f64_of_int (month_table ! m)) (month_table ! m)"
    using month_table_nth [OF assms(1)] by (intro is_whole_of_int) simp
  ultimately have table: "is_whole (MONTH_STARTS ! m) (month_table ! m)" by simp
  have zero: "is_whole (f64_of_int 0) 0" by (rule is_whole_of_int) simp
  show ?thesis
    unfolding month_bound_def month_starts_def
    using month_table_nth [OF assms(1)] add_whole [OF table zero] add_whole [OF table assms(2)] by (cases l) simp_all
qed

definition month_of :: "bool \<Rightarrow> int \<Rightarrow> nat" where
  "month_of l k = (case find (\<lambda>m. month_starts l m \<le> k \<and> k < month_starts l (m + 1)) [0..<12] of Some m \<Rightarrow> m | None \<Rightarrow> 11)"

lemma month_of_bounds:
  assumes "0 \<le> k" "k < (if l then 366 else 365)"
  shows "month_of l k < 12 \<and> month_starts l (month_of l k) \<le> k \<and> k < month_starts l (month_of l k + 1)"
proof -
  define P where "P = (\<lambda>m. month_starts l m \<le> k \<and> k < month_starts l (m + 1))"
  have ends: "month_starts l 0 \<le> k" "k < month_starts l 12" 
    using assms by (simp_all add: month_starts_def month_table_def split: if_splits)
  have "\<exists>m < 12. P m"
  proof (rule ccontr)
    assume none: "\<not> (\<exists>m < 12. P m)"
    have "month_starts l m \<le> k" if "m \<le> 12" for m
      using that
    proof (induction m)
      case (Suc m)
      then show ?case using none by (auto simp: P_def not_less)
    qed (use ends in simp)
    with ends show False by force
  qed
  then obtain m where "find P [0..<12] = Some m"
    using find_None_iff [of P "[0..<12]"] by (cases "find P [0..<12]") auto
  then have "P m" "m < 12" by (auto simp: find_Some_iff)
  then show ?thesis using \<open>find P [0..<12] = Some m\<close> by (simp add: month_of_def P_def [symmetric]) (simp add: P_def)
qed

lemma month_in_year_whole:
  assumes "is_whole d k" "\<bar>k\<bar> \<le> 400" "is_whole lp (if l then 1 else 0)"
  shows "is_whole (month_in_year d lp) (int (month_of l k))"
proof -
  have cmp: "f64_le (month_bound lp m) d \<longleftrightarrow> month_starts l m \<le> k" "f64_lt d (month_bound lp m) \<longleftrightarrow> k < month_starts l m"
    if "m \<le> 12" for m
    using compare_whole(2) [OF month_bound_whole [OF that assms(3)] assms(1)]
      compare_whole(1) [OF assms(1) month_bound_whole [OF that assms(3)]] assms(2) month_starts_range [OF that, of l]
    by simp_all
  have "find (\<lambda>m. f64_le (month_bound lp m) d \<and> f64_lt d (month_bound lp (m + 1))) [0..<12] =
      find (\<lambda>m. month_starts l m \<le> k \<and> k < month_starts l (m + 1)) [0..<12]"
    using cmp by (intro find_cong) auto
  moreover have "m < 12" if "find P [0..<12] = Some m" for P :: "nat \<Rightarrow> bool" and m
    using that by (auto simp: find_Some_iff)
  ultimately show ?thesis
    unfolding month_in_year_def month_of_def by (force split: option.split intro!: is_whole_of_int)
qed

text \<open>The fields as the calendar has them.\<close>

lemma fields_whole:
  assumes "is_whole t i" "\<bar>i\<bar> \<le> 2 ^ 53 - 2"
  obtains Y y k lp where "year_from_time t = Some y" "is_whole y Y" "\<bar>Y\<bar> \<le> 1000000"
    "day_within_year t = Some k" "is_whole k (i div 86400000 - days_before Y)"
    "0 \<le> i div 86400000 - days_before Y" "i div 86400000 - days_before Y < (if leap Y then 366 else 365)"
    "in_leap_year t = Some lp" "is_whole lp (if leap Y then 1 else 0)"
proof -
  obtain Y y where y: "year_from_time t = Some y" "is_whole y Y" "\<bar>Y\<bar> \<le> 1000000"
    "days_before Y \<le> i div 86400000" "i div 86400000 < days_before (Y + 1)" by (rule year_whole [OF assms])
  have k: "0 \<le> i div 86400000 - days_before Y" "i div 86400000 - days_before Y < (if leap Y then 366 else 365)"
    using y(4,5) by (auto simp: days_before_next)
  have "is_whole (day_from_year y) (days_before Y)" using y(2,3) by (intro day_from_year_whole) simp_all
  then have "is_whole (f64_sub (day t) (day_from_year y)) (i div 86400000 - days_before Y)"
    using k by (intro sub_whole day_whole assms) (simp_all split: if_splits)
  moreover have "is_leap (f64_as_i64 y) \<longleftrightarrow> leap Y" using y(2,3) by (simp add: as_i64_whole is_leap_leap)
  moreover have "is_whole (if leap Y then f64_of_int 1 else f64_of_int 0) (if leap Y then 1 else 0)"
    by (simp add: is_whole_of_int)
  ultimately show thesis
    using that y(1-3) k by (simp add: day_within_year_def in_leap_year_def)
qed

text \<open>The days of a month, and the fields of a time value.\<close>

definition month_days :: "bool \<Rightarrow> nat \<Rightarrow> int" where
  "month_days l m = month_starts l (m + 1) - month_starts l m"

lemma month_and_date:
  assumes "is_whole t i" "\<bar>i\<bar> \<le> 2 ^ 53 - 2"
  obtains Y M D y mo d where "year_from_time t = Some y" "is_whole y Y" "\<bar>Y\<bar> \<le> 1000000"
    "month_from_time t = Some mo" "is_whole mo (int M)" "M < 12"
    "date_from_time t = Some d" "is_whole d D" "1 \<le> D" "D \<le> month_days (leap Y) M"
    "civil_day Y (int M) D = i div 86400000"
proof -
  obtain Y y k lp where f: "year_from_time t = Some y" "is_whole y Y" "\<bar>Y\<bar> \<le> 1000000"
    "day_within_year t = Some k" "is_whole k (i div 86400000 - days_before Y)"
    "0 \<le> i div 86400000 - days_before Y" "i div 86400000 - days_before Y < (if leap Y then 366 else 365)"
    "in_leap_year t = Some lp" "is_whole lp (if leap Y then 1 else 0)" by (rule fields_whole [OF assms])
  let ?k = "i div 86400000 - days_before Y"
  define M where "M = month_of (leap Y) ?k"
  have M: "M < 12" "month_starts (leap Y) M \<le> ?k" "?k < month_starts (leap Y) (M + 1)"
    using month_of_bounds [OF f(6,7)] by (simp_all add: M_def)
  have small: "\<bar>?k\<bar> \<le> 400" using f(6,7) by (simp split: if_splits)
  have mo: "is_whole (month_in_year k lp) (int M)"
    unfolding M_def by (rule month_in_year_whole [OF f(5) small f(9)])
  have "nat (f64_trunc (month_in_year k lp)) = M" using whole_trunc [OF mo] by simp
  moreover have bound: "is_whole (month_bound lp M) (month_starts (leap Y) M)"
    using M(1) by (intro month_bound_whole f(9)) simp
  moreover have "is_whole (f64_add (f64_sub k (month_bound lp M)) (f64_of_int 1)) (?k - month_starts (leap Y) M + 1)"
    using M small month_starts_range [of M "leap Y"]
    by (intro add_whole sub_whole f(5) bound is_whole_of_int) simp_all
  ultimately have d: "date_from_time t = Some (f64_add (f64_sub k (month_bound lp M)) (f64_of_int 1))"
      "is_whole (f64_add (f64_sub k (month_bound lp M)) (f64_of_int 1)) (?k - month_starts (leap Y) M + 1)"
    using f(4,8) by (simp_all add: date_from_time_def month_from_time_def)
  have civil: "civil_day Y (int M) (?k - month_starts (leap Y) M + 1) = i div 86400000"
    using M(1) by (simp add: civil_day_def Let_def)
  show thesis
    by (rule that [OF f(1,2,3) _ mo M(1) d _ _ civil]) (use f(4,8) M in \<open>simp_all add: month_from_time_def month_days_def\<close>)
qed

lemma clock_whole:
  assumes "is_whole t i" "\<bar>i\<bar> \<le> 2 ^ 53 - 2"
  shows "is_whole (hour_from_time t) (i mod 86400000 div 3600000)"
    "is_whole (min_from_time t) (i mod 86400000 div 60000 mod 60)"
    "is_whole (sec_from_time t) (i mod 86400000 div 1000 mod 60)"
    "is_whole (ms_from_time t) (i mod 86400000 mod 1000)"
proof -
  let ?w = "i mod 86400000"
  have w: "is_whole (time_within_day t) ?w" by (rule time_within_day_whole [OF assms])
  have b: "0 \<le> ?w" "?w < 86400000" by simp_all
  have mod_whole: "is_whole (f64_rem a c) (x mod z)"
    if "is_whole a x" "is_whole c z" "0 \<le> x" "x < 86400000" "0 < z" for a c x z
    using rem_whole [OF that(1,2)] that(3-5) by (simp add: rem_trunc_def)
  have quot: "0 \<le> ?w div z \<and> ?w div z < 86400000" if "1 \<le> z" for z
    using that b div_abs_le [of z ?w] pos_imp_zdiv_nonneg_iff [of z ?w] by simp
  show "is_whole (hour_from_time t) (?w div 3600000)"
    unfolding hour_from_time_def using b by (intro floor_div_whole [OF w constants_whole(2)]) simp_all
  have "is_whole (f64_floor (f64_div (time_within_day t) MS_PER_MINUTE)) (?w div 60000)"
    using b by (intro floor_div_whole [OF w constants_whole(3)]) simp_all
  then show "is_whole (min_from_time t) (?w div 60000 mod 60)"
    unfolding min_from_time_def using quot [of 60000] by (intro mod_whole is_whole_of_int) simp_all
  have "is_whole (f64_floor (f64_div (time_within_day t) MS_PER_SECOND)) (?w div 1000)"
    using b by (intro floor_div_whole [OF w constants_whole(4)]) simp_all
  then show "is_whole (sec_from_time t) (?w div 1000 mod 60)"
    unfolding sec_from_time_def using quot [of 1000] by (intro mod_whole is_whole_of_int) simp_all
  show "is_whole (ms_from_time t) (?w mod 1000)"
    unfolding ms_from_time_def using b by (intro mod_whole [OF w constants_whole(4)]) simp_all
qed

section \<open>Making a time value\<close>

lemma trunc_of_whole: "is_whole f i \<Longrightarrow> is_whole (f64_round_to_zero f) i"
  using trunc_whole [of f] whole_trunc [of f i] by (simp add: is_whole_def)

lemma make_time_whole:
  assumes "is_whole h H" "is_whole m M" "is_whole s S" "is_whole ms L"
    "\<bar>H\<bar> \<le> 1000000" "\<bar>M\<bar> \<le> 100000000" "\<bar>S\<bar> \<le> 100000000" "\<bar>L\<bar> \<le> 100000000000"
  shows "is_whole (make_time h m s ms) (H * 3600000 + M * 60000 + S * 1000 + L)"
proof -
  have "f64_is_finite h" "f64_is_finite m" "f64_is_finite s" "f64_is_finite ms" using assms(1-4) by (simp_all add: is_whole_def)
  moreover have "is_whole (f64_add (f64_add (f64_add (f64_mul (f64_round_to_zero h) MS_PER_HOUR)
      (f64_mul (f64_round_to_zero m) MS_PER_MINUTE)) (f64_mul (f64_round_to_zero s) MS_PER_SECOND)) (f64_round_to_zero ms))
      (H * 3600000 + M * 60000 + S * 1000 + L)"
    using assms(5-8) by (intro add_whole mul_whole trunc_of_whole assms(1-4) constants_whole) (simp_all add: abs_le_iff)
  ultimately show ?thesis by (simp add: make_time_def)
qed

lemma month_start_day_whole:
  assumes "is_whole y Y" "\<bar>Y\<bar> \<le> 1000000000" "m < 12"
  shows "is_whole (month_start_day y m) (days_before Y + month_starts (leap Y) m)"
proof -
  have lp: "is_whole (if leap Y then f64_of_int 1 else f64_of_int 0) (if leap Y then 1 else 0)" by (simp add: is_whole_of_int)
  have leap: "is_leap (f64_as_i64 y) \<longleftrightarrow> leap Y" using assms(1,2) by (simp add: as_i64_whole is_leap_leap)
  have len: "m < length month_table" using assms(3) by (simp add: month_table_def)
  have "MONTH_STARTS ! m = f64_of_int (month_table ! m)"
    unfolding MONTH_STARTS_def month_table_def [symmetric] using len by (rule nth_map)
  then have "is_whole (MONTH_STARTS ! m) (month_table ! m)"
    using month_table_nth [of m] assms(3) is_whole_of_int [of "month_table ! m"] by simp
  then have first: "is_whole (f64_add (day_from_year y) (MONTH_STARTS ! m)) (days_before Y + month_table ! m)"
    using assms(2,3) month_table_nth [of m] days_before_linear [of Y]
    by (intro add_whole day_from_year_whole assms(1,2)) (simp_all add: abs_le_iff)
  have extra: "is_whole (if 2 \<le> m \<and> leap Y then f64_of_int 1 else f64_of_int 0) (if 2 \<le> m \<and> leap Y then 1 else 0)"
    by (simp add: is_whole_of_int)
  have "is_whole (month_start_day y m) (days_before Y + month_table ! m + (if 2 \<le> m \<and> leap Y then 1 else 0))"
    unfolding month_start_day_def leap using assms(2,3) month_table_nth [of m] days_before_linear [of Y]
    by (intro add_whole [OF first extra]) (simp_all add: abs_le_iff)
  then show ?thesis by (simp add: month_starts_def add.assoc)
qed

lemma make_day_whole:
  assumes "is_whole y Y" "is_whole mo M" "is_whole d D"
    "\<bar>Y\<bar> \<le> 100000000" "\<bar>M\<bar> \<le> 100000000" "\<bar>D\<bar> \<le> 100000000000"
  shows "is_whole (make_day y mo d) (civil_day Y M D)"
proof -
  note tr = trunc_of_whole [OF assms(1)] trunc_of_whole [OF assms(2)] trunc_of_whole [OF assms(3)]
  have twelve: "is_whole (f64_of_int 12) 12" by (rule is_whole_of_int) simp
  have q: "\<bar>M div 12\<bar> \<le> 100000000" using div_abs_le [of 12 M] assms(5) by simp
  have "is_whole (f64_floor (f64_div (f64_round_to_zero mo) (f64_of_int 12))) (M div 12)"
    using assms(5) by (intro floor_div_whole [OF tr(2) twelve]) simp_all
  then have ym: "is_whole (f64_add (f64_round_to_zero y) (f64_floor (f64_div (f64_round_to_zero mo) (f64_of_int 12)))) (Y + M div 12)"
    using assms(4) q by (intro add_whole tr(1)) (simp_all add: abs_le_iff)
  let ?mn = "if f64_lt (f64_rem (f64_round_to_zero mo) (f64_of_int 12)) 0
      then f64_add (f64_rem (f64_round_to_zero mo) (f64_of_int 12)) (f64_of_int 12)
      else f64_rem (f64_round_to_zero mo) (f64_of_int 12)"
  have mn: "is_whole ?mn (M mod 12)" using assms(5) by (intro rem_lift_whole [OF tr(2) twelve]) simp_all
  have idx: "nat (f64_trunc ?mn) = nat (M mod 12)" using whole_trunc [OF mn] by simp
  have Y: "\<bar>Y + M div 12\<bar> \<le> 1000000000" using assms(4) q by (simp add: abs_le_iff)
  have "nat (M mod 12) < 12" by simp
  note start = month_start_day_whole [OF ym Y this]
  have "\<bar>days_before (Y + M div 12)\<bar> \<le> 400000000000" using days_before_linear [of "Y + M div 12"] Y by (simp add: abs_le_iff)
  moreover have "0 \<le> month_starts (leap (Y + M div 12)) (nat (M mod 12)) \<and> month_starts (leap (Y + M div 12)) (nat (M mod 12)) \<le> 366"
    by (rule month_starts_range) simp
  ultimately have "is_whole (f64_sub (f64_add (month_start_day (f64_add (f64_round_to_zero y)
      (f64_floor (f64_div (f64_round_to_zero mo) (f64_of_int 12)))) (nat (M mod 12))) (f64_round_to_zero d)) (f64_of_int 1))
      (days_before (Y + M div 12) + month_starts (leap (Y + M div 12)) (nat (M mod 12)) + D - 1)"
    using assms(6) by (intro sub_whole add_whole start tr(3) is_whole_of_int) (simp_all add: abs_le_iff)
  moreover have "f64_is_finite y" "f64_is_finite mo" "f64_is_finite d" using assms(1-3) by (simp_all add: is_whole_def)
  ultimately show ?thesis by (simp add: make_day_def Let_def idx civil_day_def)
qed

lemma make_date_whole:
  "is_whole d D \<Longrightarrow> is_whole tm L \<Longrightarrow> \<bar>D\<bar> \<le> 104000000 \<Longrightarrow> \<bar>L\<bar> \<le> 10000000000 \<Longrightarrow> is_whole (make_date d tm) (D * 86400000 + L)"
  unfolding make_date_def by (intro add_whole mul_whole constants_whole) (simp_all add: abs_le_iff)

end
