(* ===== verification/DateText.thy ===== *)
theory DateText
  imports DateLaws
begin

text \<open>
  The texts of dates (\<open>v12-engine/src/builtins/date.rs\<close>): the ISO format and its parser, and
  the formats of \<open>toString\<close>, \<open>toDateString\<close>, \<open>toTimeString\<close> and \<open>toUTCString\<close>. A text is its list of
  bytes. The parser's byte index is the list of the bytes that remain. What rests on the
  year search is an option, and so is a lookup in a table of names, which panics out of range.
\<close>

section \<open>Formatting\<close>

definition ascii :: "string \<Rightarrow> nat list" where "ascii s = map of_char s"

text \<open>\<open>{:0w}\<close> of an integer.\<close>

definition zero_padded :: "nat \<Rightarrow> nat \<Rightarrow> nat list" where
  "zero_padded w n = (let s = decimal_text n in replicate (w - length s) 48 @ s)"

definition int_padded :: "nat \<Rightarrow> int \<Rightarrow> nat list" where
  "int_padded w k = (if k < 0 then 45 # zero_padded (w - 1) (nat (- k)) else zero_padded w (nat k))"

definition format_year_extended :: "f64 \<Rightarrow> nat list" where
  "format_year_extended year =
     (let y = f64_as_i64 year
      in if 0 \<le> y \<and> y \<le> 9999 then int_padded 4 y
         else if 9999 < y then 43 # int_padded 6 y else 45 # int_padded 6 (- y))"

definition to_iso_string :: "f64 \<Rightarrow> nat list option option" where
  "to_iso_string t =
     (if \<not> f64_is_finite t then Some None
      else Option.bind (year_from_time t) (\<lambda>y. Option.bind (month_from_time t) (\<lambda>mo. map_option (\<lambda>d. Some
        (format_year_extended y @ [45] @ int_padded 2 (f64_as_i64 mo + 1) @ [45] @ int_padded 2 (f64_as_i64 d) @ [84]
         @ int_padded 2 (f64_as_i64 (hour_from_time t)) @ [58] @ int_padded 2 (f64_as_i64 (min_from_time t)) @ [58]
         @ int_padded 2 (f64_as_i64 (sec_from_time t)) @ [46] @ int_padded 3 (f64_as_i64 (ms_from_time t)) @ [90]))
        (date_from_time t))))"

definition date_proto_to_iso_string :: "js_obj option \<Rightarrow> nat list date_result" where
  "date_proto_to_iso_string this = with_time this (\<lambda>_ t. map_option (\<lambda>r. case r of
     Some text \<Rightarrow> Inr text | None \<Rightarrow> Inl InvalidTime) (to_iso_string t))"

definition WEEKDAYS :: "nat list list" where
  "WEEKDAYS = map ascii [''Sun'', ''Mon'', ''Tue'', ''Wed'', ''Thu'', ''Fri'', ''Sat'']"
definition MONTHS :: "nat list list" where
  "MONTHS = map ascii [''Jan'', ''Feb'', ''Mar'', ''Apr'', ''May'', ''Jun'', ''Jul'', ''Aug'', ''Sep'', ''Oct'', ''Nov'', ''Dec'']"

definition f64_as_usize :: "f64 \<Rightarrow> nat" where "f64_as_usize b = nat (f64_saturate 0 (2 ^ 64 - 1) b)"

definition format_year_plain :: "f64 \<Rightarrow> nat list" where
  "format_year_plain year =
     (let y = f64_as_i64 year in if y < 0 then 45 # int_padded 4 (- y) else int_padded 4 y)"

definition date_string :: "f64 \<Rightarrow> nat list option option" where
  "date_string t =
     (if f64_is_nan t then Some None
      else Option.bind (list_get WEEKDAYS (f64_as_usize (week_day t))) (\<lambda>wd.
        Option.bind (month_from_time t) (\<lambda>mo. Option.bind (list_get MONTHS (f64_as_usize mo)) (\<lambda>mon.
          Option.bind (date_from_time t) (\<lambda>d. map_option (\<lambda>y. Some
            (wd @ [32] @ mon @ [32] @ int_padded 2 (f64_as_i64 d) @ [32] @ format_year_plain y)) (year_from_time t))))))"

definition clock_text :: "f64 \<Rightarrow> nat list" where
  "clock_text t = int_padded 2 (f64_as_i64 (hour_from_time t)) @ [58] @ int_padded 2 (f64_as_i64 (min_from_time t))
     @ [58] @ int_padded 2 (f64_as_i64 (sec_from_time t))"

definition time_string :: "f64 \<Rightarrow> nat list" where
  "time_string t = clock_text t @ ascii '' GMT+0000 (Coordinated Universal Time)''"

definition INVALID_DATE :: "nat list" where "INVALID_DATE = ascii ''Invalid Date''"

definition format_date_time :: "f64 \<Rightarrow> nat list option" where
  "format_date_time t = map_option (\<lambda>r. case r of Some ds \<Rightarrow> ds @ [32] @ time_string t | None \<Rightarrow> INVALID_DATE) (date_string t)"

definition date_proto_to_string :: "js_obj option \<Rightarrow> nat list date_result" where
  "date_proto_to_string this = with_time this (\<lambda>_ t. map_option Inr (format_date_time t))"

definition date_proto_to_date_string :: "js_obj option \<Rightarrow> nat list date_result" where
  "date_proto_to_date_string this = with_time this (\<lambda>_ t. map_option (\<lambda>r. Inr (case r of
     Some ds \<Rightarrow> ds | None \<Rightarrow> INVALID_DATE)) (date_string t))"

definition date_proto_to_time_string :: "js_obj option \<Rightarrow> nat list date_result" where
  "date_proto_to_time_string this = with_time this (\<lambda>_ t.
     Some (Inr (if f64_is_nan t then INVALID_DATE else time_string t)))"

definition date_proto_to_utc_string :: "js_obj option \<Rightarrow> nat list date_result" where
  "date_proto_to_utc_string this = with_time this (\<lambda>_ t.
     if f64_is_nan t then Some (Inr INVALID_DATE)
     else Option.bind (list_get WEEKDAYS (f64_as_usize (week_day t))) (\<lambda>wd. Option.bind (date_from_time t) (\<lambda>d.
       Option.bind (month_from_time t) (\<lambda>mo. Option.bind (list_get MONTHS (f64_as_usize mo)) (\<lambda>mon.
         map_option (\<lambda>y. Inr (wd @ [44, 32] @ int_padded 2 (f64_as_i64 d) @ [32] @ mon @ [32] @ format_year_plain y
           @ [32] @ clock_text t @ ascii '' GMT'')) (year_from_time t))))))"

section \<open>Parsing the ISO format\<close>

definition expect :: "nat \<Rightarrow> nat list \<Rightarrow> nat list option" where
  "expect c s = (case s of x # r \<Rightarrow> if x = c then Some r else None | [] \<Rightarrow> None)"

definition parse_fixed :: "nat list \<Rightarrow> nat \<Rightarrow> (nat \<times> nat list) option" where
  "parse_fixed s k =
     (if length s < k \<or> \<not> list_all is_decimal (take k s) then None
      else Some (digits_value (take k s), drop k s))"

definition parse_year :: "nat list \<Rightarrow> (f64 \<times> nat list) option" where
  "parse_year s =
     (if s \<noteq> [] \<and> hd s \<in> {43, 45}
      then (case parse_fixed (tl s) 6 of None \<Rightarrow> None
            | Some (y, r) \<Rightarrow>
                if hd s = 45 \<and> y = 0 then None
                else Some (if hd s = 45 then f64_neg (f64_of_int (int y)) else f64_of_int (int y), r))
      else map_option (\<lambda>(y, r). (f64_of_int (int y), r)) (parse_fixed s 4))"

definition parse_month_day :: "nat list \<Rightarrow> (nat \<times> nat \<times> nat list) option" where
  "parse_month_day s =
     (case expect 45 s of None \<Rightarrow> Some (1, 1, s)
      | Some s \<Rightarrow> Option.bind (parse_fixed s 2) (\<lambda>(m, s).
          if m < 1 \<or> 12 < m then None
          else case expect 45 s of None \<Rightarrow> Some (m, 1, s)
            | Some s \<Rightarrow> Option.bind (parse_fixed s 2) (\<lambda>(d, s). if d < 1 \<or> 31 < d then None else Some (m, d, s))))"

definition parse_fraction :: "nat list \<Rightarrow> (nat \<times> nat list) option" where
  "parse_fraction s =
     (let frac = takeWhile is_decimal s
      in if frac = [] then None
         else Some (digits_value (take 3 (frac @ replicate (3 - length frac) 48)), dropWhile is_decimal s))"

definition parse_seconds :: "nat list \<Rightarrow> (nat \<times> nat \<times> nat list) option" where
  "parse_seconds s =
     (case expect 58 s of None \<Rightarrow> Some (0, 0, s)
      | Some s \<Rightarrow> Option.bind (parse_fixed s 2) (\<lambda>(sec, s).
          if 59 < sec then None
          else case expect 46 s of None \<Rightarrow> Some (sec, 0, s)
            | Some s \<Rightarrow> map_option (\<lambda>(ms, s). (sec, ms, s)) (parse_fraction s)))"

definition parse_clock :: "nat list \<Rightarrow> (nat \<times> nat \<times> nat \<times> nat \<times> nat list) option" where
  "parse_clock s = Option.bind (parse_fixed s 2) (\<lambda>(h, s).
     if 24 < h then None
     else Option.bind (expect 58 s) (\<lambda>s. Option.bind (parse_fixed s 2) (\<lambda>(mi, s).
       if 59 < mi then None else map_option (\<lambda>(sec, ms, s). (h, mi, sec, ms, s)) (parse_seconds s))))"

definition parse_zone :: "nat list \<Rightarrow> (f64 option \<times> nat list) option" where
  "parse_zone s =
     (case s of [] \<Rightarrow> Some (None, s)
      | c # r \<Rightarrow>
          if c \<in> {90, 122} then Some (Some (f64_of_int 0), r)
          else if c \<in> {43, 45}
            then Option.bind (parse_fixed r 2) (\<lambda>(oh, r). Option.bind (expect 58 r) (\<lambda>r.
              Option.bind (parse_fixed r 2) (\<lambda>(om, r).
                if 23 < oh \<or> 59 < om then None
                else Some (Some (f64_mul (if c = 45 then f64_of_int (- 1) else f64_of_int 1)
                       (f64_add (f64_mul (f64_of_int (int oh)) (f64_of_int 60)) (f64_of_int (int om)))), r))))
          else Some (None, s))"

definition parse_time_part :: "nat list \<Rightarrow> (nat \<times> nat \<times> nat \<times> nat \<times> f64 option) option" where
  "parse_time_part s =
     (if s = [] then Some (0, 0, 0, 0, None)
      else Option.bind (if hd s \<in> {84, 116, 32} then parse_clock (tl s) else Some (0, 0, 0, 0, s)) (\<lambda>(h, mi, sec, ms, s).
        Option.bind (parse_zone s) (\<lambda>(off, s). if s \<noteq> [] then None else Some (h, mi, sec, ms, off))))"

definition parse_iso :: "nat list \<Rightarrow> f64 option" where
  "parse_iso s = Option.bind (parse_year s) (\<lambda>(y, s). Option.bind (parse_month_day s) (\<lambda>(m, d, s).
     Option.bind (parse_time_part s) (\<lambda>(h, mi, sec, ms, off).
       if h = 24 \<and> (mi \<noteq> 0 \<or> sec \<noteq> 0 \<or> ms \<noteq> 0) then None
       else Some (time_clip (f64_sub
         (make_date (make_day y (f64_sub (f64_of_int (int m)) (f64_of_int 1)) (f64_of_int (int d)))
           (make_time (f64_of_int (int h)) (f64_of_int (int mi)) (f64_of_int (int sec)) (f64_of_int (int ms))))
         (f64_mul (case off of Some o' \<Rightarrow> o' | None \<Rightarrow> f64_of_int 0) MS_PER_MINUTE))))))"

section \<open>Reading back what was written\<close>

lemma decimal_text_length: "n < 10 ^ w \<Longrightarrow> 0 < w \<Longrightarrow> length (decimal_text n) \<le> w"
proof (induction w arbitrary: n)
  case (Suc w)
  show ?case
  proof (cases "n < 10")
    case True
    then show ?thesis by (simp add: decimal_text.simps)
  next
    case False
    have "n div 10 < 10 ^ w" using Suc.prems by (simp add: div_less_iff_less_mult mult.commute)
    moreover have "0 < w" using False Suc.prems by (cases w) auto
    ultimately have "length (decimal_text (n div 10)) \<le> w" by (rule Suc.IH)
    with False show ?thesis by (subst decimal_text.simps) simp
  qed
qed simp

lemma digits_value_zeros: "digits_value (replicate k 48 @ s) = digits_value s"
  by (induction k) (simp_all add: digits_value_def)

lemma zero_padded_parse:
  assumes "n < 10 ^ w" "0 < w"
  shows "length (zero_padded w n) = w" "list_all is_decimal (zero_padded w n)" "digits_value (zero_padded w n) = n"
  using decimal_text_length [OF assms] decimal_text_digits [of n]
  by (auto simp: zero_padded_def Let_def digits_value_zeros digits_value_decimal list_all_iff)

lemma parse_fixed_padded:
  assumes "0 \<le> k" "k < 10 ^ w" "0 < w"
  shows "parse_fixed (int_padded w k @ r) w = Some (nat k, r)"
proof -
  have "int (nat k) < int (10 ^ w)" using assms by simp
  then have "nat k < 10 ^ w" by (simp only: of_nat_less_iff)
  from zero_padded_parse [OF this assms(3)] show ?thesis using assms(1) by (simp add: parse_fixed_def int_padded_def)
qed

lemma int_padded_head:
  assumes "0 \<le> k" "k < 10 ^ w" "0 < w"
  shows "int_padded w k @ r \<noteq> [] \<and> 48 \<le> hd (int_padded w k @ r) \<and> hd (int_padded w k @ r) \<le> 57"
proof -
  have "int (nat k) < int (10 ^ w)" using assms by simp
  then have "nat k < 10 ^ w" by (simp only: of_nat_less_iff)
  from zero_padded_parse(1,2) [OF this assms(3)] show ?thesis
    using assms(1,3) by (cases "zero_padded w (nat k)") (simp_all add: int_padded_def)
qed

lemma parse_year_extended:
  assumes "is_whole y Y" "\<bar>Y\<bar> \<le> 300000"
  obtains y' where "parse_year (format_year_extended y @ r) = Some (y', r)" "is_whole y' Y"
proof -
  have as: "f64_as_i64 y = Y" using assms by (intro as_i64_whole) simp_all
  have w: "is_whole (f64_of_int (int (nat k))) k" if "0 \<le> k" "k \<le> 300000" for k using that is_whole_of_int [of k] by simp
  consider "0 \<le> Y" "Y \<le> 9999" | "9999 < Y" | "Y < 0" by linarith
  then show thesis
  proof cases
    case 1
    have "parse_year (int_padded 4 Y @ r) = Some (f64_of_int (int (nat Y)), r)"
      using 1 int_padded_head [of Y 4 r] parse_fixed_padded [of Y 4 r] by (auto simp: parse_year_def)
    then show thesis using that w [of Y] 1 by (simp add: format_year_extended_def as)
  next
    case 2
    have "parse_year (43 # int_padded 6 Y @ r) = Some (f64_of_int (int (nat Y)), r)"
      using 2 assms(2) parse_fixed_padded [of Y 6 r] by (simp add: parse_year_def)
    then show thesis using that w [of Y] 2 assms(2) by (simp add: format_year_extended_def as)
  next
    case 3
    have "parse_year (45 # int_padded 6 (- Y) @ r) = Some (f64_neg (f64_of_int (int (nat (- Y)))), r)"
      using 3 assms(2) parse_fixed_padded [of "- Y" 6 r] by (simp add: parse_year_def)
    moreover have "is_whole (f64_neg (f64_of_int (int (nat (- Y))))) Y"
      using neg_whole [OF w [of "- Y"]] 3 assms(2) by simp
    ultimately show thesis using that 3 by (simp add: format_year_extended_def as)
  qed
qed

lemma parse_fraction_padded:
  assumes "0 \<le> k" "k < 1000"
  shows "parse_fraction (int_padded 3 k @ 90 # r) = Some (nat k, 90 # r)"
proof -
  have "nat k < 10 ^ 3" using assms by simp
  note z = zero_padded_parse [OF this]
  have "takeWhile is_decimal (zero_padded 3 (nat k) @ 90 # r) = zero_padded 3 (nat k)"
    "dropWhile is_decimal (zero_padded 3 (nat k) @ 90 # r) = 90 # r"
    using z(2) by (simp_all add: takeWhile_append2 dropWhile_append2 list_all_iff)
  moreover have "zero_padded 3 (nat k) \<noteq> []" using z(1) by auto
  ultimately show ?thesis using z(1,3) assms(1) by (simp add: parse_fraction_def int_padded_def Let_def)
qed

lemma expect_cons: "expect c (c # r) = Some r"
  by (simp add: expect_def)

text \<open>The fields of an ISO text with a full date, a full time and the zone \<open>Z\<close>.\<close>

lemma parse_iso_fields:
  assumes "is_whole y Y" "\<bar>Y\<bar> \<le> 300000" "1 \<le> m" "m \<le> 12" "1 \<le> d" "d \<le> 31"
    "0 \<le> h" "h \<le> 23" "0 \<le> mi" "mi \<le> 59" "0 \<le> s" "s \<le> 59" "0 \<le> l" "l \<le> 999"
  obtains y' where "is_whole y' Y" "parse_iso (format_year_extended y @ [45] @ int_padded 2 m @ [45] @ int_padded 2 d @ [84]
      @ int_padded 2 h @ [58] @ int_padded 2 mi @ [58] @ int_padded 2 s @ [46] @ int_padded 3 l @ [90]) =
    Some (time_clip (f64_sub (make_date (make_day y' (f64_sub (f64_of_int m) (f64_of_int 1)) (f64_of_int d))
      (make_time (f64_of_int h) (f64_of_int mi) (f64_of_int s) (f64_of_int l))) (f64_mul (f64_of_int 0) MS_PER_MINUTE)))"
proof -
  note two = parse_fixed_padded [where w = 2]
  let ?t = "int_padded 2 h @ 58 # int_padded 2 mi @ 58 # int_padded 2 s @ 46 # int_padded 3 l @ [90]"
  obtain y' where y: "parse_year (format_year_extended y @ 45 # int_padded 2 m @ 45 # int_padded 2 d @ 84 # ?t) =
      Some (y', 45 # int_padded 2 m @ 45 # int_padded 2 d @ 84 # ?t)" "is_whole y' Y"
    by (rule parse_year_extended [OF assms(1,2)])
  have md: "parse_month_day (45 # int_padded 2 m @ 45 # int_padded 2 d @ 84 # ?t) = Some (nat m, nat d, 84 # ?t)"
    using assms(3-6) by (simp add: parse_month_day_def expect_cons two not_less nat_le_iff)
  have "parse_seconds (58 # int_padded 2 s @ 46 # int_padded 3 l @ [90]) = Some (nat s, nat l, [90])"
    using assms(11-14) by (simp add: parse_seconds_def expect_cons two parse_fraction_padded not_less nat_le_iff)
  then have "parse_clock ?t = Some (nat h, nat mi, nat s, nat l, [90])"
    using assms(7-10) by (simp add: parse_clock_def expect_cons two not_less nat_le_iff)
  then have "parse_time_part (84 # ?t) = Some (nat h, nat mi, nat s, nat l, Some (f64_of_int 0))"
    by (simp add: parse_time_part_def parse_zone_def)
  moreover have "nat h \<noteq> 24" "int (nat m) = m" "int (nat d) = d" "int (nat h) = h" "int (nat mi) = mi" "int (nat s) = s" "int (nat l) = l"
    using assms by simp_all
  ultimately show thesis by (intro that [OF y(2)]) (simp add: parse_iso_def y(1) md)
qed

lemma legal_year:
  assumes "is_whole t i" "\<bar>i\<bar> \<le> MAX_MS" "year_from_time t = Some y" "is_whole y Y"
  shows "\<bar>Y\<bar> \<le> 300000"
proof -
  have i: "\<bar>i\<bar> \<le> 2 ^ 53 - 2" using assms(2) by (simp add: MAX_MS_def)
  obtain Y' y' where "year_from_time t = Some y'" "is_whole y' Y'" "days_before Y' \<le> i div 86400000" "i div 86400000 < days_before (Y' + 1)"
    by (rule year_whole [OF assms(1) i]) blast
  then have "days_before Y \<le> i div 86400000" "i div 86400000 < days_before (Y + 1)"
    using assms(3,4) is_whole_fun by auto
  then show ?thesis using legal_day [OF assms(2)] days_before_linear [of Y] days_before_linear [of "Y + 1"] by (simp add: abs_le_iff)
qed

lemma time_of_fields:
  assumes "is_whole y Y" "\<bar>Y\<bar> \<le> 300000" "0 \<le> m" "m \<le> 12" "\<bar>d\<bar> \<le> 1000" "\<bar>h\<bar> \<le> 1000" "\<bar>mi\<bar> \<le> 1000" "\<bar>s\<bar> \<le> 1000" "\<bar>l\<bar> \<le> 1000"
    and e: "civil_day Y m d * 86400000 + (h * 3600000 + mi * 60000 + s * 1000 + l) = i"
    and day: "\<bar>civil_day Y m d\<bar> \<le> 104000000" and i: "\<bar>i\<bar> \<le> MAX_MS"
  shows "time_clip (f64_sub (make_date (make_day y (f64_sub (f64_of_int (m + 1)) (f64_of_int 1)) (f64_of_int d))
      (make_time (f64_of_int h) (f64_of_int mi) (f64_of_int s) (f64_of_int l))) (f64_mul (f64_of_int 0) MS_PER_MINUTE)) = f64_of_int i"
proof -
  have whole: "is_whole (f64_of_int k) k" if "\<bar>k\<bar> \<le> 1000" for k using that by (intro is_whole_of_int) simp
  have "is_whole (f64_sub (f64_of_int (m + 1)) (f64_of_int 1)) (m + 1 - 1)"
    using assms(3,4) by (intro sub_whole whole) simp_all
  then have "is_whole (f64_sub (f64_of_int (m + 1)) (f64_of_int 1)) m" by simp
  then have "is_whole (make_day y (f64_sub (f64_of_int (m + 1)) (f64_of_int 1)) (f64_of_int d)) (civil_day Y m d)"
    using assms(2-5) by (intro make_day_whole assms(1) whole) simp_all
  moreover have "is_whole (make_time (f64_of_int h) (f64_of_int mi) (f64_of_int s) (f64_of_int l)) (h * 3600000 + mi * 60000 + s * 1000 + l)"
    using assms(6-9) by (intro make_time_whole whole) simp_all
  moreover have "\<bar>h * 3600000 + mi * 60000 + s * 1000 + l\<bar> \<le> 10000000000" using assms(6-9) by (simp add: abs_le_iff)
  ultimately have "is_whole (make_date (make_day y (f64_sub (f64_of_int (m + 1)) (f64_of_int 1)) (f64_of_int d))
      (make_time (f64_of_int h) (f64_of_int mi) (f64_of_int s) (f64_of_int l))) i"
    unfolding e [symmetric] using day by (intro make_date_whole)
  moreover have "is_whole (f64_mul (f64_of_int 0) MS_PER_MINUTE) (0 * 60000)" by (intro mul_whole whole constants_whole) simp_all
  ultimately have "is_whole (f64_sub (make_date (make_day y (f64_sub (f64_of_int (m + 1)) (f64_of_int 1)) (f64_of_int d))
      (make_time (f64_of_int h) (f64_of_int mi) (f64_of_int s) (f64_of_int l))) (f64_mul (f64_of_int 0) MS_PER_MINUTE)) (i - 0 * 60000)"
    using i by (intro sub_whole) (simp_all add: MAX_MS_def)
  then show ?thesis using time_clip_whole [of _ i] i by (simp add: MAX_MS_def)
qed

lemma clock_ranges:
  fixes w :: int
  assumes "0 \<le> w" "w \<le> 86399999"
  shows "0 \<le> w div 3600000" "w div 3600000 \<le> 23" "0 \<le> w div 60000 mod 60" "w div 60000 mod 60 \<le> 59"
    "0 \<le> w div 1000 mod 60" "w div 1000 mod 60 \<le> 59" "0 \<le> w mod 1000" "w mod 1000 \<le> 999"
proof -
  show "0 \<le> w div 3600000" "w div 3600000 \<le> 23"
    using zdiv_mono1 [OF assms(2), of 3600000] assms(1) by (simp_all add: pos_imp_zdiv_nonneg_iff)
  have c: "a mod k \<le> k - 1" if "0 < k" for a k :: int using pos_mod_bound [OF that, of a] by linarith
  show "w div 60000 mod 60 \<le> 59" "w div 1000 mod 60 \<le> 59" "w mod 1000 \<le> 999"
    using c [of 60 "w div 60000"] c [of 60 "w div 1000"] c [of 1000 w] by simp_all
qed simp_all

lemma month_days_bound: "M < 12 \<Longrightarrow> month_days l M \<le> 31"
proof -
  assume "M < 12"
  then have "M \<in> {..<12}" by simp
  then show ?thesis
    by (simp add: lessThan_nat_numeral lessThan_Suc month_days_def month_starts_def month_table_def eval_nat_numeral) auto
qed

text \<open>
  C21. The ISO text of every legal time value, years outside \<open>0 .. 9999\<close> included, exists and
  is parsed back to that time value exactly.
\<close>

theorem iso_round_trip:
  assumes "t = f64_of_int i" "\<bar>i\<bar> \<le> MAX_MS"
  shows "Option.bind (to_iso_string t) (\<lambda>s. Option.bind s parse_iso) = Some t"
proof -
  have t: "is_whole t i" and i: "\<bar>i\<bar> \<le> 2 ^ 53 - 2" using assms is_whole_of_int [of i] by (simp_all add: MAX_MS_def)
  obtain Y M D y mo d where f: "year_from_time t = Some y" "is_whole y Y" "\<bar>Y\<bar> \<le> 1000000"
    "month_from_time t = Some mo" "is_whole mo (int M)" "M < 12"
    "date_from_time t = Some d" "is_whole d D" "1 \<le> D" "D \<le> month_days (leap Y) M"
    "civil_day Y (int M) D = i div 86400000" by (rule month_and_date [OF t i]) blast
  define w where "w = i mod 86400000"
  have w: "0 \<le> w" "w \<le> 86399999" using pos_mod_bound [of 86400000 i] by (simp_all add: w_def)
  have D: "1 \<le> D" "D \<le> 31" using f(9,10) month_days_bound [OF f(6), of "leap Y"] by simp_all
  have M: "1 \<le> int M + 1" "int M + 1 \<le> 12" "int M \<le> 12" using f(6) by simp_all
  have as: "f64_as_i64 g = k" if "is_whole g k" "\<bar>k\<bar> \<le> 1000" for g k using that by (intro as_i64_whole) simp_all
  note clock = clock_whole [OF t i, folded w_def] and small = clock_bounds [of i, folded w_def] and Y = legal_year [OF t assms(2) f(1,2)]
  have small': "\<bar>D\<bar> \<le> 1000" "\<bar>int M\<bar> \<le> 1000" using D M by simp_all
  obtain y' where y': "is_whole y' Y" and p: "parse_iso (format_year_extended y @ [45] @ int_padded 2 (int M + 1) @ [45] @ int_padded 2 D @ [84]
      @ int_padded 2 (w div 3600000) @ [58] @ int_padded 2 (w div 60000 mod 60) @ [58] @ int_padded 2 (w div 1000 mod 60)
      @ [46] @ int_padded 3 (w mod 1000) @ [90]) =
    Some (time_clip (f64_sub (make_date (make_day y' (f64_sub (f64_of_int (int M + 1)) (f64_of_int 1)) (f64_of_int D))
      (make_time (f64_of_int (w div 3600000)) (f64_of_int (w div 60000 mod 60)) (f64_of_int (w div 1000 mod 60))
        (f64_of_int (w mod 1000)))) (f64_mul (f64_of_int 0) MS_PER_MINUTE)))"
    by (rule parse_iso_fields [OF f(2) Y M(1,2) D clock_ranges [OF w]])
  have "civil_day Y (int M) D * 86400000 + (w div 3600000 * 3600000 + w div 60000 mod 60 * 60000 + w div 1000 mod 60 * 1000 + w mod 1000) = i"
    unfolding clock_split f(11) by (simp add: w_def)
  note time_of_fields [OF y' Y of_nat_0_le_iff M(3) small'(1) small this _ assms(2), unfolded f(11), OF legal_day [OF assms(2)], folded assms(1)]
  moreover have "f64_is_finite t" using t by (simp add: is_whole_def)
  ultimately show ?thesis
    using f(1,4,7) p
    by (simp add: to_iso_string_def as [OF f(5) small'(2)] as [OF f(8) small'(1)] as [OF clock(1) small(1)]
      as [OF clock(2) small(2)] as [OF clock(3) small(3)] as [OF clock(4) small(4)])
qed

theorem iso_round_trip_witness:
  "Option.bind (to_iso_string (f64_of_int (- 62198755200000))) (\<lambda>s. Option.bind s parse_iso) = Some (f64_of_int (- 62198755200000))"
  by (rule iso_round_trip [OF refl]) (simp add: MAX_MS_def)

section \<open>The other formats\<close>

definition year_text :: "int \<Rightarrow> nat list" where
  "year_text Y = (if Y < 0 then 45 # int_padded 4 (- Y) else int_padded 4 Y)"

lemma as_usize_whole: "is_whole f (int n) \<Longrightarrow> n \<le> 1000 \<Longrightarrow> f64_as_usize f = n"
  using whole_trunc [of f "int n"]
  by (simp add: f64_as_usize_def f64_saturate_def is_whole_def f64_is_finite_def max_def min_def)

text \<open>
  The date texts of a Date object with a legal time exist, no table lookup panics: they are
  the week day, month name, day and year of its calendar date in the two orders, with the
  same time of day in both.
\<close>

theorem date_texts_exact:
  assumes x: "holds_time x (f64_of_int i)" "\<bar>i\<bar> \<le> MAX_MS"
    and v: "valid_date Y M D" "civil_day Y M D = i div MS_DAY"
  shows "date_proto_to_date_string (Some x) = Some (Inr (WEEKDAYS ! nat ((i div MS_DAY + 4) mod 7) @ [32] @ MONTHS ! nat M @ [32]
        @ int_padded 2 D @ [32] @ year_text Y))
    \<and> date_proto_to_string (Some x) = Some (Inr (WEEKDAYS ! nat ((i div MS_DAY + 4) mod 7) @ [32] @ MONTHS ! nat M @ [32]
        @ int_padded 2 D @ [32] @ year_text Y @ [32] @ time_string (f64_of_int i)))
    \<and> date_proto_to_utc_string (Some x) = Some (Inr (WEEKDAYS ! nat ((i div MS_DAY + 4) mod 7) @ [44, 32] @ int_padded 2 D @ [32]
        @ MONTHS ! nat M @ [32] @ year_text Y @ [32] @ clock_text (f64_of_int i) @ ascii '' GMT''))
    \<and> clock_text (f64_of_int i) = int_padded 2 (i mod MS_DAY div 3600000) @ [58] @ int_padded 2 (i mod MS_DAY div 60000 mod 60)
        @ [58] @ int_padded 2 (i mod MS_DAY div 1000 mod 60)"
proof -
  define t where "t = f64_of_int i"
  have t: "is_whole t i" and i: "\<bar>i\<bar> \<le> 2 ^ 53 - 2" using x(2) is_whole_of_int [of i] by (simp_all add: t_def MAX_MS_def)
  have nan: "\<not> f64_is_nan t" using t by (simp add: is_whole_def f64_is_finite_def f64_is_nan_def)
  obtain y mo d where f: "year_from_time t = Some y" "is_whole y Y" "month_from_time t = Some mo" "is_whole mo M"
    "date_from_time t = Some d" "is_whole d D" "\<bar>Y\<bar> \<le> 1000000"
    by (rule date_fields [OF t x(2) v(1) v(2) [unfolded MS_DAY_def]])
  define k where "k = nat ((i div MS_DAY + 4) mod 7)"
  have k: "k < 7" "is_whole (week_day t) (int k)" using week_day_whole [OF t i] by (simp_all add: k_def MS_DAY_def)
  have M: "nat M < 12" "is_whole mo (int (nat M))" using v(1) f(4) by (auto simp: valid_date_def)
  have tables: "length WEEKDAYS = 7" "length MONTHS = 12" by (simp_all add: WEEKDAYS_def MONTHS_def)
  have wd: "list_get WEEKDAYS (f64_as_usize (week_day t)) = Some (WEEKDAYS ! k)"
    using as_usize_whole [OF k(2)] k(1) tables by simp
  have mon: "list_get MONTHS (f64_as_usize mo) = Some (MONTHS ! nat M)"
    using as_usize_whole [OF M(2)] M(1) tables by simp
  have as: "f64_as_i64 g = n" if "is_whole g n" "\<bar>n\<bar> \<le> 1000000" for g n using that by (intro as_i64_whole) simp_all
  have Y: "format_year_plain y = year_text Y" using as [OF f(2,7)] by (simp add: format_year_plain_def year_text_def)
  have "D \<le> 31" using v(1) month_days_bound [OF M(1), of "leap Y"] by (simp add: valid_date_def)
  then have D: "f64_as_i64 d = D" using as [OF f(6)] v(1) by (simp add: valid_date_def)
  note clock = clock_whole [OF t i, folded MS_DAY_def] and small = clock_bounds [of i, folded MS_DAY_def]
  have lift: "\<bar>n\<bar> \<le> 1000 \<Longrightarrow> \<bar>n\<bar> \<le> 1000000" for n :: int by simp
  have "clock_text t = int_padded 2 (i mod MS_DAY div 3600000) @ [58] @ int_padded 2 (i mod MS_DAY div 60000 mod 60)
      @ [58] @ int_padded 2 (i mod MS_DAY div 1000 mod 60)"
    unfolding clock_text_def as [OF clock(1) lift [OF small(1)]] as [OF clock(2) lift [OF small(2)]] as [OF clock(3) lift [OF small(3)]] ..
  moreover have ds: "date_string t = Some (Some (WEEKDAYS ! k @ [32] @ MONTHS ! nat M @ [32] @ int_padded 2 D @ [32] @ year_text Y))"
    by (simp only: date_string_def nan if_False wd mon f(1,3,5) bind.bind_lunit option.map Y D)
  moreover have "date_proto_to_utc_string (Some x) = Some (Inr (WEEKDAYS ! k @ [44, 32] @ int_padded 2 D @ [32]
      @ MONTHS ! nat M @ [32] @ year_text Y @ [32] @ clock_text t @ ascii '' GMT''))"
    by (simp only: date_proto_to_utc_string_def holds_time_reads [OF x(1), folded t_def] nan if_False wd mon f(1,3,5) bind.bind_lunit option.map Y D)
  ultimately show ?thesis
    by (simp add: date_proto_to_date_string_def date_proto_to_string_def format_date_time_def
      holds_time_reads [OF x(1), folded t_def] flip: k_def t_def)
qed

theorem date_texts_exact_witness:
  "date_proto_to_date_string (Some sample_date) = Some (Inr (WEEKDAYS ! 4 @ [32] @ MONTHS ! 1 @ [32] @ int_padded 2 29 @ [32] @ year_text 2024))"
  using date_texts_exact [OF sample_date_holds] by (simp add: MS_DAY_def)

end
