(* ===== verification/JsonText.thy ===== *)
theory JsonText
  imports Dates
begin

text \<open>
  JSON texts (\<open>v12-engine/src/builtins/json.rs\<close>): the parser of \<open>JSON.parse\<close> and the string
  quoting and layout of \<open>JSON.stringify\<close>. A \<open>&str\<close> is its list of Unicode scalar values, and the
  parser's position is the list of those that remain. Its errors differ in their message alone
  and are one value here, with the context they are raised in. The operations of the context
  the parser builds its values with are parameters.
\<close>

section \<open>Tokens\<close>

definition json_ws :: "nat list \<Rightarrow> nat list" where "json_ws s = dropWhile (\<lambda>c. c \<in> {32, 9, 10, 13}) s"

definition json_expect :: "nat \<Rightarrow> nat list \<Rightarrow> nat list option" where
  "json_expect b s = (case s of c # r \<Rightarrow> if c = b then Some r else None | [] \<Rightarrow> None)"

definition json_literal :: "nat list \<Rightarrow> js_value \<Rightarrow> nat list \<Rightarrow> (js_value \<times> nat list) option" where
  "json_literal word v s = (if take (length word) s = word then Some (v, drop (length word) s) else None)"

text \<open>Four characters read by \<open>u16::from_str_radix\<close>, which takes a plus sign.\<close>

definition digits_radix :: "nat \<Rightarrow> nat list \<Rightarrow> nat option" where
  "digits_radix radix cs =
     (let ds = (case cs of c # r \<Rightarrow> if c = 43 \<and> r \<noteq> [] then r else cs | [] \<Rightarrow> cs)
      in if ds = [] \<or> \<not> list_all (\<lambda>c. to_digit radix c \<noteq> None) ds then None
         else Some (fold (\<lambda>c acc. acc * radix + the (to_digit radix c)) ds 0))"

definition json_hex4 :: "nat list \<Rightarrow> (nat \<times> nat list) option" where
  "json_hex4 s = (if length s < 4 then None else map_option (\<lambda>u. (u, drop 4 s)) (digits_radix 16 (take 4 s)))"

definition json_unicode :: "nat list \<Rightarrow> (nat \<times> nat list) option" where
  "json_unicode s =
     Option.bind (json_hex4 s) (\<lambda>(u, s).
       let low = (if 0xD800 \<le> u \<and> u < 0xDC00 \<and> take 2 s = [92, 117]
                  then Option.bind (json_hex4 (drop 2 s)) (\<lambda>(low, s). if 0xDC00 \<le> low \<and> low < 0xE000 then Some (low, s) else None)
                  else None)
       in case low of
            Some (low, s) \<Rightarrow> Some (0x10000 + (u - 0xD800) * 0x400 + (low - 0xDC00), s)
          | None \<Rightarrow> if 0xD800 \<le> u \<and> u < 0xE000 then None else Some (u, s))"

definition json_escape :: "nat list \<Rightarrow> (nat \<times> nat list) option" where
  "json_escape s =
     (case s of [] \<Rightarrow> None
      | e # r \<Rightarrow>
          if e = 34 then Some (34, r) else if e = 92 then Some (92, r) else if e = 47 then Some (47, r)
          else if e = 98 then Some (8, r) else if e = 102 then Some (12, r) else if e = 110 then Some (10, r)
          else if e = 114 then Some (13, r) else if e = 116 then Some (9, r)
          else if e = 117 then json_unicode r else None)"

lemma json_escape_shorter: "json_escape s = Some (c, r) \<Longrightarrow> length r < length s"
  by (auto simp: json_escape_def json_unicode_def json_hex4_def Let_def split: list.splits if_splits option.splits prod.splits bind_splits)

function json_chars :: "nat list \<Rightarrow> nat list \<Rightarrow> (nat list \<times> nat list) option" where
  "json_chars s out =
     (case s of [] \<Rightarrow> None
      | c # r \<Rightarrow>
          if c = 34 then Some (out, r)
          else if c = 92 then (case json_escape r of None \<Rightarrow> None | Some (e, r') \<Rightarrow> json_chars r' (out @ [e]))
          else if c < 32 then None
          else json_chars r (out @ [c]))"
  by pat_completeness auto
termination by (relation "measure (\<lambda>(s, _). length s)") (auto dest: json_escape_shorter)

declare json_chars.simps [simp del]

definition json_string :: "nat list \<Rightarrow> (nat list \<times> nat list) option" where
  "json_string s = Option.bind (json_expect 34 s) (\<lambda>s. json_chars s [])"

text \<open>
  A number: an optional minus sign, digits, and optionally a fraction and an exponent, handed
  to \<open>str::parse::<f64>\<close>, which rejects an exponent without digits. Negative zero stays a double.
\<close>

definition json_number :: "nat list \<Rightarrow> (js_value \<times> nat list) option" where
  "json_number s =
     (let (neg, s) = (case json_expect 45 s of Some r \<Rightarrow> (True, r) | None \<Rightarrow> (False, s))
      in case split_decimal s of (whole, fr, ex, rest) \<Rightarrow>
           if whole = [] then None
           else case ex of Some (_, []) \<Rightarrow> None
             | _ \<Rightarrow>
               let e = (case ex of None \<Rightarrow> 0 | Some (m, ds) \<Rightarrow> if m then - int (digits_value ds) else int (digits_value ds));
                   d = f64_decimal (digits_value (whole @ fr)) (e - int (length fr));
                   n = (if neg then f64_neg d else d)
               in Some (if f64_eq n 0 \<and> neg then from_f64 (f64_neg 0) else js_number n, rest))"

section \<open>Values\<close>

text \<open>The context: \<open>intern_text\<close>, the allocation of an object linked to its prototype, \<open>define_json_prop\<close>, \<open>alloc_array\<close>.\<close>

record 'c json_ctx =
  jc_string :: "nat list \<Rightarrow> 'c \<Rightarrow> js_value \<times> 'c"
  jc_object :: "'c \<Rightarrow> handle \<times> 'c"
  jc_define :: "handle \<Rightarrow> nat list \<Rightarrow> js_value \<Rightarrow> 'c \<Rightarrow> 'c"
  jc_array :: "js_value list \<Rightarrow> 'c \<Rightarrow> handle \<times> 'c"

text \<open>A parse in a context ends in a syntax error, or in a value and the text that remains.\<close>

type_synonym 'c json_result = "'c + js_value \<times> nat list \<times> 'c"

definition jbind :: "'c json_result option \<Rightarrow> (js_value \<Rightarrow> nat list \<Rightarrow> 'c \<Rightarrow> ('c + 'b) option) \<Rightarrow> ('c + 'b) option" where
  "jbind r f = (case r of None \<Rightarrow> None | Some (Inl c) \<Rightarrow> Some (Inl c) | Some (Inr (v, s, c)) \<Rightarrow> f v s c)"

definition lift_token :: "'c \<Rightarrow> (js_value \<times> nat list) option \<Rightarrow> 'c json_result option" where
  "lift_token c r = Some (case r of None \<Rightarrow> Inl c | Some (v, s) \<Rightarrow> Inr (v, s, c))"

text \<open>
  \<open>value\<close>, the loop of \<open>object\<close> and the loop of \<open>array\<close>. The first argument bounds the number of
  nested calls and iterations; \<open>None\<close> is running out of it.
\<close>

fun parse_value :: "'c json_ctx \<Rightarrow> nat \<Rightarrow> nat list \<Rightarrow> 'c \<Rightarrow> 'c json_result option"
  and parse_members :: "'c json_ctx \<Rightarrow> nat \<Rightarrow> handle \<Rightarrow> nat list \<Rightarrow> 'c \<Rightarrow> 'c json_result option"
  and parse_elements :: "'c json_ctx \<Rightarrow> nat \<Rightarrow> js_value list \<Rightarrow> nat list \<Rightarrow> 'c \<Rightarrow> 'c json_result option" where
  "parse_value J 0 s c = None"
| "parse_value J (Suc n) s c =
     (case json_ws s of [] \<Rightarrow> Some (Inl c)
      | x # r \<Rightarrow>
          if x = 123 then
            (let (obj, c) = jc_object J c; r = json_ws r
             in case json_expect 125 r of Some r \<Rightarrow> Some (Inr (js_object obj, r, c)) | None \<Rightarrow> parse_members J n obj r c)
          else if x = 91 then
            (let r = json_ws r
             in case json_expect 93 r of
                  Some r \<Rightarrow> let (a, c) = jc_array J [] c in Some (Inr (js_object a, r, c))
                | None \<Rightarrow> parse_elements J n [] r c)
          else if x = 34 then
            (case json_string (x # r) of None \<Rightarrow> Some (Inl c)
             | Some (t, r) \<Rightarrow> let (v, c) = jc_string J t c in Some (Inr (v, r, c)))
          else if x = 116 then lift_token c (json_literal [116, 114, 117, 101] js_true (x # r))
          else if x = 102 then lift_token c (json_literal [102, 97, 108, 115, 101] js_false (x # r))
          else if x = 110 then lift_token c (json_literal [110, 117, 108, 108] js_null (x # r))
          else if x = 45 \<or> is_decimal x then lift_token c (json_number (x # r))
          else Some (Inl c))"
| "parse_members J 0 obj s c = None"
| "parse_members J (Suc n) obj s c =
     (case json_string (json_ws s) of None \<Rightarrow> Some (Inl c)
      | Some (key, s) \<Rightarrow>
          (case json_expect 58 (json_ws s) of None \<Rightarrow> Some (Inl c)
           | Some s \<Rightarrow>
               jbind (parse_value J n s c) (\<lambda>v s c.
                 let c = jc_define J obj key v c
                 in case json_ws s of [] \<Rightarrow> Some (Inl c)
                    | x # r \<Rightarrow> if x = 44 then parse_members J n obj r c
                        else if x = 125 then Some (Inr (js_object obj, r, c)) else Some (Inl c))))"
| "parse_elements J 0 items s c = None"
| "parse_elements J (Suc n) items s c =
     jbind (parse_value J n s c) (\<lambda>v s c.
       case json_ws s of [] \<Rightarrow> Some (Inl c)
       | x # r \<Rightarrow> if x = 44 then parse_elements J n (items @ [v]) r c
           else if x = 93 then (let (a, c) = jc_array J (items @ [v]) c in Some (Inr (js_object a, r, c)))
           else Some (Inl c))"

text \<open>\<open>json_parse\<close> on a text. Two calls consume at least a character, so twice their number and one is enough.\<close>

definition json_parse :: "'c json_ctx \<Rightarrow> nat list \<Rightarrow> 'c \<Rightarrow> ('c + js_value \<times> 'c) option" where
  "json_parse J text c =
     jbind (parse_value J (2 * length text + 1) text c) (\<lambda>v s c. if json_ws s = [] then Some (Inr (v, c)) else Some (Inl c))"

section \<open>Quoting and layout\<close>

definition hex_digit :: "nat \<Rightarrow> nat" where "hex_digit d = (if d < 10 then 48 + d else 87 + d)"

definition hex_escape :: "nat \<Rightarrow> nat list" where
  "hex_escape u = [92, 117, hex_digit (u div 4096 mod 16), hex_digit (u div 256 mod 16), hex_digit (u div 16 mod 16), hex_digit (u mod 16)]"

fun quote_body :: "u16 list \<Rightarrow> nat list" where
  "quote_body [] = []"
| "quote_body (u # us) =
     (let n = unat u in
      if n = 8 then [92, 98] @ quote_body us else if n = 9 then [92, 116] @ quote_body us
      else if n = 10 then [92, 110] @ quote_body us else if n = 12 then [92, 102] @ quote_body us
      else if n = 13 then [92, 114] @ quote_body us else if n = 34 then [92, 34] @ quote_body us
      else if n = 92 then [92, 92] @ quote_body us
      else if n < 32 then hex_escape n @ quote_body us
      else if 0xD800 \<le> n \<and> n \<le> 0xDBFF then
        (case us of
           lo # us' \<Rightarrow> if 0xDC00 \<le> unat lo \<and> unat lo \<le> 0xDFFF
             then (0x10000 + (n - 0xD800) * 0x400 + (unat lo - 0xDC00)) # quote_body us'
             else hex_escape n @ quote_body us
         | [] \<Rightarrow> hex_escape n @ quote_body us)
      else if 0xDC00 \<le> n \<and> n \<le> 0xDFFF then hex_escape n @ quote_body us
      else n # quote_body us)"

definition quote_units :: "u16 list \<Rightarrow> nat list" where "quote_units us = [34] @ quote_body us @ [34]"

definition newline_indent :: "nat list \<Rightarrow> nat \<Rightarrow> nat list" where
  "newline_indent unit depth = (if unit = [] then [] else 10 # concat (replicate depth unit))"

section \<open>The parser returns\<close>

lemma json_ws_shorter: "length (json_ws s) \<le> length s"
  by (simp add: json_ws_def length_dropWhile_le)

lemma json_chars_shorter: "json_chars s out = Some (t, r) \<Longrightarrow> length r < length s"
proof (induction s out rule: json_chars.induct)
  case (1 s out)
  show ?case
  proof (cases s)
    case Nil
    then show ?thesis using "1.prems" by (simp add: json_chars.simps)
  next
    case (Cons c s')
    consider "c = 34" | "c = 92" | "c \<noteq> 34" "c \<noteq> 92" by blast
    then show ?thesis
    proof cases
      case 1
      then show ?thesis using "1.prems" Cons by (simp add: json_chars.simps)
    next
      case 2
      then obtain e r' where e: "json_escape s' = Some (e, r')" "json_chars r' (out @ [e]) = Some (t, r)"
        using "1.prems" Cons by (subst (asm) json_chars.simps) (auto split: option.splits)
      then show ?thesis using "1.IH"(1) [OF Cons _ 2 e(1) refl e(2)] json_escape_shorter [OF e(1)] 2 Cons by simp
    next
      case 3
      then show ?thesis using "1.prems" "1.IH"(2) [OF Cons] Cons
        by (subst (asm) json_chars.simps) (auto split: if_splits)
    qed
  qed
qed

lemma json_expect_Some: "json_expect b s = Some r \<longleftrightarrow> s = b # r"
  by (auto simp: json_expect_def split: list.splits)

lemma json_string_shorter: "json_string s = Some (t, r) \<Longrightarrow> length r < length s"
  using json_chars_shorter by (fastforce simp: json_string_def json_expect_Some bind_eq_Some_conv)

lemma split_decimal_shorter:
  "split_decimal s = (whole, fr, ex, rest) \<Longrightarrow> length rest + length whole \<le> length s"
proof -
  assume d: "split_decimal s = (whole, fr, ex, rest)"
  define a where "a = dropWhile is_decimal s"
  have a: "length (takeWhile is_decimal s) + length a = length s"
    unfolding a_def by (metis length_append takeWhile_dropWhile_id)
  have le: "length (dropWhile is_decimal r) \<le> length r" for r by (rule length_dropWhile_le)
  obtain fr' b where b: "(case a of c # r \<Rightarrow> if c = 46 then (takeWhile is_decimal r, dropWhile is_decimal r) else ([], a) | [] \<Rightarrow> ([], a)) = (fr', b)"
    by (cases "(case a of c # r \<Rightarrow> if c = 46 then (takeWhile is_decimal r, dropWhile is_decimal r) else ([], a) | [] \<Rightarrow> ([], a))")
  have 1: "length b \<le> length a" using b le by (auto split: list.splits if_splits intro: le_SucI)
  have "(case b of c # r \<Rightarrow>
          if c = 101 \<or> c = 69 then
            (let (neg, r) = (case r of c # r' \<Rightarrow> if c = 43 then (False, r') else if c = 45 then (True, r') else (False, r)
                             | [] \<Rightarrow> (False, r))
             in (Some (neg, takeWhile is_decimal r), dropWhile is_decimal r))
          else (None, b)
        | [] \<Rightarrow> (None, b)) = (ex, rest)"
    using d b by (simp add: split_decimal_def Let_def a_def [symmetric] split: prod.splits)
  then have 2: "length rest \<le> length b"
    by (cases b) (auto split: list.splits if_splits intro: le_trans [OF le] le_SucI)
  have "whole = takeWhile is_decimal s" using d by (auto simp: split_decimal_def Let_def split: prod.splits)
  with a 1 2 show ?thesis by simp
qed

lemma json_number_shorter: "json_number s = Some (v, r) \<Longrightarrow> length r < length s"
proof -
  assume n: "json_number s = Some (v, r)"
  define s' where "s' = (case json_expect 45 s of Some r \<Rightarrow> r | None \<Rightarrow> s)"
  have s': "length s' \<le> length s" by (auto simp: s'_def json_expect_Some split: option.split)
  obtain whole fr ex where d: "split_decimal s' = (whole, fr, ex, r)" "whole \<noteq> []"
    using n by (auto simp: json_number_def s'_def Let_def split: option.splits prod.splits if_splits list.splits)
  then show ?thesis using split_decimal_shorter [OF d(1)] s' by (cases whole) simp_all
qed

lemma token_shorter: "lift_token c x = Some (Inr (v, r, c')) \<Longrightarrow> x = Some (v, r) \<and> c' = c"
  by (auto simp: lift_token_def split: option.splits)

lemma json_literal_shorter: "json_literal w u s = Some (v, r) \<Longrightarrow> w \<noteq> [] \<Longrightarrow> length r < length s"
  by (cases w; cases s) (auto simp: json_literal_def split: if_splits)

definition returns :: "nat list \<Rightarrow> 'c json_result option \<Rightarrow> bool" where
  "returns s r \<longleftrightarrow> r \<noteq> None \<and> (\<forall>v rest c'. r = Some (Inr (v, rest, c')) \<longrightarrow> length rest < length s)"

lemma returns_intros:
  "returns s (Some (Inl c))" "length rest < length s \<Longrightarrow> returns s (Some (Inr (v, rest, c)))"
  "returns s' r \<Longrightarrow> length s' \<le> length s \<Longrightarrow> returns s r"
  by (fastforce simp: returns_def)+

lemma returns_token:
  assumes "\<And>v r. x = Some (v, r) \<Longrightarrow> length r < length s"
  shows "returns s (lift_token c x)"
  using assms by (auto simp: returns_def lift_token_def split: option.splits)

lemma returns_jbind:
  assumes "returns s r" "\<And>v rest c. length rest < length s \<Longrightarrow> returns s (f v rest c)"
  shows "returns s (jbind r f)"
proof (cases r)
  case (Some x)
  show ?thesis
  proof (cases x)
    case (Inl c)
    then show ?thesis by (simp add: Some jbind_def returns_intros)
  next
    case (Inr y)
    obtain v rest c where y: "y = (v, rest, c)" by (cases y)
    have "length rest < length s" using assms(1) by (simp add: returns_def Some Inr y)
    then show ?thesis using assms(2) by (simp add: Some Inr y jbind_def)
  qed
qed (use assms in \<open>simp add: returns_def\<close>)

lemma parse_returns:
  "(2 * length s < n \<longrightarrow> returns s (parse_value J n s c)) \<and>
   (2 * length s < n \<longrightarrow> returns s (parse_members J n obj s c)) \<and>
   (2 * length s + 1 < n \<longrightarrow> returns s (parse_elements J n items s c))"
proof (induction n arbitrary: s c obj items)
  case (Suc n)
  have IH: "2 * length s < n \<Longrightarrow> returns s (parse_value J n s c)" "2 * length s < n \<Longrightarrow> returns s (parse_members J n obj s c)"
    "2 * length s + 1 < n \<Longrightarrow> returns s (parse_elements J n items s c)" for s c obj items
    using Suc.IH by blast+
  have shorter: "2 * length s' < n" if "length s' < length s" "2 * length s < Suc n" for s' using that by simp
  have one: "returns s (parse_value J (Suc n) s c)" if fuel: "2 * length s < Suc n"
  proof (cases "json_ws s")
    case Nil
    then show ?thesis by (simp add: returns_intros)
  next
    case (Cons x r)
    have r: "length r < length s" "length (x # r) \<le> length s" using json_ws_shorter [of s] Cons by simp_all
    have w: "length (json_ws r) < length s" using json_ws_shorter [of r] r(1) by (rule le_less_trans)
    have tail: "length r' < length s" if "json_expect b (json_ws r) = Some r'" for b r' using that w by (simp add: json_expect_Some)
    have members: "returns s (parse_members J n obj (json_ws r) c)" for obj c
      by (rule returns_intros(3) [OF IH(2)]) (use w fuel in simp_all)
    have elements: "returns s (parse_elements J n [] (json_ws r) c)" for c
      by (rule returns_intros(3) [OF IH(3)]) (use w fuel in simp_all)
    have token: "returns s (lift_token c y)" if "\<And>v z. y = Some (v, z) \<Longrightarrow> length z < length (x # r)" for y c
      using that r(2) by (intro returns_token) (metis less_le_trans)
    have literal: "returns s (lift_token c (json_literal (y # ys) v (x # r)))" for y ys v
      by (rule token, erule json_literal_shorter) simp
    have string: "length z < length s" if "json_string (x # r) = Some (t, z)" for t z
      using json_string_shorter [OF that] r(2) by (rule less_le_trans)
    consider "x = 123" | "x = 91" | "x = 34" | "x = 116" | "x = 102" | "x = 110" | "x = 45 \<or> is_decimal x"
      | "x \<notin> {123, 91, 34, 116, 102, 110, 45}" "\<not> is_decimal x" by blast
    then show ?thesis
    proof cases
      case 1
      then show ?thesis using members tail
        by (cases "jc_object J c") (auto simp: Cons Let_def returns_intros split: option.split)
    next
      case 2
      then show ?thesis using elements tail
        by (cases "jc_array J [] c") (auto simp: Cons Let_def returns_intros split: option.split)
    next
      case 3
      show ?thesis
      proof (cases "json_string (34 # r)")
        case None
        then show ?thesis by (simp add: Cons 3 returns_intros)
      next
        case (Some y)
        obtain t z where y: "y = (t, z)" by (cases y)
        have "length z < length s" using string [of t z] Some y 3 by simp
        then show ?thesis by (simp add: Cons 3 Some y returns_intros split: prod.split)
      qed
    next
      case 7
      then have "returns s (lift_token c (json_number (x # r)))" by (intro token json_number_shorter)
      then show ?thesis using 7 by (auto simp: Cons)
    next
      case 8
      then show ?thesis by (auto simp: Cons returns_intros)
    next
      case 4
      then show ?thesis using literal [of 116 "[114, 117, 101]" js_true] by (simp add: Cons)
    next
      case 5
      then show ?thesis using literal [of 102 "[97, 108, 115, 101]" js_false] by (simp add: Cons)
    next
      case 6
      then show ?thesis using literal [of 110 "[117, 108, 108]" js_null] by (simp add: Cons)
    qed
  qed
  have two: "returns s (parse_members J (Suc n) obj s c)" if fuel: "2 * length s < Suc n"
  proof -
    have step: "returns s (jbind (parse_value J n s2 c) (\<lambda>v s c.
                 let c = jc_define J obj key v c
                 in case json_ws s of [] \<Rightarrow> Some (Inl c)
                    | x # r \<Rightarrow> if x = 44 then parse_members J n obj r c
                        else if x = 125 then Some (Inr (js_object obj, r, c)) else Some (Inl c)))"
      if s2: "length s2 < length s" for s2 key
    proof (rule returns_intros(3) [OF returns_jbind])
      show "returns s2 (parse_value J n s2 c)" using s2 fuel by (intro IH) simp
      fix v and rest :: "nat list" and c assume rest: "length rest < length s2"
      show "returns s2 (let c = jc_define J obj key v c
                 in case json_ws rest of [] \<Rightarrow> Some (Inl c)
                    | x # r \<Rightarrow> if x = 44 then parse_members J n obj r c
                        else if x = 125 then Some (Inr (js_object obj, r, c)) else Some (Inl c))"
        using rest s2 fuel json_ws_shorter [of rest]
        by (auto simp: Let_def returns_intros(1,2) intro!: returns_intros(3) [OF IH(2)] split: list.split)
    qed (use s2 in simp)
    show ?thesis
    proof (cases "json_string (json_ws s)")
      case None
      then show ?thesis by (simp add: returns_intros(1))
    next
      case key: (Some y)
      obtain k s1 where y: "y = (k, s1)" by (cases y)
      show ?thesis
      proof (cases "json_expect 58 (json_ws s1)")
        case None
        then show ?thesis by (simp add: key y returns_intros(1))
      next
        case (Some s2)
        have "length s2 < length s"
          using json_string_shorter [OF key [unfolded y]] json_ws_shorter [of s] json_ws_shorter [of s1] Some
          by (simp add: json_expect_Some)
        then show ?thesis using step by (simp add: key y Some)
      qed
    qed
  qed
  have three: "returns s (parse_elements J (Suc n) items s c)" if fuel: "2 * length s + 1 < Suc n"
  proof (simp, rule returns_jbind)
    show "returns s (parse_value J n s c)" using fuel by (intro IH) simp
    fix v and rest :: "nat list" and c assume rest: "length rest < length s"
    show "returns s (case json_ws rest of [] \<Rightarrow> Some (Inl c)
       | x # r \<Rightarrow> if x = 44 then parse_elements J n (items @ [v]) r c
           else if x = 93 then (let (a, c) = jc_array J (items @ [v]) c in Some (Inr (js_object a, r, c)))
           else Some (Inl c))"
      using rest fuel json_ws_shorter [of rest]
      by (auto simp: Let_def returns_intros(1,2) intro!: returns_intros(3) [OF IH(3)] split: list.split prod.split)
  qed
  show ?case using one two three by blast
qed simp


section \<open>Reading back what was quoted\<close>

text \<open>\<open>is_follow\<close>: what may follow a number, whose digits it must not extend.\<close>

definition is_follow :: "nat list \<Rightarrow> bool" where
  "is_follow s \<longleftrightarrow> (case s of [] \<Rightarrow> True | c # _ \<Rightarrow> \<not> is_decimal c \<and> c \<notin> {46, 101, 69})"

lemma hex_digit_reads: "d < 16 \<Longrightarrow> to_digit 16 (hex_digit d) = Some d" "hex_digit d \<noteq> 43"
  by (auto simp: to_digit_def hex_digit_def Let_def)

lemma hex_escape_reads:
  assumes "n < 32"
  shows "json_escape (117 # tl (tl (hex_escape n)) @ r) = Some (n, r)"
proof -
  have d: "n div 4096 mod 16 = 0" "n div 256 mod 16 = 0" "n div 16 mod 16 = n div 16" "n div 16 < 16" using assms by simp_all
  have "digits_radix 16 [hex_digit 0, hex_digit 0, hex_digit (n div 16), hex_digit (n mod 16)] = Some (n div 16 * 16 + n mod 16)"
    using hex_digit_reads [of 0] hex_digit_reads [of "n div 16"] hex_digit_reads [of "n mod 16"] d(4)
    by (simp add: digits_radix_def)
  then have "json_hex4 (tl (tl (hex_escape n)) @ r) = Some (n, r)" by (simp add: json_hex4_def hex_escape_def d)
  moreover have "n < 0xD800" using assms by simp
  ultimately show ?thesis by (simp add: json_escape_def json_unicode_def Let_def)
qed

lemma json_chars_plain:
  "c \<noteq> 34 \<Longrightarrow> c \<noteq> 92 \<Longrightarrow> 32 \<le> c \<Longrightarrow> json_chars (c # r) out = json_chars r (out @ [c])"
  "json_escape s = Some (e, r) \<Longrightarrow> json_chars (92 # s) out = json_chars r (out @ [e])"
  "json_chars (34 # r) out = Some (out, r)"
  by (simp_all add: json_chars.simps)

lemma json_chars_quoted:
  assumes "list_all scalar_value t"
  shows "json_chars (quote_body (encode_utf16 t) @ r) out = json_chars r (out @ t)"
  using assms
proof (induction t arbitrary: out)
  case (Cons c t)
  let ?q = "quote_body (encode_utf16 t) @ r"
  have IH: "json_chars ?q (out @ [c]) = json_chars r (out @ c # t)" using Cons by simp
  have "scalar_value c" using Cons.prems by simp
  then show ?case
  proof (cases rule: encode_char_cases)
    case (One u)
    have esc: "json_escape (e # s) = Some (v, s)"
      if "(e, v) \<in> {(98, 8), (116, 9), (110, 10), (102, 12), (114, 13), (34, 34), (92, 92)}" for e v s
      using that by (auto simp: json_escape_def)
    have ctrl: "json_chars (hex_escape c @ ?q) out = json_chars ?q (out @ [c])" if "c < 32"
      using json_chars_plain(2) [OF hex_escape_reads [OF that, of ?q]] by (simp add: hex_escape_def)
    have u: "quote_body (encode_utf16 (c # t)) = quote_body (u # encode_utf16 t)" using One(1) by (simp add: encode_utf16_def)
    show ?thesis
      unfolding u using One(2,3) ctrl IH
      by (auto simp: Let_def esc json_chars_plain)
  next
    case (Two u v)
    let ?k = "c - 0x10000"
    have c: "c < 0x110000" using \<open>scalar_value c\<close> by (auto simp: scalar_value_def)
    have m: "?k mod 0x400 < 0x400" "?k div 0x400 * 0x400 + ?k mod 0x400 = ?k" by simp_all
    have lo: "0xDC00 \<le> unat v" "unat v \<le> 0xDFFF" using m(1) unfolding Two(3) by linarith+
    have hi: "0xD800 \<le> unat u" "unat u \<le> 0xDBFF" using Two(2,5) by linarith+
    have e: "0x10000 + (unat u - 0xD800) * 0x400 + (unat v - 0xDC00) = c"
      using m(2) Two(4) unfolding Two(2,3) by simp
    have "quote_body (encode_utf16 (c # t)) = quote_body (u # v # encode_utf16 t)" using Two(1) by (simp add: encode_utf16_def)
    also have "\<dots> = c # quote_body (encode_utf16 t)" using hi lo by (simp add: Let_def e)
    finally show ?thesis using IH Two(4) by (simp add: json_chars_plain(1))
  qed
qed (simp add: encode_utf16_def)

lemma json_string_quoted:
  "list_all scalar_value t \<Longrightarrow> json_string (quote_units (encode_utf16 t) @ r) = Some (t, r)"
  by (simp add: json_string_def quote_units_def json_expect_def json_chars_quoted json_chars_plain(3))

text \<open>Integers.\<close>

definition int_text :: "int \<Rightarrow> nat list" where
  "int_text n = (if n < 0 then 45 # decimal_text (nat (- n)) else decimal_text (nat n))"

lemma split_decimal_follow:
  assumes "list_all is_decimal ds" "is_follow r"
  shows "split_decimal (ds @ r) = (ds, [], None, r)"
proof -
  have "takeWhile is_decimal (ds @ r) = ds" "dropWhile is_decimal (ds @ r) = r"
    using assms by (auto simp: list_all_iff is_follow_def takeWhile_append2 dropWhile_append2 split: list.splits)
  then show ?thesis using assms(2) by (auto simp: split_decimal_def is_follow_def split: list.splits)
qed

lemma f64_decimal_int: "n < 2 ^ 53 \<Longrightarrow> f64_decimal n 0 = f64_of_int (int n)"
  using f64_round_int [of n 0 False]
  by (cases "n = 0") (simp_all add: f64_decimal_def f64_round_def f64_zero_def f64_pack_def f64_of_int_def)

lemma f64_neg_int: "0 < n \<Longrightarrow> n < 2 ^ 53 \<Longrightarrow> f64_neg (f64_of_int n) = f64_of_int (- n)"
  using f64_of_int_unique [OF whole_to_int [OF neg_whole [OF is_whole_of_int [of n]]]] by simp

lemma json_number_int:
  assumes "\<bar>n\<bar> < 2 ^ 53" "is_follow r"
  shows "json_number (int_text n @ r) = Some (js_number (f64_of_int n), r)"
proof -
  let ?d = "decimal_text (nat \<bar>n\<bar>)"
  have d: "list_all is_decimal ?d" "?d \<noteq> []" using decimal_text_digits by auto
  have v: "f64_decimal (digits_value ?d) 0 = f64_of_int \<bar>n\<bar>"
    using f64_decimal_int [of "nat \<bar>n\<bar>"] assms(1) by (simp add: digits_value_decimal)
  note s = split_decimal_follow [OF d(1) assms(2)]
  show ?thesis
  proof (cases "n < 0")
    case True
    have "\<not> f64_eq (f64_of_int n) 0"
      using True assms(1) compare_whole(3) [OF is_whole_of_int [OF assms(1)] zero_is_whole] by simp
    moreover have "f64_neg (f64_of_int (- n)) = f64_of_int n" using f64_neg_int [of "- n"] True assms(1) by simp
    ultimately show ?thesis
      using True s d(2) v by (simp add: json_number_def int_text_def json_expect_def)
  next
    case False
    have "hd ?d \<noteq> 45" using d by (cases ?d) auto
    then have "json_expect 45 (?d @ r) = None" using d(2) by (cases ?d) (auto simp: json_expect_def)
    then show ?thesis using False s d(2) v by (simp add: json_number_def int_text_def)
  qed
qed

section \<open>Documents\<close>

text \<open>
  A JSON document, the text \<open>write_value\<close> lays it out as with an indent unit at a depth, and
  the context operations that build it, in document order.
\<close>

datatype json = JNull | JBool bool | JNum int | JStr "nat list" | JArr "json list" | JObj "(nat list \<times> json) list"

fun render :: "nat list \<Rightarrow> nat \<Rightarrow> json \<Rightarrow> nat list"
  and render_items :: "nat list \<Rightarrow> nat \<Rightarrow> json list \<Rightarrow> nat list"
  and render_members :: "nat list \<Rightarrow> nat \<Rightarrow> (nat list \<times> json) list \<Rightarrow> nat list" where
  "render u d JNull = [110, 117, 108, 108]"
| "render u d (JBool b) = (if b then [116, 114, 117, 101] else [102, 97, 108, 115, 101])"
| "render u d (JNum n) = int_text n"
| "render u d (JStr t) = quote_units (encode_utf16 t)"
| "render u d (JArr vs) = (if vs = [] then [91, 93] else 91 # render_items u d vs @ newline_indent u d @ [93])"
| "render u d (JObj ms) = (if ms = [] then [123, 125] else 123 # render_members u d ms @ newline_indent u d @ [125])"
| "render_items u d [] = []"
| "render_items u d (v # vs) = newline_indent u (d + 1) @ render u (d + 1) v @ (if vs = [] then [] else 44 # render_items u d vs)"
| "render_members u d [] = []"
| "render_members u d ((k, v) # ms) =
     newline_indent u (d + 1) @ quote_units (encode_utf16 k) @ [58] @ (if u = [] then [] else [32]) @ render u (d + 1) v
     @ (if ms = [] then [] else 44 # render_members u d ms)"

fun build :: "'c json_ctx \<Rightarrow> json \<Rightarrow> 'c \<Rightarrow> js_value \<times> 'c"
  and build_items :: "'c json_ctx \<Rightarrow> json list \<Rightarrow> 'c \<Rightarrow> js_value list \<times> 'c"
  and build_members :: "'c json_ctx \<Rightarrow> handle \<Rightarrow> (nat list \<times> json) list \<Rightarrow> 'c \<Rightarrow> 'c" where
  "build J JNull c = (js_null, c)"
| "build J (JBool b) c = (from_bool b, c)"
| "build J (JNum n) c = (js_number (f64_of_int n), c)"
| "build J (JStr t) c = jc_string J t c"
| "build J (JArr vs) c = (let (xs, c) = build_items J vs c; (a, c) = jc_array J xs c in (js_object a, c))"
| "build J (JObj ms) c = (let (obj, c) = jc_object J c in (js_object obj, build_members J obj ms c))"
| "build_items J [] c = ([], c)"
| "build_items J (v # vs) c = (let (x, c) = build J v c; (xs, c) = build_items J vs c in (x # xs, c))"
| "build_members J obj [] c = c"
| "build_members J obj ((k, v) # ms) c = (let (x, c) = build J v c in build_members J obj ms (jc_define J obj k x c))"

text \<open>Integers a double holds exactly, and texts of scalar values.\<close>

fun json_ok :: "json \<Rightarrow> bool" where
  "json_ok (JNum n) \<longleftrightarrow> \<bar>n\<bar> < 2 ^ 53"
| "json_ok (JStr t) \<longleftrightarrow> list_all scalar_value t"
| "json_ok (JArr vs) \<longleftrightarrow> (\<forall>v \<in> set vs. json_ok v)"
| "json_ok (JObj ms) \<longleftrightarrow> (\<forall>(k, v) \<in> set ms. list_all scalar_value k \<and> json_ok v)"
| "json_ok _ \<longleftrightarrow> True"

definition is_blank :: "nat list \<Rightarrow> bool" where "is_blank u \<longleftrightarrow> list_all (\<lambda>c. c \<in> {32, 9, 10, 13}) u"

definition starts_value :: "nat list \<Rightarrow> bool" where
  "starts_value s \<longleftrightarrow> (case s of [] \<Rightarrow> False | c # _ \<Rightarrow> c \<in> {123, 91, 34, 116, 102, 110, 45} \<or> is_decimal c)"

lemma decimal_text_starts: "\<exists>c cs. decimal_text n = c # cs \<and> is_decimal c"
  using decimal_text_digits [of n] by (cases "decimal_text n") auto

lemma render_starts: "starts_value (render u d t @ r)"
proof (cases t)
  case (JNum n)
  then show ?thesis
    using decimal_text_starts [of "nat n"] decimal_text_starts [of "nat (- n)"]
    by (auto simp: starts_value_def int_text_def)
qed (auto simp: starts_value_def quote_units_def)

lemma json_ws_id: "starts_value s \<Longrightarrow> json_ws s = s"
  by (auto simp: starts_value_def json_ws_def split: list.splits)

lemma blank_indent: "is_blank u \<Longrightarrow> is_blank (newline_indent u d)"
  by (induction d) (auto simp: is_blank_def newline_indent_def list_all_iff split: if_splits)

lemma json_ws_blank: "is_blank w \<Longrightarrow> json_ws (w @ s) = json_ws s"
  by (simp add: is_blank_def json_ws_def list_all_iff dropWhile_append)

lemma json_ws_cons: "c \<notin> {32, 9, 10, 13} \<Longrightarrow> json_ws (c # s) = c # s"
  by (simp add: json_ws_def)

lemma follow_close: "is_blank w \<Longrightarrow> c \<in> {44, 93, 125} \<Longrightarrow> is_follow (w @ c # r)"
  by (cases w) (auto simp: is_follow_def is_blank_def)

text \<open>The scalars.\<close>

lemma parse_scalar:
  assumes "json_ws s = render u d t @ r" "is_follow r" "json_ok t" "t \<notin> range JArr" "t \<notin> range JObj"
  shows "parse_value J (Suc n) s c = Some (Inr (fst (build J t c), r, snd (build J t c)))"
proof (cases t)
  case JNull
  then show ?thesis using assms(1) by (simp add: lift_token_def json_literal_def)
next
  case (JBool b)
  then show ?thesis using assms(1) by (cases b) (simp_all add: lift_token_def json_literal_def from_bool_def)
next
  case (JNum k)
  have "json_number (int_text k @ r) = Some (js_number (f64_of_int k), r)" using assms(2,3) JNum by (intro json_number_int) simp_all
  moreover obtain x y where "int_text k = x # y" "x = 45 \<or> is_decimal x"
    using decimal_text_starts [of "nat k"] by (cases "k < 0") (auto simp: int_text_def)
  ultimately show ?thesis using assms(1) JNum by (auto simp: lift_token_def)
next
  case (JStr k)
  have "json_string (quote_units (encode_utf16 k) @ r) = Some (k, r)" using assms(3) JStr by (intro json_string_quoted) simp
  then show ?thesis using assms(1) JStr by (simp add: quote_units_def split: prod.split)
qed (use assms in auto)

text \<open>
  The three parsers on what the layout gives them, by induction on the document.
\<close>

definition reads_value :: "'c json_ctx \<Rightarrow> nat list \<Rightarrow> nat \<Rightarrow> json \<Rightarrow> bool" where
  "reads_value J u d t \<longleftrightarrow> (\<forall>n s r c. json_ws s = render u d t @ r \<longrightarrow> is_follow r \<longrightarrow> 2 * length s < n \<longrightarrow>
     parse_value J n s c = Some (Inr (fst (build J t c), r, snd (build J t c))))"

lemma render_ne: "0 < length (render u d t)"
  using render_starts [of u d t "[]"] by (auto simp: starts_value_def split: list.splits)

lemma parse_items:
  assumes "is_blank u" "vs \<noteq> []" "\<And>v. v \<in> set vs \<Longrightarrow> reads_value J u (d + 1) v"
    "json_ws s = json_ws (render_items u d vs @ newline_indent u d @ 93 # r)" "2 * length s + 1 < n"
  shows "parse_elements J n acc s c =
     (let (xs, c) = build_items J vs c; (a, c) = jc_array J (acc @ xs) c in Some (Inr (js_object a, r, c)))"
  using assms(2-)
proof (induction vs arbitrary: n acc s c)
  case (Cons v vs)
  obtain n' where n: "n = Suc n'" "2 * length s < n'" using Cons.prems(4) by (cases n) auto
  define r' where "r' = (if vs = [] then newline_indent u d @ 93 # r else 44 # render_items u d vs @ newline_indent u d @ 93 # r)"
  have "json_ws s = json_ws (newline_indent u (d + 1) @ render u (d + 1) v @ r')"
    using Cons.prems(3) by (simp add: r'_def)
  also have "\<dots> = render u (d + 1) v @ r'" by (simp only: json_ws_blank [OF blank_indent [OF assms(1)]] json_ws_id [OF render_starts])
  finally have s: "json_ws s = render u (d + 1) v @ r'" .
  have "is_follow r'" using follow_close [OF blank_indent [OF assms(1)], of 93] by (simp add: r'_def is_follow_def)
  then have v: "parse_value J n' s c = Some (Inr (fst (build J v c), r', snd (build J v c)))"
    using Cons.prems(2) [of v] s n(2) by (simp add: reads_value_def)
  show ?case
  proof (cases "vs = []")
    case True
    then have "json_ws r' = 93 # r" by (simp add: r'_def json_ws_blank [OF blank_indent [OF assms(1)]] json_ws_cons)
    then show ?thesis using v True by (simp add: n(1) jbind_def split: prod.split)
  next
    case False
    have "length r' < length s" using s json_ws_shorter [of s] render_ne [of u "d + 1" v] by (simp del: length_greater_0_conv)
    then have "2 * length (render_items u d vs @ newline_indent u d @ 93 # r) + 1 < n'" using n(2) False by (simp add: r'_def)
    note rest = Cons.IH [OF False Cons.prems(2) refl this]
    have "json_ws r' = 44 # render_items u d vs @ newline_indent u d @ 93 # r" using False by (simp add: r'_def json_ws_cons)
    then show ?thesis using v rest by (simp add: n(1) jbind_def split: prod.split)
  qed
qed simp

lemma parse_pairs:
  assumes "is_blank u" "ms \<noteq> []" "\<And>k v. (k, v) \<in> set ms \<Longrightarrow> list_all scalar_value k \<and> reads_value J u (d + 1) v"
    "json_ws s = json_ws (render_members u d ms @ newline_indent u d @ 125 # r)" "2 * length s < n"
  shows "parse_members J n obj s c = Some (Inr (js_object obj, r, build_members J obj ms c))"
  using assms(2-)
proof (induction ms arbitrary: n s c)
  case (Cons m ms)
  obtain k v where m: "m = (k, v)" by (cases m)
  obtain n' where n: "n = Suc n'" "2 * length s \<le> n'" using Cons.prems(4) by (cases n) auto
  define r' where "r' = (if ms = [] then newline_indent u d @ 125 # r else 44 # render_members u d ms @ newline_indent u d @ 125 # r)"
  define w where "w = (if u = [] then [] else [32 :: nat])"
  have w: "is_blank w" by (simp add: w_def is_blank_def)
  have "json_ws s = json_ws (newline_indent u (d + 1) @ quote_units (encode_utf16 k) @ 58 # w @ render u (d + 1) v @ r')"
    using Cons.prems(3) by (simp add: r'_def w_def m)
  also have "\<dots> = quote_units (encode_utf16 k) @ 58 # w @ render u (d + 1) v @ r'"
    by (simp only: json_ws_blank [OF blank_indent [OF assms(1)]]) (simp add: quote_units_def json_ws_cons)
  finally have s: "json_ws s = quote_units (encode_utf16 k) @ 58 # w @ render u (d + 1) v @ r'" .
  have key: "json_string (json_ws s) = Some (k, 58 # w @ render u (d + 1) v @ r')"
    using Cons.prems(2) [of k v] unfolding s by (intro json_string_quoted) (simp add: m)
  have len: "length (58 # w @ render u (d + 1) v @ r') < length s"
    using json_string_shorter [OF key] json_ws_shorter [of s] by simp
  have "is_follow r'" using follow_close [OF blank_indent [OF assms(1)], of 125] by (simp add: r'_def is_follow_def)
  moreover have "json_ws (w @ render u (d + 1) v @ r') = render u (d + 1) v @ r'"
    by (simp only: json_ws_blank [OF w] json_ws_id [OF render_starts])
  ultimately have v: "parse_value J n' (w @ render u (d + 1) v @ r') c = Some (Inr (fst (build J v c), r', snd (build J v c)))"
    using Cons.prems(2) [of k v] n(2) len by (simp add: reads_value_def m)
  have colon: "json_expect 58 (json_ws (58 # x)) = Some x" for x by (simp add: json_ws_cons json_expect_def)
  show ?case
  proof (cases "ms = []")
    case True
    then have "json_ws r' = 125 # r" by (simp add: r'_def json_ws_blank [OF blank_indent [OF assms(1)]] json_ws_cons)
    then show ?thesis using v True key by (simp add: n(1) m jbind_def colon split: prod.split)
  next
    case False
    have "2 * length (render_members u d ms @ newline_indent u d @ 125 # r) < n'" using n(2) False len by (simp add: r'_def)
    note rest = Cons.IH [OF False Cons.prems(2) refl this]
    have "json_ws r' = 44 # render_members u d ms @ newline_indent u d @ 125 # r" using False by (simp add: r'_def json_ws_cons)
    then show ?thesis using v rest key by (simp add: n(1) m jbind_def colon split: prod.split)
  qed
qed simp

lemma items_head:
  "is_blank u \<Longrightarrow> vs \<noteq> [] \<Longrightarrow> json_expect 93 (json_ws (render_items u d vs @ s)) = None"
  "is_blank u \<Longrightarrow> ms \<noteq> [] \<Longrightarrow> json_expect 125 (json_ws (render_members u d ms @ s)) = None"
proof -
  assume u: "is_blank u"
  note w = json_ws_blank [OF blank_indent [OF u]]
  assume "vs \<noteq> []"
  then obtain v vs' where v: "vs = v # vs'" by (cases vs) auto
  have 93: "json_expect 93 (render u (Suc d) v @ x) = None" for x
    using render_starts [of u "Suc d" v x] by (auto simp: starts_value_def json_expect_def split: list.splits)
  show "json_expect 93 (json_ws (render_items u d vs @ s)) = None" by (simp add: v w 93 json_ws_id [OF render_starts])
next
  assume u: "is_blank u" and "ms \<noteq> []"
  then show "json_expect 125 (json_ws (render_members u d ms @ s)) = None"
    by (cases ms; cases "hd ms") (auto simp: json_ws_blank [OF blank_indent [OF u]] quote_units_def json_ws_cons json_expect_def)
qed

lemma json_ws_idem: "json_ws (json_ws s) = json_ws s"
  by (simp add: json_ws_def dropWhile_idem)

lemma reads_scalar:
  assumes "json_ok t" "t \<notin> range JArr" "t \<notin> range JObj"
  shows "reads_value J u d t"
  unfolding reads_value_def
proof (intro allI impI)
  fix n s r c
  assume s: "json_ws s = render u d t @ r" "is_follow r" "2 * length s < n"
  then obtain n' where "n = Suc n'" by (cases n) auto
  then show "parse_value J n s c = Some (Inr (fst (build J t c), r, snd (build J t c)))"
    using parse_scalar [OF s(1,2) assms] by simp
qed

lemma document_reads:
  assumes "is_blank u" "json_ok t"
  shows "reads_value J u d t"
  using assms(2)
proof (induction t arbitrary: d)
  case (JArr vs)
  show ?case
    unfolding reads_value_def
  proof (intro allI impI)
    fix n s r c
    assume s: "json_ws s = render u d (JArr vs) @ r" "is_follow r" "2 * length s < n"
    then obtain n' where n: "n = Suc n'" by (cases n) auto
    show "parse_value J n s c = Some (Inr (fst (build J (JArr vs) c), r, snd (build J (JArr vs) c)))"
    proof (cases "vs = []")
      case True
      then show ?thesis using s(1) by (simp add: n json_ws_cons json_expect_def split: prod.split)
    next
      case False
      let ?b = "render_items u d vs @ newline_indent u d @ 93 # r"
      have b: "json_ws s = 91 # ?b" using s(1) False by simp
      have "2 * length (json_ws ?b) + 1 < n'"
        using b json_ws_shorter [of s] json_ws_shorter [of ?b] s(3) by (simp add: n)
      note elements = parse_items [OF assms(1) False JArr.IH json_ws_idem this]
      have "parse_elements J n' [] (json_ws ?b) c =
          (let (xs, c) = build_items J vs c; (a, c) = jc_array J ([] @ xs) c in Some (Inr (js_object a, r, c)))"
        using JArr.prems by (intro elements) auto
      then show ?thesis using items_head(1) [OF assms(1) False] by (simp add: n b Let_def split: prod.split)
    qed
  qed
next
  case (JObj ms)
  show ?case
    unfolding reads_value_def
  proof (intro allI impI)
    fix n s r c
    assume s: "json_ws s = render u d (JObj ms) @ r" "is_follow r" "2 * length s < n"
    then obtain n' where n: "n = Suc n'" by (cases n) auto
    show "parse_value J n s c = Some (Inr (fst (build J (JObj ms) c), r, snd (build J (JObj ms) c)))"
    proof (cases "ms = []")
      case True
      then show ?thesis using s(1) by (simp add: n json_ws_cons json_expect_def split: prod.split)
    next
      case False
      let ?b = "render_members u d ms @ newline_indent u d @ 125 # r"
      have b: "json_ws s = 123 # ?b" using s(1) False by simp
      have len: "2 * length (json_ws ?b) < n'"
        using b json_ws_shorter [of s] json_ws_shorter [of ?b] s(3) by (simp add: n)
      have ok: "list_all scalar_value k \<and> reads_value J u (d + 1) v" if "(k, v) \<in> set ms" for k v
        using JObj.prems JObj.IH [OF that, of v] that by fastforce
      note parse_pairs [OF assms(1) False ok json_ws_idem len]
      then show ?thesis using items_head(2) [OF assms(1) False] by (simp add: n b Let_def split: prod.split)
    qed
  qed
qed (rule reads_scalar; auto)+

text \<open>
  C19. \<open>JSON.parse\<close> reads back every document that \<open>JSON.stringify\<close> lays out: on the text of a
  document of integers, strings, booleans, nulls, arrays and objects, with any indent of
  blanks and any blanks around it, the parser performs exactly the context operations that
  build the document, in document order, and returns its value.
\<close>

theorem json_round_trip:
  assumes "is_blank u" "json_ok t" "is_blank w" "is_blank w'"
  shows "json_parse J (w @ render u d t @ w') c = Some (Inr (build J t c))"
proof -
  have ws: "json_ws (w @ render u d t @ w') = render u d t @ w'"
    by (simp only: json_ws_blank [OF assms(3)] json_ws_id [OF render_starts])
  have follow: "is_follow w'" using assms(4) by (auto simp: is_follow_def is_blank_def split: list.split)
  have reads: "parse_value J n s c = Some (Inr (fst (build J t c), r, snd (build J t c)))"
    if "json_ws s = render u d t @ r" "is_follow r" "2 * length s < n" for n s r
    using document_reads [OF assms(1,2), of J d] that unfolding reads_value_def by blast
  have "parse_value J (2 * length (w @ render u d t @ w') + 1) (w @ render u d t @ w') c =
      Some (Inr (fst (build J t c), w', snd (build J t c)))"
    by (rule reads [OF ws follow]) simp
  moreover have "json_ws w' = []" using assms(4) by (auto simp: is_blank_def json_ws_def list_all_iff)
  ultimately show ?thesis unfolding json_parse_def by (simp add: jbind_def)
qed

definition sample_ctx :: "nat list json_ctx" where
  "sample_ctx = \<lparr>jc_string = \<lambda>t c. (js_string (word_of_nat (length c)), t @ c), jc_object = \<lambda>c. (word_of_nat (length c), 1 # c),
     jc_define = \<lambda>_ k _ c. k @ c, jc_array = \<lambda>vs c. (word_of_nat (length c), length vs # c)\<rparr>"

definition sample_json :: json where
  "sample_json = JObj [([97, 10], JArr [JNum (- 12), JStr [0x1F600, 34], JNull]), ([], JObj [])]"

theorem json_round_trip_witness:
  "json_parse sample_ctx (render [32, 32] 0 sample_json) [] = Some (Inr (build sample_ctx sample_json []))"
  using json_round_trip [of "[32, 32]" sample_json "[]" "[]" sample_ctx 0 "[]"]
  by (simp add: is_blank_def sample_json_def scalar_value_def)

text \<open>
  Where the parser and the grammar part: a lone surrogate is quoted as an escape the parser
  rejects, a plus sign is a hexadecimal digit of an escape, a number may have leading zeros.
\<close>

lemma lone_surrogate_rejected: "json_string (quote_units [0xD800]) = None"
  by (simp add: quote_units_def Let_def hex_escape_def hex_digit_def json_string_def json_expect_def json_chars.simps json_escape_def
    json_unicode_def json_hex4_def digits_radix_def to_digit_def)

lemma signed_escape_accepted: "json_string [34, 92, 117, 43, 49, 50, 51, 34] = Some ([0x123], [])"
  by (simp add: json_string_def json_expect_def json_chars.simps json_escape_def
    json_unicode_def json_hex4_def digits_radix_def to_digit_def Let_def)

lemma leading_zero_accepted: "json_number [48, 49] = Some (js_number (f64_of_int 1), [])"
  using split_decimal_follow [of "[48, 49]" "[]"] f64_decimal_int [of 1]
  by (simp add: json_number_def json_expect_def is_follow_def digits_value_def)

end
