(* ===== verification/JobQueue.thy ===== *)
theory JobQueue
  imports Prelude
begin

text \<open>
  The microtask queue and the checkpoint that drains it (\<open>v12-engine/src/job_queue.rs\<close>,
  \<open>Engine::drain_checkpoint\<close> of \<open>engine/eval.rs\<close>). A job is a closure over the interpreter, so
  jobs and the interpreter are parameters: a record of the operations the two functions call.
  A job may do anything to the interpreter and push any jobs on the shared side channel.
\<close>

section \<open>The queue\<close>

definition MAX_QUEUE_LEN :: nat where "MAX_QUEUE_LEN = 10000"

definition queue_new :: "'j list" where "queue_new = []"
definition queue_len :: "'j list \<Rightarrow> nat" where "queue_len q = length q"
definition queue_is_empty :: "'j list \<Rightarrow> bool" where "queue_is_empty q \<longleftrightarrow> q = []"
definition queue_clear :: "'j list \<Rightarrow> 'j list" where "queue_clear q = []"

definition queue_enqueue :: "'j list \<Rightarrow> 'j \<Rightarrow> bool \<times> 'j list" where
  "queue_enqueue q j = (if MAX_QUEUE_LEN \<le> length q then (False, q) else (True, q @ [j]))"

definition ctx_enqueue :: "'j list \<Rightarrow> 'j \<Rightarrow> bool \<times> 'j list" where
  "ctx_enqueue pending j = (if MAX_QUEUE_LEN \<le> length pending then (False, pending) else (True, pending @ [j]))"

section \<open>Draining\<close>

text \<open>
  What the interpreter and the jobs do: run a job, list and clear the adoption requests, turn
  one into a job, report the deadline; for the checkpoint, take and perform settlements, count
  the queued resumes, attempt the next one, and report what is outstanding. The jobs an
  operation pushes on the side channel are part of its result.
\<close>

record ('m, 'j, 'a, 's) host =
  h_run :: "'j \<Rightarrow> 'm \<Rightarrow> 'm \<times> 'j list"
  h_adoptions :: "'m \<Rightarrow> 'a list"
  h_adopt :: "'a \<Rightarrow> 'm \<Rightarrow> 'm \<times> 'j"
  h_clear :: "'m \<Rightarrow> 'm"
  h_deadline :: "'m \<Rightarrow> bool"
  h_take_settlements :: "'m \<Rightarrow> 's list \<times> 'm"
  h_settle :: "'s \<Rightarrow> 'm \<Rightarrow> 'm \<times> 'j list"
  h_awaits :: "'m \<Rightarrow> nat"
  h_resume :: "'m \<Rightarrow> bool \<times> 'm \<times> 'j list"
  h_pending_awaits :: "'m \<Rightarrow> bool"
  h_pending_settlements :: "'m \<Rightarrow> bool"

text \<open>The adoption requests from the cursor on become jobs; performing one touches the heap alone.\<close>

definition adopt_requests :: "('m, 'j, 'a, 's) host \<Rightarrow> nat \<Rightarrow> 'm \<Rightarrow> 'm \<times> 'j list" where
  "adopt_requests H cursor m =
     fold (\<lambda>a (m, new). let (m', j) = h_adopt H a m in (m', new @ [j])) (drop cursor (h_adoptions H m)) (m, [])"

text \<open>
  The loop, with the jobs run so far in order, whose number is the source's count, and the
  state it stops in: the interpreter, the queue and the side channel.
\<close>

function drain_loop :: "('m, 'j, 'a, 's) host \<Rightarrow> nat \<Rightarrow> nat \<Rightarrow> 'm \<Rightarrow> 'j list \<Rightarrow> 'j list \<Rightarrow> 'j list \<times> 'm \<times> 'j list \<times> 'j list" where
  "drain_loop H count cursor m queue pending =
     (let requests = h_adoptions H m; (m, adopted) = adopt_requests H cursor m; cursor = max cursor (length requests);
          queue = queue @ pending @ adopted
      in case queue of
           [] \<Rightarrow> ([], m, [], [])
         | j # queue \<Rightarrow>
             let (m, pending) = h_run H j m; count = count + 1
             in if h_deadline H m \<or> MAX_QUEUE_LEN * 2 < count then ([j], m, queue, pending)
                else (case drain_loop H count cursor m queue pending of (trail, rest) \<Rightarrow> (j # trail, rest)))"
  by pat_completeness auto
termination by (relation "measure (\<lambda>(_, count, _). MAX_QUEUE_LEN * 2 + 1 - count)") auto

definition drain :: "('m, 'j, 'a, 's) host \<Rightarrow> 'm \<Rightarrow> 'j list \<Rightarrow> 'j list \<Rightarrow> 'j list \<times> 'm \<times> 'j list \<times> 'j list" where
  "drain H m queue pending =
     (case drain_loop H 0 0 m queue pending of (trail, m, queue, pending) \<Rightarrow> (trail, h_clear H m, queue, pending))"

section \<open>The checkpoint\<close>

text \<open>One pass, and the passes until one of the exits is met, which may never be.\<close>

definition settle_all :: "('m, 'j, 'a, 's) host \<Rightarrow> 'm \<Rightarrow> 'j list \<Rightarrow> nat \<times> 'm \<times> 'j list" where
  "settle_all H m pending =
     (case h_take_settlements H m of (ss, m) \<Rightarrow>
        (case fold (\<lambda>s (m, p). let (m', js) = h_settle H s m in (m', p @ js)) ss (m, pending) of (m, p) \<Rightarrow> (length ss, m, p)))"

definition adopt_follow_ups :: "'j list \<Rightarrow> 'j list \<Rightarrow> 'j list" where
  "adopt_follow_ups follow_ups queue = fold (\<lambda>j q. snd (queue_enqueue q j)) follow_ups queue"

definition resume_pass :: "('m, 'j, 'a, 's) host \<Rightarrow> 'm \<Rightarrow> 'j list \<Rightarrow> nat \<times> 'm \<times> 'j list" where
  "resume_pass H m pending =
     fold (\<lambda>_ (n, m, p). let (ok, m', js) = h_resume H m in (if ok then n + 1 else n, m', p @ js)) [0..<h_awaits H m] (0, m, pending)"

definition checkpoint_pass :: "('m, 'j, 'a, 's) host \<Rightarrow> 'm \<times> 'j list \<times> 'j list \<Rightarrow> nat \<times> bool \<times> 'm \<times> 'j list \<times> 'j list" where
  "checkpoint_pass H s =
     (let (m, queue, pending) = s; (settled, m, pending) = settle_all H m pending;
          follow_ups = pending; queue = adopt_follow_ups follow_ups queue;
          (trail, m, queue, pending) = drain H m queue [];
          (resumed, m, pending) = resume_pass H m pending;
          stop = h_deadline H m
            \<or> (queue_is_empty queue \<and> \<not> h_pending_awaits H m \<and> \<not> h_pending_settlements H m)
            \<or> (length follow_ups = 0 \<and> length trail = 0 \<and> resumed = 0 \<and> \<not> h_pending_settlements H m)
      in (settled + length trail + resumed, stop, m, queue, pending))"

partial_function (option) drain_checkpoint ::
  "('m, 'j, 'a, 's) host \<Rightarrow> nat \<Rightarrow> 'm \<times> 'j list \<times> 'j list \<Rightarrow> (nat \<times> 'm \<times> 'j list \<times> 'j list) option" where
  "drain_checkpoint H count s =
     (case checkpoint_pass H s of (n, stop, s') \<Rightarrow>
        if stop then Some (count + n, s') else drain_checkpoint H (count + n) s')"

section \<open>First come, first served\<close>

text \<open>
  The jobs that arrive while the jobs \<open>js\<close> run in that order: before each of them the
  adoptions requested so far, and then what it pushes.
\<close>

fun arrivals :: "('m, 'j, 'a, 's) host \<Rightarrow> nat \<Rightarrow> 'm \<Rightarrow> 'j list \<Rightarrow> 'j list" where
  "arrivals H cursor m [] = []"
| "arrivals H cursor m (j # js) =
     (let (m', adopted) = adopt_requests H cursor m; (m'', pushed) = h_run H j m'
      in adopted @ pushed @ arrivals H (max cursor (length (h_adoptions H m))) m'' js)"

declare drain_loop.simps [simp del]

lemma drain_loop_fifo:
  "drain_loop H count cursor m queue pending = (trail, m', queue', pending') \<Longrightarrow>
   count \<le> MAX_QUEUE_LEN * 2 \<Longrightarrow>
   trail @ queue' @ pending' = queue @ pending @ arrivals H cursor m trail
   \<and> count + length trail \<le> MAX_QUEUE_LEN * 2 + 1
   \<and> (h_deadline H m' \<or> count + length trail = MAX_QUEUE_LEN * 2 + 1 \<or> queue' = [] \<and> pending' = [])"
proof (induction H count cursor m queue pending arbitrary: trail m' queue' pending' rule: drain_loop.induct)
  case (1 H count cursor m queue pending)
  obtain m1 adopted where a: "adopt_requests H cursor m = (m1, adopted)" by fastforce
  show ?case
  proof (cases "queue @ pending @ adopted")
    case Nil
    then show ?thesis using "1.prems" a by (subst (asm) drain_loop.simps) auto
  next
    case (Cons j rest)
    obtain m2 pushed where r: "h_run H j m1 = (m2, pushed)" by fastforce
    show ?thesis
    proof (cases "h_deadline H m2 \<or> MAX_QUEUE_LEN * 2 < count + 1")
      case True
      then have "trail = [j]" "m' = m2" "queue' = rest" "pending' = pushed"
        using "1.prems"(1) a r Cons by (subst (asm) drain_loop.simps, simp add: Let_def)+
      then show ?thesis using True a r Cons "1.prems"(2) by auto
    next
      case False
      obtain trail' where d: "drain_loop H (count + 1) (max cursor (length (h_adoptions H m))) m2 rest pushed = (trail', m', queue', pending')"
        "trail = j # trail'"
        using "1.prems"(1) a r Cons False by (subst (asm) drain_loop.simps) (auto simp: Let_def split: prod.splits)
      have "trail' @ queue' @ pending' = rest @ pushed @ arrivals H (max cursor (length (h_adoptions H m))) m2 trail'
        \<and> count + 1 + length trail' \<le> MAX_QUEUE_LEN * 2 + 1
        \<and> (h_deadline H m' \<or> count + 1 + length trail' = MAX_QUEUE_LEN * 2 + 1 \<or> queue' = [] \<and> pending' = [])"
        using "1.IH" [OF refl refl a [symmetric] refl refl Cons refl r [symmetric] refl False d(1)] False by simp
      with d(2) a r Cons show ?thesis by simp
    qed
  qed
qed

text \<open>
  C20. A drain runs the microtasks first come, first served: the jobs it ran, then the queue
  and the side channel it leaves, are the initial queue and side channel followed by what
  arrived, in the order of arrival, whatever the jobs do and push; it runs at most
  \<open>2 * MAX_QUEUE_LEN + 1\<close> of them, and unless it stopped there or at the deadline nothing is left.
\<close>

theorem drain_fifo:
  "case drain H m queue pending of (trail, m', queue', pending') \<Rightarrow>
     trail @ queue' @ pending' = queue @ pending @ arrivals H 0 m trail
     \<and> length trail \<le> MAX_QUEUE_LEN * 2 + 1
     \<and> (\<exists>stopped. m' = h_clear H stopped
          \<and> (h_deadline H stopped \<or> length trail = MAX_QUEUE_LEN * 2 + 1 \<or> queue' = [] \<and> pending' = []))"
proof -
  obtain trail stopped queue' pending' where d: "drain_loop H 0 0 m queue pending = (trail, stopped, queue', pending')"
    by (cases "drain_loop H 0 0 m queue pending")
  then show ?thesis using drain_loop_fifo [OF d] by (auto simp: drain_def)
qed

text \<open>
  The checkpoint offers the follow-ups to the bounded queue and ignores its answer: those past
  the bound are dropped, while the drain itself adopts any number.
\<close>

lemma follow_ups_dropped: "adopt_follow_ups fs queue = queue @ take (MAX_QUEUE_LEN - length queue) fs"
proof (induction fs arbitrary: queue)
  case (Cons j fs)
  show ?case
  proof (cases "MAX_QUEUE_LEN \<le> length queue")
    case True
    with Cons [of queue] show ?thesis by (simp add: adopt_follow_ups_def queue_enqueue_def)
  next
    case False
    then have "MAX_QUEUE_LEN - length queue = Suc (MAX_QUEUE_LEN - Suc (length queue))" by simp
    with False Cons [of "queue @ [j]"] show ?thesis by (simp add: adopt_follow_ups_def queue_enqueue_def)
  qed
qed (simp add: adopt_follow_ups_def)

text \<open>
  Neither exit of the checkpoint looks at the side channel: a resume that pushes a job and
  leaves nothing else outstanding ends the checkpoint with the job unrun.
\<close>

definition resume_host :: "(nat, nat, unit, unit) host" where
  "resume_host = \<lparr>h_run = \<lambda>_ m. (m, []), h_adoptions = \<lambda>_. [], h_adopt = \<lambda>_ m. (m, 0), h_clear = \<lambda>m. m, h_deadline = \<lambda>_. False,
     h_take_settlements = \<lambda>m. ([], m), h_settle = \<lambda>_ m. (m, []), h_awaits = \<lambda>m. m, h_resume = \<lambda>m. (True, m - 1, [7]),
     h_pending_awaits = \<lambda>m. 0 < m, h_pending_settlements = \<lambda>_. False\<rparr>"

lemma checkpoint_leaves_follow_up: "drain_checkpoint resume_host 0 (1, [], []) = Some (1, 0, [], [7])"
proof -
  have "drain resume_host 1 [] [] = ([], 1, [], [])"
    by (simp add: drain_def drain_loop.simps adopt_requests_def resume_host_def)
  then have "checkpoint_pass resume_host (1, [], []) = (1, True, 0, [], [7])"
    by (simp add: checkpoint_pass_def settle_all_def adopt_follow_ups_def resume_pass_def queue_is_empty_def)
      (simp add: resume_host_def)
  then show ?thesis by (subst drain_checkpoint.simps) simp
qed

end
