(* ===== verification/Frames.thy ===== *)
theory Frames
  imports Dispatch Objects Feedback Ops
begin

text \<open>
  The activations of the interpreter (\<open>v12-interp/src/lib.rs\<close>, \<open>call_setup.rs\<close>, \<open>call.rs\<close> and the
  arms of \<open>execute.rs\<close> that push, pop or redirect a frame): one value stack that frames window,
  calls and constructions, completion and its delivery to the parked caller, unwinding to the
  handler of some frame, nested runs that stop at a boundary, and the chain of environments
  with its cached display. The \<open>Vec\<close> of frames is a list with the innermost frame first. An
  outer \<open>None\<close> is a panic. An exception the interpreter raises itself is its kind; building
  the error object for it is not modelled.
\<close>

section \<open>State\<close>

record frame =
  fr_fn_idx :: u32
  fr_program :: u32
  fr_pc :: nat
  fr_base :: nat
  fr_max_regs :: u16
  fr_env :: "handle option"
  fr_display :: "handle option list"
  fr_generator :: "handle option"
  fr_yield_dst :: "u16 option"
  fr_new_target :: "js_value option"
  fr_arguments :: "js_value option"

text \<open>
  The part of \<open>Interp\<close> these operations touch. \<open>'c\<close> is the context of a direct eval, \<open>'h\<close> the state of
  the tier-up hooks.
\<close>

record ('c, 'h) interp =
  it_functions :: "function_bytecode list"
  it_programs :: "function_bytecode list list"
  it_heap :: heap
  it_global :: "handle option"
  it_stack :: "js_value list"
  it_frames :: "frame list"
  it_eval_contexts :: "(nat \<times> 'c) list"
  it_frame_contexts :: "(nat \<times> 'c) list"
  it_call_args :: "(nat \<times> nat \<times> nat) list"
  it_stop :: "nat option"
  it_resume_depth :: nat
  it_top_result :: "js_value option"
  it_settlements :: "(handle \<times> js_value \<times> bool) list"
  it_tiering :: tiering
  it_hooks :: 'h

text \<open>
  What the operations call and this theory does not model: the tier-up hook, and the allocation
  of the array of a rest parameter and of the \<open>arguments\<close> object.
\<close>

record 'h call_host =
  on_hot :: "u32 \<Rightarrow> 'h \<Rightarrow> 'h"
  rest_array :: "js_value list \<Rightarrow> heap \<Rightarrow> (js_value \<times> heap) option"
  arguments_object :: "js_value list \<Rightarrow> js_value \<Rightarrow> bool \<Rightarrow> heap \<Rightarrow> (js_value \<times> heap) option"

datatype frame_error = Call_stack_exceeded | Constructor_without_new | Corrupt_call_header
  | Env_depth_exceeded | Env_slot_out_of_range | Binding_uninitialized | Thrown js_value

definition MAX_CALL_DEPTH :: nat where "MAX_CALL_DEPTH = 10000"
definition MAX_RESUME_DEPTH :: nat where "MAX_RESUME_DEPTH = 64"
definition ENV_DISPLAY_CAP :: nat where "ENV_DISPLAY_CAP = 8"
definition CALL_HEADER_REGS :: nat where "CALL_HEADER_REGS = 2"

definition functions_for_program :: "('c, 'h) interp \<Rightarrow> u32 \<Rightarrow> function_bytecode list" where
  "functions_for_program it p =
     (if p = 0 then it_functions it
      else case list_get (it_programs it) (unat p) of Some fs \<Rightarrow> fs | None \<Rightarrow> it_functions it)"

definition function_of :: "('c, 'h) interp \<Rightarrow> u32 \<Rightarrow> u32 \<Rightarrow> function_bytecode option" where
  "function_of it p f = list_get (functions_for_program it p) (unat f)"

text \<open>\<open>Vec::resize\<close>, and a slice copied into a vector.\<close>

definition resized :: "'a list \<Rightarrow> nat \<Rightarrow> 'a \<Rightarrow> 'a list" where
  "resized xs n v = take n xs @ replicate (n - length xs) v"

definition overwrite :: "'a list \<Rightarrow> nat \<Rightarrow> 'a list \<Rightarrow> 'a list" where
  "overwrite xs i ys = take i xs @ ys @ drop (i + length ys) xs"

definition slice_of :: "'a list \<Rightarrow> nat \<Rightarrow> nat \<Rightarrow> 'a list option" where
  "slice_of xs i n = (if i + n \<le> length xs then Some (take n (drop i xs)) else None)"

definition set_at :: "'a list \<Rightarrow> nat \<Rightarrow> 'a \<Rightarrow> 'a list option" where
  "set_at xs i v = (if i < length xs then Some (xs[i := v]) else None)"

section \<open>Environments\<close>

text \<open>The loop of \<open>env_display_for\<close> over the remaining slots.\<close>

fun display_walk :: "heap \<Rightarrow> nat \<Rightarrow> handle option \<Rightarrow> handle option list option" where
  "display_walk h 0 cur = Some []"
| "display_walk h (Suc n) None = Some (replicate (Suc n) None)"
| "display_walk h (Suc n) (Some e) =
     Option.bind (get_object h e) (\<lambda>ob. map_option ((#) (Some e)) (display_walk h n (prototype ob)))"

definition env_display_for :: "heap \<Rightarrow> handle option \<Rightarrow> handle option list option" where
  "env_display_for h env = display_walk h ENV_DISPLAY_CAP env"

fun display_shift :: "handle option \<Rightarrow> handle option list \<Rightarrow> handle option list" where
  "display_shift prev [] = []"
| "display_shift prev (s # ss) = prev # display_shift s ss"

definition env_display_push :: "handle option list \<Rightarrow> handle \<Rightarrow> handle option list" where
  "env_display_push d e = display_shift (Some e) d"

fun walk_links :: "heap \<Rightarrow> nat \<Rightarrow> handle \<Rightarrow> handle option option" where
  "walk_links h 0 e = Some (Some e)"
| "walk_links h (Suc n) e = Option.bind (get_object h e) (\<lambda>ob.
     case prototype ob of None \<Rightarrow> Some None | Some p \<Rightarrow> walk_links h n p)"

definition walk_env :: "('c, 'h) interp \<Rightarrow> nat \<Rightarrow> handle option option" where
  "walk_env it depth = (case it_frames it of [] \<Rightarrow> Some None
     | f # _ \<Rightarrow> (case fr_env f of None \<Rightarrow> Some None | Some e \<Rightarrow> walk_links (it_heap it) depth e))"

definition env_at :: "('c, 'h) interp \<Rightarrow> nat \<Rightarrow> handle option option" where
  "env_at it depth =
     (if depth < ENV_DISPLAY_CAP
      then (case it_frames it of [] \<Rightarrow> Some None | f # _ \<Rightarrow> list_get (fr_display f) depth)
      else walk_env it depth)"

definition env_at_expect :: "('c, 'h) interp \<Rightarrow> nat \<Rightarrow> (frame_error + handle) option" where
  "env_at_expect it depth = map_option (\<lambda>e. ok_or e Env_depth_exceeded) (env_at it depth)"

definition read_env_slot :: "heap \<Rightarrow> handle \<Rightarrow> nat \<Rightarrow> (frame_error + js_value) option" where
  "read_env_slot h env slot = Option.bind (get_object h env) (\<lambda>ob.
     case list_get (properties ob) slot of None \<Rightarrow> Some (Inl Env_slot_out_of_range)
     | Some v \<Rightarrow>
         (case as_object v of None \<Rightarrow> Some (Inr v)
          | Some cell \<Rightarrow> Option.bind (get_object h cell) (\<lambda>c.
              if obj_kind c \<noteq> K_BindingCell then Some (Inr v)
              else map_option (\<lambda>b. if bc_initialized b then Inr (bc_value b) else Inl Binding_uninitialized) (binding_cell c))))"

definition write_env_slot :: "heap \<Rightarrow> handle \<Rightarrow> nat \<Rightarrow> js_value \<Rightarrow> (frame_error + heap) option" where
  "write_env_slot h env slot v = Option.bind (get_object h env) (\<lambda>ob.
     let plain = map_option Inr (modify_object h env (\<lambda>x. x\<lparr>properties := (properties x)[slot := v]\<rparr>))
     in case list_get (properties ob) slot of None \<Rightarrow> Some (Inl Env_slot_out_of_range)
     | Some stored \<Rightarrow>
         (case as_object stored of None \<Rightarrow> plain
          | Some cell \<Rightarrow> Option.bind (get_object h cell) (\<lambda>c.
              if obj_kind c \<noteq> K_BindingCell then plain
              else Option.bind (binding_cell c) (\<lambda>b.
                map_option Inr (modify_object h cell
                  (\<lambda>x. x\<lparr>binding_cell := Some (b\<lparr>bc_initialized := True, bc_value := v\<rparr>)\<rparr>))))))"

definition env_read :: "('c, 'h) interp \<Rightarrow> nat \<Rightarrow> nat \<Rightarrow> (frame_error + js_value) option" where
  "env_read it depth slot = Option.bind (env_at_expect it depth) (\<lambda>r.
     case r of Inl e \<Rightarrow> Some (Inl e) | Inr env \<Rightarrow> read_env_slot (it_heap it) env slot)"

definition env_write :: "('c, 'h) interp \<Rightarrow> nat \<Rightarrow> nat \<Rightarrow> js_value \<Rightarrow> (frame_error + ('c, 'h) interp) option" where
  "env_write it depth slot v = Option.bind (env_at_expect it depth) (\<lambda>r.
     case r of Inl e \<Rightarrow> Some (Inl e)
     | Inr env \<Rightarrow> map_option (map_sum id (\<lambda>h. it\<lparr>it_heap := h\<rparr>)) (write_env_slot (it_heap it) env slot v))"

text \<open>The arms of \<open>NewEnvironment\<close> and \<open>PopEnvironment\<close>.\<close>

definition new_environment :: "nat \<Rightarrow> ('c, 'h) interp \<Rightarrow> ('c, 'h) interp option" where
  "new_environment n it = (case it_frames it of [] \<Rightarrow> None
     | f # fs \<Rightarrow>
         (let ctx = (case Option.bind (fr_env f) (\<lambda>e. map_of (it_eval_contexts it) (unat e)) of
                       Some c \<Rightarrow> Some c | None \<Rightarrow> map_of (it_frame_contexts it) (fr_base f))
          in map_option (\<lambda>(e, h).
               it\<lparr>it_heap := h,
                  it_frames := f\<lparr>fr_display := env_display_push (fr_display f) e, fr_env := Some e\<rparr> # fs,
                  it_eval_contexts := (case ctx of Some c \<Rightarrow> AList.update (unat e) c (it_eval_contexts it)
                                       | None \<Rightarrow> it_eval_contexts it)\<rparr>)
             (heap_alloc (it_heap it) (P_Object (obj_environment n (fr_env f))))))"

definition pop_environment :: "('c, 'h) interp \<Rightarrow> ('c, 'h) interp option" where
  "pop_environment it = (case it_frames it of [] \<Rightarrow> None
     | f # fs \<Rightarrow>
         Option.bind (case fr_env f of None \<Rightarrow> Some None
                      | Some e \<Rightarrow> map_option prototype (get_object (it_heap it) e)) (\<lambda>par.
         map_option (\<lambda>d. it\<lparr>it_frames := f\<lparr>fr_env := par, fr_display := d\<rparr> # fs\<rparr>)
           (env_display_for (it_heap it) par)))"

section \<open>Registers\<close>

definition set_pc :: "nat \<Rightarrow> ('c, 'h) interp \<Rightarrow> ('c, 'h) interp option" where
  "set_pc pc it = (case it_frames it of [] \<Rightarrow> None | f # fs \<Rightarrow> Some (it\<lparr>it_frames := f\<lparr>fr_pc := pc\<rparr> # fs\<rparr>))"

text \<open>\<open>stack[base + reg] = v\<close>, as every arm writes its result.\<close>

definition store_reg :: "nat \<Rightarrow> u16 \<Rightarrow> js_value \<Rightarrow> ('c, 'h) interp \<Rightarrow> ('c, 'h) interp option" where
  "store_reg base r v it = map_option (\<lambda>st. it\<lparr>it_stack := st\<rparr>) (set_at (it_stack it) (base + unat r) v)"

definition write_bool :: "nat \<Rightarrow> u16 \<Rightarrow> bool \<Rightarrow> ('c, 'h) interp \<Rightarrow> ('c, 'h) interp option" where
  "write_bool base r b it = store_reg base r (from_bool b) it"

section \<open>Calls\<close>

definition bind_this :: "('c, 'h) interp \<Rightarrow> u32 \<Rightarrow> u32 \<Rightarrow> js_value \<Rightarrow> frame_error + js_value" where
  "bind_this it f p this =
     (case function_of it p f of None \<Rightarrow> Inr this
      | Some fb \<Rightarrow>
          if ctor_kind fb \<noteq> Ctor_None then Inl Constructor_without_new
          else if is_strict fb \<or> is_arrow fb then Inr this
          else if is_null this \<or> is_undefined this
            then (case it_global it of Some g \<Rightarrow> Inr (js_object g) | None \<Rightarrow> Inr this)
          else Inr this)"

definition frame_arguments_for ::
  "'h call_host \<Rightarrow> u32 \<Rightarrow> u32 \<Rightarrow> js_value list \<Rightarrow> js_value \<Rightarrow> ('c, 'h) interp \<Rightarrow> (js_value option \<times> ('c, 'h) interp) option" where
  "frame_arguments_for H f p args callee it =
     (case function_of it p f of None \<Rightarrow> Some (None, it)
      | Some fb \<Rightarrow>
          if \<not> needs_arguments fb then Some (None, it)
          else map_option (\<lambda>(v, h). (Some v, it\<lparr>it_heap := add_root v h\<rparr>))
                 (arguments_object H args callee (is_strict fb) (it_heap it)))"

definition drop_frame_arguments :: "frame \<Rightarrow> ('c, 'h) interp \<Rightarrow> ('c, 'h) interp" where
  "drop_frame_arguments f it =
     (case fr_arguments f of Some v \<Rightarrow> it\<lparr>it_heap := remove_root v (it_heap it)\<rparr> | None \<Rightarrow> it)"

definition drop_frame_context :: "nat \<Rightarrow> ('c, 'h) interp \<Rightarrow> ('c, 'h) interp" where
  "drop_frame_context base it = it\<lparr>it_frame_contexts := AList.delete base (it_frame_contexts it)\<rparr>"

definition notify :: "'h call_host \<Rightarrow> ('c, 'h) interp \<Rightarrow> ('c, 'h) interp" where
  "notify H it = (let (t, h) = notify_tier_ups (on_hot H) (it_tiering it, it_hooks it)
                  in it\<lparr>it_tiering := t, it_hooks := h\<rparr>)"

text \<open>The actuals of a window: the declared formals from register one on, the rest in an array.\<close>

definition store_rest :: "'h call_host \<Rightarrow> nat \<Rightarrow> function_bytecode \<Rightarrow> js_value list \<Rightarrow> ('c, 'h) interp \<Rightarrow> ('c, 'h) interp option" where
  "store_rest H new_base fb rest it =
     Option.bind (rest_array H rest (it_heap it)) (\<lambda>(a, h).
       let it = it\<lparr>it_heap := h\<rparr>
       in if unat (rest_reg fb) < unat (max_regs fb)
          then map_option (\<lambda>st. it\<lparr>it_stack := st\<rparr>) (set_at (it_stack it) (new_base + unat (rest_reg fb)) a)
          else Some it)"

definition formals_copied :: "function_bytecode \<Rightarrow> nat \<Rightarrow> nat" where
  "formals_copied fb argc = min (min (unat (fixed_params fb)) argc) (unat (max_regs fb) - 1)"

definition copy_formals :: "nat \<Rightarrow> js_value list \<Rightarrow> js_value list \<Rightarrow> js_value list option" where
  "copy_formals new_base args st =
     (if new_base + 1 + length args \<le> length st then Some (overwrite st (new_base + 1) args) else None)"

definition fill_stack_window_from_slice ::
  "'h call_host \<Rightarrow> nat \<Rightarrow> js_value list \<Rightarrow> function_bytecode \<Rightarrow> ('c, 'h) interp \<Rightarrow> ('c, 'h) interp option" where
  "fill_stack_window_from_slice H new_base args fb it =
     Option.bind (copy_formals new_base (take (formals_copied fb (length args)) args) (it_stack it)) (\<lambda>st.
       let it = it\<lparr>it_stack := st\<rparr>
       in if has_rest fb then store_rest H new_base fb (drop (unat (fixed_params fb)) args) it else Some it)"

text \<open>
  The same from the caller's tail of the stack, where the source splits the vector at the first
  parameter. Arguments at or above that point are taken from the wrong half, which panics on
  any copy.
\<close>

definition copy_within :: "nat \<Rightarrow> nat \<Rightarrow> nat \<Rightarrow> js_value list \<Rightarrow> js_value list option" where
  "copy_within dst src n st =
     (if length st < dst then None
      else if src < dst then
        (if src + n \<le> dst \<and> dst + n \<le> length st then Some (overwrite st dst (take n (drop src st))) else None)
      else if n = 0 \<and> src \<le> length st then Some st else None)"

definition fill_stack_call_window ::
  "'h call_host \<Rightarrow> nat \<Rightarrow> nat \<Rightarrow> nat \<Rightarrow> function_bytecode \<Rightarrow> ('c, 'h) interp \<Rightarrow> ('c, 'h) interp option" where
  "fill_stack_call_window H new_base arg_src argc fb it =
     Option.bind (copy_within (new_base + 1) arg_src (formals_copied fb argc) (it_stack it)) (\<lambda>st.
       let it = it\<lparr>it_stack := st\<rparr>
       in if \<not> has_rest fb then Some it
          else let fixed = unat (fixed_params fb)
               in if argc \<le> fixed then store_rest H new_base fb [] it
                  else Option.bind (slice_of (it_stack it) (arg_src + fixed) (argc - fixed)) (\<lambda>rest.
                         store_rest H new_base fb rest it))"

text \<open>The frame literal of the call paths, its arguments object and display included.\<close>

definition push_frame ::
  "'h call_host \<Rightarrow> u32 \<Rightarrow> u32 \<Rightarrow> function_bytecode \<Rightarrow> nat \<Rightarrow> handle option \<Rightarrow> js_value option \<Rightarrow> js_value list
     \<Rightarrow> js_value \<Rightarrow> ('c, 'h) interp \<Rightarrow> ('c, 'h) interp option" where
  "push_frame H f p fb base env new_target args callee it =
     Option.bind (frame_arguments_for H f p args callee it) (\<lambda>(arguments, it).
     map_option (\<lambda>d. it\<lparr>it_frames := \<lparr>fr_fn_idx = f, fr_program = p, fr_pc = 0, fr_base = base,
         fr_max_regs = max_regs fb, fr_env = env, fr_display = d, fr_generator = None, fr_yield_dst = None,
         fr_new_target = new_target, fr_arguments = arguments\<rparr> # it_frames it\<rparr>)
       (env_display_for (it_heap it) env))"

text \<open>
  \<open>prepare_call\<close> once the callee is known to be an ordinary function of a program: the window
  above the caller's, \<open>this\<close>, the actuals, the frame. A \<open>this\<close> that cannot be bound leaves the
  stack extended.
\<close>

definition push_call ::
  "'h call_host \<Rightarrow> nat \<Rightarrow> u16 \<Rightarrow> u16 \<Rightarrow> u16 \<Rightarrow> u32 \<Rightarrow> u32 \<Rightarrow> handle option \<Rightarrow> js_value \<Rightarrow> js_value \<Rightarrow> ('c, 'h) interp
     \<Rightarrow> ((frame_error + unit) \<times> ('c, 'h) interp) option" where
  "push_call H base caller_regs callee_reg argc f p env callee this it =
     (if MAX_CALL_DEPTH \<le> length (it_frames it) then Some (Inl Call_stack_exceeded, it)
      else Option.bind (function_of it p f) (\<lambda>fb.
        let new_base = base + unat caller_regs;
            arg_src = base + unat callee_reg + CALL_HEADER_REGS
        in Option.bind (slice_of (it_stack it) arg_src (unat argc)) (\<lambda>passed.
           let it = it\<lparr>it_stack := resized (it_stack it) (new_base + unat (max_regs fb)) js_undefined\<rparr>
           in case bind_this it f p this of Inl e \<Rightarrow> Some (Inl e, it)
              | Inr this \<Rightarrow>
                  Option.bind (set_at (it_stack it) new_base this) (\<lambda>st.
                  Option.bind (fill_stack_call_window H new_base arg_src (unat argc) fb (it\<lparr>it_stack := st\<rparr>)) (\<lambda>it.
                  Option.bind (push_frame H f p fb new_base env None passed callee it) (\<lambda>it.
                    Some (Inr (), it\<lparr>it_call_args := AList.update new_base (arg_src, unat argc) (it_call_args it),
                                     it_tiering := note_entry f (it_tiering it)\<rparr>)))))))"

text \<open>\<open>prepare_construct_values\<close> once \<open>this\<close> is allocated, or the marker of a derived constructor.\<close>

definition push_construct ::
  "'h call_host \<Rightarrow> nat \<Rightarrow> u16 \<Rightarrow> u32 \<Rightarrow> u32 \<Rightarrow> handle option \<Rightarrow> js_value \<Rightarrow> js_value \<Rightarrow> js_value list \<Rightarrow> js_value
     \<Rightarrow> ('c, 'h) interp \<Rightarrow> ('c, 'h) interp option" where
  "push_construct H base caller_regs f p env callee instance_v args new_target it =
     Option.bind (function_of it p f) (\<lambda>fb.
       let new_base = base + unat caller_regs;
           it = it\<lparr>it_stack := resized (it_stack it) (new_base + unat (max_regs fb)) js_undefined\<rparr>
       in Option.bind (set_at (it_stack it) new_base instance_v) (\<lambda>st.
          Option.bind (fill_stack_window_from_slice H new_base args fb (it\<lparr>it_stack := st\<rparr>)) (\<lambda>it.
          map_option (\<lambda>it. it\<lparr>it_tiering := note_entry f (it_tiering it)\<rparr>)
            (push_frame H f p fb new_base env (Some new_target) args callee it))))"

text \<open>
  The entry of \<open>call_inline\<close> on a bytecode function: a frame above the whole stack and a boundary
  at the caller's frames, for a nested run of the loop.
\<close>

definition enter_inline ::
  "'h call_host \<Rightarrow> u32 \<Rightarrow> u32 \<Rightarrow> handle option \<Rightarrow> handle \<Rightarrow> js_value \<Rightarrow> js_value list \<Rightarrow> ('c, 'h) interp
     \<Rightarrow> ((frame_error + unit) \<times> ('c, 'h) interp) option" where
  "enter_inline H f p env func this args it =
     (if MAX_RESUME_DEPTH \<le> it_resume_depth it then Some (Inl Call_stack_exceeded, it)
      else Option.bind (function_of it p f) (\<lambda>fb.
        let new_base = length (it_stack it)
        in case bind_this it f p this of Inl e \<Rightarrow> Some (Inl e, it)
           | Inr this \<Rightarrow>
               let it = it\<lparr>it_stack := resized (it_stack it) (new_base + unat (max_regs fb)) js_undefined\<rparr>
               in Option.bind (set_at (it_stack it) new_base this) (\<lambda>st.
                  Option.bind (fill_stack_window_from_slice H new_base args fb (it\<lparr>it_stack := st\<rparr>)) (\<lambda>it.
                  Option.bind (push_frame H f p fb new_base env None args (js_object func) it) (\<lambda>it.
                    Some (Inr (), it\<lparr>it_top_result := None, it_stop := Some (length (it_frames it) - 1),
                                     it_resume_depth := it_resume_depth it + 1\<rparr>))))))"

text \<open>Its exit: the depth and the saved boundary are restored on either outcome of the run.\<close>

definition leave_inline ::
  "nat option \<Rightarrow> frame_error + unit \<Rightarrow> ('c, 'h) interp \<Rightarrow> (frame_error + js_value) \<times> ('c, 'h) interp" where
  "leave_inline saved outcome it =
     (let it = it\<lparr>it_resume_depth := it_resume_depth it - 1, it_stop := saved\<rparr>
      in case outcome of Inl e \<Rightarrow> (Inl e, it)
         | Inr _ \<Rightarrow> (Inr (case it_top_result it of Some v \<Rightarrow> v | None \<Rightarrow> js_undefined), it\<lparr>it_top_result := None\<rparr>))"

section \<open>Completion\<close>

definition generator_header_value :: "heap \<Rightarrow> handle \<Rightarrow> nat \<Rightarrow> js_value option option" where
  "generator_header_value h g slot = map_option (\<lambda>ob.
     case list_get (properties ob) slot of Some v \<Rightarrow> if is_undefined v then None else Some v | None \<Rightarrow> None)
     (get_object h g)"

definition generator_completion_promise :: "heap \<Rightarrow> handle \<Rightarrow> handle option option" where
  "generator_completion_promise h g = map_option (\<lambda>v. Option.bind v as_object) (generator_header_value h g 4)"

definition is_async_fn_for :: "('c, 'h) interp \<Rightarrow> u32 \<Rightarrow> u32 \<Rightarrow> bool" where
  "is_async_fn_for it f p = (case function_of it p f of None \<Rightarrow> False | Some fb \<Rightarrow> is_async fb)"

text \<open>The state slot of a generator header, set to finished.\<close>

definition mark_generator_done :: "handle \<Rightarrow> heap \<Rightarrow> heap option" where
  "mark_generator_done g h = modify_object h g (\<lambda>ob.
     if 3 \<le> length (properties ob) then ob\<lparr>properties := (properties ob)[2 := box_number (f64_of_int 1)]\<rparr> else ob)"

definition truncate_to :: "nat \<Rightarrow> ('c, 'h) interp \<Rightarrow> ('c, 'h) interp" where
  "truncate_to n it = it\<lparr>it_stack := take n (it_stack it)\<rparr>"

definition advance_caller :: "nat \<Rightarrow> ('c, 'h) interp \<Rightarrow> ('c, 'h) interp" where
  "advance_caller width it = (case it_frames it of [] \<Rightarrow> it
     | c # cs \<Rightarrow> it\<lparr>it_frames := c\<lparr>fr_pc := fr_pc c + width\<rparr> # cs\<rparr>)"

text \<open>
  The caller of an asynchronous function that completes without having suspended, still parked on
  its call, takes the promise where its destination register is untouched.
\<close>

definition deliver_promise :: "handle \<Rightarrow> frame \<Rightarrow> ('c, 'h) interp \<Rightarrow> ('c, 'h) interp option" where
  "deliver_promise g caller it =
     (case function_of it (fr_program caller) (fr_fn_idx caller) of None \<Rightarrow> Some it
      | Some fb \<Rightarrow>
          (case list_get (instrs fb) (fr_pc caller) of None \<Rightarrow> Some it
           | Some i \<Rightarrow>
               if instr_op i \<notin> {Some Op_Call, Some Op_Wide} then Some it
               else Option.bind (get_object (it_heap it) g) (\<lambda>ob.
                 case (list_get (properties ob) 4, decode_parked_call (instrs fb) (fr_pc caller)) of
                   (Some ph, Inr (_, dst, width)) \<Rightarrow>
                     (let idx = fr_base caller + unat dst
                      in case list_get (it_stack it) idx of
                           Some v \<Rightarrow> if is_undefined v
                             then Some (advance_caller width (it\<lparr>it_stack := (it_stack it)[idx := ph]\<rparr>)) else Some it
                         | None \<Rightarrow> Some it)
                 | _ \<Rightarrow> Some it)))"

definition complete_generator :: "frame \<Rightarrow> handle \<Rightarrow> js_value \<Rightarrow> ('c, 'h) interp \<Rightarrow> (bool \<times> ('c, 'h) interp) option" where
  "complete_generator fin g result it =
     Option.bind (generator_completion_promise (it_heap it) g) (\<lambda>promise.
     Option.bind (generator_header_value (it_heap it) g 4) (\<lambda>header.
       let settles = is_async_fn_for it (fr_fn_idx fin) (fr_program fin) \<and> promise \<noteq> None;
           it = (if settles
                 then it\<lparr>it_settlements := it_settlements it @ [(the promise, result, False)],
                         it_heap := (case header of Some v \<Rightarrow> remove_root v (it_heap it) | None \<Rightarrow> it_heap it)\<rparr>
                 else it);
           it = truncate_to (fr_base fin) it
       in Option.bind (mark_generator_done g (it_heap it)) (\<lambda>h.
          let it = it\<lparr>it_heap := h\<rparr>
          in if settles
             then (case it_frames it of [] \<Rightarrow> Some (True, it\<lparr>it_top_result := Some result\<rparr>)
                   | caller # _ \<Rightarrow> map_option (Pair False) (deliver_promise g caller it))
             else Some (True, it\<lparr>it_top_result := Some result\<rparr>))))"

text \<open>A body that returns no object from a construction leaves the instance in its first register.\<close>

definition construct_result :: "bool \<Rightarrow> js_value \<Rightarrow> js_value list \<Rightarrow> nat \<Rightarrow> js_value" where
  "construct_result is_construct result st base =
     (if is_construct \<and> as_object result = None \<and> \<not> is_hole result
      then (case list_get st base of
              Some v \<Rightarrow> if as_object v \<noteq> None then v else result
            | None \<Rightarrow> result)
      else result)"

definition complete_call :: "frame \<Rightarrow> js_value \<Rightarrow> ('c, 'h) interp \<Rightarrow> (frame_error + bool) \<times> ('c, 'h) interp" where
  "complete_call fin result it =
     (case it_frames it of [] \<Rightarrow> (Inr True, truncate_to (fr_base fin) (it\<lparr>it_top_result := Some result\<rparr>))
      | caller # _ \<Rightarrow>
          (case function_of it (fr_program caller) (fr_fn_idx caller) of
             None \<Rightarrow> (Inl Corrupt_call_header, truncate_to (fr_base fin) it)
           | Some fb \<Rightarrow>
               (case decode_parked_call (instrs fb) (fr_pc caller) of
                  Inl _ \<Rightarrow> (Inl Corrupt_call_header, truncate_to (fr_base fin) it)
                | Inr (is_construct, dst, width) \<Rightarrow>
                    (let idx = fr_base caller + unat dst;
                         v = construct_result is_construct result (it_stack it) (fr_base fin);
                         st = take (fr_base fin) (it_stack it);
                         st = (if length st \<le> idx then resized st (idx + 1) js_undefined else st)
                     in (Inr False, advance_caller width (it\<lparr>it_stack := st[idx := v]\<rparr>))))))"

definition complete_frame ::
  "'h call_host \<Rightarrow> js_value \<Rightarrow> ('c, 'h) interp \<Rightarrow> ((frame_error + bool) \<times> ('c, 'h) interp) option" where
  "complete_frame H result it = (case it_frames it of [] \<Rightarrow> None
     | fin # rest \<Rightarrow>
         (let it = drop_frame_arguments fin (it\<lparr>it_frames := rest\<rparr>);
              it = it\<lparr>it_call_args := AList.delete (fr_base fin) (it_call_args it)\<rparr>;
              it = notify H (drop_frame_context (fr_base fin) it)
          in Option.bind (case fr_generator fin of None \<Rightarrow> Some (it_heap it)
                          | Some g \<Rightarrow> mark_generator_done g (it_heap it)) (\<lambda>h.
             let it = it\<lparr>it_heap := h\<rparr>
             in if it_stop it = Some (length rest)
                then Some (Inr True, truncate_to (fr_base fin) (it\<lparr>it_top_result := Some result\<rparr>))
                else (case fr_generator fin of
                        Some g \<Rightarrow> map_option (\<lambda>(fin', it). (Inr fin', it)) (complete_generator fin g result it)
                      | None \<Rightarrow> Some (complete_call fin result it)))))"

section \<open>Unwinding\<close>

definition covering :: "('c, 'h) interp \<Rightarrow> frame \<Rightarrow> handler_range option" where
  "covering it f = Option.bind (function_of it (fr_program f) (fr_fn_idx f)) (\<lambda>fb. covering_handler (handlers fb) (fr_pc f))"

text \<open>
  The register window is cut at the handler's depth, the exception pushed there and the window
  restored. A depth outside the window panics.
\<close>

definition deliver_exception :: "js_value \<Rightarrow> handler_range \<Rightarrow> frame \<Rightarrow> frame list \<Rightarrow> ('c, 'h) interp \<Rightarrow> ('c, 'h) interp option" where
  "deliver_exception exc hr f fs it =
     (let at = fr_base f + unat (h_stack_depth hr);
          st = resized (take at (it_stack it) @ [exc]) (fr_base f + unat (fr_max_regs f)) js_undefined
      in map_option (\<lambda>st. it\<lparr>it_stack := st, it_frames := f\<lparr>fr_pc := unat (h_target hr)\<rparr> # fs\<rparr>) (set_at st at exc))"

definition discard_frame :: "'h call_host \<Rightarrow> frame \<Rightarrow> frame list \<Rightarrow> ('c, 'h) interp \<Rightarrow> ('c, 'h) interp" where
  "discard_frame H f fs it =
     notify H (truncate_to (fr_base f) (drop_frame_context (fr_base f) (drop_frame_arguments f (it\<lparr>it_frames := fs\<rparr>))))"

lemma notify_keeps [simp]:
  "it_frames (notify H it) = it_frames it" "it_stack (notify H it) = it_stack it" "it_stop (notify H it) = it_stop it"
  "it_functions (notify H it) = it_functions it" "it_programs (notify H it) = it_programs it" "it_heap (notify H it) = it_heap it"
  "it_call_args (notify H it) = it_call_args it" "it_top_result (notify H it) = it_top_result it"
  "it_global (notify H it) = it_global it" "it_resume_depth (notify H it) = it_resume_depth it"
  by (simp_all add: notify_def Let_def split_def)

lemma drop_frame_keeps [simp]:
  "it_frames (drop_frame_arguments f it) = it_frames it" "it_stack (drop_frame_arguments f it) = it_stack it"
  "it_stop (drop_frame_arguments f it) = it_stop it" "it_functions (drop_frame_arguments f it) = it_functions it"
  "it_programs (drop_frame_arguments f it) = it_programs it" "it_call_args (drop_frame_arguments f it) = it_call_args it"
  "it_top_result (drop_frame_arguments f it) = it_top_result it" "it_global (drop_frame_arguments f it) = it_global it"
  "it_resume_depth (drop_frame_arguments f it) = it_resume_depth it"
  by (simp_all add: drop_frame_arguments_def split: option.split)

lemma drop_context_keeps [simp]:
  "it_frames (drop_frame_context b it) = it_frames it" "it_stack (drop_frame_context b it) = it_stack it"
  "it_stop (drop_frame_context b it) = it_stop it" "it_functions (drop_frame_context b it) = it_functions it"
  "it_programs (drop_frame_context b it) = it_programs it" "it_heap (drop_frame_context b it) = it_heap it"
  "it_call_args (drop_frame_context b it) = it_call_args it" "it_top_result (drop_frame_context b it) = it_top_result it"
  "it_global (drop_frame_context b it) = it_global it" "it_resume_depth (drop_frame_context b it) = it_resume_depth it"
  by (simp_all add: drop_frame_context_def)

lemma truncate_keeps [simp]:
  "it_frames (truncate_to n it) = it_frames it" "it_stack (truncate_to n it) = take n (it_stack it)"
  "it_stop (truncate_to n it) = it_stop it" "it_functions (truncate_to n it) = it_functions it"
  "it_programs (truncate_to n it) = it_programs it" "it_heap (truncate_to n it) = it_heap it"
  "it_call_args (truncate_to n it) = it_call_args it" "it_top_result (truncate_to n it) = it_top_result it"
  "it_global (truncate_to n it) = it_global it" "it_resume_depth (truncate_to n it) = it_resume_depth it"
  by (simp_all add: truncate_to_def)

lemma discard_frame_keeps [simp]:
  "it_frames (discard_frame H f fs it) = fs" "it_stack (discard_frame H f fs it) = take (fr_base f) (it_stack it)"
  "it_stop (discard_frame H f fs it) = it_stop it" "it_functions (discard_frame H f fs it) = it_functions it"
  "it_programs (discard_frame H f fs it) = it_programs it" "it_call_args (discard_frame H f fs it) = it_call_args it"
  by (simp_all add: discard_frame_def)

function unwind ::
  "'h call_host \<Rightarrow> js_value \<Rightarrow> ('c, 'h) interp \<Rightarrow> ((js_value + unit) \<times> ('c, 'h) interp) option" where
  "unwind H exc it = (case it_frames it of [] \<Rightarrow> Some (Inl exc, it)
     | f # fs \<Rightarrow>
         (case covering it f of
            Some hr \<Rightarrow> map_option (Pair (Inr ())) (deliver_exception exc hr f fs it)
          | None \<Rightarrow>
              (let it' = discard_frame H f fs it
               in if it_stop it = Some (length fs) \<or> fs = [] then Some (Inl exc, it') else unwind H exc it')))"
  by pat_completeness auto
termination by (relation "measure (\<lambda>(_, _, it). length (it_frames it))") auto

declare unwind.simps [simp del]

end
