(* ===== verification/Activations.thy ===== *)
theory Activations
  imports Frames
begin

text \<open>
  What activations owe one another: whatever a callee does, its caller's registers and frames are
  as they were when it returns, a nested run leaves no trace on the stack, an exception lands at
  the nearest handler, and the cached display of environments is the chain it shadows.
\<close>

section \<open>Vectors\<close>

lemma length_resized [simp]: "length (resized xs n v) = n"
  by (simp add: resized_def)

lemma take_resized: "l \<le> n \<Longrightarrow> l \<le> length xs \<Longrightarrow> take l (resized xs n v) = take l xs"
  by (simp add: resized_def min_absorb2 min_absorb1)

lemma take_overwrite: "l \<le> i \<Longrightarrow> l \<le> length xs \<Longrightarrow> take l (overwrite xs i ys) = take l xs"
  by (simp add: overwrite_def min_absorb1)

lemma length_overwrite: "i + length ys \<le> length xs \<Longrightarrow> length (overwrite xs i ys) = length xs"
  by (simp add: overwrite_def)

lemma set_at_Some: "set_at xs i v = Some ys \<longleftrightarrow> i < length xs \<and> ys = xs[i := v]"
  by (auto simp: set_at_def)

text \<open>The \<open>n\<close> outermost frames.\<close>

definition outer :: "nat \<Rightarrow> 'a list \<Rightarrow> 'a list" where "outer n fs = drop (length fs - n) fs"

lemma outer_Cons: "n \<le> length fs \<Longrightarrow> outer n (f # fs) = outer n fs"
  by (simp add: outer_def Suc_diff_le)

lemma outer_all: "length fs = n \<Longrightarrow> outer n fs = fs"
  by (simp add: outer_def)

lemma outer_map: "map g (outer n fs) = outer n (map g fs)"
  by (simp add: outer_def drop_map)

section \<open>Steps\<close>

text \<open>A frame but for its \<open>arguments\<close> binding, which an inner arrow function may set.\<close>

definition strip :: "frame \<Rightarrow> frame" where "strip f = f\<lparr>fr_arguments := None\<rparr>"

lemma strip_keeps:
  "fr_program (strip f) = fr_program f" "fr_fn_idx (strip f) = fr_fn_idx f" "fr_pc (strip f) = fr_pc f" "fr_base (strip f) = fr_base f"
  by (simp_all add: strip_def)

text \<open>
  The moves of the machine. A move of the instructions that is not one of the frame operations
  writes a register of the innermost frame, moves its program counter or changes the world
  beside stack and frames. A nested call is one step: its run is the activity above the
  caller's frames, and it ends by completing or by unwinding its own frame.
\<close>

inductive machine_step :: "'h call_host \<Rightarrow> ('c, 'h) interp \<Rightarrow> ('c, 'h) interp \<Rightarrow> bool"
  and activity :: "'h call_host \<Rightarrow> nat \<Rightarrow> ('c, 'h) interp \<Rightarrow> ('c, 'h) interp \<Rightarrow> bool" for H where
  Register: "it_frames a = f # fs \<Longrightarrow> unat r < unat (fr_max_regs f) \<Longrightarrow> store_reg (fr_base f) r v a = Some b \<Longrightarrow> machine_step H a b"
| Goto: "set_pc pc a = Some b \<Longrightarrow> machine_step H a b"
| World: "machine_step H a (a\<lparr>it_heap := h, it_programs := it_programs a @ ps, it_eval_contexts := ec, it_frame_contexts := fc,
      it_settlements := ss, it_tiering := t, it_hooks := k\<rparr>)"
| Rebind: "map strip fs = map strip (it_frames a) \<Longrightarrow> machine_step H a (a\<lparr>it_frames := fs\<rparr>)"
| Enter_scope: "new_environment m a = Some b \<Longrightarrow> machine_step H a b"
| Leave_scope: "pop_environment a = Some b \<Longrightarrow> machine_step H a b"
| Call: "it_frames a = f # fs \<Longrightarrow>
    push_call H (fr_base f) (fr_max_regs f) callee_reg argc fn p env callee this a = Some (r, b) \<Longrightarrow> machine_step H a b"
| Construct: "it_frames a = f # fs \<Longrightarrow>
    push_construct H (fr_base f) (fr_max_regs f) fn p env callee inst args nt a = Some b \<Longrightarrow> machine_step H a b"
| Return: "complete_frame H v a = Some (Inr False, b) \<Longrightarrow> machine_step H a b"
| Catch: "unwind H exc a = Some (Inr (), b) \<Longrightarrow> machine_step H a b"
| Inline_returns: "enter_inline H fn p env func this args a = Some (Inr (), a1) \<Longrightarrow> activity H (length (it_frames a)) a1 a2 \<Longrightarrow>
    length (it_frames a2) = Suc (length (it_frames a)) \<Longrightarrow> complete_frame H v a2 = Some (Inr True, a3) \<Longrightarrow>
    leave_inline (it_stop a) (Inr ()) a3 = (r, b) \<Longrightarrow> machine_step H a b"
| Inline_throws: "enter_inline H fn p env func this args a = Some (Inr (), a1) \<Longrightarrow> activity H (length (it_frames a)) a1 a2 \<Longrightarrow>
    unwind H exc a2 = Some (Inl exc', a3) \<Longrightarrow> leave_inline (it_stop a) (Inl (Thrown exc')) a3 = (r, b) \<Longrightarrow> machine_step H a b"
| activity_start: "n < length (it_frames a) \<Longrightarrow> activity H n a a"
| activity_step: "activity H n a b \<Longrightarrow> machine_step H b c \<Longrightarrow> n < length (it_frames c) \<Longrightarrow> activity H n a c"

section \<open>What lies below is kept\<close>

definition above :: "nat \<Rightarrow> nat \<Rightarrow> ('c, 'h) interp \<Rightarrow> bool" where
  "above n l it \<longleftrightarrow> l \<le> length (it_stack it) \<and>
     list_all (\<lambda>f. l \<le> fr_base f) (take (length (it_frames it) - n) (it_frames it))"

text \<open>What never changes of an activation while it lasts.\<close>

definition site :: "frame \<Rightarrow> nat \<times> handle option" where "site f = (fr_base f, fr_generator f)"

definition kept :: "nat \<Rightarrow> nat \<Rightarrow> ('c, 'h) interp \<Rightarrow> ('c, 'h) interp \<Rightarrow> bool" where
  "kept n l a b \<longleftrightarrow> it_stop b = it_stop a \<and> take l (it_stack b) = take l (it_stack a) \<and> above n l b
     \<and> outer n (map strip (it_frames b)) = outer n (map strip (it_frames a))
     \<and> outer (Suc n) (map site (it_frames b)) = outer (Suc n) (map site (it_frames a))"

lemma kept_refl: "above n l a \<Longrightarrow> kept n l a a"
  by (simp add: kept_def)

lemma kept_trans: "kept n l a b \<Longrightarrow> kept n l b c \<Longrightarrow> kept n l a c"
  by (simp add: kept_def)

lemma above_head: "above n l it \<Longrightarrow> n < length (it_frames it) \<Longrightarrow> it_frames it = f # fs \<Longrightarrow> l \<le> fr_base f"
  by (cases "length (it_frames it) - n") (auto simp: above_def)

lemma above_tail:
  "above n l it \<Longrightarrow> n < length (it_frames it) \<Longrightarrow> it_frames it = f # fs \<Longrightarrow>
     list_all (\<lambda>f. l \<le> fr_base f) (take (length fs - n) fs)"
  by (auto simp: above_def Suc_diff_le)

text \<open>An operation that keeps the frames, and one that pushes a frame.\<close>

lemma kept_same_frames:
  assumes "above n l a" "it_stop b = it_stop a" "take l (it_stack b) = take l (it_stack a)" "l \<le> length (it_stack b)"
    "map strip (it_frames b) = map strip (it_frames a)"
  shows "kept n l a b"
proof -
  have site: "map site (it_frames b) = map site (it_frames a)"
    using arg_cong [OF assms(5), of "map site"] by (simp add: strip_def site_def [abs_def] o_def)
  have "list_all (\<lambda>f. l \<le> fr_base f) (take k (it_frames b)) = list_all (\<lambda>f. l \<le> fr_base f) (take k (it_frames a))" for k
    using arg_cong [OF site, of "\<lambda>xs. list_all (\<lambda>x. l \<le> fst x) (take k xs)"]
    by (simp add: take_map list.pred_map o_def site_def)
  moreover have "length (it_frames b) = length (it_frames a)" using map_eq_imp_length_eq [OF assms(5)] .
  ultimately show ?thesis using assms site by (simp add: kept_def above_def)
qed

lemma kept_pushed:
  assumes "above n l a" "n < length (it_frames a)" "it_stop b = it_stop a" "take l (it_stack b) = take l (it_stack a)"
    "l \<le> length (it_stack b)" "it_frames b = g # it_frames a" "l \<le> fr_base g"
  shows "kept n l a b"
  using assms by (auto simp: kept_def above_def outer_Cons Suc_diff_le)

lemma kept_popped:
  assumes "above n l a" "it_frames a = f # fs" "n < length fs" "it_stop b = it_stop a"
    "take l (it_stack b) = take l (it_stack a)" "l \<le> length (it_stack b)"
    "outer n (map strip (it_frames b)) = outer n (map strip fs)" "map site (it_frames b) = map site fs"
  shows "kept n l a b"
proof -
  have len: "length (it_frames b) = length fs" using map_eq_imp_length_eq [OF assms(8)] .
  have "list_all (\<lambda>f. l \<le> fr_base f) (take (length fs - n) fs)" using above_tail [OF assms(1) _ assms(2)] assms(2, 3) by simp
  moreover have "list_all (\<lambda>f. l \<le> fr_base f) (take k (it_frames b)) = list_all (\<lambda>f. l \<le> fr_base f) (take k fs)" for k
    using arg_cong [OF assms(8), of "\<lambda>xs. list_all (\<lambda>x. l \<le> fst x) (take k xs)"]
    by (simp add: take_map list.pred_map o_def site_def)
  ultimately show ?thesis using assms len by (simp add: kept_def above_def outer_Cons)
qed

section \<open>Pushing a frame\<close>

text \<open>An operation that changes the heap and the stack from \<open>l\<close> on.\<close>

definition fills :: "nat \<Rightarrow> ('c, 'h) interp \<Rightarrow> ('c, 'h) interp \<Rightarrow> bool" where
  "fills l a b \<longleftrightarrow> it_frames b = it_frames a \<and> it_stop b = it_stop a \<and> length (it_stack b) = length (it_stack a)
     \<and> (\<forall>k \<le> l. take k (it_stack b) = take k (it_stack a))"

lemma fills_refl: "fills l a a"
  by (simp add: fills_def)

lemma fills_trans: "fills l a b \<Longrightarrow> fills l b c \<Longrightarrow> fills l a c"
  by (simp add: fills_def)

lemma store_rest_fills: "store_rest H l fb rest a = Some b \<Longrightarrow> fills l a b"
  by (auto simp: store_rest_def fills_def set_at_Some Let_def bind_eq_Some_conv split: if_splits prod.splits)

lemma copy_formals_take: "copy_formals l args st = Some st' \<Longrightarrow> length st' = length st \<and> (\<forall>k \<le> l. take k st' = take k st)"
  by (auto simp: copy_formals_def length_overwrite take_overwrite split: if_splits)

lemma copy_within_take: "copy_within (Suc l) src n st = Some st' \<Longrightarrow> length st' = length st \<and> (\<forall>k \<le> l. take k st' = take k st)"
  by (auto simp: copy_within_def length_overwrite take_overwrite split: if_splits)

lemma fill_slice_fills: "fill_stack_window_from_slice H l args fb a = Some b \<Longrightarrow> fills l a b"
proof -
  assume "fill_stack_window_from_slice H l args fb a = Some b"
  then obtain st where st: "copy_formals l (take (formals_copied fb (length args)) args) (it_stack a) = Some st"
    and b: "(if has_rest fb then store_rest H l fb (drop (unat (fixed_params fb)) args) (a\<lparr>it_stack := st\<rparr>)
             else Some (a\<lparr>it_stack := st\<rparr>)) = Some b"
    by (auto simp: fill_stack_window_from_slice_def Let_def bind_eq_Some_conv)
  have "fills l a (a\<lparr>it_stack := st\<rparr>)" using copy_formals_take [OF st] by (simp add: fills_def)
  moreover have "fills l (a\<lparr>it_stack := st\<rparr>) b" using b by (auto simp: fills_refl split: if_splits dest: store_rest_fills)
  ultimately show ?thesis by (rule fills_trans)
qed

lemma fill_window_fills: "fill_stack_call_window H l src argc fb a = Some b \<Longrightarrow> fills l a b"
proof -
  assume *: "fill_stack_call_window H l src argc fb a = Some b"
  then obtain st where st: "copy_within (Suc l) src (formals_copied fb argc) (it_stack a) = Some st"
    by (auto simp: fill_stack_call_window_def bind_eq_Some_conv)
  have "fills l a (a\<lparr>it_stack := st\<rparr>)" using copy_within_take [OF st] by (simp add: fills_def)
  moreover have "fills l (a\<lparr>it_stack := st\<rparr>) b"
    using * st by (auto simp: fill_stack_call_window_def Let_def bind_eq_Some_conv fills_refl split: if_splits dest: store_rest_fills)
  ultimately show ?thesis by (rule fills_trans)
qed

lemma push_frame_pushes:
  assumes "push_frame H f p fb base env nt args callee a = Some b"
  shows "\<exists>g. it_frames b = g # it_frames a \<and> fr_base g = base \<and> fr_max_regs g = max_regs fb \<and> fr_generator g = None
    \<and> env_display_for (it_heap b) (fr_env g) = Some (fr_display g)"
    "it_stack b = it_stack a" "it_stop b = it_stop a"
  using assms
  by (auto simp: push_frame_def frame_arguments_for_def bind_eq_Some_conv split: option.splits if_splits)

text \<open>Every way to push a frame puts its window at or above the limit it is given.\<close>

definition pushes :: "nat \<Rightarrow> ('c, 'h) interp \<Rightarrow> ('c, 'h) interp \<Rightarrow> bool" where
  "pushes base a b \<longleftrightarrow> (\<exists>g. it_frames b = g # it_frames a \<and> fr_base g = base \<and> fr_generator g = None
       \<and> length (it_stack b) = base + unat (fr_max_regs g)
       \<and> env_display_for (it_heap b) (fr_env g) = Some (fr_display g))
     \<and> (\<forall>k \<le> base. k \<le> length (it_stack a) \<longrightarrow> take k (it_stack b) = take k (it_stack a))"

lemma pushed_window:
  assumes m: "set_at (resized (it_stack a) (base + unat (max_regs fb)) js_undefined) base v = Some st"
    and fl: "fills base (a\<lparr>it_stack := st\<rparr>) a1" and pf: "push_frame H f p fb base env nt args callee a1 = Some b"
  shows "pushes base a b \<and> it_stop b = it_stop a"
proof -
  have st: "st = (resized (it_stack a) (base + unat (max_regs fb)) js_undefined)[base := v]" using m by (simp add: set_at_Some)
  then have t: "take k st = take k (it_stack a)" if "k \<le> base" "k \<le> length (it_stack a)" for k
    using that by (simp add: take_resized)
  show ?thesis using push_frame_pushes [OF pf] fl t st by (auto simp: pushes_def fills_def)
qed

lemma push_call_cases:
  assumes "push_call H base regs callee_reg argc f p env callee this a = Some (r, b)"
  shows "it_stop b = it_stop a \<and> (case r of
      Inr _ \<Rightarrow> pushes (base + unat regs) a b
    | Inl _ \<Rightarrow> it_frames b = it_frames a
        \<and> (\<forall>k \<le> base + unat regs. k \<le> length (it_stack a) \<longrightarrow> take k (it_stack b) = take k (it_stack a) \<and> k \<le> length (it_stack b)))"
proof (cases "MAX_CALL_DEPTH \<le> length (it_frames a)")
  case True
  then show ?thesis using assms by (auto simp: push_call_def)
next
  case False
  let ?a = "\<lambda>fb. a\<lparr>it_stack := resized (it_stack a) (base + unat regs + unat (max_regs fb)) js_undefined\<rparr>"
  obtain fb passed where fb: "function_of a p f = Some fb"
    and sl: "slice_of (it_stack a) (base + unat callee_reg + CALL_HEADER_REGS) (unat argc) = Some passed"
    using False assms by (auto simp: push_call_def Let_def bind_eq_Some_conv split del: sum.split)
  show ?thesis
  proof (cases "bind_this (?a fb) f p this")
    case (Inl e)
    then show ?thesis using False assms fb sl
      by (auto simp: push_call_def Let_def take_resized)
  next
    case (Inr this')
    with False assms fb sl obtain st a1 a2 where m: "set_at (it_stack (?a fb)) (base + unat regs) this' = Some st"
      and fl: "fill_stack_call_window H (base + unat regs) (base + unat callee_reg + CALL_HEADER_REGS) (unat argc) fb
        ((?a fb)\<lparr>it_stack := st\<rparr>) = Some a1"
      and pf: "push_frame H f p fb (base + unat regs) env None passed callee a1 = Some a2"
      and b: "r = Inr ()" "b = a2\<lparr>it_call_args := AList.update (base + unat regs) (base + unat callee_reg + CALL_HEADER_REGS, unat argc)
          (it_call_args a2), it_tiering := note_entry f (it_tiering a2)\<rparr>"
      by (auto simp: push_call_def Let_def bind_eq_Some_conv)
    have "pushes (base + unat regs) a a2 \<and> it_stop a2 = it_stop a"
      using m fill_window_fills [OF fl] pf by (intro pushed_window) simp_all
    then have "pushes (base + unat regs) a b \<and> it_stop b = it_stop a" using b(2) by (simp add: pushes_def)
    then show ?thesis using b(1) by simp
  qed
qed

lemma push_construct_pushes:
  assumes "push_construct H base regs f p env callee inst args nt a = Some b"
  shows "pushes (base + unat regs) a b \<and> it_stop b = it_stop a"
proof -
  let ?l = "base + unat regs"
  obtain fb st a1 a2 where m: "set_at (resized (it_stack a) (?l + unat (max_regs fb)) js_undefined) ?l inst = Some st"
    and fl: "fill_stack_window_from_slice H ?l args fb (a\<lparr>it_stack := st\<rparr>) = Some a1"
    and pf: "push_frame H f p fb ?l env (Some nt) args callee a1 = Some a2"
    and b: "b = a2\<lparr>it_tiering := note_entry f (it_tiering a2)\<rparr>"
    using assms by (auto simp: push_construct_def Let_def bind_eq_Some_conv)
  have "pushes ?l a a2 \<and> it_stop a2 = it_stop a" using m fill_slice_fills [OF fl] pf by (rule pushed_window)
  then show ?thesis using b by (simp add: pushes_def)
qed

lemma enter_inline_pushes:
  assumes "enter_inline H f p env func this args a = Some (Inr (), b)"
  shows "pushes (length (it_stack a)) a b \<and> it_stop b = Some (length (it_frames a))"
proof -
  let ?l = "length (it_stack a)"
  obtain fb this' st a1 a2 where m: "set_at (resized (it_stack a) (?l + unat (max_regs fb)) js_undefined) ?l this' = Some st"
    and fl: "fill_stack_window_from_slice H ?l args fb (a\<lparr>it_stack := st\<rparr>) = Some a1"
    and pf: "push_frame H f p fb ?l env None args (js_object func) a1 = Some a2"
    and b: "b = a2\<lparr>it_top_result := None, it_stop := Some (length (it_frames a2) - 1), it_resume_depth := it_resume_depth a2 + 1\<rparr>"
    using assms by (cases "bind_this a f p this") (auto simp: enter_inline_def Let_def bind_eq_Some_conv split: if_splits)
  have "pushes ?l a a2" using m fill_slice_fills [OF fl] pf by (intro conjunct1 [OF pushed_window]) auto
  then show ?thesis using b by (auto simp: pushes_def)
qed

lemma kept_pushes:
  assumes "above n l a" "n < length (it_frames a)" "it_stop b = it_stop a" "pushes base a b" "l \<le> base"
  shows "kept n l a b"
proof -
  obtain g where g: "it_frames b = g # it_frames a" "fr_base g = base" "length (it_stack b) = base + unat (fr_max_regs g)"
    using assms(4) by (auto simp: pushes_def)
  show ?thesis by (rule kept_pushed [OF assms(1, 2, 3) _ _ g(1)]) (use assms g in \<open>auto simp: pushes_def above_def\<close>)
qed

section \<open>Popping frames\<close>

lemma advance_keeps [simp]:
  "it_stack (advance_caller w it) = it_stack it" "it_stop (advance_caller w it) = it_stop it"
  "it_frames it = c # cs \<Longrightarrow> it_frames (advance_caller w it) = c\<lparr>fr_pc := fr_pc c + w\<rparr> # cs"
  by (simp_all add: advance_caller_def split: list.split)

lemma strip_pc [simp]: "strip (f\<lparr>fr_pc := q\<rparr>) = (strip f)\<lparr>fr_pc := q\<rparr>"
  by (simp add: strip_def)

lemma function_of_cong:
  "it_functions b = it_functions a \<Longrightarrow> it_programs b = it_programs a \<Longrightarrow> function_of b = function_of a"
  by (intro ext) (simp add: function_of_def functions_for_program_def split: option.split)

lemma covering_cong:
  "it_functions b = it_functions a \<Longrightarrow> it_programs b = it_programs a \<Longrightarrow> covering b = covering a"
  using function_of_cong [of b a] by (simp add: covering_def fun_eq_iff)

lemma take_take_le: "k \<le> m \<Longrightarrow> take k (take m xs) = take k xs"
  by (simp add: min_absorb1)

text \<open>What a completed call does to the caller it returns to.\<close>

lemma complete_call_returns:
  assumes "complete_call fin v a = (Inr False, b)"
  shows "\<exists>caller rest fb is_construct dst width. it_frames a = caller # rest
    \<and> function_of a (fr_program caller) (fr_fn_idx caller) = Some fb
    \<and> decode_parked_call (instrs fb) (fr_pc caller) = Inr (is_construct, dst, width)
    \<and> it_frames b = caller\<lparr>fr_pc := fr_pc caller + width\<rparr> # rest \<and> it_stop b = it_stop a
    \<and> (\<forall>l. fr_base caller + unat dst < l \<longrightarrow> fr_base fin = l \<longrightarrow> l \<le> length (it_stack a) \<longrightarrow>
         it_stack b = (take l (it_stack a))[fr_base caller + unat dst := construct_result is_construct v (it_stack a) l])
    \<and> (\<forall>k. k \<le> fr_base fin \<longrightarrow> k \<le> fr_base caller \<longrightarrow> k \<le> length (it_stack a) \<longrightarrow>
         take k (it_stack b) = take k (it_stack a) \<and> k \<le> length (it_stack b))"
proof (cases "it_frames a")
  case Nil
  then show ?thesis using assms by (simp add: complete_call_def)
next
  case (Cons caller rest)
  then obtain fb is_construct dst width where d: "function_of a (fr_program caller) (fr_fn_idx caller) = Some fb"
      "decode_parked_call (instrs fb) (fr_pc caller) = Inr (is_construct, dst, width)"
    using assms by (auto simp: complete_call_def split: option.splits sum.splits prod.splits)
  let ?idx = "fr_base caller + unat dst" and ?v = "construct_result is_construct v (it_stack a) (fr_base fin)"
  let ?st = "take (fr_base fin) (it_stack a)"
  let ?st' = "if length ?st \<le> ?idx then resized ?st (?idx + 1) js_undefined else ?st"
  have b: "b = advance_caller width (a\<lparr>it_stack := ?st'[?idx := ?v]\<rparr>)"
    using assms Cons d by (simp add: complete_call_def Let_def)
  have "take k ?st' = take k (it_stack a) \<and> k \<le> length ?st'"
    if "k \<le> fr_base fin" "k \<le> fr_base caller" "k \<le> length (it_stack a)" for k
    using that by (auto simp: take_resized take_take_le)
  then have "\<forall>k. k \<le> fr_base fin \<longrightarrow> k \<le> fr_base caller \<longrightarrow> k \<le> length (it_stack a) \<longrightarrow>
         take k (it_stack b) = take k (it_stack a) \<and> k \<le> length (it_stack b)"
    unfolding b by simp
  moreover have "it_stack b = (take l (it_stack a))[?idx := construct_result is_construct v (it_stack a) l]"
    if "?idx < l" "fr_base fin = l" "l \<le> length (it_stack a)" for l
    using that unfolding b by auto
  ultimately show ?thesis using Cons d b by auto
qed

lemma complete_frame_call:
  assumes "complete_frame H v a = Some (r, b)" "it_frames a = fin # rest" "fr_generator fin = None" "it_stop a \<noteq> Some (length rest)"
  shows "\<exists>a'. complete_call fin v a' = (r, b) \<and> it_frames a' = rest \<and> it_stack a' = it_stack a \<and> it_stop a' = it_stop a
    \<and> function_of a' = function_of a"
proof -
  let ?a1 = "drop_frame_arguments fin (a\<lparr>it_frames := rest\<rparr>)"
  let ?a2 = "?a1\<lparr>it_call_args := AList.delete (fr_base fin) (it_call_args ?a1)\<rparr>"
  let ?a3 = "notify H (drop_frame_context (fr_base fin) ?a2)"
  let ?a' = "?a3\<lparr>it_heap := it_heap ?a3\<rparr>"
  have "it_functions ?a' = it_functions a" "it_programs ?a' = it_programs a" by simp_all
  then have "function_of ?a' = function_of a" by (rule function_of_cong)
  moreover have "complete_call fin v ?a' = (r, b)" using assms by (simp add: complete_frame_def Let_def)
  moreover have "it_frames ?a' = rest" "it_stack ?a' = it_stack a" "it_stop ?a' = it_stop a" by simp_all
  ultimately show ?thesis by blast
qed

lemma deliver_promise_cases:
  "deliver_promise g c a = Some b \<Longrightarrow>
     b = a \<or> (\<exists>w d ph. b = advance_caller w (a\<lparr>it_stack := (it_stack a)[fr_base c + d := ph]\<rparr>))"
  unfolding deliver_promise_def Let_def
  by (auto simp: bind_eq_Some_conv split: option.splits if_splits sum.splits prod.splits)

lemma deliver_promise_keeps:
  assumes "deliver_promise g c a = Some b" "it_frames a = c # rest"
  shows "it_stop b = it_stop a \<and> (\<exists>q. it_frames b = c\<lparr>fr_pc := q\<rparr> # rest) \<and> length (it_stack b) = length (it_stack a)
    \<and> (\<forall>k \<le> fr_base c. take k (it_stack b) = take k (it_stack a))"
  using deliver_promise_cases [OF assms(1)]
proof (elim disjE exE)
  assume "b = a"
  then show ?thesis using assms(2) by (auto intro!: exI [of _ "fr_pc c"])
next
  fix w d ph assume "b = advance_caller w (a\<lparr>it_stack := (it_stack a)[fr_base c + d := ph]\<rparr>)"
  then show ?thesis using assms(2) by auto
qed

lemma complete_generator_keeps:
  assumes "complete_generator fin g v a = Some (d, b)"
  shows "it_stop b = it_stop a \<and>
    (if d then it_frames b = it_frames a \<and> it_stack b = take (fr_base fin) (it_stack a)
     else \<exists>c rest q. it_frames a = c # rest \<and> it_frames b = c\<lparr>fr_pc := q\<rparr> # rest
       \<and> (\<forall>k. k \<le> fr_base fin \<longrightarrow> k \<le> fr_base c \<longrightarrow> k \<le> length (it_stack a) \<longrightarrow>
            take k (it_stack b) = take k (it_stack a) \<and> k \<le> length (it_stack b)))"
proof -
  obtain promise header where ph: "generator_completion_promise (it_heap a) g = Some promise" "generator_header_value (it_heap a) g 4 = Some header"
    using assms by (auto simp: complete_generator_def bind_eq_Some_conv)
  let ?settles = "is_async_fn_for a (fr_fn_idx fin) (fr_program fin) \<and> promise \<noteq> None"
  let ?a1 = "if ?settles
      then a\<lparr>it_settlements := it_settlements a @ [(the promise, v, False)],
        it_heap := (case header of Some v \<Rightarrow> remove_root v (it_heap a) | None \<Rightarrow> it_heap a)\<rparr> else a"
  obtain h where h: "mark_generator_done g (it_heap (truncate_to (fr_base fin) ?a1)) = Some h"
    using assms ph by (auto simp: complete_generator_def Let_def bind_eq_Some_conv)
  define a' where "a' = (truncate_to (fr_base fin) ?a1)\<lparr>it_heap := h\<rparr>"
  have a': "it_frames a' = it_frames a" "it_stop a' = it_stop a" "it_stack a' = take (fr_base fin) (it_stack a)"
    by (simp_all add: a'_def)
  have res: "(if ?settles
      then (case it_frames a' of [] \<Rightarrow> Some (True, a'\<lparr>it_top_result := Some v\<rparr>) | caller # _ \<Rightarrow> map_option (Pair False) (deliver_promise g caller a'))
      else Some (True, a'\<lparr>it_top_result := Some v\<rparr>)) = Some (d, b)"
    using assms ph h unfolding complete_generator_def Let_def a'_def by simp
  then consider "d" "b = a'\<lparr>it_top_result := Some v\<rparr>" | c rest where "\<not> d" "it_frames a' = c # rest" "deliver_promise g c a' = Some b"
    by (auto split: if_splits list.splits)
  then show ?thesis
  proof cases
    case 1
    then show ?thesis using a' by simp
  next
    case 2
    then show ?thesis using deliver_promise_keeps [OF 2(3, 2)] a' by (auto simp: take_take_le)
  qed
qed

lemma complete_frame_pops:
  assumes "complete_frame H v a = Some (Inr d, b)"
  shows "\<exists>fin rest. it_frames a = fin # rest \<and> it_stop b = it_stop a \<and>
    (if d then it_frames b = rest \<and> it_stack b = take (fr_base fin) (it_stack a)
     else \<exists>c cs q. rest = c # cs \<and> it_frames b = c\<lparr>fr_pc := q\<rparr> # cs
       \<and> (\<forall>k. k \<le> fr_base fin \<longrightarrow> k \<le> fr_base c \<longrightarrow> k \<le> length (it_stack a) \<longrightarrow>
            take k (it_stack b) = take k (it_stack a) \<and> k \<le> length (it_stack b)))"
proof (cases "it_frames a")
  case Nil
  then show ?thesis using assms by (simp add: complete_frame_def)
next
  case (Cons fin rest)
  show ?thesis
  proof (cases "it_stop a = Some (length rest)")
    case True
    then show ?thesis using assms Cons by (auto simp: complete_frame_def Let_def bind_eq_Some_conv)
  next
    case stop: False
    show ?thesis
    proof (cases "fr_generator fin")
      case None
      obtain a' where a': "complete_call fin v a' = (Inr d, b)" "it_frames a' = rest" "it_stack a' = it_stack a" "it_stop a' = it_stop a"
        using complete_frame_call [OF assms Cons None stop] by blast
      show ?thesis
      proof (cases d)
        case True
        then show ?thesis using a' Cons
          by (auto simp: complete_call_def Let_def split: list.splits option.splits sum.splits prod.splits)
      next
        case False
        then show ?thesis using complete_call_returns [of fin v a' b] a' Cons by fastforce
      qed
    next
      case (Some g)
      then obtain a' where "complete_generator fin g v a' = Some (d, b)" "it_frames a' = rest" "it_stack a' = it_stack a" "it_stop a' = it_stop a"
        using assms Cons stop by (auto simp: complete_frame_def Let_def bind_eq_Some_conv)
      then show ?thesis using complete_generator_keeps [of fin g v a' d b] Cons by (cases d) auto
    qed
  qed
qed

section \<open>Unwinding\<close>

lemma deliver_exception_keeps:
  assumes "deliver_exception exc hr f fs a = Some b"
  shows "it_frames b = f\<lparr>fr_pc := unat (h_target hr)\<rparr> # fs \<and> it_stop b = it_stop a
    \<and> length (it_stack b) = fr_base f + unat (fr_max_regs f) \<and> unat (h_stack_depth hr) < unat (fr_max_regs f)
    \<and> it_stack b ! (fr_base f + unat (h_stack_depth hr)) = exc
    \<and> (\<forall>k \<le> fr_base f + unat (h_stack_depth hr). k \<le> length (it_stack a) \<longrightarrow> take k (it_stack b) = take k (it_stack a))"
  using assms by (auto simp: deliver_exception_def Let_def set_at_Some take_resized)

lemma unwind_uncovered:
  "it_frames a = f # fs \<Longrightarrow> covering a f = None \<Longrightarrow> unwind H exc a =
     (if it_stop a = Some (length fs) \<or> fs = [] then Some (Inl exc, discard_frame H f fs a)
      else unwind H exc (discard_frame H f fs a))"
  by (subst unwind.simps) (simp add: Let_def)

text \<open>An exception that is caught lands at the first frame from within that a handler covers.\<close>

lemma unwind_catches:
  assumes "unwind H exc a = Some (Inr (), b)"
  shows "\<exists>pre f post hr. it_frames a = pre @ f # post \<and> list_all (\<lambda>g. covering a g = None) pre \<and> covering a f = Some hr
    \<and> (\<forall>i. 0 < i \<longrightarrow> i \<le> length pre \<longrightarrow> it_stop a \<noteq> Some (length (it_frames a) - i))
    \<and> it_frames b = f\<lparr>fr_pc := unat (h_target hr)\<rparr> # post \<and> it_stop b = it_stop a
    \<and> length (it_stack b) = fr_base f + unat (fr_max_regs f) \<and> unat (h_stack_depth hr) < unat (fr_max_regs f)
    \<and> it_stack b ! (fr_base f + unat (h_stack_depth hr)) = exc
    \<and> (\<forall>k \<le> fr_base f + unat (h_stack_depth hr). k \<le> length (it_stack a) \<longrightarrow> list_all (\<lambda>g. k \<le> fr_base g) pre \<longrightarrow>
         take k (it_stack b) = take k (it_stack a))"
  using assms
proof (induction H exc a rule: unwind.induct)
  case (1 H exc a)
  show ?case
  proof (cases "it_frames a")
    case Nil
    then show ?thesis using "1.prems" by (simp add: unwind.simps)
  next
    case (Cons f fs)
    show ?thesis
    proof (cases "covering a f")
      case (Some hr)
      then have "deliver_exception exc hr f fs a = Some b" using "1.prems" Cons by (subst (asm) unwind.simps) auto
      from deliver_exception_keeps [OF this] Some Cons show ?thesis
        by (intro exI [of _ "[]"] exI [of _ f] exI [of _ fs] exI [of _ hr]) simp
    next
      case None
      let ?c = "discard_frame H f fs a"
      have go: "unwind H exc ?c = Some (Inr (), b)" and stop: "\<not> (it_stop a = Some (length fs) \<or> fs = [])"
        using "1.prems" unwind_uncovered [OF Cons None, of H exc] by (simp_all split: if_splits)
      have cov: "covering ?c = covering a" by (rule covering_cong) simp_all
      obtain pre g post hr where ih: "fs = pre @ g # post" "list_all (\<lambda>g. covering a g = None) pre" "covering a g = Some hr"
          "\<forall>i. 0 < i \<longrightarrow> i \<le> length pre \<longrightarrow> it_stop a \<noteq> Some (length fs - i)"
          "it_frames b = g\<lparr>fr_pc := unat (h_target hr)\<rparr> # post" "it_stop b = it_stop a"
          "length (it_stack b) = fr_base g + unat (fr_max_regs g)" "unat (h_stack_depth hr) < unat (fr_max_regs g)"
          "it_stack b ! (fr_base g + unat (h_stack_depth hr)) = exc"
          "\<forall>k \<le> fr_base g + unat (h_stack_depth hr). k \<le> length (take (fr_base f) (it_stack a)) \<longrightarrow>
             list_all (\<lambda>g. k \<le> fr_base g) pre \<longrightarrow> take k (it_stack b) = take k (take (fr_base f) (it_stack a))"
        using "1.IH" [OF Cons None refl stop go, unfolded cov discard_frame_keeps] by blast
      have "\<forall>k \<le> fr_base g + unat (h_stack_depth hr). k \<le> length (it_stack a) \<longrightarrow> list_all (\<lambda>g. k \<le> fr_base g) (f # pre) \<longrightarrow>
             take k (it_stack b) = take k (it_stack a)"
        using ih(10) by (simp add: take_take_le)
      moreover have "it_stop a \<noteq> Some (length (it_frames a) - i)" if "0 < i" "i \<le> length (f # pre)" for i
        using ih(4) [rule_format, of "i - 1"] that stop Cons by (cases "i = 1") auto
      ultimately show ?thesis using ih Cons None
        by (intro exI [of _ "f # pre"] exI [of _ g] exI [of _ post] exI [of _ hr]) simp
    qed
  qed
qed

text \<open>One that is not is handed out at the boundary or past the last frame.\<close>

lemma unwind_escapes:
  assumes "unwind H exc a = Some (Inl exc', b)"
  shows "exc' = exc \<and> it_stop b = it_stop a \<and> (\<exists>pre. it_frames a = pre @ it_frames b \<and> list_all (\<lambda>g. covering a g = None) pre
    \<and> (it_frames b = [] \<or> it_stop a = Some (length (it_frames b)))
    \<and> (\<forall>i. 0 < i \<longrightarrow> i < length pre \<longrightarrow> it_stop a \<noteq> Some (length (it_frames a) - i))
    \<and> (pre \<noteq> [] \<longrightarrow> (\<forall>k. list_all (\<lambda>g. k \<le> fr_base g) pre \<longrightarrow> k = fr_base (last pre) \<longrightarrow>
         it_stack b = take k (it_stack a))))"
  using assms
proof (induction H exc a rule: unwind.induct)
  case (1 H exc a)
  show ?case
  proof (cases "it_frames a")
    case Nil
    then show ?thesis using "1.prems" by (simp add: unwind.simps)
  next
    case (Cons f fs)
    then have None: "covering a f = None"
      using "1.prems" by (subst (asm) unwind.simps) (auto split: option.splits)
    let ?c = "discard_frame H f fs a"
    show ?thesis
    proof (cases "it_stop a = Some (length fs) \<or> fs = []")
      case True
      then have "b = ?c" "exc' = exc" using "1.prems" unwind_uncovered [OF Cons None, of H exc] by simp_all
      with True Cons None show ?thesis by (auto intro!: exI [of _ "[f]"])
    next
      case False
      then have go: "unwind H exc ?c = Some (Inl exc', b)" using "1.prems" unwind_uncovered [OF Cons None, of H exc] by simp
      have cov: "covering ?c = covering a" by (rule covering_cong) simp_all
      from "1.IH" [OF Cons None refl False go] obtain pre where ih: "exc' = exc" "it_stop b = it_stop a" "fs = pre @ it_frames b"
          "list_all (\<lambda>g. covering a g = None) pre" "it_frames b = [] \<or> it_stop a = Some (length (it_frames b))"
          "\<forall>i. 0 < i \<longrightarrow> i < length pre \<longrightarrow> it_stop a \<noteq> Some (length fs - i)"
          "pre \<noteq> [] \<longrightarrow> (\<forall>k. list_all (\<lambda>g. k \<le> fr_base g) pre \<longrightarrow> k = fr_base (last pre) \<longrightarrow> it_stack b = take k (it_stack ?c))"
        unfolding cov by auto
      have pre: "pre \<noteq> []" using ih(3, 5) False by auto
      have "it_stop a \<noteq> Some (length (it_frames a) - i)" if "0 < i" "i < length (f # pre)" for i
        using ih(6) [rule_format, of "i - 1"] that False Cons by (cases "i = 1") auto
      moreover have "it_stack b = take k (it_stack a)"
        if "list_all (\<lambda>g. k \<le> fr_base g) (f # pre)" "k = fr_base (last (f # pre))" for k
        using ih(7) that pre by (simp add: take_take_le)
      ultimately show ?thesis using ih Cons None pre
        by (intro conjI exI [of _ "f # pre"] impI allI) simp_all
    qed
  qed
qed

section \<open>Every move keeps what lies below\<close>

text \<open>The end of a nested run restores stack and frames.\<close>

lemma nested_run_restores:
  assumes ent: "pushes (length (it_stack a)) a a1 \<and> it_stop a1 = Some (length (it_frames a))"
    and run: "kept (length (it_frames a)) (length (it_stack a)) a1 a2" "length (it_frames a) < length (it_frames a2)"
    and fin: "length (it_frames a2) = Suc (length (it_frames a)) \<and> complete_frame H v a2 = Some (Inr True, a3)
      \<or> unwind H exc a2 = Some (Inl exc', a3)"
  shows "it_stack a3 = it_stack a \<and> map strip (it_frames a3) = map strip (it_frames a)"
proof -
  let ?n = "length (it_frames a)" and ?l = "length (it_stack a)"
  obtain g where g: "it_frames a1 = g # it_frames a" "fr_base g = ?l" and st1: "take ?l (it_stack a1) = it_stack a"
    using ent by (auto simp: pushes_def)
  have st2: "take ?l (it_stack a2) = it_stack a" and stop2: "it_stop a2 = Some ?n"
    and low: "outer ?n (map strip (it_frames a2)) = map strip (it_frames a)"
    and base: "outer (Suc ?n) (map site (it_frames a2)) = (?l, fr_generator g) # map site (it_frames a)"
    using run(1) st1 ent g by (simp_all add: kept_def outer_Cons outer_all site_def)
  from fin show ?thesis
  proof
    assume f: "length (it_frames a2) = Suc ?n \<and> complete_frame H v a2 = Some (Inr True, a3)"
    then obtain fin rest where "it_frames a2 = fin # rest" "it_frames a3 = rest" "it_stack a3 = take (fr_base fin) (it_stack a2)"
      using complete_frame_pops [of H v a2 True a3] by auto
    then show ?thesis using f low base st2 by (simp add: outer_Cons outer_all site_def)
  next
    assume u: "unwind H exc a2 = Some (Inl exc', a3)"
    obtain pre where pre: "it_frames a2 = pre @ it_frames a3" "it_frames a3 = [] \<or> it_stop a2 = Some (length (it_frames a3))"
        "\<forall>i. 0 < i \<longrightarrow> i < length pre \<longrightarrow> it_stop a2 \<noteq> Some (length (it_frames a2) - i)"
        "pre \<noteq> [] \<longrightarrow> (\<forall>k. list_all (\<lambda>g. k \<le> fr_base g) pre \<longrightarrow> k = fr_base (last pre) \<longrightarrow> it_stack a3 = take k (it_stack a2))"
      using unwind_escapes [OF u] by blast
    have len: "length (it_frames a3) = ?n"
    proof (rule ccontr)
      assume ne: "length (it_frames a3) \<noteq> ?n"
      then have a3: "it_frames a3 = []" using pre(2) stop2 by auto
      then have lp: "length pre = length (it_frames a2)" using pre(1) by simp
      moreover have "?n \<noteq> 0" using ne a3 by auto
      ultimately have "length (it_frames a2) - ?n < length pre" using run(2) by linarith
      moreover have "length (it_frames a2) - (length (it_frames a2) - ?n) = ?n" using run(2) by simp
      ultimately show False
        using pre(3) [rule_format, of "length (it_frames a2) - ?n"] run(2) stop2 by simp
    qed
    have ne: "pre \<noteq> []" using run(2) pre(1) len by auto
    have "outer ?n (map strip (it_frames a2)) = map strip (it_frames a3)"
      using pre(1) len by (simp add: outer_def)
    moreover have "outer (Suc ?n) (map site (it_frames a2)) = site (last pre) # map site (it_frames a3)"
      using pre(1) len ne by (cases pre rule: rev_cases) (simp_all add: outer_def)
    moreover have "list_all (\<lambda>g. ?l \<le> fr_base g) pre"
      using run(1) pre(1) len by (simp add: kept_def above_def)
    ultimately show ?thesis using pre(4) ne low base st2 by (simp add: site_def)
  qed
qed

lemma kept_head:
  assumes "above n l a" "it_frames a = f # fs" "n < length (it_frames a)" "it_stop b = it_stop a" "it_frames b = f' # fs"
    "site f' = site f" "it_stack b = it_stack a"
  shows "kept n l a b"
  using assms by (auto simp: kept_def above_def outer_Cons outer_def Suc_diff_le site_def)

lemma kept_write:
  assumes "above n l a" "it_frames b = it_frames a" "it_stop b = it_stop a" "l \<le> i" "it_stack b = (it_stack a)[i := v]"
  shows "kept n l a b"
  by (rule kept_same_frames) (use assms in \<open>auto simp: above_def\<close>)

text \<open>A return or a catch that stays above the level pops frames above it.\<close>

lemma kept_return:
  assumes "above n l a" "complete_frame H v a = Some (Inr False, b)" "n < length (it_frames b)"
  shows "kept n l a b"
proof -
  obtain fin c cs q where f: "it_frames a = fin # c # cs" "it_stop b = it_stop a" "it_frames b = c\<lparr>fr_pc := q\<rparr> # cs"
    and st: "\<And>k. k \<le> fr_base fin \<Longrightarrow> k \<le> fr_base c \<Longrightarrow> k \<le> length (it_stack a) \<Longrightarrow>
      take k (it_stack b) = take k (it_stack a) \<and> k \<le> length (it_stack b)"
    using complete_frame_pops [OF assms(2)] by auto
  have n: "n < length (c # cs)" using assms(3) f by simp
  have "l \<le> fr_base fin" "l \<le> fr_base c" "l \<le> length (it_stack a)"
    using assms(1) f n by (auto simp: above_def Suc_diff_le)
  then have s: "take l (it_stack b) = take l (it_stack a)" "l \<le> length (it_stack b)" using st by auto
  show ?thesis by (rule kept_popped [OF assms(1) f(1) n f(2) s]) (use f n in \<open>auto simp: outer_Cons site_def\<close>)
qed

lemma outer_append: "n \<le> length ys \<Longrightarrow> outer n (xs @ ys) = outer n ys"
  by (simp add: outer_def)

lemma kept_catch:
  assumes "above n l a" "unwind H exc a = Some (Inr (), b)" "n < length (it_frames b)"
  shows "kept n l a b"
proof -
  obtain pre f post and hr :: handler_range where u: "it_frames a = pre @ f # post" "it_frames b = f\<lparr>fr_pc := unat (h_target hr)\<rparr> # post"
      "it_stop b = it_stop a" "length (it_stack b) = fr_base f + unat (fr_max_regs f)"
    and st: "\<forall>k \<le> fr_base f + unat (h_stack_depth hr). k \<le> length (it_stack a) \<longrightarrow> list_all (\<lambda>g. k \<le> fr_base g) pre \<longrightarrow>
         take k (it_stack b) = take k (it_stack a)"
    using unwind_catches [OF assms(2)] by (elim exE conjE) (rule that)
  have n: "n \<le> length post" using assms(3) u by simp
  have l: "list_all (\<lambda>g. l \<le> fr_base g) pre" "l \<le> fr_base f" "list_all (\<lambda>g. l \<le> fr_base g) (take (length post - n) post)"
      "l \<le> length (it_stack a)"
    using assms(1) n by (simp_all add: above_def u(1) Suc_diff_le)
  then have "take l (it_stack b) = take l (it_stack a)" using st by simp
  then show ?thesis using u n l by (simp add: kept_def above_def outer_append outer_Cons Suc_diff_le site_def)
qed

lemma new_environment_frames:
  "new_environment m a = Some b \<Longrightarrow> \<exists>f fs f'. it_frames a = f # fs \<and> it_frames b = f' # fs \<and> site f' = site f
     \<and> it_stack b = it_stack a \<and> it_stop b = it_stop a"
  by (auto simp: new_environment_def Let_def site_def split: list.splits)

lemma pop_environment_frames:
  "pop_environment a = Some b \<Longrightarrow> \<exists>f fs f'. it_frames a = f # fs \<and> it_frames b = f' # fs \<and> site f' = site f
     \<and> it_stack b = it_stack a \<and> it_stop b = it_stop a"
  by (auto simp: pop_environment_def bind_eq_Some_conv site_def split: list.splits option.splits)

lemma leave_inline_keeps:
  "leave_inline s out a = (r, b) \<Longrightarrow> it_stop b = s \<and> it_stack b = it_stack a \<and> it_frames b = it_frames a"
  by (auto simp: leave_inline_def Let_def split: sum.splits)

lemma nested_run_keeps:
  assumes "above n l a" "enter_inline H fn p env func this args a = Some (Inr (), a1)"
    "kept (length (it_frames a)) (length (it_stack a)) a1 a2" "length (it_frames a) < length (it_frames a2)"
    "length (it_frames a2) = Suc (length (it_frames a)) \<and> complete_frame H v a2 = Some (Inr True, a3)
      \<or> unwind H exc a2 = Some (Inl exc', a3)"
    "leave_inline (it_stop a) out a3 = (r, b)"
  shows "kept n l a b"
proof -
  have "it_stack a3 = it_stack a" "map strip (it_frames a3) = map strip (it_frames a)"
    using nested_run_restores [OF enter_inline_pushes [OF assms(2)] assms(3-5)] by simp_all
  then show ?thesis using leave_inline_keeps [OF assms(6)] assms(1)
    by (intro kept_same_frames) (simp_all add: above_def)
qed

lemma enter_inline_above:
  assumes "enter_inline H fn p env func this args a = Some (Inr (), a1)"
  shows "above (length (it_frames a)) (length (it_stack a)) a1" "length (it_frames a) < length (it_frames a1)"
  using enter_inline_pushes [OF assms] by (auto simp: pushes_def above_def)

lemma step_keeps:
  "machine_step H a b \<Longrightarrow> above n l a \<Longrightarrow> n < length (it_frames a) \<Longrightarrow> n < length (it_frames b) \<Longrightarrow> kept n l a b"
  and activity_keeps: "activity H m a b \<Longrightarrow> above m l a \<Longrightarrow> kept m l a b \<and> m < length (it_frames b)"
proof (induction arbitrary: n l and l rule: machine_step_activity.inducts)
  case (Register a f fs r v b)
  then show ?case using above_head [of n l a f fs]
    by (intro kept_write [where i = "fr_base f + unat r" and v = v]) (auto simp: store_reg_def set_at_Some)
next
  case (Goto pc a b)
  then show ?case by (auto simp: set_pc_def site_def split: list.splits intro: kept_head)
next
  case (World a h ps ec fc ss t k)
  then show ?case by (intro kept_same_frames) (simp_all add: above_def)
next
  case (Rebind fs a)
  then show ?case by (intro kept_same_frames) (simp_all add: above_def)
next
  case (Enter_scope m a b)
  then show ?case using new_environment_frames [of m a b] kept_head by blast
next
  case (Leave_scope a b)
  then show ?case using pop_environment_frames [of a b] kept_head by blast
next
  case (Call a f fs callee_reg argc fn p env callee this r b)
  then have l: "l \<le> fr_base f" using above_head by blast
  note c = push_call_cases [OF Call(2)]
  show ?case
  proof (cases r)
    case (Inl e)
    then show ?thesis using c Call.prems l by (intro kept_same_frames) (auto simp: above_def)
  next
    case (Inr u)
    then show ?thesis using c Call.prems l by (intro kept_pushes [where base = "fr_base f + unat (fr_max_regs f)"]) auto
  qed
next
  case (Construct a f fs fn p env callee inst args nt b)
  then have "l \<le> fr_base f" using above_head by blast
  then show ?case using push_construct_pushes [OF Construct(2)] Construct.prems by (intro kept_pushes [where base = "fr_base f + unat (fr_max_regs f)"]) auto
next
  case (Return v a b)
  then show ?case by (intro kept_return)
next
  case (Catch exc a b)
  then show ?case by (intro kept_catch)
next
  case (Inline_returns fn p env func this args a a1 a2 v a3 r b)
  then show ?case
    using nested_run_keeps [OF Inline_returns.prems(1) Inline_returns(1)] enter_inline_above [OF Inline_returns(1)] by blast
next
  case (Inline_throws fn p env func this args a a1 a2 exc exc' a3 r b)
  then show ?case
    using nested_run_keeps [OF Inline_throws.prems(1) Inline_throws(1)] enter_inline_above [OF Inline_throws(1)] by blast
next
  case (activity_start n a)
  then show ?case by (simp add: kept_refl)
next
  case (activity_step n a b c)
  then have "kept n l a b" "n < length (it_frames b)" by auto
  moreover have "above n l b" using calculation by (simp add: kept_def)
  ultimately show ?case using activity_step kept_trans by blast
qed

lemma unwind_panics:
  assumes "unwind H exc a = None"
  shows "\<exists>pre f post hr. it_frames a = pre @ f # post \<and> list_all (\<lambda>g. covering a g = None) pre \<and> covering a f = Some hr
    \<and> unat (fr_max_regs f) \<le> unat (h_stack_depth hr)"
  using assms
proof (induction H exc a rule: unwind.induct)
  case (1 H exc a)
  show ?case
  proof (cases "it_frames a")
    case Nil
    then show ?thesis using "1.prems" by (simp add: unwind.simps)
  next
    case (Cons f fs)
    show ?thesis
    proof (cases "covering a f")
      case (Some hr)
      then have "deliver_exception exc hr f fs a = None" using "1.prems" Cons by (subst (asm) unwind.simps) auto
      then have "unat (fr_max_regs f) \<le> unat (h_stack_depth hr)" by (auto simp: deliver_exception_def Let_def set_at_def split: if_splits)
      then show ?thesis using Some Cons by (intro exI [of _ "[]"] exI [of _ f] exI [of _ fs] exI [of _ hr]) simp
    next
      case None
      let ?c = "discard_frame H f fs a"
      have go: "unwind H exc ?c = None" and stop: "\<not> (it_stop a = Some (length fs) \<or> fs = [])"
        using "1.prems" unwind_uncovered [OF Cons None, of H exc] by (simp_all split: if_splits)
      have cov: "covering ?c = covering a" by (rule covering_cong) simp_all
      obtain pre g post hr where "fs = pre @ g # post" "list_all (\<lambda>g. covering a g = None) pre" "covering a g = Some hr"
          "unat (fr_max_regs g) \<le> unat (h_stack_depth hr)"
        using "1.IH" [OF Cons None refl stop go, unfolded cov discard_frame_keeps] by blast
      with Cons None show ?thesis by (intro exI [of _ "f # pre"] exI [of _ g] exI [of _ post] exI [of _ hr]) simp
    qed
  qed
qed

lemma unwind_stack_escaped:
  assumes "unwind H exc a = Some (Inl e, b)" "it_frames a = pre @ it_frames b" "pre \<noteq> []"
    "list_all (\<lambda>g. fr_base (last pre) \<le> fr_base g) pre"
  shows "it_stack b = take (fr_base (last pre)) (it_stack a)"
proof -
  obtain pre' where "it_frames a = pre' @ it_frames b"
      "pre' \<noteq> [] \<longrightarrow> (\<forall>k. list_all (\<lambda>g. k \<le> fr_base g) pre' \<longrightarrow> k = fr_base (last pre') \<longrightarrow> it_stack b = take k (it_stack a))"
    using unwind_escapes [OF assms(1)] by blast
  then show ?thesis using assms(2-4) by simp
qed

section \<open>Properties\<close>

text \<open>
  C15. A call leaves its caller alone: whatever the callee does, calls, scopes, caught exceptions
  and nested runs included, when it completes the caller's registers are what they were at the
  call, but for the destination of the parked instruction, which holds the result, or the
  instance when a construction returned no object; the caller continues after its call
  instruction, the frames below it are as they were (an inner arrow function may have set an
  \<open>arguments\<close> binding), and the callee's window is gone.
\<close>

theorem call_protects_caller:
  assumes caller: "it_frames a = f # fs" "fr_base f + unat (fr_max_regs f) \<le> length (it_stack a)"
    and call: "push_call H (fr_base f) (fr_max_regs f) callee_reg argc fn p env callee this a = Some (Inr (), a1)"
    and run: "activity H (length (it_frames a)) a1 a2" "length (it_frames a2) = Suc (length (it_frames a))"
    and ret: "complete_frame H v a2 = Some (Inr False, b)"
  shows "\<exists>g fb is_construct dst width. it_frames a2 = hd (it_frames a2) # g # tl (it_frames b) \<and> strip g = strip f
    \<and> function_of a2 (fr_program f) (fr_fn_idx f) = Some fb
    \<and> decode_parked_call (instrs fb) (fr_pc f) = Inr (is_construct, dst, width)
    \<and> hd (it_frames b) = g\<lparr>fr_pc := fr_pc f + width\<rparr> \<and> map strip (tl (it_frames b)) = map strip fs
    \<and> it_stop b = it_stop a
    \<and> (unat dst < unat (fr_max_regs f) \<longrightarrow>
        it_stack b = (take (fr_base f + unat (fr_max_regs f)) (it_stack a))
          [fr_base f + unat dst := construct_result is_construct v (it_stack a2) (fr_base f + unat (fr_max_regs f))])"
proof -
  let ?n = "length (it_frames a)" and ?l = "fr_base f + unat (fr_max_regs f)"
  have pushed: "pushes ?l a a1" "it_stop a1 = it_stop a" using push_call_cases [OF call] by simp_all
  then obtain new where new: "it_frames a1 = new # it_frames a" "fr_base new = ?l" "fr_generator new = None"
      "length (it_stack a1) = ?l + unat (fr_max_regs new)" and st1: "take ?l (it_stack a1) = take ?l (it_stack a)"
    using caller(2) by (auto simp: pushes_def)
  then have "above ?n ?l a1" by (simp add: above_def)
  then have k: "kept ?n ?l a1 a2" using activity_keeps [OF run(1)] by blast
  obtain fin rest where a2: "it_frames a2 = fin # rest" "length rest = ?n" using run(2) by (cases "it_frames a2") auto
  have low: "map strip rest = map strip (f # fs)" and fin: "fr_base fin = ?l" "fr_generator fin = None"
    and st2: "take ?l (it_stack a2) = take ?l (it_stack a)" "?l \<le> length (it_stack a2)" and stop: "it_stop a2 = it_stop a"
    using k new pushed st1 a2 caller(1) by (simp_all add: kept_def above_def outer_Cons outer_all site_def)
  have "it_stop a2 \<noteq> Some (length rest)"
    using ret a2 by (auto simp: complete_frame_def Let_def bind_eq_Some_conv)
  then obtain a' where a': "complete_call fin v a' = (Inr False, b)" "it_frames a' = rest" "it_stack a' = it_stack a2"
      "it_stop a' = it_stop a2" "function_of a' = function_of a2"
    using complete_frame_call [OF ret a2(1) fin(2)] by blast
  obtain g rest' fb is_construct dst width where c: "it_frames a' = g # rest'"
    "function_of a' (fr_program g) (fr_fn_idx g) = Some fb"
    "decode_parked_call (instrs fb) (fr_pc g) = Inr (is_construct, dst, width)"
    "it_frames b = g\<lparr>fr_pc := fr_pc g + width\<rparr> # rest'" "it_stop b = it_stop a'"
    "\<forall>l. fr_base g + unat dst < l \<longrightarrow> fr_base fin = l \<longrightarrow> l \<le> length (it_stack a') \<longrightarrow>
         it_stack b = (take l (it_stack a'))[fr_base g + unat dst := construct_result is_construct v (it_stack a') l]"
    using complete_call_returns [OF a'(1)] by blast
  have g: "strip g = strip f" "map strip rest' = map strip fs" using low c(1) a'(2) by simp_all
  then have same: "fr_program g = fr_program f" "fr_fn_idx g = fr_fn_idx f" "fr_pc g = fr_pc f" "fr_base g = fr_base f"
    by (metis strip_keeps)+
  show ?thesis
    by (intro exI [of _ g] exI [of _ fb] exI [of _ is_construct] exI [of _ dst] exI [of _ width])
      (use c a' a2 g same fin st2 stop in auto)
qed

definition restored :: "('c, 'h) interp \<Rightarrow> ('c, 'h) interp \<Rightarrow> bool" where
  "restored a b \<longleftrightarrow> it_stack b = it_stack a \<and> it_stop b = it_stop a \<and> map strip (it_frames b) = map strip (it_frames a)"

text \<open>
  C17. A nested run, the way accessors and callbacks are called in the middle of an instruction,
  leaves no trace: when it returns or throws, stack, frames and boundary are what they were and
  the value or the exception comes out.
\<close>

theorem nested_call_transparent:
  assumes ent: "enter_inline H fn p env func this args a = Some (Inr (), a1)" and run: "activity H (length (it_frames a)) a1 a2"
  shows "(length (it_frames a2) = Suc (length (it_frames a)) \<and> complete_frame H v a2 = Some (Inr True, a3) \<longrightarrow>
        (\<exists>b. leave_inline (it_stop a) (Inr ()) a3 = (Inr v, b) \<and> restored a b))
    \<and> (unwind H exc a2 = Some (Inl exc', a3) \<longrightarrow>
        (\<exists>b. leave_inline (it_stop a) (Inl (Thrown exc')) a3 = (Inl (Thrown exc), b) \<and> restored a b))"
proof (intro conjI impI)
  have k: "kept (length (it_frames a)) (length (it_stack a)) a1 a2" "length (it_frames a) < length (it_frames a2)"
    using activity_keeps [OF run enter_inline_above(1) [OF ent]] by simp_all
  note returns = nested_run_restores [OF enter_inline_pushes [OF ent] k]
  show "\<exists>b. leave_inline (it_stop a) (Inr ()) a3 = (Inr v, b) \<and> restored a b"
    if c: "length (it_frames a2) = Suc (length (it_frames a)) \<and> complete_frame H v a2 = Some (Inr True, a3)"
  proof -
    from c have "it_stop a2 = Some (length (it_frames a2) - 1)"
      using k(1) enter_inline_pushes [OF ent] by (simp add: kept_def)
    then have "it_top_result a3 = Some v"
      using c by (auto simp: complete_frame_def Let_def bind_eq_Some_conv split: list.splits)
    then show ?thesis
      using returns [OF disjI1 [OF c]] by (simp add: leave_inline_def Let_def restored_def)
  qed
  show "\<exists>b. leave_inline (it_stop a) (Inl (Thrown exc')) a3 = (Inl (Thrown exc), b) \<and> restored a b"
    if u: "unwind H exc a2 = Some (Inl exc', a3)"
  proof -
    from u have "exc' = exc" using unwind_escapes by blast
    then show ?thesis
      using returns [OF disjI2 [OF u]] by (simp add: leave_inline_def Let_def restored_def)
  qed
qed

text \<open>
  C16. An exception is delivered to the nearest frame from within that has a handler over its
  program counter, and a nested run's boundary is not crossed: it lands in the register of the
  handler's depth, the registers below it are as they were, the frame continues at the
  handler's target and the frames inside it are gone. If no frame up to the boundary has one,
  the exception comes out with exactly those frames popped. The machine panics only where that
  handler's depth is outside the register window.
\<close>

theorem unwind_lands_nearest:
  "case unwind H exc a of
     Some (Inr _, b) \<Rightarrow> (\<exists>pre f post hr. it_frames a = pre @ f # post \<and> list_all (\<lambda>g. covering a g = None) pre \<and> covering a f = Some hr
       \<and> (\<forall>i. 0 < i \<longrightarrow> i \<le> length pre \<longrightarrow> it_stop a \<noteq> Some (length (it_frames a) - i))
       \<and> it_frames b = f\<lparr>fr_pc := unat (h_target hr)\<rparr> # post \<and> it_stop b = it_stop a
       \<and> length (it_stack b) = fr_base f + unat (fr_max_regs f) \<and> it_stack b ! (fr_base f + unat (h_stack_depth hr)) = exc
       \<and> (\<forall>k \<le> fr_base f + unat (h_stack_depth hr). k \<le> length (it_stack a) \<longrightarrow> list_all (\<lambda>g. k \<le> fr_base g) pre \<longrightarrow>
            take k (it_stack b) = take k (it_stack a)))
   | Some (Inl e, b) \<Rightarrow> e = exc \<and> it_stop b = it_stop a \<and> (\<exists>pre. it_frames a = pre @ it_frames b
       \<and> list_all (\<lambda>g. covering a g = None) pre \<and> (it_frames b = [] \<or> it_stop a = Some (length (it_frames b)))
       \<and> (\<forall>i. 0 < i \<longrightarrow> i < length pre \<longrightarrow> it_stop a \<noteq> Some (length (it_frames a) - i)))
   | None \<Rightarrow> (\<exists>pre f post hr. it_frames a = pre @ f # post \<and> list_all (\<lambda>g. covering a g = None) pre \<and> covering a f = Some hr
       \<and> unat (fr_max_regs f) \<le> unat (h_stack_depth hr))"
proof (cases "unwind H exc a")
  case None
  then show ?thesis using unwind_panics [OF None] by simp
next
  case (Some res)
  obtain r b where res: "res = (r, b)" by (cases res)
  show ?thesis
  proof (cases r)
    case (Inl e)
    then show ?thesis using Some res unwind_escapes [of H exc a e b] by auto
  next
    case (Inr u)
    then have "unwind H exc a = Some (Inr (), b)" using Some res by simp
    from unwind_catches [OF this] show ?thesis using Some res Inr by (simp, elim exE conjE) (intro exI conjI; assumption)
  qed
qed

section \<open>Scopes\<close>

text \<open>The display of the running frame is the chain it shadows, all of whose environments are live.\<close>

definition display_ok :: "('c, 'h) interp \<Rightarrow> bool" where
  "display_ok a \<longleftrightarrow> (case it_frames a of [] \<Rightarrow> False
     | f # _ \<Rightarrow> env_display_for (it_heap a) (fr_env f) = Some (fr_display f))"

definition chain_live :: "('c, 'h) interp \<Rightarrow> bool" where
  "chain_live a \<longleftrightarrow> space_wf js_obj_default (objects (it_heap a))
     \<and> (\<forall>d e. walk_env a d = Some (Some e) \<longrightarrow> unat e \<in> live (objects (it_heap a)))"

definition walk_from :: "heap \<Rightarrow> nat \<Rightarrow> handle option \<Rightarrow> handle option option" where
  "walk_from h d cur = (case cur of None \<Rightarrow> Some None | Some e \<Rightarrow> walk_links h d e)"

lemma walk_from_simps [simp]:
  "walk_from h d None = Some None" "walk_from h 0 (Some e) = Some (Some e)"
  "walk_from h (Suc d) (Some e) = Option.bind (get_object h e) (\<lambda>ob. walk_from h d (prototype ob))"
  by (cases "get_object h e") (simp_all add: walk_from_def split: option.split)

lemma walk_env_from: "it_frames a = f # fs \<Longrightarrow> walk_env a d = walk_from (it_heap a) d (fr_env f)"
  by (simp add: walk_env_def walk_from_def)

lemma display_walk_nth: "display_walk h n cur = Some d \<Longrightarrow> i < n \<Longrightarrow> length d = n \<and> walk_from h i cur = Some (d ! i)"
proof (induction h n cur arbitrary: d i rule: display_walk.induct)
  case (2 h n)
  then have "d = replicate (Suc n) None" by simp
  then show ?case using "2.prems"(2) by (simp del: replicate_Suc)
next
  case (3 h n e)
  then obtain ob d' where o: "get_object h e = Some ob" "display_walk h n (prototype ob) = Some d'" "d = Some e # d'"
    by (auto simp: bind_eq_Some_conv)
  show ?case
  proof (cases i)
    case 0
    then show ?thesis using o "3.IH" [OF o(1, 2)] by (cases n) auto
  next
    case (Suc j)
    then show ?thesis using o "3.IH" [OF o(1, 2), of j] "3.prems"(2) by simp
  qed
qed simp

lemma display_walk_all:
  "(\<And>i. i < n \<Longrightarrow> walk_from h i cur = Some (d ! i)) \<Longrightarrow> length d = n \<Longrightarrow> (\<And>i e. i < n \<Longrightarrow> walk_from h i cur = Some (Some e) \<Longrightarrow> get_object h e \<noteq> None) \<Longrightarrow>
     display_walk h n cur = Some d"
proof (induction h n cur arbitrary: d rule: display_walk.induct)
  case (2 h n)
  have "d = replicate (Suc n) None" using "2.prems"(1, 2) by (intro nth_equalityI) (simp_all del: replicate_Suc)
  then show ?case by simp
next
  case (3 h n e)
  obtain ob where ob: "get_object h e = Some ob" using "3.prems"(3) [of 0 e] by auto
  obtain c d' where d: "d = c # d'" "length d' = n" using "3.prems"(2) by (cases d) auto
  have "c = Some e" using "3.prems"(1) [of 0] d by simp
  moreover have "display_walk h n (prototype ob) = Some d'"
  proof (rule "3.IH" [OF ob])
    show "walk_from h i (prototype ob) = Some (d' ! i)" if "i < n" for i using "3.prems"(1) [of "Suc i"] that ob d by simp
    show "get_object h e' \<noteq> None" if "i < n" "walk_from h i (prototype ob) = Some (Some e')" for i e'
      using "3.prems"(3) [of "Suc i" e'] that ob by simp
  qed (rule d)
  ultimately show ?case using ob d by simp
qed simp

lemma walk_agrees:
  "walk_from h d cur = Some r \<Longrightarrow> (\<And>i e. i \<le> d \<Longrightarrow> walk_from h i cur = Some (Some e) \<Longrightarrow> get_object h' e = get_object h e) \<Longrightarrow>
     walk_from h' d cur = Some r"
proof (induction d arbitrary: cur)
  case 0
  then show ?case by (cases cur) auto
next
  case (Suc d)
  show ?case
  proof (cases cur)
    case (Some e)
    then obtain ob where ob: "get_object h e = Some ob" "walk_from h d (prototype ob) = Some r"
      using Suc.prems(1) by (auto simp: bind_eq_Some_conv)
    have "walk_from h' d (prototype ob) = Some r"
    proof (rule Suc.IH [OF ob(2)])
      show "get_object h' e' = get_object h e'" if "i \<le> d" "walk_from h i (prototype ob) = Some (Some e')" for i e'
        using Suc.prems(2) [of "Suc i" e'] that Some ob(1) by simp
    qed
    then show ?thesis using Suc.prems(2) [of 0 e] Some ob(1) by simp
  qed (use Suc.prems in simp)
qed

text \<open>The cached lookup answers as the walk does.\<close>

lemma env_at_walks: "display_ok a \<Longrightarrow> env_at a d = walk_env a d"
  using display_walk_nth [of "it_heap a" ENV_DISPLAY_CAP _ _ d]
  by (auto simp: display_ok_def env_at_def env_display_for_def walk_env_from list_get_def split: list.splits)

lemma display_shift_push: "display_shift x d = take (length d) (x # d)"
  by (induction x d rule: display_shift.induct) simp_all

lemma walk_from_snoc:
  "walk_from h (Suc d) cur = Option.bind (walk_from h d cur) (\<lambda>r.
     case r of None \<Rightarrow> Some None | Some e \<Rightarrow> map_option prototype (get_object h e))"
proof (induction d arbitrary: cur)
  case 0
  have "walk_from h 0 x = Some x" for x by (cases x) simp_all
  then show ?case by (cases cur; cases "get_object h (the cur)") simp_all
next
  case (Suc d)
  then show ?case by (cases cur; cases "get_object h (the cur)") simp_all
qed

lemma live_object: "unat e \<in> live (objects h) \<Longrightarrow> get_object h e = Some (slots (objects h) ! unat e)"
  by (simp add: get_object_def slot_get_def live_def)

lemma walk_total:
  assumes "\<And>i e. walk_from h i cur = Some (Some e) \<Longrightarrow> unat e \<in> live (objects h)"
  shows "\<exists>r. walk_from h d cur = Some r"
proof (induction d)
  case 0
  show ?case by (cases cur) simp_all
next
  case (Suc d)
  then obtain r where r: "walk_from h d cur = Some r" ..
  then show ?case using live_object [OF assms [of d]] by (cases r) (simp_all add: walk_from_snoc)
qed

text \<open>A display of the right length that agrees with the walk is the one the frame would build.\<close>

lemma display_for_walk:
  assumes "\<And>i e. walk_from h i cur = Some (Some e) \<Longrightarrow> get_object h e \<noteq> None"
    "\<And>i. i < ENV_DISPLAY_CAP \<Longrightarrow> walk_from h i cur = Some (d ! i)" "length d = ENV_DISPLAY_CAP"
  shows "env_display_for h cur = Some d"
  unfolding env_display_for_def by (rule display_walk_all [OF assms(2, 3) assms(1)])

lemma new_environment_heap:
  assumes "space_wf js_obj_default (objects (it_heap a))" "new_environment m a = Some b" "it_frames a = f # fs"
  shows "\<exists>e. it_frames b = f\<lparr>fr_display := env_display_push (fr_display f) e, fr_env := Some e\<rparr> # fs
    \<and> unat e \<notin> live (objects (it_heap a)) \<and> get_object (it_heap b) e = Some (obj_environment m (fr_env f))
    \<and> (\<forall>e'. unat e' \<in> live (objects (it_heap a)) \<longrightarrow> get_object (it_heap b) e' = get_object (it_heap a) e')"
proof -
  obtain e h where eh: "heap_alloc (it_heap a) (P_Object (obj_environment m (fr_env f))) = Some (e, h)" "it_heap b = h"
    and b: "it_frames b = f\<lparr>fr_display := env_display_push (fr_display f) e, fr_env := Some e\<rparr> # fs"
    using assms(2, 3) by (auto simp: new_environment_def Let_def)
  then obtain st where st: "alloc js_obj_default (obj_environment m (fr_env f)) (objects (it_heap a)) = Some (e, st)"
      "h = (it_heap a)\<lparr>objects := st\<rparr>"
    by (auto simp: heap_alloc_def)
  note f = alloc_facts [OF assms(1) st(1)]
  have "unat e \<notin> live (objects (it_heap a))" using alloc_allocates [OF assms(1) st(1)] by (simp add: allocates_def)
  moreover have "unat e \<in> live (objects h)" using f(2) st(2) by simp
  moreover have "get_object h e' = get_object (it_heap a) e'" if "unat e' \<in> live (objects (it_heap a))" for e'
    using that f(2, 4) st(2) by (subst (1 2) live_object) simp_all
  ultimately show ?thesis using b eh f(3) st(2) by (auto simp: live_object)
qed

text \<open>
  C18. Scopes nest as the environments they create are linked. With the display of the running
  frame in step with the live chain, entering a scope gives a fresh innermost environment and
  puts every other one a hop deeper, through the cache and beyond its eight entries alike;
  leaving it puts every environment back where it was. The cache stays in step throughout.
\<close>

theorem scopes_exact:
  assumes "display_ok a" "chain_live a" "new_environment m a = Some b"
  shows "display_ok b \<and> (\<exists>e. env_at b 0 = Some (Some e) \<and> unat e \<notin> live (objects (it_heap a)))
    \<and> (\<forall>d. env_at b (Suc d) = env_at a d \<and> env_at a d = walk_env a d)
    \<and> (\<exists>c. pop_environment b = Some c \<and> display_ok c \<and> (\<forall>d. env_at c d = env_at a d))"
proof -
  obtain f fs where f: "it_frames a = f # fs" "env_display_for (it_heap a) (fr_env f) = Some (fr_display f)"
    using assms(1) by (auto simp: display_ok_def split: list.splits)
  let ?h = "it_heap a" and ?h' = "it_heap b" and ?env = "fr_env f"
  have wf: "space_wf js_obj_default (objects ?h)" and liv: "\<And>i e. walk_from ?h i ?env = Some (Some e) \<Longrightarrow> unat e \<in> live (objects ?h)"
    using assms(2) f(1) by (auto simp: chain_live_def walk_env_from)
  obtain e where e: "it_frames b = f\<lparr>fr_display := env_display_push (fr_display f) e, fr_env := Some e\<rparr> # fs"
      "unat e \<notin> live (objects ?h)" "get_object ?h' e = Some (obj_environment m ?env)"
    and same: "\<And>e'. unat e' \<in> live (objects ?h) \<Longrightarrow> get_object ?h' e' = get_object ?h e'"
    using new_environment_heap [OF wf assms(3) f(1)] by blast
  have walk: "walk_from ?h' d ?env = walk_from ?h d ?env" for d
  proof -
    obtain r where r: "walk_from ?h d ?env = Some r" using walk_total liv by blast
    then show ?thesis using walk_agrees [OF r, of ?h'] same liv by simp
  qed
  then have step: "walk_from ?h' (Suc d) (Some e) = walk_from ?h d ?env" for d
    using e(3) by (simp add: obj_environment_def)
  have disp: "length (fr_display f) = ENV_DISPLAY_CAP" "i < ENV_DISPLAY_CAP \<Longrightarrow> walk_from ?h i ?env = Some (fr_display f ! i)" for i
    using display_walk_nth [of ?h ENV_DISPLAY_CAP ?env "fr_display f" 0] display_walk_nth [of ?h ENV_DISPLAY_CAP ?env "fr_display f" i] f(2)
    by (simp_all add: env_display_for_def ENV_DISPLAY_CAP_def)
  have there: "get_object ?h' e' \<noteq> None" if "walk_from ?h' i ?env = Some (Some e')" for i e'
    using that walk same [OF liv] live_object [OF liv] by simp
  have "env_display_for ?h' (Some e) = Some (env_display_push (fr_display f) e)"
  proof (rule display_for_walk)
    show "get_object ?h' e' \<noteq> None" if "walk_from ?h' i (Some e) = Some (Some e')" for i e'
      using that e(3) there step walk by (cases i) (simp_all del: walk_from_simps(3))
    show "walk_from ?h' i (Some e) = Some (env_display_push (fr_display f) e ! i)" if "i < ENV_DISPLAY_CAP" for i
      using that disp step by (cases i) (simp_all add: env_display_push_def display_shift_push del: walk_from_simps(3))
  qed (simp add: env_display_push_def display_shift_push disp)
  then have okb: "display_ok b" using e(1) by (simp add: display_ok_def)
  have old: "env_display_for ?h' ?env = Some (fr_display f)"
    by (rule display_for_walk) (use there walk disp in auto)
  let ?c = "b\<lparr>it_frames := f\<lparr>fr_display := fr_display f, fr_env := ?env\<rparr> # fs\<rparr>"
  have pop: "pop_environment b = Some ?c"
    using e old by (simp add: pop_environment_def obj_environment_def)
  have okc: "display_ok ?c" using old by (simp add: display_ok_def)
  show ?thesis
    using okb okc pop env_at_walks [OF assms(1)] env_at_walks [OF okb] env_at_walks [OF okc] step walk e(1, 2) f(1)
    by (auto simp: walk_env_from simp del: walk_from_simps(3))
qed

section \<open>A machine\<close>

text \<open>
  A caller of four registers that calls its register one with one argument, and a callee that
  returns its parameter.
\<close>

definition sample_host :: "unit call_host" where
  "sample_host = \<lparr>on_hot = (\<lambda>_ h. h), rest_array = (\<lambda>_ _. None), arguments_object = (\<lambda>_ _ _ _. None)\<rparr>"

definition sample_caller :: function_bytecode where
  "sample_caller = with_instructions [instr_new Op_Call 0 1 1, instr_new Op_Return 0 0 0] 4"

definition sample_callee :: function_bytecode where
  "sample_callee = (with_instructions [instr_new Op_Return 1 0 0] 2)\<lparr>fixed_params := 1, is_strict := True\<rparr>"

definition sample_frame :: "u32 \<Rightarrow> nat \<Rightarrow> nat \<Rightarrow> u16 \<Rightarrow> frame" where
  "sample_frame f pc base regs =
     \<lparr>fr_fn_idx = f, fr_program = 0, fr_pc = pc, fr_base = base, fr_max_regs = regs, fr_env = None,
      fr_display = replicate ENV_DISPLAY_CAP None, fr_generator = None, fr_yield_dst = None, fr_new_target = None, fr_arguments = None\<rparr>"

definition sample_tiering :: tiering where "sample_tiering = \<lparr>feedback = [], tier_up_pending = []\<rparr>"

definition sample_machine :: "frame list \<Rightarrow> js_value list \<Rightarrow> (unit, unit) interp" where
  "sample_machine fs st =
     \<lparr>it_functions = [sample_caller, sample_callee], it_programs = [], it_heap = heap_new, it_global = None, it_stack = st,
      it_frames = fs, it_eval_contexts = [], it_frame_contexts = [], it_call_args = [], it_stop = None, it_resume_depth = 0,
      it_top_result = None, it_settlements = [], it_tiering = sample_tiering, it_hooks = ()\<rparr>"

definition sample_called :: "(unit, unit) interp" where
  "sample_called = (sample_machine [sample_frame 1 0 4 2, sample_frame 0 0 0 4]
       [js_undefined, js_undefined, js_undefined, js_null, js_undefined, js_null])
     \<lparr>it_call_args := [(4, 3, 1)], it_tiering := note_entry 1 sample_tiering\<rparr>"

lemma sample_call:
  "push_call sample_host 0 4 1 1 1 0 None js_undefined js_undefined
     (sample_machine [sample_frame 0 0 0 4] [js_undefined, js_undefined, js_undefined, js_null]) = Some (Inr (), sample_called)"
  by code_simp

definition sample_back :: "(unit, unit) interp" where
  "sample_back = (sample_machine [sample_frame 0 1 0 4] [js_null, js_undefined, js_undefined, js_null])
     \<lparr>it_tiering := note_entry 1 sample_tiering\<rparr>"

lemma sample_return: "complete_frame sample_host js_null sample_called = Some (Inr False, sample_back)"
  by code_simp

theorem call_protects_caller_witness:
  "\<exists>g fb is_construct dst width. it_frames sample_called = hd (it_frames sample_called) # g # tl (it_frames sample_back)
    \<and> strip g = strip (sample_frame 0 0 0 4)
    \<and> function_of sample_called 0 0 = Some fb \<and> decode_parked_call (instrs fb) 0 = Inr (is_construct, dst, width)
    \<and> hd (it_frames sample_back) = g\<lparr>fr_pc := 0 + width\<rparr> \<and> map strip (tl (it_frames sample_back)) = [] \<and> it_stop sample_back = None
    \<and> (unat dst < 4 \<longrightarrow> it_stack sample_back =
        [js_undefined, js_undefined, js_undefined, js_null][0 + unat dst := construct_result is_construct js_null (it_stack sample_called) 4])"
proof -
  let ?a = "sample_machine [sample_frame 0 0 0 4] [js_undefined, js_undefined, js_undefined, js_null]"
  have a: "it_frames ?a = sample_frame 0 0 0 4 # []" "fr_base (sample_frame 0 0 0 4) + unat (fr_max_regs (sample_frame 0 0 0 4)) \<le> length (it_stack ?a)"
    by (simp_all add: sample_machine_def sample_frame_def)
  have call: "push_call sample_host (fr_base (sample_frame 0 0 0 4)) (fr_max_regs (sample_frame 0 0 0 4)) 1 1 1 0 None js_undefined js_undefined ?a
      = Some (Inr (), sample_called)"
    using sample_call by (simp add: sample_frame_def)
  have up: "length (it_frames sample_called) = Suc (length (it_frames ?a))"
    by (simp add: sample_called_def sample_machine_def)
  have "activity sample_host (length (it_frames ?a)) sample_called sample_called"
    by (rule activity_start) (simp add: up)
  from call_protects_caller [OF a call this up sample_return] show ?thesis
    by (simp add: sample_machine_def sample_frame_def)
qed

definition sample_nested :: "(unit, unit) interp" where
  "sample_nested = (sample_machine [sample_frame 1 0 4 2, sample_frame 0 0 0 4]
       [js_undefined, js_undefined, js_undefined, js_null, js_undefined, js_true])
     \<lparr>it_stop := Some 1, it_resume_depth := 1\<rparr>"

lemma sample_enter:
  "enter_inline sample_host 1 0 None 7 js_undefined [js_true]
     (sample_machine [sample_frame 0 0 0 4] [js_undefined, js_undefined, js_undefined, js_null]) = Some (Inr (), sample_nested)"
  by code_simp

definition sample_left :: "(unit, unit) interp" where
  "sample_left = (sample_machine [sample_frame 0 0 0 4] [js_undefined, js_undefined, js_undefined, js_null])
     \<lparr>it_stop := Some 1, it_resume_depth := 1, it_top_result := Some js_true\<rparr>"

lemma sample_leave: "complete_frame sample_host js_true sample_nested = Some (Inr True, sample_left)"
  by code_simp

theorem nested_call_transparent_witness:
  "\<exists>b. leave_inline None (Inr ()) sample_left = (Inr js_true, b)
     \<and> restored (sample_machine [sample_frame 0 0 0 4] [js_undefined, js_undefined, js_undefined, js_null]) b"
proof -
  let ?a = "sample_machine [sample_frame 0 0 0 4] [js_undefined, js_undefined, js_undefined, js_null]"
  have up: "length (it_frames sample_nested) = Suc (length (it_frames ?a))"
    by (simp add: sample_nested_def sample_machine_def)
  have "activity sample_host (length (it_frames ?a)) sample_nested sample_nested"
    by (rule activity_start) (simp add: up)
  from nested_call_transparent [OF sample_enter this, where v = js_true and ?a3.0 = sample_left] up sample_leave
  show ?thesis by (simp add: sample_machine_def)
qed

definition sample_thrown :: "(unit, unit) interp" where
  "sample_thrown = (sample_machine [sample_frame 1 0 4 2, sample_frame 0 0 0 4]
       [js_null, js_undefined, js_undefined, js_undefined, js_undefined, js_null])
     \<lparr>it_functions := [sample_caller\<lparr>handlers := [\<lparr>h_start = 0, h_end = 1, h_target = 1, h_stack_depth = 1\<rparr>]\<rparr>, sample_callee]\<rparr>"

lemma sample_covering:
  "covering sample_thrown (sample_frame 1 0 4 2) = None"
  "covering sample_thrown (sample_frame 0 0 0 4) = Some \<lparr>h_start = 0, h_end = 1, h_target = 1, h_stack_depth = 1\<rparr>"
  by (simp_all add: covering_def sample_thrown_def sample_machine_def sample_frame_def function_of_def functions_for_program_def
      sample_caller_def sample_callee_def with_instructions_def covering_handler_def covers_pc_def)

theorem unwind_lands_nearest_witness:
  "\<exists>b. unwind sample_host js_true sample_thrown = Some (Inr (), b) \<and> it_stack b ! 1 = js_true \<and> take 1 (it_stack b) = [js_null]"
proof -
  have frames: "it_frames sample_thrown = [sample_frame 1 0 4 2, sample_frame 0 0 0 4]" "it_stop sample_thrown = None"
    by (simp_all add: sample_thrown_def sample_machine_def)
  have split: "pre @ f # post = it_frames sample_thrown \<Longrightarrow> list_all (\<lambda>g. covering sample_thrown g = None) pre \<Longrightarrow>
      covering sample_thrown f = Some hr \<Longrightarrow> pre = [sample_frame 1 0 4 2] \<and> f = sample_frame 0 0 0 4
      \<and> hr = \<lparr>h_start = 0, h_end = 1, h_target = 1, h_stack_depth = 1\<rparr>" for pre f post and hr :: handler_range
    unfolding frames by (auto simp: append_eq_Cons_conv sample_covering)
  note lands = unwind_lands_nearest [where H = sample_host and exc = js_true and a = sample_thrown]
  show ?thesis
  proof (cases "unwind sample_host js_true sample_thrown")
    case None
    with lands obtain pre f post and hr :: handler_range where "pre @ f # post = it_frames sample_thrown"
        "list_all (\<lambda>g. covering sample_thrown g = None) pre" "covering sample_thrown f = Some hr" "unat (fr_max_regs f) \<le> unat (h_stack_depth hr)"
      by auto
    then show ?thesis using split [of pre f post hr] by (simp add: sample_frame_def)
  next
    case (Some res)
    obtain r b where res: "res = (r, b)" by (cases res)
    show ?thesis
    proof (cases r)
      case (Inl e)
      with lands Some res frames have "\<exists>pre. it_frames sample_thrown = pre @ it_frames b \<and> list_all (\<lambda>g. covering sample_thrown g = None) pre \<and> it_frames b = []"
        by auto
      then have "list_all (\<lambda>g. covering sample_thrown g = None) (it_frames sample_thrown)" by auto
      then show ?thesis unfolding frames by (simp add: sample_covering)
    next
      case (Inr u)
      with lands Some res obtain pre f post and hr :: handler_range where l: "pre @ f # post = it_frames sample_thrown"
          "list_all (\<lambda>g. covering sample_thrown g = None) pre" "covering sample_thrown f = Some hr"
          "it_stack b ! (fr_base f + unat (h_stack_depth hr)) = js_true"
          "\<forall>k \<le> fr_base f + unat (h_stack_depth hr). k \<le> length (it_stack sample_thrown) \<longrightarrow> list_all (\<lambda>g. k \<le> fr_base g) pre \<longrightarrow>
            take k (it_stack b) = take k (it_stack sample_thrown)"
        by (simp, elim exE conjE) (rule that; simp)
      from split [OF l(1-3)] l(4) l(5) [rule_format, of 1] Some res Inr show ?thesis
        by (auto simp: sample_frame_def sample_thrown_def sample_machine_def)
    qed
  qed
qed

theorem scopes_exact_witness:
  "\<exists>b. new_environment 2 (sample_machine [sample_frame 0 0 0 4] []) = Some b \<and> display_ok b \<and> env_at b 1 = Some None"
proof -
  let ?a = "sample_machine [sample_frame 0 0 0 4] []"
  have "new_environment 2 ?a \<noteq> None"
    by (simp add: new_environment_def sample_machine_def sample_frame_def heap_alloc_def heap_new_def alloc_def space_new_def
        alloc_loop.simps sweep_step_def Let_def)
  then obtain b where b: "new_environment 2 ?a = Some b" by blast
  have "display_ok ?a" by code_simp
  moreover have "chain_live ?a"
    by (simp add: chain_live_def sample_machine_def sample_frame_def walk_env_def heap_new_def space_wf_def space_new_def dead_def)
  ultimately have "display_ok b \<and> env_at b (Suc 0) = env_at ?a 0" using scopes_exact [of ?a 2 b] b by blast
  moreover have "env_at ?a 0 = Some None"
    by (simp add: env_at_def sample_machine_def sample_frame_def ENV_DISPLAY_CAP_def)
  ultimately show ?thesis using b by auto
qed

section \<open>What the frame operations also do\<close>

text \<open>
  The depth of a handler is not compared with the register window by validation: an exception
  in its range panics the machine.
\<close>

definition deep_handler :: function_bytecode where
  "deep_handler = (with_instructions [instr_new Op_Throw 0 0 0] 1)
     \<lparr>handlers := [\<lparr>h_start = 0, h_end = 1, h_target = 0, h_stack_depth = 5\<rparr>]\<rparr>"

lemma unwind_depth_panics:
  "validate deep_handler = Inr () \<and>
   unwind sample_host exc ((sample_machine [sample_frame 0 0 0 1] [js_null])\<lparr>it_functions := [deep_handler]\<rparr>) = None"
proof
  show "validate deep_handler = Inr ()" by code_simp
  show "unwind sample_host exc ((sample_machine [sample_frame 0 0 0 1] [js_null])\<lparr>it_functions := [deep_handler]\<rparr>) = None"
    by (subst unwind.simps) (simp add: sample_machine_def sample_frame_def covering_def function_of_def functions_for_program_def
      deep_handler_def covering_handler_def covers_pc_def deliver_exception_def set_at_def with_instructions_def)
qed

text \<open>
  Unwinding keeps the record of the actuals of the frames it pops, which completion removes; a
  later frame at the same base that is pushed without one of its own finds it.
\<close>

lemma unwind_keeps_call_args: "unwind H exc a = Some (r, b) \<Longrightarrow> it_call_args b = it_call_args a"
proof (induction H exc a rule: unwind.induct)
  case (1 H exc a)
  show ?case
  proof (cases "it_frames a")
    case Nil
    then show ?thesis using "1.prems" by (simp add: unwind.simps)
  next
    case (Cons f fs)
    show ?thesis
    proof (cases "covering a f")
      case (Some hr)
      then show ?thesis using "1.prems" Cons
        by (subst (asm) unwind.simps) (auto simp: deliver_exception_def Let_def)
    next
      case None
      have "b = discard_frame H f fs a \<or> it_call_args b = it_call_args (discard_frame H f fs a)"
        using "1.prems" "1.IH" [OF Cons None refl] unwind_uncovered [OF Cons None, of H exc] by (auto split: if_splits)
      then show ?thesis by auto
    qed
  qed
qed

text \<open>Actuals at or above the callee's first parameter are sliced from the wrong half of the stack.\<close>

lemma copy_from_above_panics: "dst \<le> src \<Longrightarrow> 0 < n \<Longrightarrow> copy_within dst src n st = None"
  by (simp add: copy_within_def)

end
